(* ===== verification/Prelude.thy ===== *)
theory Prelude
  imports Main "HOL-Library.Word" "HOL-Library.Monad_Syntax"
begin

text \<open>
  Shared vocabulary of the development: pointers, failing runtime assertions, and the
  two shapes of linked list the runtime uses. A pointer is a 64-bit word and \<open>NULL\<close> is 0;
  each structure type of the runtime has its own heap, a total function from pointers to
  records. \<open>lpath\<close> describes a null-terminated list threaded through a link field and
  \<open>squeue\<close> a queue with a sentinel and a tail pointer, the layout of the dataflow task
  lists and of the ready lists.
\<close>

unbundle bit_operations_syntax

named_theorems heap_simps \<open>reading one field of one object after an update of another\<close>
named_theorems queue_intros \<open>how the sentinel queues evolve\<close>

type_synonym ptr = "64 word"

abbreviation NULL :: ptr where "NULL \<equiv> 0"

subsection \<open>Assertions\<close>

text \<open>
  \<open>CILK_ASSERT\<close> of runtime/bug.h calls \<open>__cilkrts_bug\<close>, which ends the process. An
  operation of the runtime returns \<open>None\<close> when it would end the process (or never return)
  and \<open>Some\<close> of its result otherwise.
\<close>

definition cilk_assert :: "bool \<Rightarrow> unit option" where
  "cilk_assert b = (if b then Some () else None)"

lemma cilk_assert_True [simp]: "cilk_assert True = Some ()"
  by (simp add: cilk_assert_def)

lemma cilk_assert_eq_Some [simp]: "cilk_assert b = Some u \<longleftrightarrow> b"
  by (simp add: cilk_assert_def)

lemma cilk_assert_bind_Some [simp]:
  "Option.bind (cilk_assert b) f = Some x \<longleftrightarrow> b \<and> f () = Some x"
  by (simp add: cilk_assert_def)

lemma cilk_assert_bindI [simp]: "b \<Longrightarrow> Option.bind (cilk_assert b) f = f ()"
  by (simp add: cilk_assert_def)

lemma cilk_assert_bind_False [simp]: "\<not> b \<Longrightarrow> Option.bind (cilk_assert b) f = None"
  by (simp add: cilk_assert_def)

subsection \<open>Function updates\<close>

lemma comp_fun_upd [heap_simps]: "f \<circ> (h(a := r)) = (f \<circ> h)(a := f r)"
  by (rule fun_upd_comp)

subsection \<open>Null-terminated lists\<close>

primrec lpath :: "(ptr \<Rightarrow> ptr) \<Rightarrow> ptr \<Rightarrow> ptr list \<Rightarrow> ptr \<Rightarrow> bool" where
  "lpath nx p [] q \<longleftrightarrow> p = q"
| "lpath nx p (x # xs) q \<longleftrightarrow> p = x \<and> x \<noteq> NULL \<and> lpath nx (nx x) xs q"

lemma lpath_append: "lpath nx p (xs @ ys) q \<longleftrightarrow> (\<exists>r. lpath nx p xs r \<and> lpath nx r ys q)"
  by (induction xs arbitrary: p) auto

lemma lpath_upd [simp]: "a \<notin> set xs \<Longrightarrow> lpath (nx(a := b)) p xs q \<longleftrightarrow> lpath nx p xs q"
  by (induction xs arbitrary: p) auto

lemma lpath_cong: "(\<And>x. x \<in> set xs \<Longrightarrow> nx x = nx' x) \<Longrightarrow> lpath nx p xs q \<longleftrightarrow> lpath nx' p xs q"
  by (induction xs arbitrary: p) auto

lemma lpath_not_NULL: "lpath nx p xs q \<Longrightarrow> NULL \<notin> set xs"
  by (induction xs arbitrary: p) auto

lemma lpath_from_NULL [simp]: "lpath nx NULL xs NULL \<longleftrightarrow> xs = []"
  by (cases xs) auto

lemma lpath_nonempty: "lpath nx p xs NULL \<Longrightarrow> p \<noteq> NULL \<Longrightarrow> \<exists>ys. xs = p # ys"
  by (cases xs) auto

lemma lpath_last: "lpath nx p (xs @ [x]) q \<Longrightarrow> nx x = q"
  by (auto simp: lpath_append)

lemma lpath_hd: "lpath nx p xs NULL \<Longrightarrow> p = (if xs = [] then NULL else hd xs)"
  by (cases xs) auto

subsection \<open>Queues with a sentinel\<close>

text \<open>
  \<open>squeue nx s t xs\<close>: from the link of the sentinel \<open>s\<close> the list \<open>xs\<close> runs to \<open>NULL\<close> and
  \<open>t\<close>, the tail pointer, is its last node, or the sentinel when it is empty.
\<close>

definition squeue :: "(ptr \<Rightarrow> ptr) \<Rightarrow> ptr \<Rightarrow> ptr \<Rightarrow> ptr list \<Rightarrow> bool" where
  "squeue nx s t xs \<longleftrightarrow> lpath nx (nx s) xs NULL \<and> distinct (s # xs) \<and> t = last (s # xs)"

lemma squeue_empty [queue_intros]: "nx s = NULL \<Longrightarrow> squeue nx s s []"
  by (simp add: squeue_def)

lemma squeue_head_NULL: "squeue nx s t xs \<Longrightarrow> nx s = NULL \<longleftrightarrow> xs = []"
  by (cases xs) (auto simp: squeue_def)

lemma squeue_hd: "squeue nx s t xs \<Longrightarrow> nx s = (if xs = [] then NULL else hd xs)"
  by (cases xs) (auto simp: squeue_def)

lemma squeue_tail_in: "squeue nx s t xs \<Longrightarrow> t \<in> set (s # xs)"
  by (auto simp: squeue_def)

lemma squeue_cong:
  "squeue nx s t xs \<Longrightarrow> (\<And>x. x \<in> set (s # xs) \<Longrightarrow> nx' x = nx x) \<Longrightarrow> squeue nx' s t xs"
  using lpath_cong [of xs nx' nx "nx s" NULL] by (auto simp: squeue_def)

text \<open>Appending at the tail: clear the node's link, hang it behind the tail, move the tail.\<close>

lemma squeue_enq [queue_intros]:
  assumes "squeue nx s t xs" and "x \<noteq> NULL" and "x \<notin> set (s # xs)"
  shows "squeue (nx(x := NULL, t := x)) s x (xs @ [x])"
proof (cases xs rule: rev_cases)
  case Nil
  with assms show ?thesis by (auto simp: squeue_def)
next
  case (snoc ys y)
  with assms have "lpath nx (nx s) ys y" and "y \<noteq> NULL" and "t = y"
    by (auto simp: squeue_def lpath_append)
  with snoc assms show ?thesis
    by (auto simp: squeue_def lpath_append)
qed

text \<open>Dropping a prefix: the sentinel's link is moved past it.\<close>

lemma squeue_drop [queue_intros]:
  assumes "squeue nx s t (xs @ ys)" and "lpath nx r ys NULL" and "ys \<noteq> []"
  shows "squeue (nx(s := r)) s t ys"
  using assms by (auto simp: squeue_def)

lemma squeue_clear [queue_intros]:
  assumes "squeue nx s t xs"
  shows "squeue (nx(s := NULL)) s s []"
  by (simp add: squeue_def)

lemma squeue_rest:
  assumes "squeue nx s t (xs @ x # ys)"
  shows "lpath nx (nx x) ys NULL"
  using assms by (auto simp: squeue_def lpath_append)

text \<open>Splicing a node out of the middle; the tail pointer stays right only when the node is
  not the last one.\<close>

lemma squeue_splice [queue_intros]:
  assumes "squeue nx s t (xs @ q # x # ys)" and "ys \<noteq> []"
  shows "squeue (nx(q := nx x)) s t (xs @ q # ys)"
  using assms by (auto simp: squeue_def lpath_append)

text \<open>Hanging a whole list behind the tail.\<close>

lemma squeue_concat [queue_intros]:
  assumes q: "squeue nx s t xs" and p: "lpath nx y ys NULL" and "ys \<noteq> []" and "distinct (s # xs @ ys)"
  shows "squeue (nx(t := y)) s (last ys) (xs @ ys)"
proof (cases xs rule: rev_cases)
  case Nil
  with assms show ?thesis by (auto simp: squeue_def)
next
  case (snoc zs z)
  with q have "lpath nx (nx s) zs z" and "z \<noteq> NULL" and "t = z"
    by (auto simp: squeue_def lpath_append)
  with snoc assms show ?thesis by (auto simp: squeue_def lpath_append)
qed

end
