(* ===== verification/Mutexes.thy ===== *)
theory Mutexes
  imports Prelude
begin

text \<open>
  The two mutexes of the runtime, runtime/spin_mutex.c and runtime/worker_mutex.c. Both are
  one word that an atomic exchange sets to 1; the worker mutex also records its owner and
  asserts on it. The blocking operations are atomic acquisitions: \<open>None\<close> on a held mutex
  says that the caller, run alone, keeps spinning. The interleaving of several spinning
  threads is the step relation \<open>spin_step\<close>.
\<close>

subsection \<open>The spin mutex\<close>

record spin_mutex =
  spin_lock :: "32 word"

definition xchg_lock :: "spin_mutex \<Rightarrow> 32 word \<Rightarrow> 32 word \<times> spin_mutex" where
  "xchg_lock m v = (spin_lock m, m\<lparr>spin_lock := v\<rparr>)"

definition spin_mutex_init :: "spin_mutex \<Rightarrow> spin_mutex" where
  "spin_mutex_init m = m\<lparr>spin_lock := 0\<rparr>"

definition spin_mutex_trylock :: "spin_mutex \<Rightarrow> bool \<times> spin_mutex" where
  "spin_mutex_trylock m = (let (old, m') = xchg_lock m 1 in (old = 0, m'))"

definition spin_mutex_unlock :: "spin_mutex \<Rightarrow> spin_mutex" where
  "spin_mutex_unlock m = snd (xchg_lock m 0)"

text \<open>The lock loop as the code has it: one exchange, then rounds of reading until the word is
  0 and exchanging again. Alone, it returns when the mutex is free and spins for ever otherwise.\<close>

partial_function (option) spin_wait :: "spin_mutex \<Rightarrow> nat \<Rightarrow> spin_mutex option" where
  [code]: "spin_wait m count =
     (let count1 = (if count + 1 \<ge> 1000 then 0 else count + 1)
      in if spin_lock m \<noteq> 0 then spin_wait m count1
         else let (ok, m') = spin_mutex_trylock m
              in if ok then Some m' else spin_wait m' count1)"

definition spin_mutex_lock :: "spin_mutex \<Rightarrow> spin_mutex option" where
  "spin_mutex_lock m =
     (let (ok, m') = spin_mutex_trylock m in if ok then Some m' else spin_wait m' 0)"

lemma spin_wait_held:
  assumes "spin_wait m count = Some m'"
  shows "spin_lock m = 0"
proof (rule spin_wait.raw_induct [where P = "\<lambda>m count m'. spin_lock m = 0", OF _ assms])
  fix f m count m'
  assume IH: "\<And>m count m'. f m count = Some m' \<Longrightarrow> spin_lock m = 0"
    and eq: "(let count1 = (if count + 1 \<ge> 1000 then 0 else count + 1)
      in if spin_lock m \<noteq> 0 then f m count1
         else let (ok, m') = spin_mutex_trylock m in if ok then Some m' else f m' count1) = Some m'"
  show "spin_lock m = 0"
  proof (rule ccontr)
    assume "spin_lock m \<noteq> 0"
    with eq have "f m (if count + 1 \<ge> 1000 then 0 else count + 1) = Some m'"
      by (simp add: Let_def)
    then have "spin_lock m = 0" by (rule IH)
    with \<open>spin_lock m \<noteq> 0\<close> show False ..
  qed
qed

lemma spin_mutex_lock_free [simp]:
  "spin_lock m = 0 \<Longrightarrow> spin_mutex_lock m = Some (m\<lparr>spin_lock := 1\<rparr>)"
  by (simp add: spin_mutex_lock_def spin_mutex_trylock_def xchg_lock_def)

lemma spin_mutex_lock_held [simp]: "spin_lock m \<noteq> 0 \<Longrightarrow> spin_mutex_lock m = None"
  using spin_wait_held [of "m\<lparr>spin_lock := 1\<rparr>" 0]
  by (cases "spin_wait (m\<lparr>spin_lock := 1\<rparr>) 0")
    (auto simp: spin_mutex_lock_def spin_mutex_trylock_def xchg_lock_def)

lemma spin_mutex_lock_Some_iff:
  "spin_mutex_lock m = Some m' \<longleftrightarrow> spin_lock m = 0 \<and> m' = m\<lparr>spin_lock := 1\<rparr>"
  by (cases "spin_lock m = 0") auto

lemma spin_mutex_unlock_lock [simp]: "spin_lock (spin_mutex_unlock m) = 0"
  by (simp add: spin_mutex_unlock_def xchg_lock_def)

lemma spin_mutex_init_lock [simp]: "spin_lock (spin_mutex_init m) = 0"
  by (simp add: spin_mutex_init_def)

subsection \<open>The worker mutex\<close>

record mutex =
  mutex_lock_word :: "32 word"
  mutex_owner :: ptr

definition mutex_init :: "mutex \<Rightarrow> mutex" where
  "mutex_init m = m\<lparr>mutex_owner := NULL, mutex_lock_word := 0\<rparr>"

definition mutex_try_acquire :: "mutex \<Rightarrow> bool \<times> mutex" where
  "mutex_try_acquire m = (mutex_lock_word m = 0, m\<lparr>mutex_lock_word := 1\<rparr>)"

partial_function (option) mutex_wait :: "mutex \<Rightarrow> nat \<Rightarrow> mutex option" where
  [code]: "mutex_wait m count =
     (let count1 = (if count + 1 \<ge> 1000 then 0 else count + 1)
      in if mutex_lock_word m \<noteq> 0 then mutex_wait m count1
         else let (ok, m') = mutex_try_acquire m
              in if ok then Some m' else mutex_wait m' count1)"

definition mutex_lock :: "ptr \<Rightarrow> mutex \<Rightarrow> mutex option" where
  "mutex_lock w m =
     do { m1 \<leftarrow> (let (ok, m') = mutex_try_acquire m in if ok then Some m' else mutex_wait m' 0);
          cilk_assert (mutex_owner m1 = NULL);
          Some (m1\<lparr>mutex_owner := w\<rparr>) }"

definition mutex_trylock :: "ptr \<Rightarrow> mutex \<Rightarrow> (bool \<times> mutex) option" where
  "mutex_trylock w m =
     (let (ok, m1) = mutex_try_acquire m
      in if ok then do { cilk_assert (mutex_owner m1 = NULL); Some (True, m1\<lparr>mutex_owner := w\<rparr>) }
         else Some (False, m1))"

definition mutex_unlock :: "ptr \<Rightarrow> mutex \<Rightarrow> mutex option" where
  "mutex_unlock w m =
     do { cilk_assert (mutex_owner m = w);
          Some (m\<lparr>mutex_owner := NULL, mutex_lock_word := 0\<rparr>) }"

lemma mutex_wait_free:
  assumes "mutex_wait m count = Some m'"
  shows "mutex_lock_word m = 0"
proof (rule mutex_wait.raw_induct [where P = "\<lambda>m count m'. mutex_lock_word m = 0", OF _ assms])
  fix f m count m'
  assume IH: "\<And>m count m'. f m count = Some m' \<Longrightarrow> mutex_lock_word m = 0"
    and eq: "(let count1 = (if count + 1 \<ge> 1000 then 0 else count + 1)
      in if mutex_lock_word m \<noteq> 0 then f m count1
         else let (ok, m') = mutex_try_acquire m in if ok then Some m' else f m' count1) = Some m'"
  show "mutex_lock_word m = 0"
  proof (rule ccontr)
    assume "mutex_lock_word m \<noteq> 0"
    with eq have "f m (if count + 1 \<ge> 1000 then 0 else count + 1) = Some m'"
      by (simp add: Let_def)
    then have "mutex_lock_word m = 0" by (rule IH)
    with \<open>mutex_lock_word m \<noteq> 0\<close> show False ..
  qed
qed

lemma mutex_wait_held [simp]: "mutex_lock_word m \<noteq> 0 \<Longrightarrow> mutex_wait m count = None"
  using mutex_wait_free [of m count] by (cases "mutex_wait m count") auto

lemma mutex_lock_Some_iff:
  "mutex_lock w m = Some m' \<longleftrightarrow>
     mutex_lock_word m = 0 \<and> mutex_owner m = NULL \<and>
     m' = m\<lparr>mutex_lock_word := 1, mutex_owner := w\<rparr>"
  by (auto simp: mutex_lock_def mutex_try_acquire_def)

lemma mutex_trylock_Some_iff:
  "mutex_trylock w m = Some r \<longleftrightarrow>
     (if mutex_lock_word m = 0
      then mutex_owner m = NULL \<and> r = (True, m\<lparr>mutex_lock_word := 1, mutex_owner := w\<rparr>)
      else r = (False, m\<lparr>mutex_lock_word := 1\<rparr>))"
  by (auto simp: mutex_trylock_def mutex_try_acquire_def)

lemma mutex_unlock_Some_iff:
  "mutex_unlock w m = Some m' \<longleftrightarrow>
     mutex_owner m = w \<and> m' = m\<lparr>mutex_owner := NULL, mutex_lock_word := 0\<rparr>"
  by (auto simp: mutex_unlock_def)

text \<open>A mutex is consistent when its word says whether it has an owner.\<close>

definition mutex_ok :: "mutex \<Rightarrow> bool" where
  "mutex_ok m \<longleftrightarrow> mutex_lock_word m = (if mutex_owner m = NULL then 0 else 1)"

lemma mutex_ok_init [simp]: "mutex_ok (mutex_init m)"
  by (simp add: mutex_ok_def mutex_init_def)

lemma mutex_ok_lock: "mutex_lock w m = Some m' \<Longrightarrow> w \<noteq> NULL \<Longrightarrow> mutex_ok m'"
  by (auto simp: mutex_lock_Some_iff mutex_ok_def)

lemma mutex_ok_unlock: "mutex_unlock w m = Some m' \<Longrightarrow> mutex_ok m'"
  by (auto simp: mutex_unlock_Some_iff mutex_ok_def)

lemma mutex_lock_total: "mutex_ok m \<Longrightarrow> mutex_owner m = NULL \<Longrightarrow>
    mutex_lock w m = Some (m\<lparr>mutex_lock_word := 1, mutex_owner := w\<rparr>)"
  by (simp add: mutex_lock_Some_iff mutex_ok_def)

lemma mutex_trylock_total:
  "mutex_ok m \<Longrightarrow> mutex_trylock w m =
     (if mutex_owner m = NULL then Some (True, m\<lparr>mutex_lock_word := 1, mutex_owner := w\<rparr>)
      else Some (False, m))"
  by (cases m) (auto simp: mutex_trylock_Some_iff mutex_ok_def)

lemma mutex_trylock_cases:
  assumes "mutex_trylock w m = Some (got, m')" and "mutex_ok m"
  obtains (acquired) "got" "mutex_owner m = NULL"
      "m' = m\<lparr>mutex_lock_word := 1, mutex_owner := w\<rparr>"
  | (busy) "\<not> got" "mutex_owner m \<noteq> NULL" "m' = m"
  using assms by (cases "mutex_owner m = NULL") (auto simp: mutex_trylock_total)

lemma mutex_unlock_total:
  "mutex_unlock (mutex_owner m) m = Some (m\<lparr>mutex_owner := NULL, mutex_lock_word := 0\<rparr>)"
  by (simp add: mutex_unlock_Some_iff)

subsection \<open>The interface of a mutex\<close>

text \<open>
  What the lock users rely on: an acquisition needs the mutex free and leaves it held by the
  caller, a release needs it held by the caller and leaves it free. Both mutexes provide it;
  the spin mutex has no owner field, so any caller counts as its holder.
\<close>

locale mutex_interface =
  fixes lock :: "'w \<Rightarrow> 'm \<Rightarrow> 'm option"
    and unlock :: "'w \<Rightarrow> 'm \<Rightarrow> 'm option"
    and free :: "'m \<Rightarrow> bool"
    and held_by :: "'w \<Rightarrow> 'm \<Rightarrow> bool"
    and client :: "'w \<Rightarrow> bool"
  assumes lock_free: "free m \<Longrightarrow> \<exists>m'. lock w m = Some m'"
    and lock_needs_free: "lock w m = Some m' \<Longrightarrow> free m"
    and lock_holds: "client w \<Longrightarrow> lock w m = Some m' \<Longrightarrow> held_by w m' \<and> \<not> free m'"
    and unlock_held: "held_by w m \<Longrightarrow> \<exists>m'. unlock w m = Some m'"
    and unlock_frees: "unlock w m = Some m' \<Longrightarrow> free m'"
begin

lemma lock_unlock:
  assumes "client w" and "free m"
  shows "\<exists>m' m''. lock w m = Some m' \<and> unlock w m' = Some m'' \<and> free m''"
proof -
  obtain m' where m': "lock w m = Some m'" using lock_free [OF assms(2)] by blast
  then have "held_by w m'" using lock_holds [OF assms(1)] by blast
  then obtain m'' where m'': "unlock w m' = Some m''" using unlock_held by blast
  then have "free m''" by (rule unlock_frees)
  with m' m'' show ?thesis by blast
qed

lemma no_second_lock:
  assumes "client w" and "lock w m = Some m'"
  shows "lock v m' = None"
proof (rule ccontr)
  assume "lock v m' \<noteq> None"
  then obtain m'' where "lock v m' = Some m''" by blast
  then have "free m'" by (rule lock_needs_free)
  with lock_holds [OF assms] show False by blast
qed

end

interpretation spin: mutex_interface "\<lambda>_. spin_mutex_lock" "\<lambda>_ m. Some (spin_mutex_unlock m)"
    "\<lambda>m. spin_lock m = 0" "\<lambda>_ m. spin_lock m \<noteq> 0" "\<lambda>_ :: unit. True"
  by unfold_locales (auto simp: spin_mutex_lock_Some_iff)

interpretation wm: mutex_interface mutex_lock mutex_unlock
    "\<lambda>m. mutex_lock_word m = 0 \<and> mutex_owner m = NULL"
    "\<lambda>w m. mutex_owner m = w \<and> mutex_lock_word m \<noteq> 0" "\<lambda>w. w \<noteq> NULL"
  by unfold_locales (auto simp: mutex_lock_Some_iff mutex_unlock_Some_iff)

end
