(* ===== verification/Worker_Lock.thy ===== *)
theory Worker_Lock
  imports Mutexes
begin

text \<open>
  The locks of a worker (runtime/scheduler.c, \<open>__cilkrts_worker_lock\<close> to
  \<open>worker_unlock_other\<close>) and the protocol between the owner and its thieves as a step
  relation. The owner raises \<open>do_not_steal\<close> before it queues for its own lock; a thief
  competes for \<open>steal_lock\<close>, looks at the flag, and only then tries the lock. The theorems:
  at most one of them is in its critical section, no assertion on an owner can fail, and
  at most one thief overtakes an owner that has raised its flag.
\<close>

record worker_locks =
  worker_magic_0 :: "64 word"
  worker_magic_1 :: "64 word"
  lock :: mutex
  do_not_steal :: int
  steal_lock :: mutex

definition WORKER_MAGIC_0 :: "64 word" where
  "WORKER_MAGIC_0 = 0xe0831a4a940c60b8"

definition WORKER_MAGIC_1 :: "64 word" where
  "WORKER_MAGIC_1 = 0x16164afb0ea0dff9"

definition validate_worker :: "'a worker_locks_scheme \<Rightarrow> unit option" where
  "validate_worker l =
     (if worker_magic_0 l \<noteq> WORKER_MAGIC_0 \<or> worker_magic_1 l \<noteq> WORKER_MAGIC_1
      then None else Some ())"

definition worker_lock :: "ptr \<Rightarrow> 'a worker_locks_scheme \<Rightarrow> 'a worker_locks_scheme option" where
  "worker_lock w l =
     do { validate_worker l;
          cilk_assert (do_not_steal l = 0);
          let l1 = l\<lparr>do_not_steal := 1\<rparr>;
          m \<leftarrow> mutex_lock w (lock l1);
          Some (l1\<lparr>lock := m\<rparr>) }"

definition worker_unlock :: "ptr \<Rightarrow> 'a worker_locks_scheme \<Rightarrow> 'a worker_locks_scheme option" where
  "worker_unlock w l =
     do { m \<leftarrow> mutex_unlock w (lock l);
          let l1 = l\<lparr>lock := m\<rparr>;
          cilk_assert (do_not_steal l1 = 1);
          Some (l1\<lparr>do_not_steal := 0\<rparr>) }"

text \<open>The thief's attempt on the locks \<open>l\<close> of another worker.\<close>

definition worker_trylock_other ::
  "ptr \<Rightarrow> 'a worker_locks_scheme \<Rightarrow> (bool \<times> 'a worker_locks_scheme) option" where
  "worker_trylock_other w l =
     do { validate_worker l;
          (got, sm) \<leftarrow> mutex_trylock w (steal_lock l);
          let l1 = l\<lparr>steal_lock := sm\<rparr>;
          if got then
            do { (status, l2) \<leftarrow>
                   (if do_not_steal l1 \<noteq> 0 then Some (False, l1)
                    else do { (ok, m) \<leftarrow> mutex_trylock w (lock l1); Some (ok, l1\<lparr>lock := m\<rparr>) });
                 sm' \<leftarrow> mutex_unlock w (steal_lock l2);
                 Some (status, l2\<lparr>steal_lock := sm'\<rparr>) }
          else Some (False, l1) }"

definition worker_unlock_other :: "ptr \<Rightarrow> 'a worker_locks_scheme \<Rightarrow> 'a worker_locks_scheme option" where
  "worker_unlock_other w l =
     do { m \<leftarrow> mutex_unlock w (lock l); Some (l\<lparr>lock := m\<rparr>) }"

subsection \<open>Sequential behaviour\<close>

definition worker_locks_ok :: "'a worker_locks_scheme \<Rightarrow> bool" where
  "worker_locks_ok l \<longleftrightarrow>
     worker_magic_0 l = WORKER_MAGIC_0 \<and> worker_magic_1 l = WORKER_MAGIC_1 \<and>
     mutex_ok (lock l) \<and> mutex_ok (steal_lock l)"

lemma validate_worker_ok [simp]: "worker_locks_ok l \<Longrightarrow> validate_worker l = Some ()"
  by (simp add: validate_worker_def worker_locks_ok_def)

lemma worker_lock_unlock:
  assumes "worker_locks_ok l" and "do_not_steal l = 0" and "mutex_owner (lock l) = NULL"
  shows "\<exists>l'. worker_lock w l = Some l' \<and> worker_unlock w l' = Some l"
  using assms
  by (cases l, cases "lock l")
    (auto simp: worker_lock_def worker_unlock_def mutex_lock_total mutex_unlock_Some_iff
      worker_locks_ok_def validate_worker_def mutex_ok_def Let_def bind_eq_Some_conv
      mutex_lock_Some_iff)

lemma worker_trylock_other_iff:
  assumes "worker_locks_ok l" and "mutex_owner (steal_lock l) = NULL" and "w \<noteq> NULL"
  shows "worker_trylock_other w l =
    (if do_not_steal l = 0 \<and> mutex_owner (lock l) = NULL
     then Some (True, l\<lparr>lock := (lock l)\<lparr>mutex_lock_word := 1, mutex_owner := w\<rparr>\<rparr>)
     else Some (False, l))"
  using assms
  by (cases l, cases "steal_lock l")
    (auto simp: worker_trylock_other_def mutex_trylock_total worker_locks_ok_def
      mutex_unlock_def mutex_ok_def Let_def validate_worker_def split: if_splits)

subsection \<open>The owner and its thieves, interleaved\<close>

text \<open>
  One step per shared-memory operation of the owner \<open>v\<close> and of the thieves, any worker other
  than \<open>v\<close>. A failed attempt on \<open>steal_lock\<close> leaves the thief idle, its status 0. \<open>bypass\<close>
  counts the thieves that took the lock since the owner raised its flag.
\<close>

datatype owner_pc = OIdle | OWait | OCrit | ORel
datatype thief_pc = TIdle | TCheck | TTry | TFail | TGot | TCrit

record lock_sys =
  locks :: worker_locks
  opc :: owner_pc
  tpc :: "ptr \<Rightarrow> thief_pc"
  bypass :: nat

definition init_locks :: worker_locks where
  "init_locks =
     \<lparr>worker_magic_0 = WORKER_MAGIC_0, worker_magic_1 = WORKER_MAGIC_1,
      lock = \<lparr>mutex_lock_word = 0, mutex_owner = NULL\<rparr>, do_not_steal = 0,
      steal_lock = \<lparr>mutex_lock_word = 0, mutex_owner = NULL\<rparr>\<rparr>"

definition init_lock_sys :: lock_sys where
  "init_lock_sys = \<lparr>locks = init_locks, opc = OIdle, tpc = (\<lambda>_. TIdle), bypass = 0\<rparr>"

inductive lock_step :: "ptr \<Rightarrow> lock_sys \<Rightarrow> lock_sys \<Rightarrow> bool" for v :: ptr where
  own_flag: "opc s = OIdle \<Longrightarrow>
     lock_step v s (s\<lparr>locks := (locks s)\<lparr>do_not_steal := 1\<rparr>, opc := OWait, bypass := 0\<rparr>)"
| own_lock: "opc s = OWait \<Longrightarrow> mutex_lock v (lock (locks s)) = Some m \<Longrightarrow>
     lock_step v s (s\<lparr>locks := (locks s)\<lparr>lock := m\<rparr>, opc := OCrit\<rparr>)"
| own_unlock: "opc s = OCrit \<Longrightarrow> mutex_unlock v (lock (locks s)) = Some m \<Longrightarrow>
     lock_step v s (s\<lparr>locks := (locks s)\<lparr>lock := m\<rparr>, opc := ORel\<rparr>)"
| own_unflag: "opc s = ORel \<Longrightarrow>
     lock_step v s (s\<lparr>locks := (locks s)\<lparr>do_not_steal := 0\<rparr>, opc := OIdle\<rparr>)"
| thief_compete: "i \<noteq> v \<Longrightarrow> i \<noteq> NULL \<Longrightarrow> tpc s i = TIdle \<Longrightarrow>
     mutex_trylock i (steal_lock (locks s)) = Some (got, m) \<Longrightarrow>
     lock_step v s (s\<lparr>locks := (locks s)\<lparr>steal_lock := m\<rparr>,
                      tpc := (tpc s)(i := if got then TCheck else TIdle)\<rparr>)"
| thief_check: "i \<noteq> v \<Longrightarrow> tpc s i = TCheck \<Longrightarrow>
     lock_step v s (s\<lparr>tpc := (tpc s)(i := if do_not_steal (locks s) \<noteq> 0 then TFail else TTry)\<rparr>)"
| thief_try: "i \<noteq> v \<Longrightarrow> tpc s i = TTry \<Longrightarrow> mutex_trylock i (lock (locks s)) = Some (got, m) \<Longrightarrow>
     lock_step v s (s\<lparr>locks := (locks s)\<lparr>lock := m\<rparr>,
                      tpc := (tpc s)(i := if got then TGot else TFail),
                      bypass := bypass s + (if got \<and> opc s = OWait then 1 else 0)\<rparr>)"
| thief_leave: "i \<noteq> v \<Longrightarrow> tpc s i \<in> {TFail, TGot} \<Longrightarrow>
     mutex_unlock i (steal_lock (locks s)) = Some m \<Longrightarrow>
     lock_step v s (s\<lparr>locks := (locks s)\<lparr>steal_lock := m\<rparr>,
                      tpc := (tpc s)(i := if tpc s i = TGot then TCrit else TIdle)\<rparr>)"
| thief_unlock: "i \<noteq> v \<Longrightarrow> tpc s i = TCrit \<Longrightarrow> mutex_unlock i (lock (locks s)) = Some m \<Longrightarrow>
     lock_step v s (s\<lparr>locks := (locks s)\<lparr>lock := m\<rparr>, tpc := (tpc s)(i := TIdle)\<rparr>)"

inductive lock_reachable :: "ptr \<Rightarrow> lock_sys \<Rightarrow> bool" for v :: ptr where
  lock_init: "lock_reachable v init_lock_sys"
| lock_next: "lock_reachable v s \<Longrightarrow> lock_step v s t \<Longrightarrow> lock_reachable v t"

text \<open>The invariant, part by part: which program points hold which mutex, the flag, and the
  count of overtaking thieves.\<close>

definition in_lock :: "thief_pc \<Rightarrow> bool" where
  "in_lock pc \<longleftrightarrow> pc = TGot \<or> pc = TCrit"

definition in_steal_lock :: "thief_pc \<Rightarrow> bool" where
  "in_steal_lock pc \<longleftrightarrow> pc = TCheck \<or> pc = TTry \<or> pc = TFail \<or> pc = TGot"

lemma in_lock_simps [simp]:
  "\<not> in_lock TIdle" "\<not> in_lock TCheck" "\<not> in_lock TTry" "\<not> in_lock TFail" "in_lock TGot" "in_lock TCrit"
  by (simp_all add: in_lock_def)

lemma in_steal_lock_simps [simp]:
  "\<not> in_steal_lock TIdle" "in_steal_lock TCheck" "in_steal_lock TTry" "in_steal_lock TFail"
  "in_steal_lock TGot" "\<not> in_steal_lock TCrit"
  by (simp_all add: in_steal_lock_def)

definition thieves_inv :: "ptr \<Rightarrow> lock_sys \<Rightarrow> bool" where
  "thieves_inv v s \<longleftrightarrow> tpc s v = TIdle \<and> tpc s NULL = TIdle"

definition lock_inv :: "ptr \<Rightarrow> lock_sys \<Rightarrow> bool" where
  "lock_inv v s \<longleftrightarrow> mutex_ok (lock (locks s)) \<and>
     (opc s = OCrit \<longleftrightarrow> mutex_owner (lock (locks s)) = v) \<and>
     (\<forall>i. i \<noteq> v \<longrightarrow> i \<noteq> NULL \<longrightarrow> in_lock (tpc s i) = (mutex_owner (lock (locks s)) = i))"

definition steal_inv :: "ptr \<Rightarrow> lock_sys \<Rightarrow> bool" where
  "steal_inv v s \<longleftrightarrow> mutex_ok (steal_lock (locks s)) \<and> mutex_owner (steal_lock (locks s)) \<noteq> v \<and>
     (\<forall>i. i \<noteq> NULL \<longrightarrow> in_steal_lock (tpc s i) = (mutex_owner (steal_lock (locks s)) = i))"

definition flag_inv :: "lock_sys \<Rightarrow> bool" where
  "flag_inv s \<longleftrightarrow> do_not_steal (locks s) = (if opc s = OIdle then 0 else 1)"

definition bypass_inv :: "lock_sys \<Rightarrow> bool" where
  "bypass_inv s \<longleftrightarrow> (opc s = OWait \<longrightarrow>
     bypass s = 0 \<or> bypass s = 1 \<and> (\<forall>i. tpc s i \<noteq> TTry))"

definition lock_sys_inv :: "ptr \<Rightarrow> lock_sys \<Rightarrow> bool" where
  "lock_sys_inv v s \<longleftrightarrow>
     thieves_inv v s \<and> lock_inv v s \<and> steal_inv v s \<and> flag_inv s \<and> bypass_inv s"

lemmas lock_sys_inv_defs =
  lock_sys_inv_def thieves_inv_def lock_inv_def steal_inv_def flag_inv_def bypass_inv_def

lemma lock_sys_inv_init: "v \<noteq> NULL \<Longrightarrow> lock_sys_inv v init_lock_sys"
  by (simp add: lock_sys_inv_defs init_lock_sys_def init_locks_def mutex_ok_def)

lemma thieves_inv_step: "lock_step v s t \<Longrightarrow> thieves_inv v s \<Longrightarrow> thieves_inv v t"
  by (induction rule: lock_step.induct) (auto simp: thieves_inv_def)

lemma thief_not_NULL: "thieves_inv v s \<Longrightarrow> tpc s i \<noteq> TIdle \<Longrightarrow> i \<noteq> NULL \<and> i \<noteq> v"
  by (auto simp: thieves_inv_def)

lemma lock_inv_at: "lock_inv v s \<Longrightarrow> i \<noteq> v \<Longrightarrow> i \<noteq> NULL \<Longrightarrow>
    (mutex_owner (lock (locks s)) = i) = in_lock (tpc s i)"
  by (simp add: lock_inv_def)

lemma steal_inv_at: "steal_inv v s \<Longrightarrow> i \<noteq> NULL \<Longrightarrow>
    (mutex_owner (steal_lock (locks s)) = i) = in_steal_lock (tpc s i)"
  by (simp add: steal_inv_def)

lemma lock_inv_step:
  "lock_step v s t \<Longrightarrow> v \<noteq> NULL \<Longrightarrow> thieves_inv v s \<Longrightarrow> lock_inv v s \<Longrightarrow> lock_inv v t"
proof (induction rule: lock_step.induct)
  case (own_flag s)
  then show ?case by (simp add: lock_inv_def)
next
  case (own_lock s m)
  then show ?case by (simp add: lock_inv_def mutex_lock_Some_iff mutex_ok_def)
next
  case (own_unlock s m)
  then show ?case by (simp add: lock_inv_def mutex_unlock_Some_iff mutex_ok_def)
next
  case (own_unflag s)
  then show ?case by (simp add: lock_inv_def)
next
  case (thief_compete i s got m)
  with lock_inv_at [OF thief_compete.prems(3), of i] show ?case by (simp add: lock_inv_def)
next
  case (thief_check i s)
  with lock_inv_at [OF thief_check.prems(3), of i] show ?case by (simp add: lock_inv_def)
next
  case (thief_try i s got m)
  from thief_not_NULL [OF thief_try.prems(2), of i] thief_try.hyps(2) have "i \<noteq> NULL" by simp
  from thief_try.prems(3) have "mutex_ok (lock (locks s))" by (simp add: lock_inv_def)
  with thief_try.hyps(3) show ?case
  proof (cases rule: mutex_trylock_cases)
    case acquired
    with thief_try \<open>i \<noteq> NULL\<close> show ?thesis by (auto simp: lock_inv_def mutex_ok_def)
  next
    case busy
    with thief_try lock_inv_at [OF thief_try.prems(3), of i] \<open>i \<noteq> NULL\<close>
    show ?thesis by (auto simp: lock_inv_def)
  qed
next
  case (thief_leave i s m)
  with lock_inv_at [OF thief_leave.prems(3), of i] show ?case by (auto simp: lock_inv_def)
next
  case (thief_unlock i s m)
  from thief_not_NULL [OF thief_unlock.prems(2), of i] thief_unlock.hyps(2) have "i \<noteq> NULL" by simp
  with thief_unlock show ?case
    by (simp add: lock_inv_def mutex_unlock_Some_iff mutex_ok_def)
qed

lemma steal_inv_step:
  "lock_step v s t \<Longrightarrow> v \<noteq> NULL \<Longrightarrow> thieves_inv v s \<Longrightarrow> steal_inv v s \<Longrightarrow> steal_inv v t"
proof (induction rule: lock_step.induct)
  case (thief_compete i s got m)
  from thief_compete.prems(3) have "mutex_ok (steal_lock (locks s))" by (simp add: steal_inv_def)
  with thief_compete.hyps(4) show ?case
  proof (cases rule: mutex_trylock_cases)
    case acquired
    with thief_compete show ?thesis by (auto simp: steal_inv_def mutex_ok_def)
  next
    case busy
    with thief_compete steal_inv_at [OF thief_compete.prems(3), of i]
    show ?thesis by (auto simp: steal_inv_def)
  qed
next
  case (thief_leave i s m)
  from thief_not_NULL [OF thief_leave.prems(2), of i] thief_leave.hyps(2) have "i \<noteq> NULL" by auto
  moreover have "mutex_owner (steal_lock (locks s)) = i"
    and m: "m = (steal_lock (locks s))\<lparr>mutex_owner := NULL, mutex_lock_word := 0\<rparr>"
    using thief_leave.hyps(3) by (simp_all add: mutex_unlock_Some_iff)
  ultimately have "\<not> in_steal_lock (tpc s j)" if "j \<noteq> i" "j \<noteq> NULL" for j
    using that thief_leave.prems(3) by (auto simp: steal_inv_at [symmetric])
  then show ?case
    using \<open>v \<noteq> NULL\<close> by (simp add: steal_inv_def m mutex_ok_def)
next
  case (thief_try i s got m)
  with steal_inv_at [OF thief_try.prems(3), of i] show ?case by (simp add: steal_inv_def)
next
  case (thief_check i s)
  with steal_inv_at [OF thief_check.prems(3), of i] show ?case by (simp add: steal_inv_def)
next
  case (thief_unlock i s m)
  with steal_inv_at [OF thief_unlock.prems(3), of i] show ?case by (simp add: steal_inv_def)
qed (simp_all add: steal_inv_def)

lemma flag_inv_step: "lock_step v s t \<Longrightarrow> flag_inv s \<Longrightarrow> flag_inv t"
  by (induction rule: lock_step.induct) (auto simp: flag_inv_def)

lemma one_in_steal_lock:
  assumes "thieves_inv v s" and "steal_inv v s"
    and "in_steal_lock (tpc s i)" and "in_steal_lock (tpc s j)"
  shows "i = j"
proof -
  from assms(3,4) have "tpc s i \<noteq> TIdle" and "tpc s j \<noteq> TIdle" by auto
  with assms(1) have "i \<noteq> NULL" and "j \<noteq> NULL" using thief_not_NULL by blast+
  with assms(2-4) show ?thesis by (auto simp: steal_inv_def)
qed

lemma bypass_inv_step:
  "lock_step v s t \<Longrightarrow> thieves_inv v s \<Longrightarrow> steal_inv v s \<Longrightarrow> flag_inv s \<Longrightarrow> bypass_inv s \<Longrightarrow> bypass_inv t"
proof (induction rule: lock_step.induct)
  case (thief_try i s got m)
  have other: "tpc s j \<noteq> TTry" if "j \<noteq> i" for j
    using one_in_steal_lock [OF thief_try.prems(1,2), of i j] that thief_try.hyps(2) by auto
  have "bypass s = 0" if "opc s = OWait"
    using thief_try.prems(4) thief_try.hyps(2) that by (auto simp: bypass_inv_def)
  with other show ?case by (cases got) (auto simp: bypass_inv_def)
qed (auto simp: bypass_inv_def flag_inv_def)

lemma lock_step_inv:
  "lock_step v s t \<Longrightarrow> v \<noteq> NULL \<Longrightarrow> lock_sys_inv v s \<Longrightarrow> lock_sys_inv v t"
  unfolding lock_sys_inv_def
  by (blast intro: thieves_inv_step lock_inv_step steal_inv_step flag_inv_step bypass_inv_step)

lemma lock_reachable_inv: "lock_reachable v s \<Longrightarrow> v \<noteq> NULL \<Longrightarrow> lock_sys_inv v s"
  by (induction rule: lock_reachable.induct) (blast intro: lock_sys_inv_init lock_step_inv)+

subsection \<open>Properties\<close>

text \<open>An example: the thief 2 takes the lock of worker 1, which then starts to wait for it.\<close>

definition lock_demo :: lock_sys where
  "lock_demo = \<lparr>locks = init_locks\<lparr>lock := \<lparr>mutex_lock_word = 1, mutex_owner = 2\<rparr>, do_not_steal := 1\<rparr>,
     opc = OWait, tpc = (\<lambda>_. TIdle)(2 := TCrit), bypass = 0\<rparr>"

lemma lock_demo_reachable: "lock_reachable 1 lock_demo"
proof -
  let ?s = "\<lambda>m m' pc. \<lparr>locks = init_locks\<lparr>lock := m, steal_lock := m'\<rparr>, opc = OIdle, tpc = (\<lambda>_. TIdle)(2 := pc), bypass = 0\<rparr>"
  let ?free = "\<lparr>mutex_lock_word = 0, mutex_owner = NULL\<rparr>" and ?held = "\<lparr>mutex_lock_word = 1, mutex_owner = 2\<rparr>"
  have 1: "lock_reachable 1 (?s ?free ?held TCheck)"
    using lock_next [OF lock_init thief_compete, of 2 1 True ?held]
    by (simp add: init_lock_sys_def init_locks_def mutex_trylock_def mutex_try_acquire_def)
  have 2: "lock_reachable 1 (?s ?free ?held TTry)"
    using lock_next [OF 1 thief_check, of 2] by (simp add: init_locks_def)
  have 3: "lock_reachable 1 (?s ?held ?held TGot)"
    using lock_next [OF 2 thief_try, of 2 True ?held]
    by (simp add: init_locks_def mutex_trylock_def mutex_try_acquire_def)
  have 4: "lock_reachable 1 (?s ?held ?free TCrit)"
    using lock_next [OF 3 thief_leave, of 2 ?free] by (simp add: init_locks_def mutex_unlock_def)
  show ?thesis
    using lock_next [OF 4 own_flag] by (simp add: lock_demo_def init_locks_def)
qed

text \<open>C22 (critical_sections_exclusive): Whatever the interleaving of a worker that locks and unlocks itself
  (\<open>worker_lock\<close>) with any number of thieves that try to lock it (\<open>worker_trylock_other\<close>), the
  owner and a thief are never in their critical sections at once, nor are two thieves.\<close>

theorem critical_sections_exclusive:
  assumes "lock_reachable v s" and "v \<noteq> NULL"
  shows "(opc s = OCrit \<longrightarrow> (\<forall>i. tpc s i \<noteq> TCrit \<and> tpc s i \<noteq> TGot)) \<and>
    (\<forall>i j. tpc s i = TCrit \<longrightarrow> tpc s j = TCrit \<longrightarrow> i = j)"
proof -
  have inv: "thieves_inv v s" "lock_inv v s"
    using lock_reachable_inv [OF assms] by (simp_all add: lock_sys_inv_def)
  have owner: "mutex_owner (lock (locks s)) = i \<and> i \<noteq> v" if "in_lock (tpc s i)" for i
  proof -
    from that have "tpc s i \<noteq> TIdle" by auto
    with inv(1) have "i \<noteq> NULL \<and> i \<noteq> v" by (rule thief_not_NULL)
    with that lock_inv_at [OF inv(2), of i] show ?thesis by simp
  qed
  have "opc s = OCrit \<Longrightarrow> mutex_owner (lock (locks s)) = v"
    using inv(2) by (simp add: lock_inv_def)
  with owner show ?thesis by (metis in_lock_simps(5,6))
qed

text \<open>No owner assertion of the mutexes can fail: whoever is about to take a lock finds it
  free with no owner or busy, and whoever is about to release one owns it.\<close>

theorem critical_sections_exclusive_witness:
  "opc lock_demo \<noteq> OCrit \<and> {i. tpc lock_demo i = TCrit} = {2}"
proof -
  have "tpc lock_demo 2 = TCrit" by (simp add: lock_demo_def)
  with critical_sections_exclusive [OF lock_demo_reachable one_neq_zero] show ?thesis by blast
qed

text \<open>In every reachable state the assertions of the mutexes hold where the code
  evaluates them: the owner and a thief unlock only what they own, no attempt finds itself the
  owner already, and the owner's flag is up exactly while it wants or holds the lock.\<close>

theorem lock_assertions_hold:
  assumes "lock_reachable v s" and "v \<noteq> NULL"
  shows "(opc s = OCrit \<longrightarrow> mutex_unlock v (lock (locks s)) \<noteq> None) \<and>
    (tpc s i \<in> {TFail, TGot} \<longrightarrow> mutex_unlock i (steal_lock (locks s)) \<noteq> None) \<and>
    (tpc s i = TCrit \<longrightarrow> mutex_unlock i (lock (locks s)) \<noteq> None) \<and>
    mutex_trylock i (lock (locks s)) \<noteq> None \<and> mutex_trylock i (steal_lock (locks s)) \<noteq> None \<and>
    do_not_steal (locks s) = (if opc s = OIdle then 0 else 1)"
proof -
  have inv: "thieves_inv v s" "lock_inv v s" "steal_inv v s" "flag_inv s"
    using lock_reachable_inv [OF assms] by (simp_all add: lock_sys_inv_def)
  have nz: "i \<noteq> NULL \<and> i \<noteq> v" if "tpc s i \<noteq> TIdle" using inv(1) that by (rule thief_not_NULL)
  have "opc s = OCrit \<longrightarrow> mutex_owner (lock (locks s)) = v"
    using inv(2) by (simp add: lock_inv_def)
  moreover have "tpc s i \<in> {TFail, TGot} \<longrightarrow> mutex_owner (steal_lock (locks s)) = i"
    using nz steal_inv_at [OF inv(3), of i] by auto
  moreover have "tpc s i = TCrit \<longrightarrow> mutex_owner (lock (locks s)) = i"
    using nz lock_inv_at [OF inv(2), of i] by auto
  ultimately show ?thesis
    using inv(2-4)
    by (auto simp: mutex_unlock_def mutex_trylock_total lock_inv_def steal_inv_def flag_inv_def)
qed

theorem lock_assertions_hold_witness:
  "mutex_unlock 2 (lock (locks lock_demo)) \<noteq> None \<and> do_not_steal (locks lock_demo) = 1"
  using lock_assertions_hold [OF lock_demo_reachable, of 2] by (simp add: lock_demo_def)

text \<open>C29 (bounded_bypass): While a worker waits for its own lock at most one thief takes the lock before
  it: the flag it raised turns away every thief that has not tested it yet, and only one thief
  at a time is past the test.\<close>

theorem bounded_bypass:
  assumes "lock_reachable v s" and "v \<noteq> NULL" and "opc s = OWait"
  shows "bypass s \<le> 1"
  using lock_reachable_inv [OF assms(1,2)] assms(3) by (auto simp: lock_sys_inv_def bypass_inv_def)

theorem bounded_bypass_witness: "bypass lock_demo \<le> 1"
  using bounded_bypass [OF lock_demo_reachable] by (simp add: lock_demo_def)

end
