(* ===== verification/Work_Deque.thy ===== *)
theory Work_Deque
  imports Worker_Lock
begin

text \<open>
  The deque of stack frames of a worker, \<open>l->ltq\<close> with the pointers T, H and E of the THE
  protocol (include/internal/abi.h, runtime/scheduler.c). The slots are addressed by their
  index in the array and \<open>EXC_INFINITY\<close> is \<open>None\<close>. The operations here are the sequential
  pieces each party runs; theory THE_Protocol interleaves them. Run one at a time they are
  those of a double-ended queue, stated as a locale and interpreted here.
\<close>

record work_deque = worker_locks +
  wtail :: int
  whead :: int
  exc :: "int option"
  protected_tail :: int
  ltq_limit :: int
  ltq :: "int \<Rightarrow> ptr"

subsection \<open>The owner\<close>

definition push_tail :: "ptr \<Rightarrow> 'a work_deque_scheme \<Rightarrow> 'a work_deque_scheme" where
  "push_tail sf d = d\<lparr>ltq := (ltq d)(wtail d := sf), wtail := wtail d + 1\<rparr>"

text \<open>The deque part of \<open>__cilkrts_undo_detach\<close>; the answer is true when the parent may have been
  stolen.\<close>

definition lower_tail :: "'a work_deque_scheme \<Rightarrow> 'a work_deque_scheme" where
  "lower_tail d = d\<lparr>wtail := wtail d - 1\<rparr>"

definition tail_below_exc :: "'a work_deque_scheme \<Rightarrow> bool" where
  "tail_below_exc d = (case exc d of None \<Rightarrow> True | Some e \<Rightarrow> wtail d < e)"

definition reset_THE_exception :: "'a work_deque_scheme \<Rightarrow> 'a work_deque_scheme" where
  "reset_THE_exception d = d\<lparr>exc := Some (whead d)\<rparr>"

text \<open>The part of \<open>__cilkrts_c_THE_exception_check\<close> under the worker's lock.\<close>

definition stolen_p :: "'a work_deque_scheme \<Rightarrow> bool" where
  "stolen_p d = (\<not> whead d < wtail d + 1)"

definition exception_check :: "'a work_deque_scheme \<Rightarrow> bool \<times> 'a work_deque_scheme" where
  "exception_check d =
     (let d1 = reset_THE_exception d
      in (stolen_p d1, if stolen_p d1 then d1\<lparr>wtail := wtail d1 + 1\<rparr> else d1))"

definition pop_tail :: "'a work_deque_scheme \<Rightarrow> ptr \<times> 'a work_deque_scheme" where
  "pop_tail d =
     (if whead d < wtail d then (ltq d (wtail d - 1), d\<lparr>wtail := wtail d - 1\<rparr>) else (NULL, d))"

definition simulate_pop_tail :: "'a work_deque_scheme \<Rightarrow> ptr" where
  "simulate_pop_tail d = (if whead d < wtail d then ltq d (wtail d - 1) else NULL)"

definition restore_stealing :: "int \<Rightarrow> 'a work_deque_scheme \<Rightarrow> 'a work_deque_scheme" where
  "restore_stealing saved d = d\<lparr>protected_tail := saved\<rparr>"

text \<open>A null argument means the start of the array.\<close>

definition disallow_stealing :: "int option \<Rightarrow> 'a work_deque_scheme \<Rightarrow> int \<times> 'a work_deque_scheme" where
  "disallow_stealing new_tail d =
     (let n = (case new_tail of None \<Rightarrow> 0 | Some n \<Rightarrow> n)
      in (protected_tail d, if protected_tail d > n then d\<lparr>protected_tail := n\<rparr> else d))"

subsection \<open>A thief\<close>

definition increment_E :: "'a work_deque_scheme \<Rightarrow> 'a work_deque_scheme" where
  "increment_E d = (case exc d of None \<Rightarrow> d | Some e \<Rightarrow> d\<lparr>exc := Some (e + 1)\<rparr>)"

definition decrement_E :: "'a work_deque_scheme \<Rightarrow> 'a work_deque_scheme" where
  "decrement_E d = (case exc d of None \<Rightarrow> d | Some e \<Rightarrow> d\<lparr>exc := Some (e - 1)\<rparr>)"

definition can_steal_from :: "'a work_deque_scheme \<Rightarrow> bool" where
  "can_steal_from d \<longleftrightarrow> whead d < wtail d \<and> whead d < protected_tail d"

definition dekker_protocol :: "'a work_deque_scheme \<Rightarrow> bool \<times> 'a work_deque_scheme" where
  "dekker_protocol d =
     (let d1 = increment_E d
      in if can_steal_from d1 then (True, d1) else (False, decrement_E d1))"

text \<open>The first lines of \<open>detach_for_steal\<close>.\<close>

definition take_head :: "'a work_deque_scheme \<Rightarrow> (ptr \<times> 'a work_deque_scheme) option" where
  "take_head d =
     do { cilk_assert (ltq d (whead d) \<noteq> NULL);
          Some (ltq d (whead d), d\<lparr>whead := whead d + 1\<rparr>) }"

definition steal_head :: "'a work_deque_scheme \<Rightarrow> (ptr \<times> 'a work_deque_scheme) option" where
  "steal_head d =
     (case dekker_protocol d of
        (False, d1) \<Rightarrow> Some (NULL, d1)
      | (True, d1) \<Rightarrow> take_head d1)"

lemmas deque_defs = push_tail_def lower_tail_def tail_below_exc_def reset_THE_exception_def stolen_p_def
  exception_check_def pop_tail_def restore_stealing_def increment_E_def decrement_E_def can_steal_from_def
  dekker_protocol_def take_head_def steal_head_def

subsection \<open>The interface of a double-ended queue\<close>

locale double_ended_queue =
  fixes ok :: "'s \<Rightarrow> bool"
    and contents :: "'s \<Rightarrow> ptr list"
    and room :: "'s \<Rightarrow> nat"
    and push :: "ptr \<Rightarrow> 's \<Rightarrow> 's"
    and pop :: "'s \<Rightarrow> ptr \<times> 's"
    and steal :: "'s \<Rightarrow> (ptr \<times> 's) option"
  assumes push_contents: "ok s \<Longrightarrow> x \<noteq> NULL \<Longrightarrow> 0 < room s \<Longrightarrow>
      ok (push x s) \<and> contents (push x s) = contents s @ [x] \<and> room s = Suc (room (push x s))"
    and pop_contents: "ok s \<Longrightarrow> contents s = xs @ [x] \<Longrightarrow> \<exists>s'. pop s = (x, s') \<and> ok s' \<and> contents s' = xs"
    and steal_contents: "ok s \<Longrightarrow> contents s = x # xs \<Longrightarrow> \<exists>s'. steal s = Some (x, s') \<and> ok s' \<and> contents s' = xs"
    and pop_empty: "ok s \<Longrightarrow> contents s = [] \<Longrightarrow> pop s = (NULL, s)"
    and steal_empty: "ok s \<Longrightarrow> contents s = [] \<Longrightarrow> steal s = Some (NULL, s)"
begin

lemma push_all: "ok s \<Longrightarrow> length xs \<le> room s \<Longrightarrow> NULL \<notin> set xs \<Longrightarrow> ok (fold push xs s) \<and> contents (fold push xs s) = contents s @ xs"
proof (induction xs arbitrary: s)
  case Nil
  then show ?case by simp
next
  case (Cons x xs)
  from Cons.prems push_contents [of s x] have "ok (push x s)" "contents (push x s) = contents s @ [x]"
    "length xs \<le> room (push x s)" by auto
  with Cons.IH [of "push x s"] Cons.prems(3) show ?case by simp
qed

text \<open>The last frame pushed is the first popped, whatever was stolen meanwhile from the other end.\<close>

lemma pop_after_push: "ok s \<Longrightarrow> x \<noteq> NULL \<Longrightarrow> 0 < room s \<Longrightarrow> \<exists>s'. pop (push x s) = (x, s') \<and> ok s' \<and> contents s' = contents s"
  using push_contents pop_contents by blast

lemma steal_then_pop:
  assumes "ok s" and "contents s = x # xs @ [y]"
  shows "\<exists>s1 s2. steal s = Some (x, s1) \<and> pop s1 = (y, s2) \<and> ok s2 \<and> contents s2 = xs"
proof -
  from steal_contents [OF assms] obtain s1 where "steal s = Some (x, s1)" "ok s1" "contents s1 = xs @ [y]" by blast
  with pop_contents [of s1 xs y] show ?thesis by blast
qed

text \<open>Stealing takes the frames in the order they were pushed.\<close>

fun steals :: "nat \<Rightarrow> 's \<Rightarrow> (ptr list \<times> 's) option" where
  "steals 0 s = Some ([], s)"
| "steals (Suc n) s = do { (x, s1) \<leftarrow> steal s; (xs, s2) \<leftarrow> steals n s1; Some (x # xs, s2) }"

lemma steals_fifo:
  "ok s \<Longrightarrow> contents s = xs @ ys \<Longrightarrow> \<exists>s'. steals (length xs) s = Some (xs, s') \<and> ok s' \<and> contents s' = ys"
proof (induction xs arbitrary: s)
  case Nil
  then show ?case by simp
next
  case (Cons x xs)
  then obtain s1 where "steal s = Some (x, s1)" "ok s1" "contents s1 = xs @ ys"
    using steal_contents [of s x "xs @ ys"] by auto
  with Cons.IH [of s1] show ?case by auto
qed

end

subsection \<open>The worker's deque is one\<close>

definition deque_contents :: "'a work_deque_scheme \<Rightarrow> ptr list" where
  "deque_contents d = map (ltq d) [whead d .. wtail d - 1]"

text \<open>At rest E is H, no frame is protected from thieves and no slot in use is null.\<close>

definition deque_ok :: "'a work_deque_scheme \<Rightarrow> bool" where
  "deque_ok d \<longleftrightarrow> whead d \<le> wtail d \<and> exc d = Some (whead d) \<and>
     wtail d \<le> ltq_limit d \<and> protected_tail d = ltq_limit d \<and>
     NULL \<notin> set (deque_contents d)"

lemma upto_snoc: "i \<le> j \<Longrightarrow> [i .. j] = [i .. j - 1] @ [j]" for i j :: int
  by (rule upto_rec2)

lemma upto_hd: "i \<le> j \<Longrightarrow> [i .. j] = i # [i + 1 .. j]" for i j :: int
  by (rule upto_rec1)

lemma contents_Nil: "deque_contents d = [] \<longleftrightarrow> wtail d \<le> whead d"
  by (auto simp: deque_contents_def)

lemma contents_hd: "whead d < wtail d \<Longrightarrow> deque_contents d = ltq d (whead d) # map (ltq d) [whead d + 1 .. wtail d - 1]"
  by (simp add: deque_contents_def upto_hd)

lemma contents_last: "whead d < wtail d \<Longrightarrow> deque_contents d = map (ltq d) [whead d .. wtail d - 2] @ [ltq d (wtail d - 1)]"
  by (simp add: deque_contents_def upto_snoc)

lemma push_tail_contents: "whead d \<le> wtail d \<Longrightarrow> deque_contents (push_tail x d) = deque_contents d @ [x]"
  by (simp add: deque_contents_def push_tail_def upto_snoc [of "whead d" "wtail d"])

definition deque_room :: "'a work_deque_scheme \<Rightarrow> nat" where
  "deque_room d = nat (ltq_limit d - wtail d)"

interpretation ltq: double_ended_queue deque_ok deque_contents deque_room push_tail pop_tail steal_head
proof unfold_locales
  fix d :: "'a work_deque_scheme" and x
  assume "deque_ok d" "x \<noteq> NULL" "0 < deque_room d"
  then show "deque_ok (push_tail x d) \<and> deque_contents (push_tail x d) = deque_contents d @ [x] \<and>
      deque_room d = Suc (deque_room (push_tail x d))"
    using push_tail_contents [of d x] by (auto simp: deque_ok_def deque_room_def push_tail_def)
next
  fix d :: "'a work_deque_scheme" and x xs
  assume ok: "deque_ok d" and c: "deque_contents d = xs @ [x]"
  then have lt: "whead d < wtail d" using contents_Nil [of d] by auto
  with c contents_last [OF lt] have "x = ltq d (wtail d - 1)" "xs = map (ltq d) [whead d .. wtail d - 2]" by simp_all
  with lt ok show "\<exists>d'. pop_tail d = (x, d') \<and> deque_ok d' \<and> deque_contents d' = xs"
    by (auto simp: pop_tail_def deque_ok_def deque_contents_def)
next
  fix d :: "'a work_deque_scheme" and x xs
  assume ok: "deque_ok d" and c: "deque_contents d = x # xs"
  then have lt: "whead d < wtail d" using contents_Nil [of d] by auto
  with c contents_hd [OF lt] have "x = ltq d (whead d)" "xs = map (ltq d) [whead d + 1 .. wtail d - 1]" by simp_all
  with lt ok c show "\<exists>d'. steal_head d = Some (x, d') \<and> deque_ok d' \<and> deque_contents d' = xs"
    by (auto simp: deque_defs deque_ok_def deque_contents_def)
next
  fix d :: "'a work_deque_scheme"
  assume "deque_ok d" "deque_contents d = []"
  then show "pop_tail d = (NULL, d)" and "steal_head d = Some (NULL, d)"
    using contents_Nil [of d] by (auto simp: deque_defs deque_ok_def)
qed

text \<open>Undoing a detach on a deque at rest wins exactly when a frame is left; the check that
  follows a lost race finds the same answer and puts the tail back when it was stolen.\<close>

lemma undo_detach_alone:
  assumes "deque_ok d"
  shows "tail_below_exc (lower_tail d) \<longleftrightarrow> deque_contents d = []"
    and "exception_check (lower_tail d) = (deque_contents d = [], if deque_contents d = [] then d else lower_tail d)"
  using assms contents_Nil [of d]
  by (cases d; auto simp: deque_ok_def deque_defs Let_def)+

lemma disallow_restore: "restore_stealing (fst (disallow_stealing n d)) (snd (disallow_stealing n d)) = d"
  by (simp add: disallow_stealing_def restore_stealing_def Let_def)

lemma disallow_blocks: "0 \<le> whead d \<Longrightarrow> fst (dekker_protocol (snd (disallow_stealing None d))) = False"
  by (auto simp: disallow_stealing_def deque_defs Let_def split: option.splits)

end
