(* ===== verification/Runtime_State.thy ===== *)
theory Runtime_State
  imports Work_Deque
begin

text \<open>
  The structures of the runtime and the store they live in. One record per C structure, one
  heap per structure type in \<open>rt\<close>. A structure embedded in another one is named by its
  address: the sentinel of a task list (\<open>tasks_head\<close>) is a node of the node heap, and the
  head of a ready list, whose first word overlays the link of a pending frame, is the
  pending frame at the list's own address (\<open>__cilkrts_ready_list\<close> and
  \<open>__cilkrts_pending_frame\<close> both start with that link).

  C \<open>int\<close> counters whose overflow is undefined are \<open>int\<close>; the unsigned fields are words.
  The slots of a worker's deque are addressed by their index in the array \<open>l->ltq\<close>, and the
  exception pointer is \<open>None\<close> when it is \<open>EXC_INFINITY\<close>.
\<close>

subsection \<open>Frames and dataflow nodes\<close>

record pedigree =
  rank :: "64 word"
  parent_node :: ptr

record stack_frame =
  flags :: "32 word"
  call_parent :: ptr
  sf_worker :: ptr
  except_data :: ptr
  sf_sp :: "64 word"
  sf_fp :: "64 word"
  sf_mxcsr :: "32 word"
  sf_reserved :: "16 word"
  sf_pedigree :: pedigree
  df_issue_fn :: ptr
  args_tags :: ptr
  df_issue_child :: ptr
  df_issue_me_ptr :: ptr
  numa_low :: "32 word"
  numa_high :: "32 word"

record pending_frame =
  next_ready_frame :: ptr
  pf_pedigree :: pedigree
  frame_ff :: ptr
  call_fn :: ptr
  pf_args_tags :: ptr
  pf_team :: ptr
  incoming_count :: int
  pf_numa_low :: "32 word"
  pf_numa_high :: "32 word"

record full_frame =
  full_frame_magic_0 :: "64 word"
  ff_lock :: mutex
  join_counter :: int
  is_call_child :: bool
  simulated_stolen :: bool
  parent :: ptr
  left_sibling :: ptr
  right_sibling :: ptr
  rightmost_child :: ptr
  call_stack :: ptr
  children_reducer_map :: ptr
  right_reducer_map :: ptr
  ff_pending_exception :: ptr
  child_pending_exception :: ptr
  right_pending_exception :: ptr
  sync_sp :: "64 word"
  frame_size :: "64 word"
  fiber_self :: ptr
  fiber_child :: ptr
  sync_master :: ptr
  alloc_size :: "64 word"
  full_frame_magic_1 :: "64 word"

record task_list_node =
  it_next :: ptr
  st_task_and_last :: ptr

record obj_metadata =
  oldest_num_tasks :: "64 word"
  youngest_group :: "32 word"
  num_gens :: "32 word"
  tasks_head :: ptr
  tasks_tail :: ptr
  md_mutex :: spin_mutex

subsection \<open>Workers\<close>

datatype worker_type = WORKER_FREE | WORKER_SYSTEM | WORKER_USER

datatype scheduling_fcn = Fcn_none | Fcn_do_sync | Fcn_do_return_from_spawn

record abi_worker = work_deque +
  self :: int
  reducer_map :: ptr
  current_stack_frame :: ptr
  w_pedigree :: pedigree
  ready_list :: ptr

record worker = abi_worker +
  w_frame_ff :: ptr
  next_frame_ff :: ptr
  last_full_frame :: ptr
  team :: ptr
  wtype :: worker_type
  scheduling_fiber :: ptr
  original_pedigree_leaf :: ptr
  rand_seed :: "32 word"
  post_suspend :: scheduling_fcn
  suspended_stack :: ptr
  fiber_to_free :: ptr
  w_pending_exception :: ptr
  steal_failure_count :: "32 word"
  work_stolen :: bool
  signal_node :: ptr
  numa_node :: int
  numa_local_self :: int

record signal_node_t =
  run :: "32 word"
  sem :: nat

datatype record_replay_t = RECORD_REPLAY_NONE | RECORD_LOG | REPLAY_LOG

record global_state =
  system_workers :: int
  max_user_workers :: int
  total_workers :: int
  workers_running :: bool
  stealing_disabled :: bool
  workers :: "int \<Rightarrow> ptr"
  ltqsize :: "64 word"
  force_reduce :: int
  fiber_pool_size :: int
  global_fiber_pool_size :: int
  work_done :: bool
  under_ptool :: bool
  max_stacks :: "32 word"
  stack_size :: "64 word"
  failure_to_allocate_stack :: bool
  record_replay_file_name :: "string option"
  record_or_replay :: record_replay_t
  max_steal_failures :: "32 word"
  P :: int
  Q :: int
  numa_nodes :: nat
  numa_node_threads :: "nat \<Rightarrow> nat"
  numa_node_cum_threads :: "nat \<Rightarrow> nat"
  numa_allocate :: "nat \<Rightarrow> bool"
  numa_P_init :: nat

subsection \<open>The store\<close>

record rt =
  wks :: "ptr \<Rightarrow> worker"
  ffs :: "ptr \<Rightarrow> full_frame"
  sfs :: "ptr \<Rightarrow> stack_frame"
  pfs :: "ptr \<Rightarrow> pending_frame"
  rl_tail :: "ptr \<Rightarrow> ptr"
  nodes :: "ptr \<Rightarrow> task_list_node"
  mds :: "ptr \<Rightarrow> obj_metadata"
  snodes :: "ptr \<Rightarrow> signal_node_t"
  peds :: "ptr \<Rightarrow> pedigree"
  glob :: global_state

definition upd_w :: "ptr \<Rightarrow> (worker \<Rightarrow> worker) \<Rightarrow> rt \<Rightarrow> rt" where
  "upd_w p f s = s\<lparr>wks := (wks s)(p := f (wks s p))\<rparr>"

definition upd_ff :: "ptr \<Rightarrow> (full_frame \<Rightarrow> full_frame) \<Rightarrow> rt \<Rightarrow> rt" where
  "upd_ff p f s = s\<lparr>ffs := (ffs s)(p := f (ffs s p))\<rparr>"

definition upd_sf :: "ptr \<Rightarrow> (stack_frame \<Rightarrow> stack_frame) \<Rightarrow> rt \<Rightarrow> rt" where
  "upd_sf p f s = s\<lparr>sfs := (sfs s)(p := f (sfs s p))\<rparr>"

definition upd_pf :: "ptr \<Rightarrow> (pending_frame \<Rightarrow> pending_frame) \<Rightarrow> rt \<Rightarrow> rt" where
  "upd_pf p f s = s\<lparr>pfs := (pfs s)(p := f (pfs s p))\<rparr>"

definition upd_node :: "ptr \<Rightarrow> (task_list_node \<Rightarrow> task_list_node) \<Rightarrow> rt \<Rightarrow> rt" where
  "upd_node p f s = s\<lparr>nodes := (nodes s)(p := f (nodes s p))\<rparr>"

definition upd_md :: "ptr \<Rightarrow> (obj_metadata \<Rightarrow> obj_metadata) \<Rightarrow> rt \<Rightarrow> rt" where
  "upd_md p f s = s\<lparr>mds := (mds s)(p := f (mds s p))\<rparr>"

definition upd_sn :: "ptr \<Rightarrow> (signal_node_t \<Rightarrow> signal_node_t) \<Rightarrow> rt \<Rightarrow> rt" where
  "upd_sn p f s = s\<lparr>snodes := (snodes s)(p := f (snodes s p))\<rparr>"

definition set_rl_tail :: "ptr \<Rightarrow> ptr \<Rightarrow> rt \<Rightarrow> rt" where
  "set_rl_tail rl t s = s\<lparr>rl_tail := (rl_tail s)(rl := t)\<rparr>"

lemma upd_w_sel [simp]:
  "wks (upd_w p f s) = (wks s)(p := f (wks s p))"
  "ffs (upd_w p f s) = ffs s" "sfs (upd_w p f s) = sfs s" "pfs (upd_w p f s) = pfs s"
  "rl_tail (upd_w p f s) = rl_tail s" "nodes (upd_w p f s) = nodes s" "mds (upd_w p f s) = mds s"
  "snodes (upd_w p f s) = snodes s" "peds (upd_w p f s) = peds s" "glob (upd_w p f s) = glob s"
  by (simp_all add: upd_w_def)

lemma upd_ff_sel [simp]:
  "ffs (upd_ff p f s) = (ffs s)(p := f (ffs s p))"
  "wks (upd_ff p f s) = wks s" "sfs (upd_ff p f s) = sfs s" "pfs (upd_ff p f s) = pfs s"
  "rl_tail (upd_ff p f s) = rl_tail s" "nodes (upd_ff p f s) = nodes s" "mds (upd_ff p f s) = mds s"
  "snodes (upd_ff p f s) = snodes s" "peds (upd_ff p f s) = peds s" "glob (upd_ff p f s) = glob s"
  by (simp_all add: upd_ff_def)

lemma upd_sf_sel [simp]:
  "sfs (upd_sf p f s) = (sfs s)(p := f (sfs s p))"
  "wks (upd_sf p f s) = wks s" "ffs (upd_sf p f s) = ffs s" "pfs (upd_sf p f s) = pfs s"
  "rl_tail (upd_sf p f s) = rl_tail s" "nodes (upd_sf p f s) = nodes s" "mds (upd_sf p f s) = mds s"
  "snodes (upd_sf p f s) = snodes s" "peds (upd_sf p f s) = peds s" "glob (upd_sf p f s) = glob s"
  by (simp_all add: upd_sf_def)

lemma upd_pf_sel [simp]:
  "pfs (upd_pf p f s) = (pfs s)(p := f (pfs s p))"
  "wks (upd_pf p f s) = wks s" "ffs (upd_pf p f s) = ffs s" "sfs (upd_pf p f s) = sfs s"
  "rl_tail (upd_pf p f s) = rl_tail s" "nodes (upd_pf p f s) = nodes s" "mds (upd_pf p f s) = mds s"
  "snodes (upd_pf p f s) = snodes s" "peds (upd_pf p f s) = peds s" "glob (upd_pf p f s) = glob s"
  by (simp_all add: upd_pf_def)

lemma upd_node_sel [simp]:
  "nodes (upd_node p f s) = (nodes s)(p := f (nodes s p))"
  "wks (upd_node p f s) = wks s" "ffs (upd_node p f s) = ffs s" "sfs (upd_node p f s) = sfs s"
  "pfs (upd_node p f s) = pfs s" "rl_tail (upd_node p f s) = rl_tail s" "mds (upd_node p f s) = mds s"
  "snodes (upd_node p f s) = snodes s" "peds (upd_node p f s) = peds s" "glob (upd_node p f s) = glob s"
  by (simp_all add: upd_node_def)

lemma upd_md_sel [simp]:
  "mds (upd_md p f s) = (mds s)(p := f (mds s p))"
  "wks (upd_md p f s) = wks s" "ffs (upd_md p f s) = ffs s" "sfs (upd_md p f s) = sfs s"
  "pfs (upd_md p f s) = pfs s" "rl_tail (upd_md p f s) = rl_tail s" "nodes (upd_md p f s) = nodes s"
  "snodes (upd_md p f s) = snodes s" "peds (upd_md p f s) = peds s" "glob (upd_md p f s) = glob s"
  by (simp_all add: upd_md_def)

lemma upd_sn_sel [simp]:
  "snodes (upd_sn p f s) = (snodes s)(p := f (snodes s p))"
  "wks (upd_sn p f s) = wks s" "ffs (upd_sn p f s) = ffs s" "sfs (upd_sn p f s) = sfs s"
  "pfs (upd_sn p f s) = pfs s" "rl_tail (upd_sn p f s) = rl_tail s" "nodes (upd_sn p f s) = nodes s"
  "mds (upd_sn p f s) = mds s" "peds (upd_sn p f s) = peds s" "glob (upd_sn p f s) = glob s"
  by (simp_all add: upd_sn_def)

lemma set_rl_tail_sel [simp]:
  "rl_tail (set_rl_tail rl t s) = (rl_tail s)(rl := t)"
  "wks (set_rl_tail rl t s) = wks s" "ffs (set_rl_tail rl t s) = ffs s" "sfs (set_rl_tail rl t s) = sfs s"
  "pfs (set_rl_tail rl t s) = pfs s" "nodes (set_rl_tail rl t s) = nodes s" "mds (set_rl_tail rl t s) = mds s"
  "snodes (set_rl_tail rl t s) = snodes s" "peds (set_rl_tail rl t s) = peds s" "glob (set_rl_tail rl t s) = glob s"
  by (simp_all add: set_rl_tail_def)

subsection \<open>Locking inside the store\<close>

definition lock_w :: "ptr \<Rightarrow> rt \<Rightarrow> rt option" where
  "lock_w w s = map_option (\<lambda>l. s\<lparr>wks := (wks s)(w := l)\<rparr>) (worker_lock w (wks s w))"

definition unlock_w :: "ptr \<Rightarrow> rt \<Rightarrow> rt option" where
  "unlock_w w s = map_option (\<lambda>l. s\<lparr>wks := (wks s)(w := l)\<rparr>) (worker_unlock w (wks s w))"

subsection \<open>Zeroed memory\<close>

text \<open>The store in which every structure is zero, as \<open>calloc\<close> or static storage give it. The
  examples start from it.\<close>

definition pedigree_zero :: pedigree where
  "pedigree_zero = \<lparr>rank = 0, parent_node = NULL\<rparr>"

definition stack_frame_zero :: stack_frame where
  "stack_frame_zero = \<lparr>flags = 0, call_parent = NULL, sf_worker = NULL, except_data = NULL, sf_sp = 0, sf_fp = 0, sf_mxcsr = 0, sf_reserved = 0,
     sf_pedigree = pedigree_zero, df_issue_fn = NULL, args_tags = NULL, df_issue_child = NULL,
     df_issue_me_ptr = NULL, numa_low = 0, numa_high = 0\<rparr>"

definition pending_frame_zero :: pending_frame where
  "pending_frame_zero = \<lparr>next_ready_frame = NULL, pf_pedigree = pedigree_zero, frame_ff = NULL, call_fn = NULL,
     pf_args_tags = NULL, pf_team = NULL, incoming_count = 0, pf_numa_low = 0, pf_numa_high = 0\<rparr>"

definition mutex_zero :: mutex where
  "mutex_zero = \<lparr>mutex_lock_word = 0, mutex_owner = NULL\<rparr>"

definition full_frame_zero :: full_frame where
  "full_frame_zero = \<lparr>full_frame_magic_0 = 0, ff_lock = mutex_zero, join_counter = 0, is_call_child = False,
     simulated_stolen = False, parent = NULL, left_sibling = NULL, right_sibling = NULL, rightmost_child = NULL,
     call_stack = NULL, children_reducer_map = NULL, right_reducer_map = NULL, ff_pending_exception = NULL,
     child_pending_exception = NULL, right_pending_exception = NULL, sync_sp = 0, frame_size = 0,
     fiber_self = NULL, fiber_child = NULL, sync_master = NULL, alloc_size = 0, full_frame_magic_1 = 0\<rparr>"

definition obj_metadata_zero :: "ptr \<Rightarrow> obj_metadata" where
  "obj_metadata_zero h = \<lparr>oldest_num_tasks = 0, youngest_group = 0, num_gens = 0, tasks_head = h,
     tasks_tail = NULL, md_mutex = \<lparr>spin_lock = 0\<rparr>\<rparr>"

definition worker_zero :: worker where
  "worker_zero = \<lparr>worker_magic_0 = 0, worker_magic_1 = 0, lock = mutex_zero, do_not_steal = 0, steal_lock = mutex_zero,
     wtail = 0, whead = 0, exc = Some 0, protected_tail = 0, ltq_limit = 0, ltq = (\<lambda>_. NULL), self = 0,
     reducer_map = NULL, current_stack_frame = NULL, w_pedigree = pedigree_zero, ready_list = NULL,
     w_frame_ff = NULL, next_frame_ff = NULL, last_full_frame = NULL, team = NULL, wtype = WORKER_FREE, scheduling_fiber = NULL,
     original_pedigree_leaf = NULL, rand_seed = 0, post_suspend = Fcn_none, suspended_stack = NULL,
     fiber_to_free = NULL, w_pending_exception = NULL, steal_failure_count = 0, work_stolen = False,
     signal_node = NULL, numa_node = 0, numa_local_self = 0\<rparr>"

definition global_state_zero :: global_state where
  "global_state_zero = \<lparr>system_workers = 0, max_user_workers = 0, total_workers = 0, workers_running = False,
     stealing_disabled = False, workers = (\<lambda>_. NULL), ltqsize = 0, force_reduce = 0, fiber_pool_size = 0,
     global_fiber_pool_size = 0, work_done = False, under_ptool = False, max_stacks = 0, stack_size = 0,
     failure_to_allocate_stack = False, record_replay_file_name = None,
     record_or_replay = RECORD_REPLAY_NONE, max_steal_failures = 0, P = 0, Q = 0, numa_nodes = 0,
     numa_node_threads = (\<lambda>_. 0), numa_node_cum_threads = (\<lambda>_. 0), numa_allocate = (\<lambda>_. False), numa_P_init = 0\<rparr>"

definition rt_zero :: rt where
  "rt_zero = \<lparr>wks = (\<lambda>_. worker_zero), ffs = (\<lambda>_. full_frame_zero), sfs = (\<lambda>_. stack_frame_zero),
     pfs = (\<lambda>_. pending_frame_zero), rl_tail = (\<lambda>_. NULL),
     nodes = (\<lambda>_. \<lparr>it_next = NULL, st_task_and_last = NULL\<rparr>),
     mds = (\<lambda>p. obj_metadata_zero (p + 16)), snodes = (\<lambda>_. \<lparr>run = 0, sem = 0\<rparr>), peds = (\<lambda>_. pedigree_zero),
     glob = global_state_zero\<rparr>"

lemmas zero_defs = pedigree_zero_def stack_frame_zero_def pending_frame_zero_def mutex_zero_def
  full_frame_zero_def obj_metadata_zero_def worker_zero_def global_state_zero_def rt_zero_def

end
