(* ===== verification/Ready_List.thy ===== *)
theory Ready_List
  imports Runtime_State
begin

text \<open>
  Ready lists of pending frames (runtime/dataflow_impl.c, runtime/scheduler.c): pushing a
  task whose dependences are resolved, moving the list built by a release to a worker, and
  taking the first task whose NUMA range admits the thief. The queue discipline is the
  locale \<open>fifo_queue\<close>, which the ready list provides here and the task list of a dataflow
  object provides in theory Dataflow.
\<close>

subsection \<open>The queue interface\<close>

locale fifo_queue =
  fixes sent :: ptr
    and repr :: "'s \<Rightarrow> ptr list \<Rightarrow> bool"
    and enq :: "ptr \<Rightarrow> 's \<Rightarrow> 's"
  assumes repr_enq: "repr s xs \<Longrightarrow> x \<noteq> NULL \<Longrightarrow> x \<notin> set (sent # xs) \<Longrightarrow> repr (enq x s) (xs @ [x])"
    and repr_distinct: "repr s xs \<Longrightarrow> distinct (sent # xs)"
begin

lemma repr_enq_all:
  "repr s xs \<Longrightarrow> distinct ys \<Longrightarrow> NULL \<notin> set ys \<Longrightarrow> set ys \<inter> set (sent # xs) = {} \<Longrightarrow>
   repr (fold enq ys s) (xs @ ys)"
proof (induction ys arbitrary: s xs)
  case Nil
  then show ?case by simp
next
  case (Cons y ys)
  from Cons.prems have "repr (enq y s) (xs @ [y])" by (intro repr_enq) auto
  with Cons.prems have "repr (fold enq ys (enq y s)) ((xs @ [y]) @ ys)"
    by (intro Cons.IH) auto
  then show ?case by simp
qed

end

subsection \<open>Operations on a ready list\<close>

definition rl_head :: "ptr \<Rightarrow> rt \<Rightarrow> ptr" where
  "rl_head rl s = next_ready_frame (pfs s rl)"

definition rl_init :: "ptr \<Rightarrow> rt \<Rightarrow> rt" where
  "rl_init rl s = set_rl_tail rl rl (upd_pf rl (next_ready_frame_update (\<lambda>_. NULL)) s)"

definition rl_push :: "ptr \<Rightarrow> ptr \<Rightarrow> rt \<Rightarrow> rt" where
  "rl_push rl pf s =
     (let s1 = upd_pf pf (next_ready_frame_update (\<lambda>_. NULL)) s;
          s2 = upd_pf (rl_tail s1 rl) (next_ready_frame_update (\<lambda>_. pf)) s1
      in set_rl_tail rl pf s2)"

definition add_pending_to_ready_list :: "ptr \<Rightarrow> ptr \<Rightarrow> rt \<Rightarrow> rt option" where
  "add_pending_to_ready_list w pf s =
     do { s1 \<leftarrow> lock_w w s;
          unlock_w w (rl_push (ready_list (wks s1 w)) pf s1) }"

definition move_to_ready_list :: "ptr \<Rightarrow> ptr \<Rightarrow> rt \<Rightarrow> rt option" where
  "move_to_ready_list w rlist s =
     (if rl_head rlist s \<noteq> NULL then
        do { s1 \<leftarrow> lock_w w s;
             let wrl = ready_list (wks s1 w);
             let s2 = upd_pf (rl_tail s1 wrl) (next_ready_frame_update (\<lambda>_. rl_head rlist s1)) s1;
             let s3 = set_rl_tail wrl (rl_tail s2 rlist) s2;
             unlock_w w s3 }
      else Some s)"

definition ready_queue :: "ptr \<Rightarrow> rt \<Rightarrow> ptr list \<Rightarrow> bool" where
  "ready_queue rl s xs \<longleftrightarrow> squeue (next_ready_frame \<circ> pfs s) rl (rl_tail s rl) xs"

lemma ready_queue_cong:
  "ready_queue rl s xs \<Longrightarrow> rl_tail s' rl = rl_tail s rl \<Longrightarrow>
   (\<And>x. x \<in> set (rl # xs) \<Longrightarrow> next_ready_frame (pfs s' x) = next_ready_frame (pfs s x)) \<Longrightarrow>
   ready_queue rl s' xs"
  using squeue_cong [of "next_ready_frame \<circ> pfs s" rl "rl_tail s rl" xs "next_ready_frame \<circ> pfs s'"]
  by (simp add: ready_queue_def)

lemma ready_queue_init: "ready_queue rl (rl_init rl s) []"
  by (simp add: ready_queue_def rl_init_def squeue_def)

lemma rl_head_empty: "ready_queue rl s xs \<Longrightarrow> rl_head rl s = NULL \<longleftrightarrow> xs = []"
  using squeue_head_NULL [of "next_ready_frame \<circ> pfs s" rl "rl_tail s rl" xs]
  by (simp add: ready_queue_def rl_head_def)

lemma next_rl_push: "next_ready_frame \<circ> pfs (rl_push rl pf s) =
    (next_ready_frame \<circ> pfs s)(pf := NULL, rl_tail s rl := pf)"
  by (simp add: rl_push_def Let_def heap_simps)

lemma rl_push_sel [simp]:
  "rl_tail (rl_push rl pf s) = (rl_tail s)(rl := pf)" "wks (rl_push rl pf s) = wks s"
  "ffs (rl_push rl pf s) = ffs s" "sfs (rl_push rl pf s) = sfs s" "nodes (rl_push rl pf s) = nodes s"
  "mds (rl_push rl pf s) = mds s" "snodes (rl_push rl pf s) = snodes s"
  "peds (rl_push rl pf s) = peds s" "glob (rl_push rl pf s) = glob s"
  by (simp_all add: rl_push_def Let_def)

lemma incoming_rl_push [simp]: "incoming_count (pfs (rl_push rl pf s) t) = incoming_count (pfs s t)"
  by (simp add: rl_push_def Let_def)

interpretation ready: fifo_queue rl "ready_queue rl" "rl_push rl" for rl
proof
  fix s xs x
  assume "ready_queue rl s xs" and "x \<noteq> NULL" and "x \<notin> set (rl # xs)"
  then show "ready_queue rl (rl_push rl x s) (xs @ [x])"
    using squeue_enq [of "next_ready_frame \<circ> pfs s" rl "rl_tail s rl" xs x]
    by (simp add: ready_queue_def next_rl_push)
next
  fix s xs
  assume "ready_queue rl s xs"
  then show "distinct (rl # xs)" by (simp add: ready_queue_def squeue_def)
qed

lemma ready_queue_push:
  "ready_queue rl s xs \<Longrightarrow> x \<noteq> NULL \<Longrightarrow> x \<notin> set (rl # xs) \<Longrightarrow> ready_queue rl (rl_push rl x s) (xs @ [x])"
  by (rule ready.repr_enq)

lemma ready_queue_push_other:
  assumes "ready_queue rl s xs" and "rl' \<noteq> rl" and "x \<notin> set (rl # xs)" and "rl_tail s rl' \<notin> set (rl # xs)"
  shows "ready_queue rl (rl_push rl' x s) xs"
  using assms by (elim ready_queue_cong) (auto simp: rl_push_def Let_def)

subsection \<open>Pushing and moving, with the worker's lock\<close>

lemma lock_w_Some_iff: "lock_w w s = Some s' \<longleftrightarrow>
    (\<exists>l. worker_lock w (wks s w) = Some l \<and> s' = s\<lparr>wks := (wks s)(w := l)\<rparr>)"
  by (auto simp: lock_w_def)

lemma worker_lock_Some:
  assumes "worker_locks_ok l" and "do_not_steal l = 0" and "mutex_owner (lock l) = NULL"
  shows "worker_lock w l =
    Some (l\<lparr>do_not_steal := 1, lock := (lock l)\<lparr>mutex_lock_word := 1, mutex_owner := w\<rparr>\<rparr>)"
  using assms by (simp add: worker_lock_def mutex_lock_total worker_locks_ok_def validate_worker_def Let_def)

definition worker_free :: "ptr \<Rightarrow> rt \<Rightarrow> bool" where
  "worker_free w s \<longleftrightarrow> worker_locks_ok (wks s w) \<and> do_not_steal (wks s w) = 0 \<and>
     mutex_owner (lock (wks s w)) = NULL"

text \<open>A critical section on the worker's lock that does not touch the locks: take, act, release
  is the action alone.\<close>

lemma with_worker_lock:
  fixes f :: "rt \<Rightarrow> rt"
  assumes free: "worker_free w s"
    and act: "\<And>s1. wks (f s1) = wks s1"
  shows "\<exists>s1 k. lock_w w s = Some s1 \<and> s1 = s\<lparr>wks := k\<rparr> \<and> ready_list (k w) = ready_list (wks s w) \<and>
    unlock_w w (f s1) = Some ((f s1)\<lparr>wks := wks s\<rparr>)"
proof -
  let ?l = "wks s w"
  let ?l1 = "?l\<lparr>do_not_steal := 1, lock := (lock ?l)\<lparr>mutex_lock_word := 1, mutex_owner := w\<rparr>\<rparr>"
  let ?s1 = "s\<lparr>wks := (wks s)(w := ?l1)\<rparr>"
  have l: "worker_lock w ?l = Some ?l1"
    using free by (intro worker_lock_Some) (simp_all add: worker_free_def)
  have "worker_unlock w ?l1 = Some ?l"
    using worker_lock_unlock [of ?l w] free l by (auto simp: worker_free_def)
  then have "unlock_w w (f ?s1) = Some ((f ?s1)\<lparr>wks := wks s\<rparr>)"
    by (simp add: unlock_w_def act)
  with l show ?thesis
    by (intro exI [of _ ?s1] exI [of _ "(wks s)(w := ?l1)"]) (simp add: lock_w_def)
qed

lemma ready_queue_wks [simp]: "ready_queue rl (s\<lparr>wks := k\<rparr>) xs \<longleftrightarrow> ready_queue rl s xs"
  by (simp add: ready_queue_def)

lemma rl_head_wks [simp]: "rl_head rl (s\<lparr>wks := k\<rparr>) = rl_head rl s"
  by (simp add: rl_head_def)

lemma add_pending_queue:
  assumes "worker_free w s" and "ready_queue (ready_list (wks s w)) s xs"
    and "pf \<noteq> NULL" and "pf \<notin> set (ready_list (wks s w) # xs)"
  shows "\<exists>s'. add_pending_to_ready_list w pf s = Some s' \<and>
    ready_queue (ready_list (wks s w)) s' (xs @ [pf]) \<and> wks s' = wks s"
proof -
  let ?f = "\<lambda>s1. rl_push (ready_list (wks s1 w)) pf s1"
  obtain s1 k where s1: "lock_w w s = Some s1" "s1 = s\<lparr>wks := k\<rparr>" "ready_list (k w) = ready_list (wks s w)"
      "unlock_w w (?f s1) = Some ((?f s1)\<lparr>wks := wks s\<rparr>)"
    using with_worker_lock [OF assms(1), of ?f] by auto
  have "ready_queue (ready_list (wks s w)) (?f s1) (xs @ [pf])"
    using assms(2-4) s1(2,3) by (auto intro!: ready_queue_push)
  with s1 show ?thesis by (simp add: add_pending_to_ready_list_def)
qed

lemma move_to_ready_list_queue:
  assumes free: "worker_free w s" and wl: "wl = ready_list (wks s w)"
    and xs: "ready_queue wl s xs" and ys: "ready_queue rl s ys"
    and disj: "distinct (wl # xs @ ys)"
  shows "\<exists>s'. move_to_ready_list w rl s = Some s' \<and> ready_queue wl s' (xs @ ys) \<and> wks s' = wks s"
proof (cases "ys = []")
  case True
  with xs ys show ?thesis
    by (simp add: move_to_ready_list_def rl_head_empty)
next
  case False
  let ?f = "\<lambda>s1. let wrl = ready_list (wks s1 w);
      s2 = upd_pf (rl_tail s1 wrl) (next_ready_frame_update (\<lambda>_. rl_head rl s1)) s1
    in set_rl_tail wrl (rl_tail s2 rl) s2"
  obtain s1 k where s1: "lock_w w s = Some s1" "s1 = s\<lparr>wks := k\<rparr>" "ready_list (k w) = wl"
      "unlock_w w (?f s1) = Some ((?f s1)\<lparr>wks := wks s\<rparr>)"
    using with_worker_lock [OF free, of ?f] wl by (auto simp: Let_def)
  have path: "lpath (next_ready_frame \<circ> pfs s) (rl_head rl s) ys NULL" and "rl_tail s rl = last ys"
    using ys False by (auto simp: ready_queue_def squeue_def rl_head_def)
  with squeue_concat [OF xs [unfolded ready_queue_def] path False disj] s1(2,3)
  have "ready_queue wl (?f s1) (xs @ ys)"
    by (simp add: ready_queue_def Let_def heap_simps)
  with s1 False ys show ?thesis
    by (simp add: move_to_ready_list_def rl_head_empty Let_def)
qed

subsection \<open>Taking a task the thief may run\<close>

definition get_worker_numa :: "ptr \<Rightarrow> rt \<Rightarrow> int" where
  "get_worker_numa w s = numa_node (wks s w)"

definition match_numa_range :: "ptr \<Rightarrow> int \<Rightarrow> int \<Rightarrow> rt \<Rightarrow> bool" where
  "match_numa_range w low high s =
     (let my_numa = get_worker_numa w s in low \<le> my_numa \<and> my_numa < high)"

definition match_numa_pf :: "ptr \<Rightarrow> ptr \<Rightarrow> rt \<Rightarrow> bool" where
  "match_numa_pf w pf s =
     (if pf_numa_low (pfs s pf) \<noteq> pf_numa_high (pfs s pf)
      then match_numa_range w (sint (pf_numa_low (pfs s pf))) (sint (pf_numa_high (pfs s pf))) s
      else True)"

partial_function (option) numa_scan :: "ptr \<Rightarrow> ptr \<Rightarrow> ptr \<Rightarrow> rt \<Rightarrow> (ptr \<times> ptr) option" where
  [code]: "numa_scan w qf pf s =
     (if pf \<noteq> NULL \<and> \<not> match_numa_pf w pf s
      then numa_scan w pf (next_ready_frame (pfs s pf)) s
      else Some (qf, pf))"

text \<open>The part of \<open>steal_from_ready_list\<close> that unlinks a task: \<open>NULL\<close> is the early \<open>return 0\<close>.\<close>

definition take_from_ready_list :: "ptr \<Rightarrow> ptr \<Rightarrow> rt \<Rightarrow> (ptr \<times> rt) option" where
  "take_from_ready_list w victim s =
     (let rl = ready_list (wks s victim); pf = rl_head rl s
      in do { (ready_pf, s1) \<leftarrow>
                (if match_numa_pf w pf s then
                   Some (pf, upd_pf rl (next_ready_frame_update (\<lambda>_. next_ready_frame (pfs s pf))) s)
                 else
                   do { (qf, pf') \<leftarrow> numa_scan w pf (next_ready_frame (pfs s pf)) s;
                        if pf' = NULL then Some (NULL, s)
                        else Some (pf', upd_pf qf (next_ready_frame_update
                                                     (\<lambda>_. next_ready_frame (pfs s pf'))) s) });
              if ready_pf = NULL then Some (NULL, s)
              else Some (ready_pf, if rl_head rl s1 = NULL then set_rl_tail rl rl s1 else s1) })"

lemma numa_scan_path:
  "lpath (next_ready_frame \<circ> pfs s) pf xs NULL \<Longrightarrow>
   numa_scan w qf pf s =
     Some (last (qf # takeWhile (\<lambda>x. \<not> match_numa_pf w x s) xs),
           case dropWhile (\<lambda>x. \<not> match_numa_pf w x s) xs of [] \<Rightarrow> NULL | y # ys \<Rightarrow> y)"
proof (induction xs arbitrary: pf qf)
  case Nil
  then show ?case by (simp add: numa_scan.simps)
next
  case (Cons x xs)
  from Cons.prems have pf: "pf = x" "x \<noteq> NULL"
    and rest: "lpath (next_ready_frame \<circ> pfs s) (next_ready_frame (pfs s x)) xs NULL"
    unfolding lpath.simps comp_apply by blast+
  show ?case
  proof (cases "match_numa_pf w x s")
    case True
    with pf show ?thesis by (simp add: numa_scan.simps)
  next
    case False
    with pf show ?thesis
      by (subst numa_scan.simps) (simp add: Cons.IH [OF rest])
  qed
qed

lemma next_upd_pf [simp]:
  "next_ready_frame \<circ> (pfs s)(p := next_ready_frame_update (\<lambda>_. q) (pfs s p)) =
   (next_ready_frame \<circ> pfs s)(p := q)"
  by (simp add: heap_simps)

lemma ready_queue_split:
  assumes "ready_queue rl s (ys @ z # zs)"
  shows "next_ready_frame (pfs s z) = (if zs = [] then NULL else hd zs)" and "z \<noteq> NULL"
    and "rl_head rl s = hd (ys @ [z])"
proof -
  have "lpath (next_ready_frame \<circ> pfs s) (next_ready_frame (pfs s z)) zs NULL" and "z \<noteq> NULL"
    using assms by (auto simp: ready_queue_def squeue_def lpath_append)
  then show "next_ready_frame (pfs s z) = (if zs = [] then NULL else hd zs)" and "z \<noteq> NULL"
    using lpath_hd by blast+
  show "rl_head rl s = hd (ys @ [z])"
    using assms squeue_hd [of "next_ready_frame \<circ> pfs s" rl _ "ys @ z # zs"]
    by (cases ys) (auto simp: ready_queue_def rl_head_def)
qed

text \<open>The first task that matches is the head: it is unlinked and the list stays a queue.\<close>

lemma take_head:
  assumes q: "ready_queue rl s (z # zs)" and rl: "rl = ready_list (wks s victim)"
    and match: "match_numa_pf w z s"
  shows "\<exists>s'. take_from_ready_list w victim s = Some (z, s') \<and> ready_queue rl s' zs"
proof -
  let ?s1 = "upd_pf rl (next_ready_frame_update (\<lambda>_. next_ready_frame (pfs s z))) s"
  note split = ready_queue_split [of rl s "[]" z zs, simplified, OF q]
  have head: "rl_head rl ?s1 = next_ready_frame (pfs s z)" by (simp add: rl_head_def)
  show ?thesis
  proof (cases "zs = []")
    case True
    have "ready_queue rl (set_rl_tail rl rl ?s1) []"
      using True split by (simp add: ready_queue_def squeue_def)
    with True head split match rl show ?thesis by (simp add: take_from_ready_list_def Let_def)
  next
    case False
    have "hd zs \<noteq> NULL"
      using q False by (cases zs) (auto simp: ready_queue_def squeue_def)
    moreover have "ready_queue rl ?s1 zs"
      using q False squeue_drop [of "next_ready_frame \<circ> pfs s" rl "rl_tail s rl" "[z]" zs "next_ready_frame (pfs s z)"]
      by (simp add: ready_queue_def squeue_def)
    ultimately show ?thesis
      using False head split match rl by (simp add: take_from_ready_list_def Let_def)
  qed
qed

text \<open>It is further down: what the code does to the links and to the tail.\<close>

lemma take_middle:
  assumes q: "ready_queue rl s (ys @ z # zs)" and rl: "rl = ready_list (wks s victim)"
    and "ys \<noteq> []" and no: "\<And>y. y \<in> set ys \<Longrightarrow> \<not> match_numa_pf w y s" and match: "match_numa_pf w z s"
  shows "take_from_ready_list w victim s =
    Some (z, upd_pf (last ys) (next_ready_frame_update (\<lambda>_. next_ready_frame (pfs s z))) s)"
proof -
  obtain y ys' where ys: "ys = y # ys'" using \<open>ys \<noteq> []\<close> by (cases ys) auto
  note split = ready_queue_split [OF q]
  have path: "lpath (next_ready_frame \<circ> pfs s) (next_ready_frame (pfs s y)) (ys' @ z # zs) NULL"
    using q ys by (simp add: ready_queue_def squeue_def)
  have drop: "dropWhile (\<lambda>x. \<not> match_numa_pf w x s) (ys' @ z # zs) = z # zs"
    and take: "takeWhile (\<lambda>x. \<not> match_numa_pf w x s) (ys' @ z # zs) = ys'"
    using no match ys by (auto simp: dropWhile_append takeWhile_append)
  have scan: "numa_scan w y (next_ready_frame (pfs s y)) s = Some (last ys, z)"
    using numa_scan_path [OF path, of w y] ys by (simp add: drop take)
  have "last ys \<noteq> rl" and "y \<noteq> NULL"
    using q ys \<open>ys \<noteq> []\<close> by (auto simp: ready_queue_def squeue_def)
  then have "rl_head rl (upd_pf (last ys) (next_ready_frame_update (\<lambda>_. next_ready_frame (pfs s z))) s) \<noteq> NULL"
    using split(3) ys by (simp add: rl_head_def)
  with scan split no ys rl show ?thesis
    by (simp add: take_from_ready_list_def Let_def)
qed

lemma take_middle_queue:
  assumes "ready_queue rl s (ys @ z # zs)" and "rl = ready_list (wks s victim)" and "ys \<noteq> []"
    and "zs \<noteq> []" and "\<And>y. y \<in> set ys \<Longrightarrow> \<not> match_numa_pf w y s" and "match_numa_pf w z s"
  shows "\<exists>s'. take_from_ready_list w victim s = Some (z, s') \<and> ready_queue rl s' (ys @ zs)"
proof -
  obtain us u where ys: "ys = us @ [u]" using assms(3) by (cases ys rule: rev_cases) auto
  have "ready_queue rl (upd_pf u (next_ready_frame_update (\<lambda>_. next_ready_frame (pfs s z))) s) (ys @ zs)"
    using assms(1,4) ys squeue_splice [of "next_ready_frame \<circ> pfs s" rl "rl_tail s rl" us u z zs]
    by (simp add: ready_queue_def)
  with take_middle [OF assms(1-3,5,6)] ys show ?thesis by simp
qed

lemma take_none:
  assumes q: "ready_queue rl s xs" and "xs \<noteq> []" and rl: "rl = ready_list (wks s victim)"
    and no: "\<And>x. x \<in> set xs \<Longrightarrow> \<not> match_numa_pf w x s"
  shows "take_from_ready_list w victim s = Some (NULL, s)"
proof -
  obtain y ys where xs: "xs = y # ys" using \<open>xs \<noteq> []\<close> by (cases xs) auto
  have path: "lpath (next_ready_frame \<circ> pfs s) (next_ready_frame (pfs s y)) ys NULL"
    using q xs by (simp add: ready_queue_def squeue_def)
  have "dropWhile (\<lambda>x. \<not> match_numa_pf w x s) ys = []"
    using no xs by simp
  then obtain qf where "numa_scan w y (next_ready_frame (pfs s y)) s = Some (qf, NULL)"
    using numa_scan_path [OF path, of w y] by simp
  moreover have "rl_head rl s = y"
    using ready_queue_split(3) [of rl s "[]" y ys] q xs by simp
  ultimately show ?thesis
    using no xs rl by (simp add: take_from_ready_list_def Let_def)
qed

text \<open>The last task taken from behind another one: the tail pointer keeps pointing at it, and
  the next task that is pushed is hung behind it, out of reach from the head.\<close>

lemma take_last_queue:
  assumes q: "ready_queue rl s (ys @ [z])" and rl: "rl = ready_list (wks s victim)" and "ys \<noteq> []"
    and no: "\<And>y. y \<in> set ys \<Longrightarrow> \<not> match_numa_pf w y s" and match: "match_numa_pf w z s"
  shows "\<exists>s'. take_from_ready_list w victim s = Some (z, s') \<and> rl_tail s' rl = z \<and>
    lpath (next_ready_frame \<circ> pfs s') (rl_head rl s') ys NULL"
proof -
  let ?s' = "upd_pf (last ys) (next_ready_frame_update (\<lambda>_. next_ready_frame (pfs s z))) s"
  obtain us u where ys: "ys = us @ [u]" using \<open>ys \<noteq> []\<close> by (cases ys rule: rev_cases) auto
  have "u \<noteq> rl" and "rl_tail s rl = z" and "u \<notin> set us"
    and "lpath (next_ready_frame \<circ> pfs s) (rl_head rl s) us u" and "u \<noteq> NULL"
    using q ys by (auto simp: ready_queue_def squeue_def lpath_append rl_head_def)
  moreover have "next_ready_frame (pfs s z) = NULL"
    using ready_queue_split(1) [of rl s ys z "[]"] q by simp
  ultimately have "rl_tail ?s' rl = z \<and> lpath (next_ready_frame \<circ> pfs ?s') (rl_head rl ?s') ys NULL"
    using ys by (auto simp: lpath_append rl_head_def)
  with take_middle [of rl s ys z "[]"] assms show ?thesis by auto
qed

end
