(* ===== verification/Dataflow_Spec.thy ===== *)
theory Dataflow_Spec
  imports Prelude
begin

text \<open>
  What the dataflow metadata of one object promises, without pointers: a queue of
  generations. The tasks of the oldest generation run; the later generations wait, each
  holding the accesses of one kind. Reads (and commutative accesses) that arrive one after
  the other share a generation, a write is always alone in its own. The theorems are the
  serialisability of the accesses: two accesses that conflict never run together and start
  in the order in which they were issued.
\<close>

subsection \<open>Groups\<close>

datatype group = Read | Write | Commut

text \<open>Two accesses that follow each other share a generation when they are of the same kind and
  not writes.\<close>

definition joins_with :: "group \<Rightarrow> group \<Rightarrow> bool" where
  "joins_with g h \<longleftrightarrow> g = h \<and> g \<noteq> Write"

instantiation group :: linorder
begin

definition less_eq_group :: "group \<Rightarrow> group \<Rightarrow> bool" where
  "less_eq_group g h \<longleftrightarrow> g = Read \<or> g = h \<or> h = Commut"

definition less_group :: "group \<Rightarrow> group \<Rightarrow> bool" where
  "less_group g h \<longleftrightarrow> g \<le> h \<and> g \<noteq> h"

instance
proof
  fix x y z :: group
  show "x < y \<longleftrightarrow> x \<le> y \<and> \<not> y \<le> x"
    by (cases x; cases y) (auto simp: less_eq_group_def less_group_def)
  show "x \<le> x" by (simp add: less_eq_group_def)
  show "x \<le> y \<Longrightarrow> y \<le> z \<Longrightarrow> x \<le> z"
    by (cases x; cases y; cases z) (auto simp: less_eq_group_def)
  show "x \<le> y \<Longrightarrow> y \<le> x \<Longrightarrow> x = y"
    by (cases x; cases y) (auto simp: less_eq_group_def)
  show "x \<le> y \<or> y \<le> x"
    by (cases x; cases y) (auto simp: less_eq_group_def)
qed

end

subsection \<open>The queue of generations\<close>

type_synonym 't gen = "group \<times> 't list"

record 't gqueue =
  running :: "'t gen option"
  waiting :: "'t gen list"

definition q_empty :: "'t gqueue" where
  "q_empty = \<lparr>running = None, waiting = []\<rparr>"

text \<open>Would an access of kind \<open>g\<close> start at once? It is what \<open>ini_ready\<close> answers.\<close>

definition q_ready :: "group \<Rightarrow> 't gqueue \<Rightarrow> bool" where
  "q_ready g q =
     (case running q of None \<Rightarrow> True
      | Some (h, _) \<Rightarrow> waiting q = [] \<and> joins_with g h)"

fun wait_add :: "group \<Rightarrow> 't \<Rightarrow> 't gen list \<Rightarrow> 't gen list" where
  "wait_add g t [] = [(g, [t])]"
| "wait_add g t [(h, ts)] = (if joins_with g h then [(h, ts @ [t])] else [(h, ts), (g, [t])])"
| "wait_add g t (x # xs) = x # wait_add g t xs"

definition q_add :: "group \<Rightarrow> 't \<Rightarrow> 't gqueue \<Rightarrow> 't gqueue" where
  "q_add g t q =
     (case running q of
        None \<Rightarrow> q\<lparr>running := Some (g, [t])\<rparr>
      | Some (h, ts) \<Rightarrow>
          if q_ready g q then q\<lparr>running := Some (h, ts @ [t])\<rparr>
          else q\<lparr>waiting := wait_add g t (waiting q)\<rparr>)"

text \<open>A running task finishes its access; the last one of a generation starts the next.\<close>

definition q_finish :: "'t \<Rightarrow> 't gqueue \<Rightarrow> 't gqueue" where
  "q_finish t q =
     (case running q of
        None \<Rightarrow> q
      | Some (h, ts) \<Rightarrow>
          (case remove1 t ts of
             [] \<Rightarrow> (case waiting q of
                     [] \<Rightarrow> q\<lparr>running := None\<rparr>
                   | (g, us) # gs \<Rightarrow> \<lparr>running = Some (g, us), waiting = gs\<rparr>)
           | ts' \<Rightarrow> q\<lparr>running := Some (h, ts')\<rparr>))"

text \<open>The accesses of the next generation, which the finish of the last running task releases.\<close>

definition q_next :: "'t gqueue \<Rightarrow> 't list" where
  "q_next q = (case waiting q of [] \<Rightarrow> [] | (g, us) # gs \<Rightarrow> us)"

subsection \<open>Well-formed queues\<close>

definition gen_ok :: "'t gen \<Rightarrow> bool" where
  "gen_ok x \<longleftrightarrow> snd x \<noteq> [] \<and> (fst x = Write \<longrightarrow> length (snd x) = 1)"

fun gens_ok :: "'t gen list \<Rightarrow> bool" where
  "gens_ok [] = True"
| "gens_ok [x] = gen_ok x"
| "gens_ok (x # y # xs) = (gen_ok x \<and> \<not> joins_with (fst y) (fst x) \<and> gens_ok (y # xs))"

definition all_gens :: "'t gqueue \<Rightarrow> 't gen list" where
  "all_gens q = (case running q of None \<Rightarrow> [] | Some (h, ts) \<Rightarrow> [(h, ts)]) @ waiting q"

definition q_ok :: "'t gqueue \<Rightarrow> bool" where
  "q_ok q \<longleftrightarrow> gens_ok (all_gens q) \<and> (running q = None \<longrightarrow> waiting q = [])"

lemma joins_withD: "joins_with g h \<Longrightarrow> g = h \<and> g \<noteq> Write"
  by (auto simp: joins_with_def)

lemma joins_with_simps [simp]:
  "\<not> joins_with Write h" "\<not> joins_with g Write"
  "joins_with Read Read" "joins_with Commut Commut"
  by (auto simp: joins_with_def)

lemma gens_ok_Cons: "gens_ok (x # xs) \<longleftrightarrow>
    gen_ok x \<and> (xs \<noteq> [] \<longrightarrow> \<not> joins_with (fst (hd xs)) (fst x)) \<and> gens_ok xs"
  by (cases xs) auto

lemma gens_ok_append: "gens_ok (xs @ ys) \<longleftrightarrow>
    gens_ok xs \<and> gens_ok ys \<and>
    (xs \<noteq> [] \<longrightarrow> ys \<noteq> [] \<longrightarrow> \<not> joins_with (fst (hd ys)) (fst (last xs)))"
  by (induction xs) (auto simp: gens_ok_Cons)

lemma wait_add_snoc: "wait_add g t (xs @ [(h, ts)]) =
    (if joins_with g h then xs @ [(h, ts @ [t])] else xs @ [(h, ts), (g, [t])])"
  by (induction g t xs rule: wait_add.induct) auto

lemma wait_add_cases:
  obtains (first) "xs = []" "wait_add g t xs = [(g, [t])]"
  | (join) ys h ts where "xs = ys @ [(h, ts)]" "joins_with g h" "wait_add g t xs = ys @ [(h, ts @ [t])]"
  | (push) ys h ts where "xs = ys @ [(h, ts)]" "\<not> joins_with g h" "wait_add g t xs = xs @ [(g, [t])]"
proof (cases xs rule: rev_cases)
  case Nil
  then show ?thesis by (intro first) simp_all
next
  case (snoc ys x)
  obtain h ts where "x = (h, ts)" by (cases x)
  with snoc show ?thesis
    using join [of ys h ts] push [of ys h ts] by (cases "joins_with g h") (simp_all add: wait_add_snoc)
qed

lemma wait_add_not_Nil [simp]: "wait_add g t xs \<noteq> []"
  by (cases rule: wait_add_cases [of xs g t]) auto

subsection \<open>The operations keep a queue well formed\<close>

lemma gens_ok_wait_add: "gens_ok xs \<Longrightarrow> gens_ok (wait_add g t xs)"
proof (cases rule: wait_add_cases [of xs g t])
  case first
  then show ?thesis by (simp add: gen_ok_def)
next
  case (join ys h ts)
  moreover assume "gens_ok xs"
  ultimately show ?thesis by (auto simp: gens_ok_append gen_ok_def joins_with_def)
next
  case (push ys h ts)
  moreover assume "gens_ok xs"
  ultimately show ?thesis by (auto simp: gens_ok_append gen_ok_def)
qed

lemma hd_wait_add_fst: "xs \<noteq> [] \<Longrightarrow> fst (hd (wait_add g t xs)) = fst (hd xs)"
  by (cases rule: wait_add_cases [of xs g t]) (auto simp: hd_append)

lemma q_ok_empty [simp]: "q_ok q_empty"
  by (simp add: q_ok_def q_empty_def all_gens_def)

lemma q_ok_add:
  assumes "q_ok q"
  shows "q_ok (q_add g t q)"
proof (cases "running q")
  case None
  with assms show ?thesis by (simp add: q_ok_def q_add_def all_gens_def gen_ok_def)
next
  case (Some r)
  obtain h ts where r: "r = (h, ts)" by (cases r)
  show ?thesis
  proof (cases "q_ready g q")
    case True
    with assms Some r show ?thesis
      by (auto simp: q_ok_def q_add_def all_gens_def q_ready_def gen_ok_def joins_with_def)
  next
    case False
    have "waiting q = [] \<Longrightarrow> \<not> joins_with g h"
      using False Some r by (simp add: q_ready_def)
    with assms Some r False show ?thesis
      by (cases "waiting q = []")
        (auto simp: q_ok_def q_add_def all_gens_def gens_ok_Cons gens_ok_wait_add hd_wait_add_fst gen_ok_def)
  qed
qed

lemma gen_ok_smaller: "gen_ok (h, ts) \<Longrightarrow> remove1 t ts = u # us \<Longrightarrow> gen_ok (h, u # us)"
  by (cases ts) (auto simp: gen_ok_def split: if_splits)

lemma q_ok_finish:
  assumes "q_ok q"
  shows "q_ok (q_finish t q)"
proof (cases "running q")
  case None
  with assms show ?thesis by (simp add: q_finish_def)
next
  case (Some r)
  obtain h ts where r: "r = (h, ts)" by (cases r)
  with Some assms have "gen_ok (h, ts)" and "gens_ok (waiting q)"
    by (auto simp: q_ok_def all_gens_def gens_ok_Cons)
  with Some r assms show ?thesis
    by (auto simp: q_ok_def q_finish_def all_gens_def gens_ok_Cons intro: gen_ok_smaller
        split: list.splits)
qed

lemma q_ok_running: "q_ok q \<Longrightarrow> running q = Some (h, ts) \<Longrightarrow> ts \<noteq> [] \<and> (h = Write \<longrightarrow> length ts = 1)"
  by (auto simp: q_ok_def all_gens_def gens_ok_Cons gen_ok_def)

subsection \<open>The accesses in issue order\<close>

definition flat :: "'t gqueue \<Rightarrow> (group \<times> 't) list" where
  "flat q = concat (map (\<lambda>(g, ts). map (Pair g) ts) (all_gens q))"

lemma flat_add:
  assumes "q_ok q"
  shows "flat (q_add g t q) = flat q @ [(g, t)]"
proof (cases "running q")
  case None
  with assms show ?thesis by (simp add: q_ok_def q_add_def all_gens_def flat_def)
next
  case (Some r)
  obtain h ts where r: "r = (h, ts)" by (cases r)
  show ?thesis
  proof (cases "q_ready g q")
    case True
    with Some r show ?thesis by (auto simp: flat_def q_add_def all_gens_def q_ready_def joins_with_def)
  next
    case False
    have "concat (map (\<lambda>(g, ts). map (Pair g) ts) (wait_add g t xs)) =
      concat (map (\<lambda>(g, ts). map (Pair g) ts) xs) @ [(g, t)]" for xs
      by (cases rule: wait_add_cases [of xs g t]) (auto simp: joins_with_def)
    with False Some r show ?thesis by (simp add: flat_def q_add_def all_gens_def)
  qed
qed

lemma map_Pair_remove1: "map (Pair g) (remove1 t ts) = remove1 (g, t) (map (Pair g) ts)"
  by (induction ts) auto

lemma flat_finish:
  assumes "running q = Some (h, ts)" and "t \<in> set ts"
  shows "flat (q_finish t q) = remove1 (h, t) (flat q)"
proof -
  have "remove1 (h, t) (flat q) = map (Pair h) (remove1 t ts) @ concat (map (\<lambda>(g, ts). map (Pair g) ts) (waiting q))"
    using assms by (simp add: flat_def all_gens_def remove1_append map_Pair_remove1 image_iff)
  then show ?thesis
    using assms by (auto simp: q_finish_def flat_def all_gens_def split: list.splits)
qed

subsection \<open>Histories\<close>

text \<open>A history: accesses are issued in program order and finish when their tasks do. Every
  access is a task of its own here; a task that accesses an object twice counts twice.\<close>

record 't history =
  queue :: "'t gqueue"
  issued :: "(group \<times> 't) list"
  finished :: "'t set"

definition h_empty :: "'t history" where
  "h_empty = \<lparr>queue = q_empty, issued = [], finished = {}\<rparr>"

inductive h_step :: "'t history \<Rightarrow> 't history \<Rightarrow> bool" where
  h_issue: "t \<notin> snd ` set (issued s) \<Longrightarrow>
     h_step s (s\<lparr>queue := q_add g t (queue s), issued := issued s @ [(g, t)]\<rparr>)"
| h_finish: "running (queue s) = Some (h, ts) \<Longrightarrow> t \<in> set ts \<Longrightarrow>
     h_step s (s\<lparr>queue := q_finish t (queue s), finished := insert t (finished s)\<rparr>)"

inductive h_reachable :: "'t history \<Rightarrow> bool" where
  h_start: "h_reachable h_empty"
| h_next: "h_reachable s \<Longrightarrow> h_step s s' \<Longrightarrow> h_reachable s'"

definition history_ok :: "'t history \<Rightarrow> bool" where
  "history_ok s \<longleftrightarrow> q_ok (queue s) \<and> distinct (map snd (issued s)) \<and>
     finished s \<subseteq> snd ` set (issued s) \<and>
     flat (queue s) = filter (\<lambda>x. snd x \<notin> finished s) (issued s)"

lemma filter_remove1:
  "distinct (map snd xs) \<Longrightarrow> (h, t) \<in> set (filter (\<lambda>x. snd x \<notin> F) xs) \<Longrightarrow>
   remove1 (h, t) (filter (\<lambda>x. snd x \<notin> F) xs) = filter (\<lambda>x. snd x \<notin> insert t F) xs"
proof (induction xs)
  case Nil
  then show ?case by simp
next
  case (Cons x xs)
  show ?case
  proof (cases "x = (h, t)")
    case True
    with Cons.prems have "t \<notin> snd ` set xs" by simp
    then have "filter (\<lambda>x. snd x \<notin> F) xs = filter (\<lambda>x. snd x \<notin> insert t F) xs"
      by (intro filter_cong) (auto simp: image_iff)
    with True Cons.prems show ?thesis by auto
  next
    case False
    with Cons.prems(2) have "(h, t) \<in> set xs" by (auto split: if_splits)
    with Cons.prems(1) have "snd x \<noteq> t" by (auto simp: image_iff)
    with False Cons show ?thesis by auto
  qed
qed

lemma running_in_flat: "running q = Some (h, ts) \<Longrightarrow> t \<in> set ts \<Longrightarrow> (h, t) \<in> set (flat q)"
  by (simp add: flat_def all_gens_def)

lemma history_ok_step: "h_step s s' \<Longrightarrow> history_ok s \<Longrightarrow> history_ok s'"
proof (induction rule: h_step.induct)
  case (h_issue t s g)
  then show ?case by (auto simp: history_ok_def q_ok_add flat_add)
next
  case (h_finish s h ts t)
  then have "(h, t) \<in> set (filter (\<lambda>x. snd x \<notin> finished s) (issued s))"
    using running_in_flat [of "queue s" h ts t] by (simp add: history_ok_def)
  with h_finish show ?case
    by (auto simp: history_ok_def q_ok_finish flat_finish filter_remove1 intro: rev_image_eqI)
qed

lemma history_ok_start: "history_ok h_empty"
  by (simp add: history_ok_def h_empty_def flat_def all_gens_def q_empty_def q_ok_def)

lemma history_ok_reachable: "h_reachable s \<Longrightarrow> history_ok s"
  by (induction rule: h_reachable.induct) (blast intro: history_ok_start history_ok_step)+

subsection \<open>Serialisability\<close>

text \<open>\<open>before xs a b\<close>: an occurrence of \<open>a\<close> stands left of one of \<open>b\<close>.\<close>

fun before :: "'a list \<Rightarrow> 'a \<Rightarrow> 'a \<Rightarrow> bool" where
  "before [] a b = False"
| "before (x # xs) a b = (x = a \<and> b \<in> set xs \<or> before xs a b)"

lemma before_in_set: "before xs a b \<Longrightarrow> a \<in> set xs \<and> b \<in> set xs"
  by (induction xs) auto

lemma before_append: "before (xs @ ys) a b \<longleftrightarrow> before xs a b \<or> before ys a b \<or> a \<in> set xs \<and> b \<in> set ys"
  by (induction xs) auto

lemma before_filter: "before xs a b \<Longrightarrow> P a \<Longrightarrow> P b \<Longrightarrow> before (filter P xs) a b"
  by (induction xs) auto

lemma before_distinct: "before xs a b \<Longrightarrow> distinct xs \<Longrightarrow> a \<noteq> b"
  by (induction xs) auto

text \<open>Two running accesses never conflict.\<close>

lemma running_no_conflict:
  assumes "q_ok q" and "running q = Some (h, ts)" and "t \<in> set ts" and "u \<in> set ts" and "t \<noteq> u"
  shows "joins_with h h"
  using q_ok_running [OF assms(1,2)] assms(3-5)
  by (cases ts) (auto simp: joins_with_def)

lemma started_after_conflict:
  assumes ok: "history_ok s" and bef: "before (issued s) (g, t) (h, u)" and conf: "\<not> joins_with g h"
    and run: "running (queue s) = Some (k, ts)" and u: "u \<in> set ts"
  shows "t \<in> finished s"
proof (rule ccontr)
  assume t: "t \<notin> finished s"
  have flat: "flat (queue s) = filter (\<lambda>x. snd x \<notin> finished s) (issued s)"
    and dist: "distinct (map snd (issued s))" and q: "q_ok (queue s)"
    using ok by (simp_all add: history_ok_def)
  from running_in_flat [OF run u] flat have ku: "(k, u) \<in> set (issued s)" "u \<notin> finished s"
    by auto
  from before_in_set [OF bef] ku(1) dist have "h = k"
    using inj_onD [of snd "set (issued s)" "(h, u)" "(k, u)"] by (simp add: distinct_map)
  from before_filter [OF bef, of "\<lambda>x. snd x \<notin> finished s"] t ku(2) flat
  have bef': "before (flat (queue s)) (g, t) (h, u)" by simp
  have dflat: "distinct (flat (queue s))"
    using dist flat by (simp add: distinct_map)
  define rest where "rest = concat (map (\<lambda>(g, ts). map (Pair g) ts) (waiting (queue s)))"
  have split: "flat (queue s) = map (Pair k) ts @ rest"
    using run by (simp add: flat_def all_gens_def rest_def)
  have "(h, u) \<notin> set rest"
    using dflat split u \<open>h = k\<close> by auto
  with bef' split have "before (map (Pair k) ts) (g, t) (h, u)"
    by (auto simp: before_append dest: before_in_set)
  then have "g = k" and "t \<in> set ts" by (auto dest: before_in_set)
  moreover have "t \<noteq> u"
    using before_distinct [OF bef' dflat] \<open>g = k\<close> \<open>h = k\<close> by auto
  ultimately have "joins_with k k"
    using running_no_conflict [OF q run _ u] by blast
  with conf \<open>g = k\<close> \<open>h = k\<close> show False by simp
qed

definition serial_inv :: "'t history \<Rightarrow> bool" where
  "serial_inv s \<longleftrightarrow> (\<forall>g t h u. before (issued s) (g, t) (h, u) \<longrightarrow> \<not> joins_with g h \<longrightarrow>
     u \<in> finished s \<longrightarrow> t \<in> finished s)"

lemma serial_inv_step: "h_step s s' \<Longrightarrow> history_ok s \<Longrightarrow> serial_inv s \<Longrightarrow> serial_inv s'"
proof (induction rule: h_step.induct)
  case (h_issue t s g)
  have "t \<notin> finished s"
    using h_issue by (auto simp: history_ok_def)
  with h_issue show ?case
    by (auto simp: serial_inv_def before_append)
next
  case (h_finish s h ts t)
  then show ?case
    using started_after_conflict [OF h_finish.prems(1) _ _ h_finish.hyps]
    by (auto simp: serial_inv_def)
qed

lemma serial_inv_start: "serial_inv h_empty"
  by (simp add: serial_inv_def h_empty_def)

lemma serial_inv_reachable: "h_reachable s \<Longrightarrow> serial_inv s"
  by (induction rule: h_reachable.induct)
    (blast intro: serial_inv_start serial_inv_step history_ok_reachable)+

text \<open>A conflicting access starts only after the earlier one has finished.\<close>

definition started :: "'t history \<Rightarrow> 't \<Rightarrow> bool" where
  "started s u \<longleftrightarrow> u \<in> finished s \<or> (case running (queue s) of None \<Rightarrow> False | Some (_, ts) \<Rightarrow> u \<in> set ts)"

lemma conflicts_start_in_order:
  assumes "h_reachable s" and "before (issued s) (g, t) (h, u)" and "\<not> joins_with g h" and "started s u"
  shows "t \<in> finished s"
proof (cases "u \<in> finished s")
  case True
  with serial_inv_reachable [OF assms(1)] assms(2,3) show ?thesis unfolding serial_inv_def by blast
next
  case False
  with assms(4) obtain k ts where "running (queue s) = Some (k, ts)" "u \<in> set ts"
    by (auto simp: started_def split: option.splits)
  with started_after_conflict [OF history_ok_reachable [OF assms(1)] assms(2,3)] show ?thesis by blast
qed

text \<open>No deadlock on one object: while an access is unfinished some access runs, and each finish
  shortens the queue.\<close>

lemma unfinished_running:
  assumes "h_reachable s" and "t \<in> snd ` set (issued s)" and "t \<notin> finished s"
  shows "\<exists>h ts. running (queue s) = Some (h, ts) \<and> ts \<noteq> []"
proof -
  have ok: "history_ok s" using assms(1) by (rule history_ok_reachable)
  then have "flat (queue s) \<noteq> []"
    using assms(2,3) by (auto simp: history_ok_def filter_empty_conv)
  then obtain h ts where r: "running (queue s) = Some (h, ts)"
    using ok by (cases "running (queue s)") (auto simp: flat_def all_gens_def history_ok_def q_ok_def)
  moreover have "ts \<noteq> []" using ok r q_ok_running by (auto simp: history_ok_def)
  ultimately show ?thesis by blast
qed

lemma finish_shortens:
  assumes "running q = Some (h, ts)" and "t \<in> set ts"
  shows "length (flat (q_finish t q)) < length (flat q)"
proof -
  have "(h, t) \<in> set (flat q)" using assms by (rule running_in_flat)
  then show ?thesis
    using assms length_pos_if_in_set [of "(h, t)" "flat q"] by (simp add: flat_finish length_remove1)
qed

end
