(* ===== verification/Dataflow.thy ===== *)
theory Dataflow
  imports Ready_List Dataflow_Spec
begin

text \<open>
  The dataflow metadata of an object (runtime/dataflow_impl.c, include/cilk/dataflow.h): a
  counter of the tasks of the oldest generation, the number of generations, the group of
  the youngest one, and a linked list of the tasks that wait, whose lowest pointer bit
  marks the last task of a generation. \<open>md_repr\<close> relates it to the queue of generations of
  theory Dataflow_Spec; adding and waking are shown to refine \<open>q_add\<close> and \<open>q_finish\<close>.
\<close>

subsection \<open>Groups and task lists\<close>

definition CILK_OBJ_GROUP_EMPTY :: "32 word" where "CILK_OBJ_GROUP_EMPTY = 1"
definition CILK_OBJ_GROUP_READ :: "32 word" where "CILK_OBJ_GROUP_READ = 2"
definition CILK_OBJ_GROUP_WRITE :: "32 word" where "CILK_OBJ_GROUP_WRITE = 4"
definition CILK_OBJ_GROUP_COMMUT :: "32 word" where "CILK_OBJ_GROUP_COMMUT = 8"
definition CILK_OBJ_GROUP_NOT_WRITE :: "32 word" where
  "CILK_OBJ_GROUP_NOT_WRITE = 15 - CILK_OBJ_GROUP_WRITE"

lemmas group_defs = CILK_OBJ_GROUP_EMPTY_def CILK_OBJ_GROUP_READ_def CILK_OBJ_GROUP_WRITE_def
  CILK_OBJ_GROUP_COMMUT_def CILK_OBJ_GROUP_NOT_WRITE_def

definition task_list_init :: "ptr \<Rightarrow> rt \<Rightarrow> rt" where
  "task_list_init md s =
     (let h = tasks_head (mds s md)
      in upd_node h (\<lambda>n. n\<lparr>st_task_and_last := NULL, it_next := NULL\<rparr>)
           (upd_md md (tasks_tail_update (\<lambda>_. h)) s))"

definition obj_metadata_init :: "ptr \<Rightarrow> rt \<Rightarrow> rt" where
  "obj_metadata_init md s =
     (let s1 = upd_md md (\<lambda>m. m\<lparr>oldest_num_tasks := 0, youngest_group := CILK_OBJ_GROUP_EMPTY,
                                num_gens := 0\<rparr>) s
      in upd_md md (\<lambda>m. m\<lparr>md_mutex := spin_mutex_init (md_mutex m)\<rparr>) (task_list_init md s1))"

definition obj_metadata_ini_ready :: "ptr \<Rightarrow> 32 word \<Rightarrow> rt \<Rightarrow> bool" where
  "obj_metadata_ini_ready md grp s =
     (let m = mds s md
      in if num_gens m = 1 \<and>
            youngest_group m AND ((grp OR CILK_OBJ_GROUP_EMPTY) AND CILK_OBJ_GROUP_NOT_WRITE) \<noteq> 0
         then True else num_gens m = 0)"

subsection \<open>Locking an object\<close>

definition lock_md :: "ptr \<Rightarrow> rt \<Rightarrow> rt option" where
  "lock_md md s = map_option (\<lambda>l. upd_md md (md_mutex_update (\<lambda>_. l)) s) (spin_mutex_lock (md_mutex (mds s md)))"

definition unlock_md :: "ptr \<Rightarrow> rt \<Rightarrow> rt" where
  "unlock_md md s = upd_md md (md_mutex_update spin_mutex_unlock) s"

subsection \<open>Waking the next generation\<close>

text \<open>The loop over the task list: the node after the last one visited (\<open>i_next\<close>), the number of
  tasks, and the new store. A cyclic list would not return.\<close>

partial_function (option) wakeup_loop ::
  "ptr \<Rightarrow> ptr \<Rightarrow> 32 word \<Rightarrow> rt \<Rightarrow> (ptr \<times> 32 word \<times> rt) option" where
  [code]: "wakeup_loop rlist i new_tasks s =
     (if i = NULL then Some (NULL, new_tasks, s)
      else let t = st_task_and_last (nodes s i) AND NOT 1;
               i_next = it_next (nodes s i);
               s1 = upd_pf t (incoming_count_update (\<lambda>c. c - 1)) s;
               s2 = (if incoming_count (pfs s t) = 1 then rl_push rlist t s1 else s1)
           in if st_task_and_last (nodes s2 i) AND 1 \<noteq> 0 then Some (i_next, new_tasks + 1, s2)
              else wakeup_loop rlist i_next (new_tasks + 1) s2)"

definition obj_metadata_wakeup_hard :: "ptr \<Rightarrow> ptr \<Rightarrow> rt \<Rightarrow> rt option" where
  "obj_metadata_wakeup_hard rlist md s =
     do { (i_next, new_tasks, s1) \<leftarrow>
            wakeup_loop rlist (it_next (nodes s (tasks_head (mds s md)))) 0 s;
          let s2 = upd_md md (\<lambda>m. m\<lparr>oldest_num_tasks := ucast new_tasks, num_gens := num_gens m - 1\<rparr>) s1;
          let h = tasks_head (mds s2 md);
          let s3 = (if i_next \<noteq> NULL then upd_node h (it_next_update (\<lambda>_. i_next)) s2
                    else upd_md md (\<lambda>m. m\<lparr>tasks_tail := h,
                                 youngest_group := (if num_gens m = 0 then CILK_OBJ_GROUP_EMPTY
                                                    else youngest_group m)\<rparr>)
                           (upd_node h (it_next_update (\<lambda>_. NULL)) s2));
          Some (unlock_md md s3) }"

definition obj_metadata_wakeup :: "ptr \<Rightarrow> ptr \<Rightarrow> rt \<Rightarrow> rt option" where
  "obj_metadata_wakeup rlist md s =
     do { s1 \<leftarrow> lock_md md s;
          let s2 = upd_md md (oldest_num_tasks_update (\<lambda>n. n - 1)) s1;
          (if oldest_num_tasks (mds s2 md) > 0 then Some (unlock_md md s2)
           else if num_gens (mds s2 md) = 1 then
             Some (unlock_md md (upd_md md (\<lambda>m. m\<lparr>num_gens := 0,
                                                youngest_group := CILK_OBJ_GROUP_EMPTY\<rparr>) s2))
           else obj_metadata_wakeup_hard rlist md s2) }"

subsection \<open>Adding a task\<close>

definition obj_metadata_add_task :: "ptr \<Rightarrow> ptr \<Rightarrow> ptr \<Rightarrow> 32 word \<Rightarrow> rt \<Rightarrow> rt option" where
  "obj_metadata_add_task t md tags g s =
     do { let s0 = upd_node tags (st_task_and_last_update (\<lambda>_. t)) s;
          s1 \<leftarrow> lock_md md s0;
          (if t = NULL then
             Some (unlock_md md (upd_md md (\<lambda>m. m\<lparr>num_gens := 1,
                     oldest_num_tasks := oldest_num_tasks m + 1, youngest_group := g\<rparr>) s1))
           else
             do { let m = mds s1 md;
                  let joins = youngest_group m AND ((g OR CILK_OBJ_GROUP_EMPTY) AND CILK_OBJ_GROUP_NOT_WRITE) \<noteq> 0;
                  let pushg = g AND (youngest_group m AND CILK_OBJ_GROUP_NOT_WRITE) = 0;
                  let ready = (joins \<and> num_gens m \<le> 1);
                  let s2 = upd_md md (\<lambda>m. m\<lparr>num_gens := num_gens m + (if pushg then 1 else 0),
                             oldest_num_tasks := oldest_num_tasks m + (if ready then 1 else 0),
                             youngest_group := g\<rparr>) s1;
                  let s3 = (if ready then s2 else
                     let s21 = upd_pf t (incoming_count_update (\<lambda>c. c + 1)) s2;
                         old_tail = tasks_tail (mds s21 md);
                         s22 = upd_node tags (it_next_update (\<lambda>_. NULL)) s21;
                         s23 = upd_node old_tail (it_next_update (\<lambda>_. tags)) s22;
                         s24 = upd_node old_tail (st_task_and_last_update
                                 (\<lambda>p. (p AND NOT 1) OR (if pushg then 1 else 0))) s23
                     in upd_md md (tasks_tail_update (\<lambda>_. tags)) s24);
                  cilk_assert ((num_gens (mds s3 md) \<le> 1) =
                               (it_next (nodes s3 (tasks_head (mds s3 md))) = NULL));
                  cilk_assert (num_gens (mds s3 md) > 0);
                  Some (unlock_md md s3) }) }"

definition obj_metadata_add_task_read :: "ptr \<Rightarrow> ptr \<Rightarrow> ptr \<Rightarrow> rt \<Rightarrow> rt option" where
  "obj_metadata_add_task_read pf md tags s = obj_metadata_add_task pf md tags CILK_OBJ_GROUP_READ s"

definition obj_metadata_add_task_write :: "ptr \<Rightarrow> ptr \<Rightarrow> ptr \<Rightarrow> rt \<Rightarrow> rt option" where
  "obj_metadata_add_task_write pf md tags s = obj_metadata_add_task pf md tags CILK_OBJ_GROUP_WRITE s"

subsection \<open>The bits of a group\<close>

fun group_code :: "group \<Rightarrow> 32 word" where
  "group_code Read = CILK_OBJ_GROUP_READ"
| "group_code Write = CILK_OBJ_GROUP_WRITE"
| "group_code Commut = CILK_OBJ_GROUP_COMMUT"

definition joins_bits :: "32 word \<Rightarrow> 32 word \<Rightarrow> bool" where
  "joins_bits yg g \<longleftrightarrow> yg AND ((g OR CILK_OBJ_GROUP_EMPTY) AND CILK_OBJ_GROUP_NOT_WRITE) \<noteq> 0"

definition pushes_bits :: "32 word \<Rightarrow> 32 word \<Rightarrow> bool" where
  "pushes_bits yg g \<longleftrightarrow> g AND (yg AND CILK_OBJ_GROUP_NOT_WRITE) = 0"

lemma joins_bits_code [simp]: "joins_bits (group_code h) (group_code g) \<longleftrightarrow> joins_with g h"
  by (cases g; cases h) (simp_all add: joins_bits_def group_defs joins_with_def)

lemma joins_bits_empty [simp]: "joins_bits CILK_OBJ_GROUP_EMPTY (group_code g)"
  by (cases g) (simp_all add: joins_bits_def group_defs)

lemma pushes_bits_code [simp]: "pushes_bits (group_code h) (group_code g) \<longleftrightarrow> \<not> joins_with g h"
  by (cases g; cases h) (simp_all add: pushes_bits_def group_defs joins_with_def)

lemma pushes_bits_empty [simp]: "pushes_bits CILK_OBJ_GROUP_EMPTY (group_code g)"
  by (cases g) (simp_all add: pushes_bits_def group_defs)

lemma tag_bits [simp]:
  fixes p :: ptr
  shows "(p AND NOT 1) AND 1 = 0" "((p AND NOT 1) OR 1) AND 1 = 1"
    "((p AND NOT 1) OR 1) AND NOT 1 = p AND NOT 1" "(p AND NOT 1) AND NOT 1 = p AND NOT 1"
  by (rule bit_word_eqI; auto simp: bit_simps)+

lemma tag_bits_numeral [simp]:
  fixes p :: ptr
  shows "(p AND - 2) AND 1 = 0" "((p AND - 2) OR 1) AND 1 = 1"
    "((p AND - 2) OR 1) AND - 2 = p AND - 2" "(p AND - 2) AND - 2 = p AND - 2"
proof -
  have "(- 2 :: ptr) = NOT 1" by simp
  then show "(p AND - 2) AND 1 = 0" "((p AND - 2) OR 1) AND 1 = 1"
    "((p AND - 2) OR 1) AND - 2 = p AND - 2" "(p AND - 2) AND - 2 = p AND - 2"
    by (simp_all only: tag_bits)
qed

subsection \<open>Releasing a generation\<close>

text \<open>What the loop does to the tasks of a generation: each loses one dependence, and a task that
  loses its last one is pushed onto the ready list.\<close>

definition release1 :: "ptr \<Rightarrow> ptr \<Rightarrow> rt \<Rightarrow> rt" where
  "release1 rlist t s =
     (let s1 = upd_pf t (incoming_count_update (\<lambda>c. c - 1)) s
      in if incoming_count (pfs s t) = 1 then rl_push rlist t s1 else s1)"

definition node_task :: "rt \<Rightarrow> ptr \<Rightarrow> ptr" where
  "node_task s n = st_task_and_last (nodes s n) AND NOT 1"

definition node_last :: "rt \<Rightarrow> ptr \<Rightarrow> bool" where
  "node_last s n \<longleftrightarrow> st_task_and_last (nodes s n) AND 1 \<noteq> 0"

lemma release1_sel [simp]:
  "nodes (release1 rl t s) = nodes s" "mds (release1 rl t s) = mds s" "wks (release1 rl t s) = wks s"
  by (simp_all add: release1_def Let_def)

lemma node_release1 [simp]:
  "node_task (release1 rl t s) = node_task s" "node_last (release1 rl t s) = node_last s"
  by (simp_all add: node_task_def node_last_def fun_eq_iff)

lemma release_sel [simp]:
  "nodes (fold (release1 rl) ts s) = nodes s" "mds (fold (release1 rl) ts s) = mds s"
  "wks (fold (release1 rl) ts s) = wks s"
  by (induction ts arbitrary: s) simp_all

lemma incoming_release1:
  "incoming_count (pfs (release1 rl t s) u) = incoming_count (pfs s u) - (if u = t then 1 else 0)"
  by (simp add: release1_def Let_def)

lemma incoming_release:
  "incoming_count (pfs (fold (release1 rl) ts s) u) = incoming_count (pfs s u) - int (count_list ts u)"
  by (induction ts arbitrary: s) (simp_all add: incoming_release1)

lemma wakeup_loop_NULL [simp]: "wakeup_loop rl NULL k s = Some (NULL, k, s)"
  by (subst wakeup_loop.simps) simp

lemma wakeup_loop_step:
  "i \<noteq> NULL \<Longrightarrow> wakeup_loop rl i k s =
     (let s2 = release1 rl (node_task s i) s; i_next = it_next (nodes s i)
      in if node_last s i then Some (i_next, k + 1, s2) else wakeup_loop rl i_next (k + 1) s2)"
  by (subst wakeup_loop.simps) (simp add: Let_def release1_def node_task_def node_last_def)

text \<open>The loop runs over the nodes up to the first one that is marked, or over all of them.\<close>

lemma wakeup_loop_path:
  assumes "lpath (it_next \<circ> nodes s) i (ns @ ms) NULL" and "ns \<noteq> []"
    and "\<And>n. n \<in> set (butlast ns) \<Longrightarrow> \<not> node_last s n" and "ms \<noteq> [] \<Longrightarrow> node_last s (last ns)"
  shows "wakeup_loop rl i k s =
    Some (if ms = [] then NULL else hd ms, k + of_nat (length ns), fold (release1 rl) (map (node_task s) ns) s)"
  using assms
proof (induction ns arbitrary: i k s)
  case Nil
  then show ?case by simp
next
  case (Cons n ns)
  from Cons.prems(1) have i: "i = n" "n \<noteq> NULL"
    and rest: "lpath (it_next \<circ> nodes s) (it_next (nodes s n)) (ns @ ms) NULL"
    unfolding append_Cons lpath.simps comp_apply by blast+
  let ?s2 = "release1 rl (node_task s n) s"
  show ?case
  proof (cases "ns = []")
    case True
    have "it_next (nodes s n) = (if ms = [] then NULL else hd ms)"
      using lpath_hd [OF rest] True by simp
    with i True Cons.prems(4) show ?thesis
      by (cases "ms = []") (simp_all add: wakeup_loop_step Let_def)
  next
    case False
    have IH: "wakeup_loop rl (it_next (nodes s n)) (k + 1) ?s2 =
        Some (if ms = [] then NULL else hd ms, (k + 1) + of_nat (length ns),
              fold (release1 rl) (map (node_task ?s2) ns) ?s2)"
      using False rest Cons.prems(3,4) by (intro Cons.IH) (simp_all add: o_def)
    have "\<not> node_last s n" using False Cons.prems(3) by simp
    with i False show ?thesis
      unfolding wakeup_loop_step [OF i(2)] i(1) Let_def IH by (simp add: add.assoc)
  qed
qed

lemma ready_queue_pf:
  "ready_queue rl (upd_pf t (incoming_count_update f) s) xs \<longleftrightarrow> ready_queue rl s xs"
proof -
  have "next_ready_frame \<circ> pfs (upd_pf t (incoming_count_update f) s) = next_ready_frame \<circ> pfs s"
    by (simp add: fun_eq_iff)
  then show ?thesis by (simp add: ready_queue_def)
qed

text \<open>The released tasks are pushed in the order in which they were issued.\<close>

lemma release_queue:
  assumes "ready_queue rl s xs" and "distinct ts" and "NULL \<notin> set ts" and "set ts \<inter> set (rl # xs) = {}"
  shows "ready_queue rl (fold (release1 rl) ts s) (xs @ filter (\<lambda>t. incoming_count (pfs s t) = 1) ts)"
  using assms
proof (induction ts arbitrary: s xs)
  case Nil
  then show ?case by simp
next
  case (Cons t ts)
  have same: "filter (\<lambda>u. incoming_count (pfs (release1 rl t s) u) = 1) ts =
      filter (\<lambda>u. incoming_count (pfs s u) = 1) ts"
    using Cons.prems(2) by (intro filter_cong) (auto simp: incoming_release1)
  show ?case
  proof (cases "incoming_count (pfs s t) = 1")
    case True
    then have "ready_queue rl (release1 rl t s) (xs @ [t])"
      using Cons.prems by (auto simp: release1_def Let_def ready_queue_pf intro!: ready_queue_push)
    from Cons.IH [OF this] Cons.prems True same show ?thesis by auto
  next
    case False
    then have "ready_queue rl (release1 rl t s) xs"
      using Cons.prems by (simp add: release1_def Let_def ready_queue_pf)
    from Cons.IH [OF this] Cons.prems False same show ?thesis by auto
  qed
qed

subsection \<open>The metadata and the queue of generations\<close>

text \<open>The tags of the waiting tasks: the last task of a generation is marked unless the
  generation is the youngest one.\<close>

fun tags_of :: "'t gen list \<Rightarrow> ('t \<times> bool) list" where
  "tags_of [] = []"
| "tags_of ((g, ts) # gs) = map (\<lambda>t. (t, False)) (butlast ts) @ (last ts, gs \<noteq> []) # tags_of gs"

definition node_tag :: "task_list_node \<Rightarrow> ptr \<times> bool" where
  "node_tag n = (st_task_and_last n AND NOT 1, st_task_and_last n AND 1 \<noteq> 0)"

definition md_repr :: "rt \<Rightarrow> ptr \<Rightarrow> ptr list \<Rightarrow> ptr gqueue \<Rightarrow> bool" where
  "md_repr s md ns q \<longleftrightarrow>
     squeue (it_next \<circ> nodes s) (tasks_head (mds s md)) (tasks_tail (mds s md)) ns \<and>
     map (node_tag \<circ> nodes s) ns = tags_of (waiting q) \<and>
     num_gens (mds s md) = of_nat (length (all_gens q)) \<and>
     oldest_num_tasks (mds s md) = of_nat (case running q of None \<Rightarrow> 0 | Some (h, ts) \<Rightarrow> length ts) \<and>
     youngest_group (mds s md) =
       (if all_gens q = [] then CILK_OBJ_GROUP_EMPTY else group_code (fst (last (all_gens q)))) \<and>
     q_ok q \<and> length (flat q) < 2 ^ 32"

lemma tags_of_Nil [simp]: "tags_of xs = [] \<longleftrightarrow> xs = []"
  by (cases xs) auto

lemma tags_of_Cons: "xs \<noteq> [] \<Longrightarrow>
    tags_of (x # xs) = map (\<lambda>t. (t, False)) (butlast (snd x)) @ (last (snd x), True) # tags_of xs"
  by (cases x) simp

lemma tags_of_snoc_last: "\<exists>ys. tags_of (xs @ [(h, ts)]) = ys @ [(last ts, False)] \<and>
    (\<forall>g t. tags_of (xs @ [(h, ts), (g, [t])]) = ys @ [(last ts, True), (t, False)]) \<and>
    (ts \<noteq> [] \<longrightarrow> (\<forall>t. tags_of (xs @ [(h, ts @ [t])]) = ys @ [(last ts, False), (t, False)]))"
proof (induction xs)
  case Nil
  have "map (\<lambda>t. (t, False)) ts = map (\<lambda>t. (t, False)) (butlast ts) @ [(last ts, False)]" if "ts \<noteq> []"
    using that by (cases ts rule: rev_cases) simp_all
  then show ?case by (intro exI [of _ "map (\<lambda>t. (t, False)) (butlast ts)"]) simp
next
  case (Cons x xs)
  then obtain ys where "tags_of (xs @ [(h, ts)]) = ys @ [(last ts, False)] \<and>
    (\<forall>g t. tags_of (xs @ [(h, ts), (g, [t])]) = ys @ [(last ts, True), (t, False)]) \<and>
    (ts \<noteq> [] \<longrightarrow> (\<forall>t. tags_of (xs @ [(h, ts @ [t])]) = ys @ [(last ts, False), (t, False)]))"
    by blast
  then show ?case
    by (intro exI [of _ "map (\<lambda>t. (t, False)) (butlast (snd x)) @ (last (snd x), True) # ys"])
      (simp add: tags_of_Cons)
qed

lemma tags_of_wait_add:
  assumes "gens_ok ws"
  shows "tags_of (wait_add g t ws) =
    (if ws = [] then [(t, False)]
     else butlast (tags_of ws) @ [(fst (last (tags_of ws)), \<not> joins_with g (fst (last ws))), (t, False)])"
proof (cases rule: wait_add_cases [of ws g t])
  case first
  then show ?thesis by simp
next
  case (join ys h ts)
  with assms have "ts \<noteq> []" by (simp add: gens_ok_append gen_ok_def)
  moreover obtain us where "tags_of (ys @ [(h, ts)]) = us @ [(last ts, False)]"
      "ts \<noteq> [] \<Longrightarrow> tags_of (ys @ [(h, ts @ [t])]) = us @ [(last ts, False), (t, False)]"
    using tags_of_snoc_last [of ys h ts] by blast
  ultimately show ?thesis using join by simp
next
  case (push ys h ts)
  obtain us where "tags_of (ys @ [(h, ts)]) = us @ [(last ts, False)]"
      "tags_of (ys @ [(h, ts), (g, [t])]) = us @ [(last ts, True), (t, False)]"
    using tags_of_snoc_last [of ys h ts] by blast
  with push show ?thesis by simp
qed

text \<open>Appending a node, and rewriting the mark of the node that was the last.\<close>

definition nodes_enq :: "ptr \<Rightarrow> ptr \<Rightarrow> ptr \<Rightarrow> bool \<Rightarrow> (ptr \<Rightarrow> task_list_node) \<Rightarrow> ptr \<Rightarrow> task_list_node" where
  "nodes_enq oldt tags t b nd = nd(tags := \<lparr>it_next = NULL, st_task_and_last = t\<rparr>,
     oldt := \<lparr>it_next = tags, st_task_and_last = (st_task_and_last (nd oldt) AND NOT 1) OR (if b then 1 else 0)\<rparr>)"

lemma nodes_enq_squeue:
  assumes "squeue (it_next \<circ> nd) h oldt ns" and "tags \<noteq> NULL" and "tags \<notin> set (h # ns)"
  shows "squeue (it_next \<circ> nodes_enq oldt tags t b nd) h tags (ns @ [tags])"
  using squeue_enq [OF assms] by (simp add: nodes_enq_def heap_simps)

lemma even_tag:
  fixes p :: ptr
  assumes "p AND 1 = 0"
  shows "p AND NOT 1 = p"
proof (rule bit_word_eqI)
  fix n
  have "\<not> bit p 0" using assms by (simp add: and_one_eq bit_0 even_iff_mod_2_eq_zero)
  then show "bit (p AND NOT 1) n \<longleftrightarrow> bit p n" if "n < LENGTH(64)"
    using that by (cases n) (auto simp: bit_simps)
qed

lemma nodes_enq_tags:
  assumes q: "squeue (it_next \<circ> nd) h oldt ns" and tags: "tags \<notin> set (h # ns)" and t: "t AND 1 = 0"
  shows "map (node_tag \<circ> nodes_enq oldt tags t b nd) (ns @ [tags]) =
    (if ns = [] then [(t, False)]
     else butlast (map (node_tag \<circ> nd) ns) @ [(fst (last (map (node_tag \<circ> nd) ns)), b), (t, False)])"
proof -
  have even: "t AND NOT 1 = t"
    using t by (rule even_tag)
  show ?thesis
  proof (cases ns rule: rev_cases)
    case Nil
    with q tags even t show ?thesis by (auto simp: squeue_def nodes_enq_def node_tag_def)
  next
    case (snoc ms m)
    with q have m: "oldt = m" "m \<notin> set ms" by (auto simp: squeue_def)
    have "map (node_tag \<circ> nodes_enq oldt tags t b nd) ms = map (node_tag \<circ> nd) ms"
      using m tags snoc by (auto simp: nodes_enq_def)
    with snoc m tags even t show ?thesis
      by (auto simp: nodes_enq_def node_tag_def)
  qed
qed

lemma of_nat_le_1: "n < 2 ^ LENGTH('a) \<Longrightarrow> (of_nat n :: 'a::len word) \<le> 1 \<longleftrightarrow> n \<le> 1"
  by (cases "LENGTH('a) = 0") (simp_all add: word_le_nat_alt unat_of_nat)

lemma length_gens_flat: "gens_ok xs \<Longrightarrow> length xs \<le> length (concat (map (\<lambda>(g, ts). map (Pair g) ts) xs))"
proof (induction xs)
  case Nil
  then show ?case by simp
next
  case (Cons x xs)
  obtain g ts where "x = (g, ts)" by (cases x)
  with Cons show ?case by (cases ts) (auto simp: gens_ok_Cons gen_ok_def)
qed

lemma length_all_gens: "q_ok q \<Longrightarrow> length (all_gens q) \<le> length (flat q)"
  using length_gens_flat [of "all_gens q"] by (simp add: q_ok_def flat_def)

lemma md_repr_gens: "md_repr s md ns q \<Longrightarrow> length (all_gens q) < 2 ^ 32"
  using length_all_gens [of q] by (simp add: md_repr_def)

text \<open>The two bit tests of the code decide whether the access starts at once and whether it opens
  a generation.\<close>

lemma md_ready:
  assumes "md_repr s md ns q"
  shows "joins_bits (youngest_group (mds s md)) (group_code g) \<and> num_gens (mds s md) \<le> 1 \<longleftrightarrow> q_ready g q"
proof (cases "running q")
  case None
  with assms show ?thesis by (simp add: md_repr_def q_ok_def all_gens_def q_ready_def)
next
  case (Some r)
  obtain h ts where r: "r = (h, ts)" by (cases r)
  have "of_nat (length (all_gens q)) \<le> (1 :: 32 word) \<longleftrightarrow> waiting q = []"
    using assms md_repr_gens [OF assms] Some r of_nat_le_1 [of "length (all_gens q)", where 'a = 32]
    by (simp add: md_repr_def all_gens_def)
  with assms Some r show ?thesis
    by (cases "waiting q = []") (auto simp: md_repr_def q_ready_def all_gens_def)
qed

lemma md_pushes:
  assumes "md_repr s md ns q"
  shows "pushes_bits (youngest_group (mds s md)) (group_code g) \<longleftrightarrow>
    (all_gens q = [] \<or> \<not> joins_with g (fst (last (all_gens q))))"
  using assms by (auto simp: md_repr_def)

lemma md_repr_cong:
  "md_repr s md ns q \<Longrightarrow> nodes s' = nodes s \<Longrightarrow> mds s' md = (mds s md)\<lparr>md_mutex := m\<rparr> \<Longrightarrow> md_repr s' md ns q"
  by (simp add: md_repr_def)

lemma md_repr_mutex [simp]: "md_repr (upd_md md (md_mutex_update f) s) md ns q \<longleftrightarrow> md_repr s md ns q"
  by (simp add: md_repr_def)

lemma md_repr_pfs [simp]: "md_repr (upd_pf t f s) md ns q \<longleftrightarrow> md_repr s md ns q"
  by (simp add: md_repr_def)

lemma lock_md_free: "spin_lock (md_mutex (mds s md)) = 0 \<Longrightarrow>
    lock_md md s = Some (upd_md md (md_mutex_update (\<lambda>m. m\<lparr>spin_lock := 1\<rparr>)) s)"
  by (cases "mds s md") (simp add: lock_md_def upd_md_def)

text \<open>What the assertions at the end of \<open>add_task\<close> say of a represented queue.\<close>

lemma md_repr_assert:
  assumes r: "md_repr s md ns q" and ne: "all_gens q \<noteq> []"
  shows "num_gens (mds s md) \<le> 1 \<longleftrightarrow> it_next (nodes s (tasks_head (mds s md))) = NULL" and "num_gens (mds s md) > 0"
proof -
  have len: "length (all_gens q) < 2 ^ LENGTH(32)" and n: "num_gens (mds s md) = of_nat (length (all_gens q))"
    using r md_repr_gens [OF r] by (simp_all add: md_repr_def)
  have "map (node_tag \<circ> nodes s) ns = tags_of (waiting q)" using r by (simp add: md_repr_def)
  then have "ns = [] \<longleftrightarrow> waiting q = []" by (metis map_is_Nil_conv tags_of_Nil)
  moreover have "length (all_gens q) \<le> 1 \<longleftrightarrow> waiting q = []"
    using r ne by (auto simp: md_repr_def q_ok_def all_gens_def split: option.splits)
  ultimately show "num_gens (mds s md) \<le> 1 \<longleftrightarrow> it_next (nodes s (tasks_head (mds s md))) = NULL"
    using r n of_nat_le_1 [OF len] squeue_head_NULL [of "it_next \<circ> nodes s" "tasks_head (mds s md)" "tasks_tail (mds s md)" ns]
    by (simp add: md_repr_def)
  show "num_gens (mds s md) > 0"
    using n ne len by (simp add: word_neq_0_conv [symmetric] word_of_nat_eq_0_iff del: word_neq_0_conv)
      (auto dest: nat_dvd_not_less [rotated])
qed

lemma md_repr_ready_add:
  assumes r: "md_repr s md ns q" and ready: "q_ready g q"
    and small: "length (flat q) < 2 ^ 32 - 1"
  shows "md_repr (upd_md md (\<lambda>m. m\<lparr>
      num_gens := num_gens m + (if pushes_bits (youngest_group (mds s md)) (group_code g) then 1 else 0),
      oldest_num_tasks := oldest_num_tasks m + 1, youngest_group := group_code g\<rparr>)
    (upd_node tags (st_task_and_last_update f) s)) md ns (q_add g t q)"
proof -
  let ?nd = "(nodes s)(tags := st_task_and_last_update f (nodes s tags))"
  have nx: "it_next \<circ> ?nd = it_next \<circ> nodes s" by (simp add: fun_eq_iff)
  have "q_ok q" using r by (simp add: md_repr_def)
  then have ok: "q_ok (q_add g t q)" and flat: "length (flat (q_add g t q)) < 2 ^ 32"
    using small by (simp_all add: q_ok_add flat_add)
  show ?thesis
  proof (cases "running q")
    case None
    with r have "all_gens q = []" "waiting q = []" by (auto simp: md_repr_def q_ok_def all_gens_def)
    moreover from r this have "ns = []" by (simp add: md_repr_def)
    ultimately show ?thesis
      using r ok flat None nx md_pushes [OF r, of g] by (simp add: md_repr_def q_add_def all_gens_def)
  next
    case (Some x)
    obtain h ts where x: "x = (h, ts)" by (cases x)
    have w: "waiting q = []" and j: "joins_with g h" using ready Some x by (simp_all add: q_ready_def)
    then have all: "all_gens q = [(h, ts)]" and "flat q = map (Pair h) ts"
      using Some x by (simp_all add: all_gens_def flat_def)
    then have "length ts < 2 ^ 32 - 1" using small by simp
    then have len: "length ts + 1 < 2 ^ 32" by simp
    have "all_gens (q_add g t q) = [(h, ts @ [t])]" and "running (q_add g t q) = Some (h, ts @ [t])"
        and "waiting (q_add g t q) = []"
      using Some x w ready by (simp_all add: q_add_def all_gens_def)
    moreover have "ns = []" using r w by (simp add: md_repr_def)
    moreover have "g = h" using j by (rule joins_withD [THEN conjunct1])
    moreover have "\<not> pushes_bits (youngest_group (mds s md)) (group_code g)"
      using md_pushes [OF r, of g] all j by simp
    ultimately show ?thesis
      using r ok flat nx len all w Some x by (simp add: md_repr_def)
  qed
qed

lemma length_wait_add: "length (wait_add g t ws) =
    length ws + (if ws \<noteq> [] \<and> joins_with g (fst (last ws)) then 0 else 1)"
  by (cases rule: wait_add_cases [of ws g t]) auto

lemma fst_last_wait_add: "fst (last (wait_add g t ws)) = g"
  by (cases rule: wait_add_cases [of ws g t]) (auto simp: joins_with_def)

lemma md_repr_wait_add:
  assumes r: "md_repr s md ns q" and wait: "\<not> q_ready g q"
    and small: "length (flat q) < 2 ^ 32 - 1" and t: "t AND 1 = 0"
    and tags: "tags \<noteq> NULL" "tags \<notin> set (tasks_head (mds s md) # ns)"
    and nd: "nodes s' = nodes_enq (tasks_tail (mds s md)) tags t
               (pushes_bits (youngest_group (mds s md)) (group_code g)) (nodes s)"
    and md: "mds s' md = (mds s md)\<lparr>
      num_gens := num_gens (mds s md) + (if pushes_bits (youngest_group (mds s md)) (group_code g) then 1 else 0),
      youngest_group := group_code g, tasks_tail := tags, md_mutex := m\<rparr>"
  shows "md_repr s' md (ns @ [tags]) (q_add g t q)"
proof -
  obtain h ts where run: "running q = Some (h, ts)" using wait by (cases "running q") (auto simp: q_ready_def)
  have all: "all_gens q = (h, ts) # waiting q" using run by (simp add: all_gens_def)
  have add: "q_add g t q = q\<lparr>waiting := wait_add g t (waiting q)\<rparr>" using run wait by (simp add: q_add_def)
  then have all': "all_gens (q_add g t q) = (h, ts) # wait_add g t (waiting q)"
    using run by (simp add: all_gens_def)
  define b where "b = pushes_bits (youngest_group (mds s md)) (group_code g)"
  have b: "b \<longleftrightarrow> waiting q = [] \<or> \<not> joins_with g (fst (last (waiting q)))"
    using md_pushes [OF r, of g] wait run all by (auto simp: b_def q_ready_def)
  have sq: "squeue (it_next \<circ> nodes s) (tasks_head (mds s md)) (tasks_tail (mds s md)) ns"
    and mp: "map (node_tag \<circ> nodes s) ns = tags_of (waiting q)" and ok: "q_ok q"
    using r by (simp_all add: md_repr_def)
  have "squeue (it_next \<circ> nodes s') (tasks_head (mds s' md)) (tasks_tail (mds s' md)) (ns @ [tags])"
    using nodes_enq_squeue [OF sq tags, of t b] by (simp add: nd md b_def)
  moreover have "map (node_tag \<circ> nodes s') (ns @ [tags]) = tags_of (waiting (q_add g t q))"
  proof -
    have "gens_ok (waiting q)" using ok all by (simp add: q_ok_def gens_ok_Cons)
    moreover have "ns = [] \<longleftrightarrow> waiting q = []" using mp by (metis map_is_Nil_conv tags_of_Nil)
    ultimately show ?thesis
      using b unfolding nd nodes_enq_tags [OF sq tags(2) t] mp
      by (simp add: add tags_of_wait_add b_def)
  qed
  moreover have len: "length (all_gens (q_add g t q)) = length (all_gens q) + (if b then 1 else 0)"
    using all all' b by (simp add: length_wait_add)
  moreover have "length (all_gens q) < 2 ^ 32 - 1"
    using length_all_gens [OF ok] small by simp
  moreover have "q_ok (q_add g t q)" "length (flat (q_add g t q)) < 2 ^ 32"
    using ok small by (simp_all add: q_ok_add flat_add)
  moreover have "num_gens (mds s' md) = of_nat (length (all_gens (q_add g t q)))"
  proof -
    have "num_gens (mds s' md) = num_gens (mds s md) + (if b then 1 else 0)" unfolding b_def md by simp
    moreover have "num_gens (mds s md) = of_nat (length (all_gens q))" using r by (simp add: md_repr_def)
    ultimately show ?thesis by (simp only: len of_nat_add split: if_split) simp
  qed
  moreover have run': "running (q_add g t q) = running q" by (simp add: add)
  then have "oldest_num_tasks (mds s' md) = of_nat (case running (q_add g t q) of None \<Rightarrow> 0 | Some (h, ts) \<Rightarrow> length ts)"
    using r by (simp add: md_repr_def md)
  moreover have "youngest_group (mds s' md) = group_code (fst (last (all_gens (q_add g t q))))"
    using fst_last_wait_add [of g t "waiting q"] by (simp add: md all')
  moreover have "all_gens (q_add g t q) \<noteq> []" by (simp add: all')
  ultimately show ?thesis
    using r run run' unfolding md_repr_def by simp
qed

subsection \<open>Adding refines the queue\<close>

lemma add_task_ready:
  assumes r: "md_repr s md ns q" and free: "spin_lock (md_mutex (mds s md)) = 0" and t: "t \<noteq> NULL"
    and small: "length (flat q) < 2 ^ 32 - 1" and tags: "tags \<notin> set (tasks_head (mds s md) # ns)"
    and ready: "q_ready g q"
  shows "\<exists>s'. obj_metadata_add_task t md tags (group_code g) s = Some s' \<and> md_repr s' md ns (q_add g t q) \<and>
    spin_lock (md_mutex (mds s' md)) = 0 \<and> tasks_head (mds s' md) = tasks_head (mds s md) \<and> pfs s' = pfs s"
proof -
  let ?s0 = "upd_node tags (st_task_and_last_update (\<lambda>_. t)) s"
  let ?f = "\<lambda>m. m\<lparr>num_gens := num_gens m + (if pushes_bits (youngest_group (mds s md)) (group_code g) then 1 else 0),
      oldest_num_tasks := oldest_num_tasks m + 1, youngest_group := group_code g\<rparr>"
  let ?lock = "upd_md md (md_mutex_update (\<lambda>m. m\<lparr>spin_lock := 1\<rparr>))"
  have "md_repr (upd_md md ?f ?s0) md ns (q_add g t q)"
    by (rule md_repr_ready_add [OF r ready small])
  then have repr: "md_repr (upd_md md ?f (?lock ?s0)) md ns (q_add g t q)"
    by (rule md_repr_cong [where m = "(md_mutex (mds s md))\<lparr>spin_lock := 1\<rparr>"]) (simp, cases "mds s md", simp)
  have "all_gens (q_add g t q) \<noteq> []"
    by (auto simp: q_add_def all_gens_def split: option.splits)
  note asserts = md_repr_assert [OF repr this]
  have bits: "(youngest_group (mds s md) AND ((group_code g OR CILK_OBJ_GROUP_EMPTY) AND CILK_OBJ_GROUP_NOT_WRITE) \<noteq> 0 \<and>
      num_gens (mds s md) \<le> 1) = True"
    using md_ready [OF r, of g] ready by (simp add: joins_bits_def)
  have "obj_metadata_add_task t md tags (group_code g) s = Some (unlock_md md (upd_md md ?f (?lock ?s0)))"
    using asserts t bits free
    unfolding obj_metadata_add_task_def by (simp add: lock_md_free Let_def pushes_bits_def)
  moreover have "md_repr (unlock_md md (upd_md md ?f (?lock ?s0))) md ns (q_add g t q)"
    using repr by (simp add: unlock_md_def del: upd_md_sel)
  moreover have "spin_lock (md_mutex (mds (unlock_md md (upd_md md ?f (?lock ?s0))) md)) = 0"
      "tasks_head (mds (unlock_md md (upd_md md ?f (?lock ?s0))) md) = tasks_head (mds s md)"
      "pfs (unlock_md md (upd_md md ?f (?lock ?s0))) = pfs s"
    by (simp_all add: unlock_md_def)
  ultimately show ?thesis by blast
qed

lemma add_task_wait:
  assumes r: "md_repr s md ns q" and free: "spin_lock (md_mutex (mds s md)) = 0" and t: "t \<noteq> NULL" "t AND 1 = 0"
    and small: "length (flat q) < 2 ^ 32 - 1"
    and tags: "tags \<noteq> NULL" "tags \<notin> set (tasks_head (mds s md) # ns)"
    and wait: "\<not> q_ready g q"
  shows "\<exists>s'. obj_metadata_add_task t md tags (group_code g) s = Some s' \<and> md_repr s' md (ns @ [tags]) (q_add g t q) \<and>
    spin_lock (md_mutex (mds s' md)) = 0 \<and> tasks_head (mds s' md) = tasks_head (mds s md) \<and>
    pfs s' = (pfs s)(t := incoming_count_update (\<lambda>c. c + 1) (pfs s t))"
proof -
  let ?m = "mds s md"
  let ?b = "pushes_bits (youngest_group ?m) (group_code g)"
  let ?s0 = "upd_md md (md_mutex_update (\<lambda>m. m\<lparr>spin_lock := 1\<rparr>)) (upd_node tags (st_task_and_last_update (\<lambda>_. t)) s)"
  let ?s2 = "upd_md md (\<lambda>m. m\<lparr>num_gens := num_gens m + (if ?b then 1 else 0),
      oldest_num_tasks := oldest_num_tasks m + 0, youngest_group := group_code g\<rparr>) ?s0"
  let ?s21 = "upd_pf t (incoming_count_update (\<lambda>c. c + 1)) ?s2"
  let ?s23 = "upd_node (tasks_tail ?m) (it_next_update (\<lambda>_. tags)) (upd_node tags (it_next_update (\<lambda>_. NULL)) ?s21)"
  let ?s24 = "upd_node (tasks_tail ?m) (st_task_and_last_update (\<lambda>p. (p AND NOT 1) OR (if ?b then 1 else 0))) ?s23"
  let ?s3 = "upd_md md (tasks_tail_update (\<lambda>_. tags)) ?s24"
  have "tasks_tail ?m \<noteq> tags"
    using r tags squeue_tail_in [of "it_next \<circ> nodes s" "tasks_head ?m" "tasks_tail ?m" ns] by (auto simp: md_repr_def)
  then have nodes: "nodes ?s3 = nodes_enq (tasks_tail ?m) tags t ?b (nodes s)"
    by (simp add: nodes_enq_def fun_eq_iff)
  have repr: "md_repr ?s3 md (ns @ [tags]) (q_add g t q)"
    by (rule md_repr_wait_add [OF r wait small t(2) tags nodes, where m = "(md_mutex ?m)\<lparr>spin_lock := 1\<rparr>"])
      (cases ?m, simp)
  have "all_gens (q_add g t q) \<noteq> []"
    by (auto simp: q_add_def all_gens_def split: option.splits)
  note asserts = md_repr_assert [OF repr this]
  have bits: "(youngest_group ?m AND ((group_code g OR CILK_OBJ_GROUP_EMPTY) AND CILK_OBJ_GROUP_NOT_WRITE) \<noteq> 0 \<and>
      num_gens ?m \<le> 1) = False"
    using md_ready [OF r, of g] wait by (simp add: joins_bits_def)
  then have bits': "num_gens ?m \<le> 1 \<Longrightarrow>
      (youngest_group ?m AND ((group_code g OR CILK_OBJ_GROUP_EMPTY) AND CILK_OBJ_GROUP_NOT_WRITE)) = 0" by blast
  have "obj_metadata_add_task t md tags (group_code g) s = Some (unlock_md md ?s3)"
    unfolding obj_metadata_add_task_def Let_def
    using asserts t(1) free unfolding pushes_bits_def
    by (cases "num_gens ?m \<le> 1") (simp_all add: lock_md_free bits' cong: if_cong)
  moreover have "md_repr (unlock_md md ?s3) md (ns @ [tags]) (q_add g t q)"
    unfolding unlock_md_def md_repr_mutex by (rule repr)
  moreover have "spin_lock (md_mutex (mds (unlock_md md ?s3) md)) = 0"
      "tasks_head (mds (unlock_md md ?s3) md) = tasks_head (mds s md)"
      "pfs (unlock_md md ?s3) = (pfs s)(t := incoming_count_update (\<lambda>c. c + 1) (pfs s t))"
    by (simp_all add: unlock_md_def)
  ultimately show ?thesis by blast
qed

subsection \<open>Waking refines the queue\<close>

lemma wakeup_loop_gen:
  assumes sq: "squeue (it_next \<circ> nodes s) h e ns"
    and tags: "map (node_tag \<circ> nodes s) ns = tags_of ((g, us) # gs)" and us: "us \<noteq> []"
  obtains ms where "wakeup_loop rl (it_next (nodes s h)) 0 s =
      Some (if gs = [] then NULL else hd ms, of_nat (length us), fold (release1 rl) us s)"
    and "squeue ((it_next \<circ> nodes s)(h := if gs = [] then NULL else hd ms)) h (if gs = [] then h else e) ms"
    and "map (node_tag \<circ> nodes s) ms = tags_of gs" and "set ms \<subseteq> set ns"
proof -
  define ns1 where "ns1 = take (length us) ns"
  define ns2 where "ns2 = drop (length us) ns"
  have split: "ns = ns1 @ ns2" by (simp add: ns1_def ns2_def)
  have tags1: "map (node_tag \<circ> nodes s) ns1 = map (\<lambda>t. (t, False)) (butlast us) @ [(last us, gs \<noteq> [])]"
    using us by (cases us rule: rev_cases) (simp_all add: ns1_def take_map [symmetric] tags del: map_map)
  have tags2: "map (node_tag \<circ> nodes s) ns2 = tags_of gs"
    using us by (cases us rule: rev_cases) (simp_all add: ns2_def drop_map [symmetric] tags del: map_map)
  have ns2: "ns2 = [] \<longleftrightarrow> gs = []" using tags2 by (metis map_is_Nil_conv tags_of_Nil)
  have "map fst (map (node_tag \<circ> nodes s) ns1) = butlast us @ [last us]"
    unfolding tags1 by (simp add: o_def)
  then have tasks: "map (node_task s) ns1 = us"
    using us by (simp add: o_def node_tag_def node_task_def [abs_def])
  then have ns1: "ns1 \<noteq> []" "length ns1 = length us" using us by auto
  have last1: "map snd (map (node_tag \<circ> nodes s) ns1) = map (\<lambda>_. False) (butlast us) @ [gs \<noteq> []]"
    unfolding tags1 by (simp add: o_def)
  then have lasts: "map (node_last s) ns1 = map (\<lambda>_. False) (butlast us) @ [gs \<noteq> []]"
    by (simp add: o_def node_tag_def node_last_def [abs_def])
  have nolast: "\<not> node_last s n" if "n \<in> set (butlast ns1)" for n
  proof -
    have "map (node_last s) (butlast ns1) = map (\<lambda>_. False) (butlast us)"
      using lasts by (simp add: map_butlast)
    then have "node_last s ` set (butlast ns1) \<subseteq> {False}"
      by (metis (no_types, lifting) image_subsetI list.set_map singletonI)
    with that show ?thesis by auto
  qed
  have "node_last s (last ns1) \<longleftrightarrow> gs \<noteq> []"
    using arg_cong [OF lasts, of last] ns1(1) by (simp add: last_map)
  then have lst: "node_last s (last ns1)" if "ns2 \<noteq> []" using that ns2 by simp
  have path: "lpath (it_next \<circ> nodes s) (it_next (nodes s h)) (ns1 @ ns2) NULL"
    using sq split by (simp add: squeue_def)
  have "wakeup_loop rl (it_next (nodes s h)) 0 s =
      Some (if ns2 = [] then NULL else hd ns2, 0 + of_nat (length ns1), fold (release1 rl) (map (node_task s) ns1) s)"
    by (rule wakeup_loop_path [OF path ns1(1) nolast lst])
  moreover have "squeue ((it_next \<circ> nodes s)(h := if gs = [] then NULL else hd ns2)) h (if gs = [] then h else e) ns2"
  proof (cases "gs = []")
    case True
    with sq ns2 show ?thesis by (simp add: squeue_def)
  next
    case False
    then have "ns2 \<noteq> []" using ns2 by simp
    moreover obtain r where "lpath (it_next \<circ> nodes s) r ns2 NULL"
      using sq split by (auto simp: squeue_def lpath_append)
    moreover from this have "r = hd ns2" using lpath_hd \<open>ns2 \<noteq> []\<close> by fastforce
    ultimately show ?thesis
      using squeue_drop [of "it_next \<circ> nodes s" h e ns1 ns2 r] sq split False by simp
  qed
  ultimately show ?thesis
    using that [of ns2] tags2 ns2 tasks ns1 split by simp
qed

lemma release_cong:
  "pfs s = pfs s' \<Longrightarrow> rl_tail s = rl_tail s' \<Longrightarrow>
   pfs (fold (release1 rl) ts s) = pfs (fold (release1 rl) ts s') \<and>
   rl_tail (fold (release1 rl) ts s) = rl_tail (fold (release1 rl) ts s')"
proof (induction ts arbitrary: s s')
  case Nil
  then show ?case by simp
next
  case (Cons t ts)
  have "pfs (release1 rl t s) = pfs (release1 rl t s') \<and> rl_tail (release1 rl t s) = rl_tail (release1 rl t s')"
    unfolding release1_def rl_push_def Let_def by (simp add: Cons.prems)
  then show ?case unfolding fold_Cons comp_apply by (elim conjE) (rule Cons.IH)
qed

lemma of_nat_pos_iff: "n < 2 ^ LENGTH('a) \<Longrightarrow> (of_nat n :: 'a::len word) > 0 \<longleftrightarrow> n > 0"
  by (simp add: word_less_nat_alt unat_of_nat)

lemma of_nat_eq_1_iff: "n < 2 ^ LENGTH('a) \<Longrightarrow> 1 < LENGTH('a) \<Longrightarrow> (of_nat n :: 'a::len word) = 1 \<longleftrightarrow> n = 1"
  by (simp add: word_unat_eq_iff unat_of_nat)

lemma ucast_of_nat_32: "n < 2 ^ 32 \<Longrightarrow> (ucast (of_nat n :: 32 word) :: 64 word) = of_nat n"
  by transfer (simp add: take_bit_int_eq_self)

lemma wakeup_enter:
  assumes r: "md_repr s md ns q" and free: "spin_lock (md_mutex (mds s md)) = 0"
    and run: "running q = Some (h, ts)"
  defines "s2 \<equiv> upd_md md (oldest_num_tasks_update (\<lambda>n. n - 1)) (upd_md md (md_mutex_update (\<lambda>m. m\<lparr>spin_lock := 1\<rparr>)) s)"
  shows "obj_metadata_wakeup rl md s =
    (if length ts > 1 then Some (unlock_md md s2)
     else if waiting q = [] then Some (unlock_md md (upd_md md (\<lambda>m. m\<lparr>num_gens := 0, youngest_group := CILK_OBJ_GROUP_EMPTY\<rparr>) s2))
     else obj_metadata_wakeup_hard rl md s2)"
    and "oldest_num_tasks (mds s2 md) = of_nat (length ts - 1)"
proof -
  have ts: "ts \<noteq> []" using r run by (auto simp: md_repr_def dest: q_ok_running)
  have len: "length ts < 2 ^ LENGTH(64)" "length (all_gens q) < 2 ^ LENGTH(32)"
    using r run md_repr_gens [OF r] by (auto simp: md_repr_def flat_def all_gens_def)
  have "oldest_num_tasks (mds s md) = of_nat (length ts)" using r run by (simp add: md_repr_def)
  then show old: "oldest_num_tasks (mds s2 md) = of_nat (length ts - 1)"
    using ts by (cases ts) (simp_all add: s2_def)
  have "oldest_num_tasks (mds s2 md) > 0 \<longleftrightarrow> length ts > 1"
    using old len of_nat_pos_iff [of "length ts - 1", where 'a = 64] by simp
  moreover have "num_gens (mds s2 md) = 1 \<longleftrightarrow> waiting q = []"
  proof -
    have "num_gens (mds s2 md) = of_nat (length (all_gens q))" using r by (simp add: md_repr_def s2_def)
    then show ?thesis using len of_nat_eq_1_iff [of "length (all_gens q)", where 'a = 32] run by (simp add: all_gens_def)
  qed
  ultimately show "obj_metadata_wakeup rl md s =
    (if length ts > 1 then Some (unlock_md md s2)
     else if waiting q = [] then Some (unlock_md md (upd_md md (\<lambda>m. m\<lparr>num_gens := 0, youngest_group := CILK_OBJ_GROUP_EMPTY\<rparr>) s2))
     else obj_metadata_wakeup_hard rl md s2)"
    using free unfolding obj_metadata_wakeup_def by (simp add: lock_md_free s2_def [symmetric] Let_def del: upd_md_sel)
qed

lemma wakeup_hard_queue:
  assumes r: "md_repr s md ns q" and run: "running q = Some (h, [t])" and w: "waiting q = (g, us) # gs"
    and nd: "nodes s2 = nodes s" and md: "mds s2 md = (mds s md)\<lparr>oldest_num_tasks := x, md_mutex := m\<rparr>"
  shows "\<exists>s' ms. obj_metadata_wakeup_hard rl md s2 = Some s' \<and>
    md_repr s' md ms \<lparr>running = Some (g, us), waiting = gs\<rparr> \<and> set ms \<subseteq> set ns \<and> spin_lock (md_mutex (mds s' md)) = 0 \<and>
    tasks_head (mds s' md) = tasks_head (mds s md) \<and>
    pfs s' = pfs (fold (release1 rl) us s2) \<and> rl_tail s' = rl_tail (fold (release1 rl) us s2)"
proof -
  let ?h = "tasks_head (mds s md)"
  let ?q' = "\<lparr>running = Some (g, us), waiting = gs\<rparr>"
  have all: "all_gens q = (h, [t]) # (g, us) # gs" "all_gens ?q' = (g, us) # gs"
    using run w by (simp_all add: all_gens_def)
  have ok: "q_ok ?q'" and us: "us \<noteq> []"
    using r all by (auto simp: md_repr_def q_ok_def gens_ok_Cons gen_ok_def)
  have flat: "length (flat ?q') < 2 ^ 32" "length us < 2 ^ 32"
    using r all by (simp_all add: md_repr_def flat_def)
  have sq: "squeue (it_next \<circ> nodes s2) ?h (tasks_tail (mds s md)) ns"
    and tags: "map (node_tag \<circ> nodes s2) ns = tags_of ((g, us) # gs)"
    using r w nd by (simp_all add: md_repr_def)
  obtain ms where loop: "wakeup_loop rl (it_next (nodes s2 ?h)) 0 s2 =
      Some (if gs = [] then NULL else hd ms, of_nat (length us), fold (release1 rl) us s2)"
    and sq': "squeue ((it_next \<circ> nodes s2)(?h := if gs = [] then NULL else hd ms)) ?h
        (if gs = [] then ?h else tasks_tail (mds s md)) ms"
    and tags': "map (node_tag \<circ> nodes s2) ms = tags_of gs" and sub: "set ms \<subseteq> set ns"
    using wakeup_loop_gen [OF sq tags us] by blast
  have ms: "ms = [] \<longleftrightarrow> gs = []" using tags' by (metis map_is_Nil_conv tags_of_Nil)
  have "ms = [] \<or> hd ms \<noteq> NULL"
    using sq' by (cases ms) (auto simp: squeue_def)
  with ms have i_next: "(if gs = [] then NULL else hd ms) \<noteq> NULL \<longleftrightarrow> gs \<noteq> []" by auto
  let ?s1 = "fold (release1 rl) us s2"
  let ?n = "num_gens (mds s md) - 1"
  let ?m' = "(mds s md)\<lparr>oldest_num_tasks := of_nat (length us), num_gens := ?n, md_mutex := spin_mutex_unlock m,
     tasks_tail := if gs = [] then ?h else tasks_tail (mds s md)\<rparr>"
  have n: "?n = of_nat (length (all_gens ?q'))"
    using r all by (simp add: md_repr_def)
  have "?n \<noteq> 0"
    using n flat(1) length_all_gens [OF ok] all(2) of_nat_pos_iff [of "length (all_gens ?q')", where 'a = 32]
    by (simp del: of_nat_Suc)
  then obtain s' where s': "obj_metadata_wakeup_hard rl md s2 = Some s'" "mds s' md = ?m'" "pfs s' = pfs ?s1"
      "rl_tail s' = rl_tail ?s1" and
      nodes': "nodes s' = (nodes s2)(?h := (nodes s2 ?h)\<lparr>it_next := if gs = [] then NULL else hd ms\<rparr>)"
    using loop i_next ucast_of_nat_32 [OF flat(2)] md unfolding obj_metadata_wakeup_hard_def Let_def
    by (cases "mds s md"; cases "gs = []") (auto simp: unlock_md_def)
  have h: "?h \<notin> set ms" using sq' by (simp add: squeue_def)
  have "map (node_tag \<circ> nodes s') ms = map (node_tag \<circ> nodes s2) ms"
    using h by (intro map_cong) (auto simp: nodes')
  then have "map (node_tag \<circ> nodes s') ms = tags_of gs" using tags' by simp
  moreover have "squeue (it_next \<circ> nodes s') (tasks_head (mds s' md)) (tasks_tail (mds s' md)) ms"
    using sq' by (simp add: nodes' s'(2) heap_simps)
  ultimately have "md_repr s' md ms ?q'"
    using r n ok flat all unfolding md_repr_def by (simp add: s'(2))
  with s' sub show ?thesis by auto
qed

theorem wakeup_refines:
  assumes r: "md_repr s md ns q" and free: "spin_lock (md_mutex (mds s md)) = 0"
    and run: "running q = Some (h, ts)" and t: "t \<in> set ts"
  shows "\<exists>s' ms. obj_metadata_wakeup rl md s = Some s' \<and> md_repr s' md ms (q_finish t q) \<and> set ms \<subseteq> set ns \<and>
    spin_lock (md_mutex (mds s' md)) = 0 \<and> tasks_head (mds s' md) = tasks_head (mds s md) \<and>
    (let s1 = fold (release1 rl) (if ts = [t] then q_next q else []) s
     in pfs s' = pfs s1 \<and> rl_tail s' = rl_tail s1)"
proof -
  let ?s2 = "upd_md md (oldest_num_tasks_update (\<lambda>n. n - 1)) (upd_md md (md_mutex_update (\<lambda>m. m\<lparr>spin_lock := 1\<rparr>)) s)"
  note enter = wakeup_enter(1) [OF r free run, of rl] wakeup_enter(2) [OF r free run]
  have sq: "squeue (it_next \<circ> nodes s) (tasks_head (mds s md)) (tasks_tail (mds s md)) ns"
    and tags: "map (node_tag \<circ> nodes s) ns = tags_of (waiting q)"
    and ok: "q_ok (q_finish t q)"
    using r q_ok_finish by (auto simp: md_repr_def)
  have "(h, t) \<in> set (flat q)" using run t by (rule running_in_flat)
  then have flat: "length (flat (q_finish t q)) < 2 ^ 32"
    using r finish_shortens [OF run t] by (simp add: md_repr_def)
  show ?thesis
  proof (cases "length ts > 1")
    case True
    then obtain u us where rem: "remove1 t ts = u # us"
      using t by (cases "remove1 t ts") (auto simp: length_remove1 dest: arg_cong [of _ _ length])
    have "length (u # us) = length ts - 1" using t by (simp flip: rem add: length_remove1)
    moreover have q': "q_finish t q = q\<lparr>running := Some (h, u # us)\<rparr>" using run rem by (simp add: q_finish_def)
    moreover have "all_gens (q_finish t q) = (h, u # us) # waiting q" using q' by (simp add: all_gens_def)
    ultimately have "md_repr (unlock_md md ?s2) md ns (q_finish t q)"
      using r run ok flat enter(2) by (simp add: md_repr_def unlock_md_def all_gens_def)
    moreover have "ts \<noteq> [t]" using True by auto
    ultimately show ?thesis
      using enter(1) True by (intro exI [of _ "unlock_md md ?s2"] exI [of _ ns]) (simp add: unlock_md_def)
  next
    case False
    then have ts: "ts = [t]" using t by (cases ts) auto
    show ?thesis
    proof (cases "waiting q")
      case Nil
      let ?s' = "unlock_md md (upd_md md (\<lambda>m. m\<lparr>num_gens := 0, youngest_group := CILK_OBJ_GROUP_EMPTY\<rparr>) ?s2)"
      have "all_gens (q_finish t q) = []" "running (q_finish t q) = None" "waiting (q_finish t q) = []"
        using run ts Nil by (simp_all add: q_finish_def all_gens_def)
      moreover have "ns = []" using tags Nil by simp
      ultimately have "md_repr ?s' md ns (q_finish t q)"
        using r run ok flat enter(2) ts Nil by (simp add: md_repr_def unlock_md_def)
      then show ?thesis
        using enter(1) ts Nil by (intro exI [of _ ?s'] exI [of _ ns]) (simp add: unlock_md_def q_next_def)
    next
      case (Cons x gs)
      obtain g us where x: "x = (g, us)" by (cases x)
      have q': "q_finish t q = \<lparr>running = Some (g, us), waiting = gs\<rparr>"
        using run ts Cons x by (simp add: q_finish_def)
      have "mds ?s2 md = (mds s md)\<lparr>oldest_num_tasks := oldest_num_tasks (mds s md) - 1,
          md_mutex := (md_mutex (mds s md))\<lparr>spin_lock := 1\<rparr>\<rparr>"
        by (cases "mds s md") simp
      from wakeup_hard_queue [OF r run [unfolded ts] Cons [unfolded x] _ this, of rl]
      obtain s' ms where "obj_metadata_wakeup_hard rl md ?s2 = Some s'" "md_repr s' md ms (q_finish t q)"
          "set ms \<subseteq> set ns" "spin_lock (md_mutex (mds s' md)) = 0"
          "tasks_head (mds s' md) = tasks_head (mds s md)"
          "pfs s' = pfs (fold (release1 rl) us ?s2)" "rl_tail s' = rl_tail (fold (release1 rl) us ?s2)"
        unfolding q' by auto
      then show ?thesis
        using enter(1) ts Cons x release_cong [of ?s2 s rl us] by (auto simp: q_next_def Let_def)
    qed
  qed
qed

subsection \<open>Initialisation and the readiness test\<close>

lemma md_repr_init: "md_repr (obj_metadata_init md s) md [] q_empty"
proof -
  have "all_gens (q_empty :: ptr gqueue) = []" "flat (q_empty :: ptr gqueue) = []" by (simp_all add: all_gens_def flat_def q_empty_def)
  moreover have "running (q_empty :: ptr gqueue) = None" "waiting (q_empty :: ptr gqueue) = []" by (simp_all add: q_empty_def)
  ultimately show ?thesis
    by (simp add: md_repr_def obj_metadata_init_def task_list_init_def Let_def squeue_def)
qed

lemma lock_init: "spin_lock (md_mutex (mds (obj_metadata_init md s) md)) = 0"
  by (simp add: obj_metadata_init_def task_list_init_def Let_def)

lemma ini_ready_iff:
  assumes r: "md_repr s md ns q"
  shows "obj_metadata_ini_ready md (group_code g) s \<longleftrightarrow> q_ready g q"
proof (cases "running q")
  case None
  with r show ?thesis
    by (simp add: md_repr_def q_ok_def all_gens_def q_ready_def obj_metadata_ini_ready_def)
next
  case (Some x)
  obtain h ts where x: "x = (h, ts)" by (cases x)
  have len: "length (all_gens q) < 2 ^ LENGTH(32)" using md_repr_gens [OF r] by simp
  have num: "num_gens (mds s md) = of_nat (length (all_gens q))" using r by (simp add: md_repr_def)
  have "num_gens (mds s md) \<noteq> 0"
    using num len of_nat_pos_iff [of "length (all_gens q)", where 'a = 32] Some by (auto simp: all_gens_def)
  moreover have "num_gens (mds s md) = 1 \<longleftrightarrow> waiting q = []"
    using num len of_nat_eq_1_iff [of "length (all_gens q)", where 'a = 32] Some x by (simp add: all_gens_def)
  moreover have "waiting q = [] \<Longrightarrow> youngest_group (mds s md) = group_code h"
    using r Some x by (simp add: md_repr_def all_gens_def)
  ultimately show ?thesis
    using Some x joins_bits_code [of h g] by (auto simp: obj_metadata_ini_ready_def q_ready_def Let_def joins_bits_def)
qed

end
