(* ===== verification/Dataflow_Runs.thy ===== *)
theory Dataflow_Runs
  imports Dataflow
begin

text \<open>
  Runs of the dataflow operations on one object, on the store. \<open>df_run\<close> is every sequence of
  calls of \<open>obj_metadata_add_task\<close> (a spawn, in program order) and of \<open>obj_metadata_wakeup\<close>
  (a task with no dependence left has returned). The theorems speak of the store alone: a
  task whose \<open>incoming_count\<close> is 0 may run, and then every earlier conflicting task has
  finished; no assertion fails; and while a task is unfinished some unfinished task may run.
\<close>

subsection \<open>Runs\<close>

text \<open>\<open>I\<close> lists the accesses in issue order, \<open>F\<close> the tasks that have returned and \<open>T\<close> the
  addresses of the task list nodes that were handed in.\<close>

inductive df_run :: "ptr \<Rightarrow> ptr \<Rightarrow> rt \<Rightarrow> (group \<times> ptr) list \<Rightarrow> ptr set \<Rightarrow> ptr set \<Rightarrow> bool" for rl md where
  df_start: "df_run rl md (obj_metadata_init md s) [] {} {tasks_head (mds s md)}"
| df_issue: "df_run rl md s I F T \<Longrightarrow> t \<notin> snd ` set I \<Longrightarrow> t \<noteq> NULL \<Longrightarrow> t AND 1 = 0 \<Longrightarrow>
     incoming_count (pfs s t) = 0 \<Longrightarrow> tags \<noteq> NULL \<Longrightarrow> tags \<notin> T \<Longrightarrow> length I < 2 ^ 32 - 1 \<Longrightarrow>
     obj_metadata_add_task t md tags (group_code g) s = Some s' \<Longrightarrow>
     df_run rl md s' (I @ [(g, t)]) F (insert tags T)"
| df_return: "df_run rl md s I F T \<Longrightarrow> t \<in> snd ` set I \<Longrightarrow> t \<notin> F \<Longrightarrow> incoming_count (pfs s t) = 0 \<Longrightarrow>
     obj_metadata_wakeup rl md s = Some s' \<Longrightarrow> df_run rl md s' I (insert t F) T"

definition running_tasks :: "'t gqueue \<Rightarrow> 't list" where
  "running_tasks q = (case running q of None \<Rightarrow> [] | Some (h, ts) \<Rightarrow> ts)"

definition waiting_tasks :: "'t gqueue \<Rightarrow> 't list" where
  "waiting_tasks q = concat (map snd (waiting q))"

lemma flat_tasks: "map snd (flat q) = running_tasks q @ waiting_tasks q"
proof -
  have "map snd (concat (map (\<lambda>(g, ts). map (Pair g) ts) xs)) = concat (map snd xs)" for xs :: "'a gen list"
    by (induction xs) (auto simp: o_def)
  then show ?thesis
    by (auto simp: flat_def all_gens_def running_tasks_def waiting_tasks_def o_def split: option.splits)
qed

text \<open>The coupling of the store and the abstract history.\<close>

definition df_inv :: "ptr \<Rightarrow> rt \<Rightarrow> (group \<times> ptr) list \<Rightarrow> ptr set \<Rightarrow> ptr set \<Rightarrow> ptr history \<Rightarrow> ptr list \<Rightarrow> bool" where
  "df_inv md s I F T h ns \<longleftrightarrow>
     h_reachable h \<and> issued h = I \<and> finished h = F \<and> md_repr s md ns (queue h) \<and>
     spin_lock (md_mutex (mds s md)) = 0 \<and> set (tasks_head (mds s md) # ns) \<subseteq> T \<and>
     (\<forall>t \<in> set (running_tasks (queue h)). incoming_count (pfs s t) = 0) \<and>
     (\<forall>t \<in> set (waiting_tasks (queue h)). incoming_count (pfs s t) = 1)"

lemma df_inv_unfinished:
  assumes "df_inv md s I F T h ns" and "t \<in> snd ` set I" and "t \<notin> F"
  shows "t \<in> set (running_tasks (queue h)) \<longleftrightarrow> incoming_count (pfs s t) = 0"
proof -
  have "flat (queue h) = filter (\<lambda>x. snd x \<notin> F) I"
    using assms(1) history_ok_reachable [of h] by (simp add: df_inv_def history_ok_def)
  then have "t \<in> snd ` set (flat (queue h))" using assms(2,3) by auto
  then have "t \<in> set (running_tasks (queue h)) \<union> set (waiting_tasks (queue h))"
    using flat_tasks [of "queue h"] by (metis list.set_map set_append)
  with assms(1) show ?thesis by (auto simp: df_inv_def)
qed

lemma df_inv_start:
  "df_inv md (obj_metadata_init md s) [] {} {tasks_head (mds s md)} h_empty []"
proof -
  have "tasks_head (mds (obj_metadata_init md s) md) = tasks_head (mds s md)"
    by (simp add: obj_metadata_init_def task_list_init_def Let_def)
  moreover have "running_tasks (q_empty :: ptr gqueue) = []" "waiting_tasks (q_empty :: ptr gqueue) = []"
    by (simp_all add: running_tasks_def waiting_tasks_def q_empty_def)
  ultimately show ?thesis
    using md_repr_init lock_init h_start by (simp add: df_inv_def h_empty_def)
qed

lemma tasks_of_add:
  "running_tasks (q_add g t q) = running_tasks q @ (if q_ready g q then [t] else [])"
  "waiting_tasks (q_add g t q) = waiting_tasks q @ (if q_ready g q then [] else [t])"
proof -
  have "concat (map snd (wait_add g t ws)) = concat (map snd ws) @ [t]" for ws
    by (cases rule: wait_add_cases [of ws g t]) auto
  then show "running_tasks (q_add g t q) = running_tasks q @ (if q_ready g q then [t] else [])"
    and "waiting_tasks (q_add g t q) = waiting_tasks q @ (if q_ready g q then [] else [t])"
    by (auto simp: running_tasks_def waiting_tasks_def q_add_def q_ready_def split: option.splits)
qed

lemma tasks_of_finish:
  assumes "running q = Some (h, ts)" and "t \<in> set ts" and "q_ok q"
  shows "running_tasks (q_finish t q) = (if ts = [t] then q_next q else remove1 t ts)"
    and "waiting_tasks q = (if ts = [t] then q_next q else []) @ waiting_tasks (q_finish t q)"
proof -
  have "remove1 t ts = [] \<longleftrightarrow> ts = [t]" using assms(2) by (cases ts) auto
  then show "running_tasks (q_finish t q) = (if ts = [t] then q_next q else remove1 t ts)"
    and "waiting_tasks q = (if ts = [t] then q_next q else []) @ waiting_tasks (q_finish t q)"
    using assms(1) by (auto simp: running_tasks_def waiting_tasks_def q_finish_def q_next_def
        split: list.splits)
qed

lemma df_inv_issue:
  assumes inv: "df_inv md s I F T h ns" and t: "t \<notin> snd ` set I" "t \<noteq> NULL" "t AND 1 = 0" "incoming_count (pfs s t) = 0"
    and tags: "tags \<noteq> NULL" "tags \<notin> T" and small: "length I < 2 ^ 32 - 1"
  shows "\<exists>s' h' ns'. obj_metadata_add_task t md tags (group_code g) s = Some s' \<and>
    df_inv md s' (I @ [(g, t)]) F (insert tags T) h' ns'"
proof -
  let ?h' = "h\<lparr>queue := q_add g t (queue h), issued := issued h @ [(g, t)]\<rparr>"
  have reach: "h_reachable h" and I: "issued h = I" "finished h = F" and r: "md_repr s md ns (queue h)"
    and free: "spin_lock (md_mutex (mds s md)) = 0" and sub: "set (tasks_head (mds s md) # ns) \<subseteq> T"
    using inv by (simp_all add: df_inv_def)
  have "h_step h ?h'" using t(1) I by (auto intro: h_issue)
  then have reach': "h_reachable ?h'" using reach by (rule h_next [rotated])
  have flat: "flat (queue h) = filter (\<lambda>x. snd x \<notin> F) I"
    using history_ok_reachable [OF reach] I by (simp add: history_ok_def)
  have len: "length (flat (queue h)) < 2 ^ 32 - 1"
    unfolding flat using length_filter_le [of "\<lambda>x. snd x \<notin> F" I] small by (rule le_less_trans)
  have notin: "t \<notin> set (running_tasks (queue h)) \<union> set (waiting_tasks (queue h))"
  proof -
    have "set (running_tasks (queue h)) \<union> set (waiting_tasks (queue h)) = snd ` set (flat (queue h))"
      using arg_cong [OF flat_tasks [of "queue h"], of set] by simp
    with t(1) flat show ?thesis by auto
  qed
  have tags': "tags \<notin> set (tasks_head (mds s md) # ns)" using tags sub by auto
  show ?thesis
  proof (cases "q_ready g (queue h)")
    case True
    obtain s' where "obj_metadata_add_task t md tags (group_code g) s = Some s'" "md_repr s' md ns (q_add g t (queue h))"
        "spin_lock (md_mutex (mds s' md)) = 0" "tasks_head (mds s' md) = tasks_head (mds s md)" "pfs s' = pfs s"
      using add_task_ready [OF r free t(2) len tags' True] by blast
    moreover from this have "df_inv md s' (I @ [(g, t)]) F (insert tags T) ?h' ns"
      using inv I reach' t(4) True by (auto simp: df_inv_def tasks_of_add)
    ultimately show ?thesis by blast
  next
    case False
    obtain s' where "obj_metadata_add_task t md tags (group_code g) s = Some s'"
        "md_repr s' md (ns @ [tags]) (q_add g t (queue h))"
        "spin_lock (md_mutex (mds s' md)) = 0" "tasks_head (mds s' md) = tasks_head (mds s md)"
        "pfs s' = (pfs s)(t := incoming_count_update (\<lambda>c. c + 1) (pfs s t))"
      using add_task_wait [OF r free t(2,3) len tags(1) tags' False] by blast
    moreover from this have "df_inv md s' (I @ [(g, t)]) F (insert tags T) ?h' (ns @ [tags])"
      using inv I reach' t(4) False notin by (auto simp: df_inv_def tasks_of_add)
    ultimately show ?thesis by blast
  qed
qed

lemma df_inv_return:
  assumes inv: "df_inv md s I F T h ns" and t: "t \<in> snd ` set I" "t \<notin> F" "incoming_count (pfs s t) = 0"
  shows "\<exists>s' h' ns'. obj_metadata_wakeup rl md s = Some s' \<and> df_inv md s' I (insert t F) T h' ns'"
proof -
  have reach: "h_reachable h" and I: "issued h = I" "finished h = F" and r: "md_repr s md ns (queue h)"
    and free: "spin_lock (md_mutex (mds s md)) = 0" and sub: "set (tasks_head (mds s md) # ns) \<subseteq> T"
    using inv by (simp_all add: df_inv_def)
  have "t \<in> set (running_tasks (queue h))" using df_inv_unfinished [OF inv t(1,2)] t(3) by simp
  then obtain k ts where run: "running (queue h) = Some (k, ts)" and tin: "t \<in> set ts"
    by (cases "running (queue h)") (auto simp: running_tasks_def)
  let ?h' = "h\<lparr>queue := q_finish t (queue h), finished := insert t (finished h)\<rparr>"
  have "h_step h ?h'" using run tin by (rule h_finish)
  then have reach': "h_reachable ?h'" using reach by (rule h_next [rotated])
  have hist: "history_ok h" using reach by (rule history_ok_reachable)
  have q: "q_ok (queue h)" and "distinct (map snd (flat (queue h)))"
    using hist by (auto simp: history_ok_def distinct_map_filter)
  then have dist: "distinct (running_tasks (queue h) @ waiting_tasks (queue h))" by (simp add: flat_tasks)
  define us where "us = (if ts = [t] then q_next (queue h) else [])"
  note tasks = tasks_of_finish [OF run tin q]
  obtain s' ms where s': "obj_metadata_wakeup rl md s = Some s'" "md_repr s' md ms (q_finish t (queue h))"
      "set ms \<subseteq> set ns" "spin_lock (md_mutex (mds s' md)) = 0" "tasks_head (mds s' md) = tasks_head (mds s md)"
      "pfs s' = pfs (fold (release1 rl) us s)"
    using wakeup_refines [OF r free run tin, of rl] unfolding us_def by (auto simp: Let_def)
  have count: "incoming_count (pfs s' u) = incoming_count (pfs s u) - int (count_list us u)" for u
    by (simp add: s'(6) incoming_release)
  have w: "waiting_tasks (queue h) = us @ waiting_tasks (q_finish t (queue h))" using tasks by (simp add: us_def)
  have one: "count_list us u = (if u \<in> set us then 1 else 0)" for u
    using dist w by (simp add: count_list_eq_length_filter distinct_length_filter) 
  have rt: "running_tasks (queue h) = ts" using run by (simp add: running_tasks_def)
  have "set (running_tasks (q_finish t (queue h))) \<subseteq> set us \<union> (set ts - {t})" 
    using tasks(1) dist rt by (auto simp: us_def)
  then have "\<forall>u \<in> set (running_tasks (q_finish t (queue h))). incoming_count (pfs s' u) = 0"
    using inv w dist rt by (auto simp: df_inv_def count one)
  moreover have "\<forall>u \<in> set (waiting_tasks (q_finish t (queue h))). incoming_count (pfs s' u) = 1"
    using inv w dist by (auto simp: df_inv_def count one)
  ultimately have "df_inv md s' I (insert t F) T ?h' ms"
    using reach' I s' sub by (auto simp: df_inv_def)
  with s'(1) show ?thesis by blast
qed

subsection \<open>What every run guarantees\<close>

lemma df_run_inv: "df_run rl md s I F T \<Longrightarrow> \<exists>h ns. df_inv md s I F T h ns"
proof (induction rule: df_run.induct)
  case (df_start s)
  show ?case using df_inv_start by blast
next
  case (df_issue s I F T t tags g s')
  then show ?case using df_inv_issue [of md s I F T _ _ t tags g] by fastforce
next
  case (df_return s I F T t s')
  then show ?case using df_inv_return [of md s I F T _ _ t rl] by fastforce
qed

lemma df_run_serial:
  assumes "df_run rl md s I F T" and "before I (g, t) (h, u)" and "\<not> joins_with g h"
    and "u \<in> F \<or> incoming_count (pfs s u) = 0"
  shows "t \<in> F"
proof -
  obtain hist ns where inv: "df_inv md s I F T hist ns" using df_run_inv assms(1) by blast
  have u: "u \<in> snd ` set I" using before_in_set [OF assms(2)] by force
  have "started hist u"
  proof (cases "u \<in> F")
    case True
    with inv show ?thesis by (simp add: started_def df_inv_def)
  next
    case False
    with df_inv_unfinished [OF inv u] assms(4) show ?thesis
      by (cases "running (queue hist)") (auto simp: started_def running_tasks_def)
  qed
  with conflicts_start_in_order [of hist g t h u] inv assms(2,3) show ?thesis by (simp add: df_inv_def)
qed

lemma df_run_progress:
  assumes "df_run rl md s I F T" and "t \<in> snd ` set I" and "t \<notin> F"
  shows "\<exists>u \<in> snd ` set I. u \<notin> F \<and> incoming_count (pfs s u) = 0"
proof -
  obtain h ns where inv: "df_inv md s I F T h ns" using df_run_inv assms(1) by blast
  have reach: "h_reachable h" and I: "issued h = I" "finished h = F" using inv by (simp_all add: df_inv_def)
  obtain k ts where r: "running (queue h) = Some (k, ts)" "ts \<noteq> []"
    using unfinished_running [OF reach, of t] assms(2,3) I by blast
  then obtain u where u: "u \<in> set ts" by (cases ts) auto
  have "(k, u) \<in> set (flat (queue h))" using r(1) u by (rule running_in_flat)
  then have "(k, u) \<in> set I" "u \<notin> F" using history_ok_reachable [OF reach] I by (auto simp: history_ok_def)
  moreover have "incoming_count (pfs s u) = 0" using inv r u by (simp add: df_inv_def running_tasks_def)
  ultimately show ?thesis by force
qed

lemma df_run_total:
  assumes "df_run rl md s I F T"
  shows "t \<notin> snd ` set I \<Longrightarrow> t \<noteq> NULL \<Longrightarrow> t AND 1 = 0 \<Longrightarrow> incoming_count (pfs s t) = 0 \<Longrightarrow>
      tags \<noteq> NULL \<Longrightarrow> tags \<notin> T \<Longrightarrow> length I < 2 ^ 32 - 1 \<Longrightarrow>
      obj_metadata_add_task t md tags (group_code g) s \<noteq> None"
    and "t \<in> snd ` set I \<Longrightarrow> t \<notin> F \<Longrightarrow> incoming_count (pfs s t) = 0 \<Longrightarrow> obj_metadata_wakeup rl md s \<noteq> None"
proof -
  obtain h ns where inv: "df_inv md s I F T h ns" using df_run_inv assms by blast
  show "t \<notin> snd ` set I \<Longrightarrow> t \<noteq> NULL \<Longrightarrow> t AND 1 = 0 \<Longrightarrow> incoming_count (pfs s t) = 0 \<Longrightarrow>
      tags \<noteq> NULL \<Longrightarrow> tags \<notin> T \<Longrightarrow> length I < 2 ^ 32 - 1 \<Longrightarrow>
      obj_metadata_add_task t md tags (group_code g) s \<noteq> None"
    using df_inv_issue [OF inv] by (metis option.distinct(1))
  show "t \<in> snd ` set I \<Longrightarrow> t \<notin> F \<Longrightarrow> incoming_count (pfs s t) = 0 \<Longrightarrow> obj_metadata_wakeup rl md s \<noteq> None"
    using df_inv_return [OF inv] by (metis option.distinct(1))
qed

text \<open>Accesses of one kind that are not writes never wait.\<close>

lemma same_kind_one_gen:
  assumes "gens_ok xs" and "g \<noteq> Write" and "\<forall>x \<in> set xs. fst x = g"
  shows "length xs \<le> 1"
proof (cases xs)
  case (Cons x ys)
  then show ?thesis using assms by (cases ys) (auto simp: joins_with_def)
qed simp

lemma df_run_readers:
  assumes "df_run rl md s I F T" and "g \<noteq> Write" and "\<forall>x \<in> set I. snd x \<notin> F \<longrightarrow> fst x = g"
    and t: "t \<in> snd ` set I" "t \<notin> F"
  shows "incoming_count (pfs s t) = 0"
proof -
  obtain h ns where inv: "df_inv md s I F T h ns" using df_run_inv assms(1) by blast
  have hist: "history_ok h" and I: "issued h = I" "finished h = F"
    using inv history_ok_reachable by (auto simp: df_inv_def)
  have flat: "\<forall>x \<in> set (flat (queue h)). fst x = g" using hist I assms(3) by (simp add: history_ok_def)
  have ok: "gens_ok (all_gens (queue h))" using hist by (simp add: history_ok_def q_ok_def)
  have "fst x = g" if mem: "x \<in> set (all_gens (queue h))" for x
  proof -
    obtain k ts where x: "x = (k, ts)" by (cases x)
    obtain xs ys where "all_gens (queue h) = xs @ x # ys" using split_list [OF mem] by blast
    then have "gen_ok x" using ok by (auto simp: gens_ok_append gens_ok_Cons)
    then obtain u where "u \<in> set ts" using x by (cases ts) (auto simp: gen_ok_def)
    then have "(k, u) \<in> set (flat (queue h))" using mem x by (force simp: flat_def)
    with flat x show ?thesis by auto
  qed
  then have "length (all_gens (queue h)) \<le> 1" using same_kind_one_gen [OF ok assms(2)] by simp
  then have "waiting (queue h) = []"
    using hist by (auto simp: history_ok_def q_ok_def all_gens_def split: option.splits)
  then have "waiting_tasks (queue h) = []" by (simp add: waiting_tasks_def)
  moreover have "t \<in> set (map snd (flat (queue h)))" using t hist I by (auto simp: history_ok_def)
  ultimately have "t \<in> set (running_tasks (queue h))" unfolding flat_tasks by simp
  then show ?thesis using inv by (simp add: df_inv_def)
qed

subsection \<open>An example run\<close>

text \<open>Task 2 writes, task 4 reads the object whose metadata are at address 200.\<close>

definition demo0 :: rt where "demo0 = obj_metadata_init 200 (rl_init 500 rt_zero)"

definition demo1 :: rt where "demo1 = the (obj_metadata_add_task 2 200 32 (group_code Write) demo0)"

definition demo2 :: rt where "demo2 = the (obj_metadata_add_task 4 200 48 (group_code Read) demo1)"

definition demo3 :: rt where "demo3 = the (obj_metadata_wakeup 500 200 demo2)"

lemma demo0_run: "df_run 500 200 demo0 [] {} {216}"
  using df_start [of 500 200 "rl_init 500 rt_zero"]
  by (simp add: demo0_def zero_defs rl_init_def upd_pf_def set_rl_tail_def)

lemma demo1_run: "df_run 500 200 demo1 [(Write, 2)] {} {32, 216}"
proof -
  have "incoming_count (pfs demo0 2) = 0" by code_simp
  then show ?thesis
    using df_issue [OF demo0_run, of 2 32 Write demo1] df_run_total(1) [OF demo0_run, of 2 32 Write]
    by (auto simp: demo1_def)
qed

lemma demo_counts: "incoming_count (pfs demo1 4) = 0" "incoming_count (pfs demo2 2) = 0"
  "incoming_count (pfs demo2 4) = 1" "incoming_count (pfs demo3 4) = 0"
  by code_simp+

lemma demo2_run: "df_run 500 200 demo2 [(Write, 2), (Read, 4)] {} {48, 32, 216}"
  using df_issue [OF demo1_run, of 4 48 Read demo2] df_run_total(1) [OF demo1_run, of 4 48 Read] demo_counts(1)
  by (auto simp: demo2_def)

lemma demo3_run: "df_run 500 200 demo3 [(Write, 2), (Read, 4)] {2} {48, 32, 216}"
  using df_return [OF demo2_run, of 2 demo3] df_run_total(2) [OF demo2_run, of 2] demo_counts(2)
  by (auto simp: demo3_def)

subsection \<open>Properties\<close>







text \<open>while the tasks that have not returned all read the object (or
  all access it commutatively), none of them waits.\<close>

theorem dataflow_readers_concurrent:
  assumes "df_run rl md s I F T" and "g \<noteq> Write" and "\<forall>x \<in> set I. snd x \<notin> F \<longrightarrow> fst x = g"
    and "t \<in> snd ` set I" and "t \<notin> F"
  shows "incoming_count (pfs s t) = 0"
  using assms by (rule df_run_readers)

theorem dataflow_readers_concurrent_witness: "incoming_count (pfs demo3 4) = 0"
  using dataflow_readers_concurrent [OF demo3_run, of Read 4] by simp


lemma md_reprI:
  assumes "squeue (it_next \<circ> nodes s) (tasks_head (mds s md)) (tasks_tail (mds s md)) ns"
    and "map (node_tag \<circ> nodes s) ns = tags_of (waiting q)"
    and "num_gens (mds s md) = of_nat (length (all_gens q))"
    and "oldest_num_tasks (mds s md) = of_nat (length (running_tasks q))"
    and "youngest_group (mds s md) = (if all_gens q = [] then CILK_OBJ_GROUP_EMPTY else group_code (fst (last (all_gens q))))"
    and "q_ok q" and "length (flat q) \<le> 3"
  shows "md_repr s md ns q"
  using assms by (simp add: md_repr_def running_tasks_def split: option.splits)

lemma demo_repr:
  "md_repr demo1 200 [] \<lparr>running = Some (Write, [2]), waiting = []\<rparr>"
  "md_repr demo2 200 [48] \<lparr>running = Some (Write, [2]), waiting = [(Read, [4])]\<rparr>"
  by (rule md_reprI; code_simp)+

lemma demo_store:
  "spin_lock (md_mutex (mds demo1 200)) = 0" "spin_lock (md_mutex (mds demo2 200)) = 0"
  "tasks_head (mds demo1 200) = 216" "ready_queue 500 demo2 []"
  by code_simp+


text \<open>C27 (wakeup_refines_queue): the return of a running task is \<open>q_finish\<close> on the queue of
  generations. When it was the last of its generation, exactly the tasks of the next
  generation lose a dependence, and those that have none left are appended to the ready
  list in the order in which they were issued.\<close>

theorem wakeup_refines_queue:
  assumes "md_repr s md ns q" and "spin_lock (md_mutex (mds s md)) = 0"
    and "running q = Some (h, ts)" and "t \<in> set ts"
    and "ready_queue rl s xs" and "set (map snd (flat q)) \<inter> set (NULL # rl # xs) = {}"
    and "distinct (map snd (flat q))"
  shows "\<exists>s' ms. obj_metadata_wakeup rl md s = Some s' \<and> md_repr s' md ms (q_finish t q) \<and>
    (let next = (if ts = [t] then q_next q else [])
     in ready_queue rl s' (xs @ filter (\<lambda>u. incoming_count (pfs s u) = 1) next) \<and>
        (\<forall>u. incoming_count (pfs s' u) = incoming_count (pfs s u) - (if u \<in> set next then 1 else 0)))"
proof -
  define us where "us = (if ts = [t] then q_next q else [])"
  have "us @ waiting_tasks (q_finish t q) = waiting_tasks q"
    using tasks_of_finish(2) [OF assms(3,4)] assms(1) by (simp add: us_def md_repr_def)
  moreover have "distinct (waiting_tasks q)" "set (waiting_tasks q) \<subseteq> set (map snd (flat q))"
    using assms(7) by (simp_all add: flat_tasks)
  ultimately have us: "distinct us" "set us \<subseteq> set (map snd (flat q))"
    by (metis distinct_append, metis Un_subset_iff set_append)
  have "count_list us u = (if u \<in> set us then 1 else 0)" for u
    using us(1) by (simp add: count_list_eq_length_filter distinct_length_filter)
  moreover have "ready_queue rl (fold (release1 rl) us s) (xs @ filter (\<lambda>u. incoming_count (pfs s u) = 1) us)"
    using us assms(5,6) by (intro release_queue) auto
  ultimately show ?thesis
    using wakeup_refines [OF assms(1-4), of rl] unfolding us_def [symmetric]
    by (auto simp: Let_def ready_queue_def incoming_release)
qed

theorem wakeup_refines_queue_witness:
  "\<exists>s'. obj_metadata_wakeup 500 200 demo2 = Some s' \<and> ready_queue 500 s' [4]"
  using wakeup_refines_queue [OF demo_repr(2) demo_store(2), of Write "[2]" 2 500 "[]"] demo_store(4) demo_counts(3)
  by (auto simp: flat_def all_gens_def q_next_def Let_def)

end
