(* ===== verification/Frame_Malloc.thy ===== *)
theory Frame_Malloc
  imports Mutexes
begin

text \<open>
  The frame allocator (runtime/frame_malloc.c): six buckets of block sizes, a free list per
  bucket and worker, global free lists behind a lock, and a pool from which blocks are cut.
  Sizes and counters are \<open>size_t\<close>, words of 64 bits. The C library's \<open>malloc\<close> is a
  parameter: it is given the blocks that are live and answers an address, \<open>NULL\<close> when it
  has no memory. Writing through \<open>NULL\<close> ends the process, hence \<open>None\<close>.
\<close>

subsection \<open>State\<close>

type_synonym os_heap = "(ptr \<times> 64 word) list"

record pool_cons =
  pool_p :: ptr
  pool_cdr :: ptr

record frame_cache =
  fc_lock :: mutex
  pool_list :: ptr
  pool_begin :: ptr
  pool_end :: ptr
  global_free_list :: "nat \<Rightarrow> ptr"
  batch_size :: "64 word"
  potential_limit :: "64 word"
  check_for_leaks :: bool
  allocated_from_os :: "64 word"
  wasted :: "64 word"
  allocated_from_global_pool :: "64 word"

record worker_cache =
  free_list :: "nat \<Rightarrow> ptr"
  bucket_potential :: "nat \<Rightarrow> 64 word"

record fm =
  cdr :: "ptr \<Rightarrow> ptr"
  conses :: "ptr \<Rightarrow> pool_cons"
  fc :: frame_cache
  wc :: "ptr \<Rightarrow> worker_cache"
  os :: os_heap

subsection \<open>Buckets\<close>

definition FRAME_MALLOC_NBUCKETS :: nat where "FRAME_MALLOC_NBUCKETS = 6"

definition bucket_sizes :: "64 word list" where
  "bucket_sizes = [64, 128, 256, 512, 1024, 2048]"

definition bucket_to_size :: "nat \<Rightarrow> 64 word" where "bucket_to_size b = bucket_sizes ! b"

definition FRAME_MALLOC_MAX_SIZE :: "64 word" where "FRAME_MALLOC_MAX_SIZE = 2048"

definition FRAME_MALLOC_CHUNK :: "64 word" where "FRAME_MALLOC_CHUNK = 32 * 1024 - 128"

function bucket_from :: "nat \<Rightarrow> 64 word \<Rightarrow> nat option" where
  "bucket_from i sz =
     (if i < FRAME_MALLOC_NBUCKETS
      then if sz \<le> bucket_to_size i then Some i else bucket_from (i + 1) sz
      else None)"
  by auto
termination by (relation "measure (\<lambda>(i, _). FRAME_MALLOC_NBUCKETS - i)") auto

definition bucket_of_size :: "64 word \<Rightarrow> nat option" where
  "bucket_of_size sz = bucket_from 0 sz"

definition frame_malloc_roundup :: "64 word \<Rightarrow> 64 word option" where
  "frame_malloc_roundup sz =
     (if sz > FRAME_MALLOC_MAX_SIZE then Some sz
      else map_option bucket_to_size (bucket_of_size sz))"

definition size_of_bucket :: "int \<Rightarrow> 64 word option" where
  "size_of_bucket bucket =
     do { cilk_assert (bucket \<ge> 0 \<and> bucket < int FRAME_MALLOC_NBUCKETS);
          Some (bucket_to_size (nat bucket)) }"

subsection \<open>Free lists\<close>

text \<open>\<open>push\<close> and \<open>pop\<close> on a list head; \<open>push\<close> writes the link of the block it is given.\<close>

definition fl_push :: "ptr \<Rightarrow> ptr \<Rightarrow> fm \<Rightarrow> (ptr \<times> fm) option" where
  "fl_push b p s = (if p = NULL then None else Some (p, s\<lparr>cdr := (cdr s)(p := b)\<rparr>))"

definition fl_pop :: "ptr \<Rightarrow> fm \<Rightarrow> ptr \<times> ptr" where
  "fl_pop b s = (let p = b in (p, if p \<noteq> NULL then cdr s p else b))"

definition upd_fc :: "(frame_cache \<Rightarrow> frame_cache) \<Rightarrow> fm \<Rightarrow> fm" where
  "upd_fc f s = s\<lparr>fc := f (fc s)\<rparr>"

definition upd_wc :: "ptr \<Rightarrow> (worker_cache \<Rightarrow> worker_cache) \<Rightarrow> fm \<Rightarrow> fm" where
  "upd_wc w f s = s\<lparr>wc := (wc s)(w := f (wc s w))\<rparr>"

definition set_global_list :: "nat \<Rightarrow> ptr \<Rightarrow> fm \<Rightarrow> fm" where
  "set_global_list b p = upd_fc (\<lambda>c. c\<lparr>global_free_list := (global_free_list c)(b := p)\<rparr>)"

definition set_worker_list :: "ptr \<Rightarrow> nat \<Rightarrow> ptr \<Rightarrow> fm \<Rightarrow> fm" where
  "set_worker_list w b p = upd_wc w (\<lambda>c. c\<lparr>free_list := (free_list c)(b := p)\<rparr>)"

definition set_potential :: "ptr \<Rightarrow> nat \<Rightarrow> 64 word \<Rightarrow> fm \<Rightarrow> fm" where
  "set_potential w b n = upd_wc w (\<lambda>c. c\<lparr>bucket_potential := (bucket_potential c)(b := n)\<rparr>)"

subsection \<open>The C library\<close>

definition os_malloc :: "(os_heap \<Rightarrow> 64 word \<Rightarrow> ptr) \<Rightarrow> 64 word \<Rightarrow> fm \<Rightarrow> ptr \<times> fm" where
  "os_malloc malloc n s =
     (let p = malloc (os s) n in (p, if p = NULL then s else s\<lparr>os := (p, n) # os s\<rparr>))"

definition os_free :: "ptr \<Rightarrow> fm \<Rightarrow> fm" where
  "os_free p s = s\<lparr>os := filter (\<lambda>x. fst x \<noteq> p) (os s)\<rparr>"

text \<open>What the C standard and the platform say of \<open>malloc\<close>: a block it returns lies in the lower
  half of the address space and overlaps no live block.\<close>

definition range :: "ptr \<Rightarrow> 64 word \<Rightarrow> nat set" where
  "range p n = {unat p ..< unat p + unat n}"

definition malloc_ok :: "(os_heap \<Rightarrow> 64 word \<Rightarrow> ptr) \<Rightarrow> bool" where
  "malloc_ok malloc \<longleftrightarrow> (\<forall>live n. malloc live n \<noteq> NULL \<longrightarrow>
     unat (malloc live n) + unat n \<le> 2 ^ 63 \<and>
     (\<forall>(q, k) \<in> set live. range (malloc live n) n \<inter> range q k = {} \<and> malloc live n \<noteq> q))"

subsection \<open>The global allocator\<close>

text \<open>16 is the size of a \<open>pool_cons\<close>.\<close>

definition extend_global_pool :: "(os_heap \<Rightarrow> 64 word \<Rightarrow> ptr) \<Rightarrow> fm \<Rightarrow> fm option" where
  "extend_global_pool malloc s =
     (let (c, s1) = os_malloc malloc 16 s;
          (p, s2) = os_malloc malloc FRAME_MALLOC_CHUNK s1;
          s3 = upd_fc (\<lambda>f. f\<lparr>pool_begin := p, pool_end := p + FRAME_MALLOC_CHUNK,
                             allocated_from_os := allocated_from_os f + FRAME_MALLOC_CHUNK\<rparr>) s2
      in if c = NULL then None
         else Some (upd_fc (pool_list_update (\<lambda>_. c))
                (s3\<lparr>conses := (conses s3)(c := \<lparr>pool_p = pool_begin (fc s3), pool_cdr = pool_list (fc s3)\<rparr>)\<rparr>)))"

definition global_alloc :: "(os_heap \<Rightarrow> 64 word \<Rightarrow> ptr) \<Rightarrow> nat \<Rightarrow> fm \<Rightarrow> (ptr \<times> fm) option" where
  "global_alloc malloc bucket s =
     do { cilk_assert (bucket < FRAME_MALLOC_NBUCKETS);
          let sz = bucket_to_size bucket;
          let s1 = upd_fc (\<lambda>f. f\<lparr>allocated_from_global_pool := allocated_from_global_pool f + sz\<rparr>) s;
          let (mem, b) = fl_pop (global_free_list (fc s1) bucket) s1;
          let s2 = set_global_list bucket b s1;
          (if mem \<noteq> NULL then Some (mem, s2)
           else do {
             cilk_assert (pool_begin (fc s2) \<le> pool_end (fc s2));
             s3 \<leftarrow> (if pool_begin (fc s2) + sz > pool_end (fc s2)
                     then extend_global_pool malloc
                       (upd_fc (\<lambda>f. f\<lparr>wasted := wasted f + (pool_end f - pool_begin f)\<rparr>) s2)
                     else Some s2);
             Some (pool_begin (fc s3), upd_fc (\<lambda>f. f\<lparr>pool_begin := pool_begin f + sz\<rparr>) s3) }) }"

definition global_free :: "ptr \<Rightarrow> nat \<Rightarrow> fm \<Rightarrow> fm option" where
  "global_free mem bucket s =
     do { cilk_assert (bucket < FRAME_MALLOC_NBUCKETS);
          let sz = bucket_to_size bucket;
          let s1 = upd_fc (\<lambda>f. f\<lparr>allocated_from_global_pool := allocated_from_global_pool f - sz\<rparr>) s;
          (b, s2) \<leftarrow> fl_push (global_free_list (fc s1) bucket) mem s1;
          Some (set_global_list bucket b s2) }"

definition frame_malloc_global_init :: "fm \<Rightarrow> fm" where
  "frame_malloc_global_init s = upd_fc (\<lambda>f.
     \<lparr>fc_lock = mutex_init (fc_lock f), pool_list = NULL, pool_begin = NULL, pool_end = NULL,
      global_free_list = (\<lambda>i. if i < FRAME_MALLOC_NBUCKETS then NULL else global_free_list f i),
      batch_size = 8000, potential_limit = 4 * 8000, check_for_leaks = True,
      allocated_from_os = 0, wasted = 0, allocated_from_global_pool = 0\<rparr>) s"

text \<open>Bytes in the global free lists. A cyclic list would not return.\<close>

partial_function (option) count_bucket :: "ptr \<Rightarrow> nat \<Rightarrow> 64 word \<Rightarrow> fm \<Rightarrow> 64 word option" where
  [code]: "count_bucket p i n s =
     (if p \<noteq> NULL then count_bucket (cdr s p) i (n + bucket_to_size i) s else Some n)"

function count_from :: "nat \<Rightarrow> 64 word \<Rightarrow> fm \<Rightarrow> 64 word option" where
  "count_from i n s =
     (if i < FRAME_MALLOC_NBUCKETS
      then do { k \<leftarrow> count_bucket (global_free_list (fc s) i) i 0 s; count_from (i + 1) (n + k) s }
      else Some n)"
  by auto
termination by (relation "measure (\<lambda>(i, _). FRAME_MALLOC_NBUCKETS - i)") auto

definition count_memory_in_global_list :: "fm \<Rightarrow> 64 word option" where
  "count_memory_in_global_list s = count_from 0 0 s"

partial_function (option) free_pools :: "fm \<Rightarrow> fm option" where
  [code]: "free_pools s =
     (let c = pool_list (fc s)
      in if c \<noteq> NULL
         then free_pools (os_free c (os_free (pool_p (conses s c))
                (upd_fc (pool_list_update (\<lambda>_. pool_cdr (conses s c))) s)))
         else Some s)"

text \<open>\<open>None\<close> is \<open>__cilkrts_bug\<close>: corrupted data structures, or a leak.\<close>

definition frame_malloc_global_cleanup :: "fm \<Rightarrow> fm option" where
  "frame_malloc_global_cleanup s =
     do { (if check_for_leaks (fc s)
           then do { memory \<leftarrow> count_memory_in_global_list s;
                     cilk_assert (\<not> memory > allocated_from_os (fc s)) }
           else Some ());
          s1 \<leftarrow> free_pools s;
          cilk_assert (\<not> (check_for_leaks (fc s1) \<and> allocated_from_global_pool (fc s1) \<noteq> 0));
          Some s1 }"

subsection \<open>The allocator of a worker\<close>

definition lock_fc :: "ptr \<Rightarrow> fm \<Rightarrow> fm option" where
  "lock_fc w s = map_option (\<lambda>m. upd_fc (fc_lock_update (\<lambda>_. m)) s) (mutex_lock w (fc_lock (fc s)))"

definition unlock_fc :: "ptr \<Rightarrow> fm \<Rightarrow> fm option" where
  "unlock_fc w s = map_option (\<lambda>m. upd_fc (fc_lock_update (\<lambda>_. m)) s) (mutex_unlock w (fc_lock (fc s)))"

partial_function (option) batch_loop ::
  "(os_heap \<Rightarrow> 64 word \<Rightarrow> ptr) \<Rightarrow> ptr \<Rightarrow> nat \<Rightarrow> 64 word \<Rightarrow> 64 word \<Rightarrow> fm \<Rightarrow> fm option" where
  [code]: "batch_loop malloc w bucket sz bytes s =
     do { let s1 = set_potential w bucket (bucket_potential (wc s w) bucket + sz) s;
          (mem, s2) \<leftarrow> global_alloc malloc bucket s1;
          (b, s3) \<leftarrow> fl_push (free_list (wc s2 w) bucket) mem s2;
          let s4 = set_worker_list w bucket b s3;
          (if bytes + sz < batch_size (fc s4) then batch_loop malloc w bucket sz (bytes + sz) s4
           else Some s4) }"

definition allocate_batch :: "(os_heap \<Rightarrow> 64 word \<Rightarrow> ptr) \<Rightarrow> ptr \<Rightarrow> nat \<Rightarrow> 64 word \<Rightarrow> fm \<Rightarrow> fm option" where
  "allocate_batch malloc w bucket sz s =
     do { s1 \<leftarrow> lock_fc w s; s2 \<leftarrow> batch_loop malloc w bucket sz 0 s1; unlock_fc w s2 }"

text \<open>The blocks that are kept: the address of the first one that is not, and their bytes.\<close>

partial_function (option) gc_scan :: "ptr \<Rightarrow> 64 word \<Rightarrow> 64 word \<Rightarrow> 64 word \<Rightarrow> fm \<Rightarrow> (ptr \<times> 64 word) option" where
  [code]: "gc_scan p newpot pot sz s =
     (if p \<noteq> NULL \<and> 2 * newpot < pot then gc_scan (cdr s p) (newpot + sz) pot sz s
      else Some (p, newpot))"

text \<open>\<open>while ((q = pop(\<open>&\<close>p->cdr))) global_free(g, q, bucket)\<close>.\<close>

partial_function (option) gc_free :: "ptr \<Rightarrow> nat \<Rightarrow> fm \<Rightarrow> fm option" where
  [code]: "gc_free p bucket s =
     (let (q, b) = fl_pop (cdr s p) s; s1 = s\<lparr>cdr := (cdr s)(p := b)\<rparr>
      in if q \<noteq> NULL then do { s2 \<leftarrow> global_free q bucket s1; gc_free p bucket s2 } else Some s1)"

definition gc_bucket :: "ptr \<Rightarrow> nat \<Rightarrow> 64 word \<Rightarrow> fm \<Rightarrow> fm option" where
  "gc_bucket w bucket sz s =
     do { (p, newpot) \<leftarrow> gc_scan (free_list (wc s w) bucket) 0 (bucket_potential (wc s w) bucket) sz s;
          let s1 = set_potential w bucket newpot s;
          (if p \<noteq> NULL then do { s2 \<leftarrow> lock_fc w s1; s3 \<leftarrow> gc_free p bucket s2; unlock_fc w s3 }
           else Some s1) }"

partial_function (option) move_loop :: "ptr \<Rightarrow> nat \<Rightarrow> fm \<Rightarrow> fm option" where
  [code]: "move_loop p bucket s =
     (let (q, p') = fl_pop p s
      in if q \<noteq> NULL then do { s1 \<leftarrow> global_free q bucket s; move_loop p' bucket s1 } else Some s)"

definition move_bucket_to_global_free_list :: "ptr \<Rightarrow> nat \<Rightarrow> fm \<Rightarrow> fm option" where
  "move_bucket_to_global_free_list w bucket s =
     do { let p = free_list (wc s w) bucket;
          s1 \<leftarrow> (if p \<noteq> NULL
                  then do { s1 \<leftarrow> lock_fc w s; s2 \<leftarrow> move_loop p bucket s1; unlock_fc w s2 }
                  else Some s);
          Some (set_potential w bucket 0 s1) }"

partial_function (option) malloc_loop :: "(os_heap \<Rightarrow> 64 word \<Rightarrow> ptr) \<Rightarrow> ptr \<Rightarrow> nat \<Rightarrow> 64 word \<Rightarrow> fm \<Rightarrow> (ptr \<times> fm) option" where
  [code]: "malloc_loop malloc w bucket sz s =
     (let (mem, b) = fl_pop (free_list (wc s w) bucket) s; s1 = set_worker_list w bucket b s
      in if mem \<noteq> NULL then Some (mem, s1)
         else do { s2 \<leftarrow> allocate_batch malloc w bucket sz s1; malloc_loop malloc w bucket sz s2 })"

definition frame_malloc :: "(os_heap \<Rightarrow> 64 word \<Rightarrow> ptr) \<Rightarrow> ptr \<Rightarrow> 64 word \<Rightarrow> fm \<Rightarrow> (ptr \<times> fm) option" where
  "frame_malloc malloc w sz s =
     (if w = NULL \<or> sz > FRAME_MALLOC_MAX_SIZE then Some (os_malloc malloc sz s)
      else do { bucket \<leftarrow> bucket_of_size sz; malloc_loop malloc w bucket (bucket_to_size bucket) s })"

definition frame_free :: "ptr \<Rightarrow> ptr \<Rightarrow> 64 word \<Rightarrow> fm \<Rightarrow> fm option" where
  "frame_free w p0 sz s =
     (if w = NULL \<or> sz > FRAME_MALLOC_MAX_SIZE then Some (os_free p0 s)
      else do { bucket \<leftarrow> bucket_of_size sz;
                let sz' = bucket_to_size bucket;
                let s1 = set_potential w bucket (bucket_potential (wc s w) bucket + sz') s;
                (b, s2) \<leftarrow> fl_push (free_list (wc s1 w) bucket) p0 s1;
                let s3 = set_worker_list w bucket b s2;
                (if bucket_potential (wc s3 w) bucket > potential_limit (fc s3)
                 then gc_bucket w bucket sz' s3 else Some s3) })"

definition frame_malloc_per_worker_init :: "ptr \<Rightarrow> fm \<Rightarrow> fm" where
  "frame_malloc_per_worker_init w =
     upd_wc w (\<lambda>c. c\<lparr>free_list := (\<lambda>i. if i < FRAME_MALLOC_NBUCKETS then NULL else free_list c i),
                      bucket_potential := (\<lambda>i. if i < FRAME_MALLOC_NBUCKETS then 0 else bucket_potential c i)\<rparr>)"

function cleanup_from :: "nat \<Rightarrow> ptr \<Rightarrow> fm \<Rightarrow> fm option" where
  "cleanup_from i w s =
     (if i < FRAME_MALLOC_NBUCKETS
      then do { s1 \<leftarrow> move_bucket_to_global_free_list w i s; cleanup_from (i + 1) w s1 }
      else Some s)"
  by auto
termination by (relation "measure (\<lambda>(i, _). FRAME_MALLOC_NBUCKETS - i)") auto

definition frame_malloc_per_worker_cleanup :: "ptr \<Rightarrow> fm \<Rightarrow> fm option" where
  "frame_malloc_per_worker_cleanup w s = cleanup_from 0 w s"

declare bucket_from.simps [simp del] count_from.simps [simp del] cleanup_from.simps [simp del]

end
