(* ===== verification/Frame_Malloc_Proofs.thy ===== *)
theory Frame_Malloc_Proofs
  imports Frame_Malloc "HOL-Library.Multiset"
begin

text \<open>
  Where every block of the frame allocator is: in a global free list, in the free list of a
  worker, or with its user. \<open>fm_inv\<close> says that each block is in one of these places only,
  that blocks do not overlap each other or the rest of the pool, and that
  \<open>allocated_from_global_pool\<close> counts the bytes outside the global lists. Every operation of
  the allocator keeps it.
\<close>

subsection \<open>Buckets\<close>

lemma bucket_sizes_cases:
  "b < FRAME_MALLOC_NBUCKETS \<Longrightarrow> unat (bucket_to_size b) = 64 * 2 ^ b"
proof -
  assume "b < FRAME_MALLOC_NBUCKETS"
  then consider "b = 0" | "b = 1" | "b = 2" | "b = 3" | "b = 4" | "b = 5"
    unfolding FRAME_MALLOC_NBUCKETS_def by linarith
  then show ?thesis by cases (simp_all add: bucket_to_size_def bucket_sizes_def)
qed

lemma bucket_to_size_simps [simp]:
  "bucket_to_size 0 = 64" "bucket_to_size (Suc 0) = 128" "bucket_to_size 2 = 256"
  "bucket_to_size 3 = 512" "bucket_to_size 4 = 1024" "bucket_to_size 5 = 2048"
  by (simp_all add: bucket_to_size_def bucket_sizes_def)

lemma bucket_from_Some:
  "i < FRAME_MALLOC_NBUCKETS \<Longrightarrow> sz \<le> FRAME_MALLOC_MAX_SIZE \<Longrightarrow>
   \<exists>b. bucket_from i sz = Some b \<and> i \<le> b \<and> b < FRAME_MALLOC_NBUCKETS \<and> sz \<le> bucket_to_size b \<and>
     (\<forall>c. i \<le> c \<and> c < b \<longrightarrow> bucket_to_size c < sz)"
proof (induction i sz rule: bucket_from.induct)
  case (1 i sz)
  show ?case
  proof (cases "sz \<le> bucket_to_size i")
    case True
    with 1 show ?thesis by (intro exI [of _ i]) (auto simp: bucket_from.simps)
  next
    case False
    have "i \<noteq> 5"
      using False 1(3) by (auto simp: FRAME_MALLOC_MAX_SIZE_def bucket_to_size_def bucket_sizes_def)
    then have i: "i + 1 < FRAME_MALLOC_NBUCKETS" using 1(2) by (simp add: FRAME_MALLOC_NBUCKETS_def)
    from 1(1) [OF 1(2) False i 1(3)] obtain b where "bucket_from (i + 1) sz = Some b" "i + 1 \<le> b"
      "b < FRAME_MALLOC_NBUCKETS" "sz \<le> bucket_to_size b" "\<forall>c. i + 1 \<le> c \<and> c < b \<longrightarrow> bucket_to_size c < sz"
      by blast
    with False 1(2) show ?thesis
      by (intro exI [of _ b]) (auto simp: bucket_from.simps [of i] not_le dest: le_neq_implies_less)
  qed
qed

lemma bucket_of_size_Some:
  assumes "sz \<le> FRAME_MALLOC_MAX_SIZE"
  obtains b where "bucket_of_size sz = Some b" and "b < FRAME_MALLOC_NBUCKETS" and "sz \<le> bucket_to_size b"
    and "\<And>c. c < b \<Longrightarrow> bucket_to_size c < sz"
  using bucket_from_Some [of 0 sz] assms by (auto simp: bucket_of_size_def FRAME_MALLOC_NBUCKETS_def)

subsection \<open>Places\<close>

datatype spot = Glob nat | Work ptr nat | User nat

fun bkt :: "spot \<Rightarrow> nat" where
  "bkt (Glob b) = b" | "bkt (Work w b) = b" | "bkt (User b) = b"

fun in_pool :: "spot \<Rightarrow> bool" where
  "in_pool (Glob b) = True" | "in_pool _ = False"

fun head :: "fm \<Rightarrow> spot \<Rightarrow> ptr" where
  "head s (Glob b) = global_free_list (fc s) b"
| "head s (Work w b) = free_list (wc s w) b"
| "head s (User b) = NULL"

definition places :: "spot set \<Rightarrow> spot set" where
  "places A = A \<union> User ` {..<FRAME_MALLOC_NBUCKETS}"

definition out_bytes :: "spot set \<Rightarrow> (spot \<Rightarrow> ptr list) \<Rightarrow> 64 word" where
  "out_bytes A C = (\<Sum>i \<in> {i \<in> places A. \<not> in_pool i}. bucket_to_size (bkt i) * of_nat (length (C i)))"

definition block :: "spot \<Rightarrow> ptr \<Rightarrow> nat set" where
  "block i p = range p (bucket_to_size (bkt i))"

text \<open>\<open>A\<close> are the free lists in use (those of a worker that was cleaned up are not) and \<open>C\<close>
  tells which blocks are at a place.\<close>

definition cells_ok :: "spot set \<Rightarrow> (spot \<Rightarrow> ptr list) \<Rightarrow> bool" where
  "cells_ok A C \<longleftrightarrow> finite A \<and> (\<forall>i \<in> A. bkt i < FRAME_MALLOC_NBUCKETS \<and> (\<forall>b. i \<noteq> User b)) \<and>
     (\<forall>i. i \<notin> places A \<longrightarrow> C i = []) \<and> (\<forall>i. distinct (C i) \<and> NULL \<notin> set (C i)) \<and>
     (\<forall>i j. i \<noteq> j \<longrightarrow> set (C i) \<inter> set (C j) = {})"

definition ranges_ok :: "fm \<Rightarrow> (spot \<Rightarrow> ptr list) \<Rightarrow> bool" where
  "ranges_ok s C \<longleftrightarrow>
     pool_begin (fc s) \<le> pool_end (fc s) \<and> unat (pool_end (fc s)) \<le> 2 ^ 63 \<and>
     (\<forall>(q, k) \<in> set (os s). q \<noteq> NULL) \<and>
     {unat (pool_begin (fc s)) ..< unat (pool_end (fc s))} \<subseteq> (\<Union>(q, k) \<in> set (os s). range q k) \<and>
     (\<forall>i. \<forall>p \<in> set (C i). block i p \<subseteq> (\<Union>(q, k) \<in> set (os s). range q k) \<and>
        block i p \<inter> {unat (pool_begin (fc s)) ..< unat (pool_end (fc s))} = {}) \<and>
     (\<forall>i j. \<forall>p \<in> set (C i). \<forall>q \<in> set (C j). p \<noteq> q \<longrightarrow> block i p \<inter> block j q = {})"

definition fm_inv :: "spot set \<Rightarrow> fm \<Rightarrow> (spot \<Rightarrow> ptr list) \<Rightarrow> bool" where
  "fm_inv A s C \<longleftrightarrow> cells_ok A C \<and> ranges_ok s C \<and>
     (\<forall>i \<in> A. lpath (cdr s) (head s i) (C i) NULL) \<and>
     allocated_from_global_pool (fc s) = out_bytes A C"

lemma out_bytes_upd:
  assumes "cells_ok A C" and "i \<in> places A" and "\<not> in_pool i"
  shows "out_bytes A (C(i := xs)) = out_bytes A C + bucket_to_size (bkt i) * (of_nat (length xs) - of_nat (length (C i)))"
proof -
  let ?B = "{i \<in> places A. \<not> in_pool i}"
  have fin: "finite ?B" and "i \<in> ?B" using assms by (auto simp: cells_ok_def places_def)
  have "(\<Sum>j \<in> ?B. bucket_to_size (bkt j) * of_nat (length ((C(i := xs)) j))) =
      bucket_to_size (bkt i) * of_nat (length xs) +
      (\<Sum>j \<in> ?B - {i}. bucket_to_size (bkt j) * of_nat (length (C j)))"
    using fin \<open>i \<in> ?B\<close> by (subst sum.remove [of _ i]) auto
  moreover have "(\<Sum>j \<in> ?B. bucket_to_size (bkt j) * of_nat (length (C j))) =
      bucket_to_size (bkt i) * of_nat (length (C i)) +
      (\<Sum>j \<in> ?B - {i}. bucket_to_size (bkt j) * of_nat (length (C j)))"
    using fin \<open>i \<in> ?B\<close> by (rule sum.remove)
  ultimately show ?thesis by (simp add: out_bytes_def algebra_simps)
qed

lemma out_bytes_pool: "in_pool i \<Longrightarrow> out_bytes A (C(i := xs)) = out_bytes A C"
  unfolding out_bytes_def by (intro sum.cong) auto

text \<open>Blocks that move between a free list and the users of its bucket.\<close>

lemma cells_ok_transfer:
  assumes C: "cells_ok A C" and i: "i \<in> A" and b: "b = bkt i"
    and m: "mset (xs @ us) = mset (C i @ C (User b))"
  shows "cells_ok A (C(i := xs, User b := us))"
proof -
  have ne: "i \<noteq> User b" "b < FRAME_MALLOC_NBUCKETS" using C i b by (auto simp: cells_ok_def)
  have "distinct (C i @ C (User b))" using C ne by (simp add: cells_ok_def)
  then have "distinct (xs @ us)" using m mset_eq_imp_distinct_iff by blast
  moreover have set: "set xs \<union> set us = set (C i) \<union> set (C (User b))"
    using m by (metis set_append set_mset_mset)
  moreover have "set (C j) \<inter> (set (C i) \<union> set (C (User b))) = {}" if "j \<noteq> i" "j \<noteq> User b" for j
    using C that by (simp add: cells_ok_def Int_Un_distrib)
  moreover have "NULL \<notin> set (C i) \<union> set (C (User b))" using C by (simp add: cells_ok_def)
  moreover have "User b \<in> places A" "i \<in> places A" using ne i by (auto simp: places_def)
  ultimately have *: "distinct ((C(i := xs, User b := us)) j)" "NULL \<notin> set ((C(i := xs, User b := us)) j)"
      "j \<noteq> k \<Longrightarrow> set ((C(i := xs, User b := us)) j) \<inter> set ((C(i := xs, User b := us)) k) = {}"
      "j \<notin> places A \<Longrightarrow> (C(i := xs, User b := us)) j = []" for j k
    using C ne unfolding cells_ok_def by (auto; blast)+
  show ?thesis
    using C * unfolding cells_ok_def by blast
qed

lemma ranges_ok_transfer:
  assumes r: "ranges_ok s C" and b: "b = bkt i"
    and set: "set xs \<union> set us = set (C i) \<union> set (C (User b))"
    and same: "pool_begin (fc s') = pool_begin (fc s)" "pool_end (fc s') = pool_end (fc s)" "os s' = os s"
  shows "ranges_ok s' (C(i := xs, User b := us))"
proof -
  let ?C = "C(i := xs, User b := us)"
  have old: "\<exists>k. p \<in> set (C k) \<and> block j p = block k p" if "p \<in> set (?C j)" for j p
  proof (cases "j = i \<or> j = User b")
    case True
    then have "p \<in> set xs \<union> set us" using that by (auto split: if_splits)
    then have "p \<in> set (C i) \<union> set (C (User b))" using set by simp
    moreover have "block j p = block i p" "block i p = block (User b) p" using True b by (auto simp: block_def)
    ultimately show ?thesis by auto
  qed (use that in auto)
  show ?thesis unfolding ranges_ok_def same
  proof (intro conjI allI ballI impI)
    fix j k p q
    assume "p \<in> set (?C j)" "q \<in> set (?C k)" "p \<noteq> q"
    with old [of p j] old [of q k] r show "block j p \<inter> block k q = {}"
      unfolding ranges_ok_def by metis
  next
    fix j p
    assume "p \<in> set (?C j)"
    with old [of p j] r show "block j p \<subseteq> (\<Union>(q, k) \<in> set (os s). range q k)"
      and "block j p \<inter> {unat (pool_begin (fc s)) ..< unat (pool_end (fc s))} = {}"
      unfolding ranges_ok_def by metis+
  qed (use r in \<open>auto simp: ranges_ok_def\<close>)
qed

lemma fm_inv_transfer:
  assumes inv: "fm_inv A s C" and i: "i \<in> A" and b: "b = bkt i"
    and m: "mset (xs @ us) = mset (C i @ C (User b))"
    and same: "pool_begin (fc s') = pool_begin (fc s)" "pool_end (fc s') = pool_end (fc s)" "os s' = os s"
    and heads: "\<And>j. j \<in> A \<Longrightarrow> j \<noteq> i \<Longrightarrow> head s' j = head s j"
    and links: "\<And>p. p \<notin> set (C i) \<Longrightarrow> p \<notin> set (C (User b)) \<Longrightarrow> cdr s' p = cdr s p"
    and path: "lpath (cdr s') (head s' i) xs NULL"
    and alloc: "allocated_from_global_pool (fc s') = allocated_from_global_pool (fc s) +
      (if in_pool i then bucket_to_size b * (of_nat (length us) - of_nat (length (C (User b)))) else 0)"
  shows "fm_inv A s' (C(i := xs, User b := us))"
proof -
  have C: "cells_ok A C" and r: "ranges_ok s C" and paths: "\<And>j. j \<in> A \<Longrightarrow> lpath (cdr s) (head s j) (C j) NULL"
    and out: "allocated_from_global_pool (fc s) = out_bytes A C"
    using inv by (auto simp: fm_inv_def)
  have ne: "i \<noteq> User b" "b < FRAME_MALLOC_NBUCKETS" "i \<in> places A" "User b \<in> places A"
    using C i b by (auto simp: cells_ok_def places_def)
  have set: "set xs \<union> set us = set (C i) \<union> set (C (User b))"
    using m by (metis set_append set_mset_mset)
  have C': "cells_ok A (C(i := xs, User b := us))" by (rule cells_ok_transfer [OF C i b m])
  have "lpath (cdr s') (head s' j) ((C(i := xs, User b := us)) j) NULL" if j: "j \<in> A" for j
  proof (cases "j = i")
    case True
    with path ne show ?thesis by simp
  next
    case False
    have "j \<noteq> User b" using C j by (auto simp: cells_ok_def)
    have "\<And>p. p \<in> set (C j) \<Longrightarrow> cdr s p = cdr s' p"
      using C False \<open>j \<noteq> User b\<close> links unfolding cells_ok_def by (metis disjoint_iff)
    with lpath_cong [of "C j" "cdr s" "cdr s'" "head s j" NULL] paths [OF j] heads [OF j False]
    show ?thesis using False \<open>j \<noteq> User b\<close> by simp
  qed
  moreover have "allocated_from_global_pool (fc s') = out_bytes A (C(i := xs, User b := us))"
  proof (cases "in_pool i")
    case True
    have "out_bytes A (C(i := xs, User b := us)) = out_bytes A (C(User b := us))"
      using True ne(1) by (simp add: fun_upd_twist [of i] out_bytes_pool)
    with True ne out alloc out_bytes_upd [OF C, of "User b" us] show ?thesis by simp
  next
    case False
    have len: "length xs + length us = length (C i) + length (C (User b))"
      using arg_cong [OF m, of size] by simp
    have "out_bytes A (C(i := xs, User b := us)) =
        out_bytes A C + bucket_to_size b * (of_nat (length xs) - of_nat (length (C i))) +
        bucket_to_size b * (of_nat (length us) - of_nat (length (C (User b))))"
    proof -
      let ?B = "{j \<in> places A. \<not> in_pool j}"
      have fin: "finite ?B" using C by (auto simp: cells_ok_def places_def)
      have mem: "i \<in> ?B" "User b \<in> ?B - {i}" using ne False by auto
      let ?f = "\<lambda>D j. bucket_to_size (bkt j) * (of_nat (length (D j)) :: 64 word)"
      have split: "(\<Sum>j \<in> ?B. ?f D j) = ?f D i + (?f D (User b) + (\<Sum>j \<in> ?B - {i} - {User b}. ?f D j))" for D
        using fin mem by (simp add: sum.remove [of ?B i] sum.remove [of "?B - {i}" "User b"])
      have "(\<Sum>j \<in> ?B - {i} - {User b}. ?f (C(i := xs, User b := us)) j) = (\<Sum>j \<in> ?B - {i} - {User b}. ?f C j)"
        by (intro sum.cong) auto
      then show ?thesis
        unfolding out_bytes_def split using ne(1) b by (simp add: algebra_simps)
    qed
    moreover have "(of_nat (length xs) + of_nat (length us) :: 64 word) = of_nat (length (C i)) + of_nat (length (C (User b)))"
      using len by (metis of_nat_add)
    then have "bucket_to_size b * (of_nat (length xs) - of_nat (length (C i))) +
        bucket_to_size b * (of_nat (length us) - of_nat (length (C (User b)))) = 0"
      by (simp add: ring_distribs(1) [symmetric] add_diff_eq diff_add_eq diff_diff_eq add.commute)
    ultimately show ?thesis using out alloc False by (simp add: add.assoc)
  qed
  ultimately show ?thesis
    using C' ranges_ok_transfer [OF r b set same] by (simp add: fm_inv_def)
qed

subsection \<open>Cutting blocks from the pool\<close>

lemma upd_sel [simp]:
  "fc (upd_fc f s) = f (fc s)" "wc (upd_fc f s) = wc s" "cdr (upd_fc f s) = cdr s" "os (upd_fc f s) = os s"
  "conses (upd_fc f s) = conses s"
  "wc (upd_wc w g s) = (wc s)(w := g (wc s w))" "fc (upd_wc w g s) = fc s" "cdr (upd_wc w g s) = cdr s"
  "os (upd_wc w g s) = os s" "conses (upd_wc w g s) = conses s"
  by (simp_all add: upd_fc_def upd_wc_def)

lemma set_sel [simp]:
  "global_free_list (fc (set_global_list b p s)) = (global_free_list (fc s))(b := p)"
  "pool_begin (fc (set_global_list b p s)) = pool_begin (fc s)" "pool_end (fc (set_global_list b p s)) = pool_end (fc s)"
  "allocated_from_global_pool (fc (set_global_list b p s)) = allocated_from_global_pool (fc s)"
  "batch_size (fc (set_global_list b p s)) = batch_size (fc s)"
  "potential_limit (fc (set_global_list b p s)) = potential_limit (fc s)"
  "fc_lock (fc (set_global_list b p s)) = fc_lock (fc s)"
  "wc (set_global_list b p s) = wc s" "cdr (set_global_list b p s) = cdr s" "os (set_global_list b p s) = os s"
  "fc (set_worker_list w b p s) = fc s" "cdr (set_worker_list w b p s) = cdr s" "os (set_worker_list w b p s) = os s"
  "wc (set_worker_list w b p s) = (wc s)(w := (wc s w)\<lparr>free_list := (free_list (wc s w))(b := p)\<rparr>)"
  "fc (set_potential w b n s) = fc s" "cdr (set_potential w b n s) = cdr s" "os (set_potential w b n s) = os s"
  "wc (set_potential w b n s) = (wc s)(w := (wc s w)\<lparr>bucket_potential := (bucket_potential (wc s w))(b := n)\<rparr>)"
  by (simp_all add: set_global_list_def set_worker_list_def set_potential_def)

lemma chunk_unat: "unat FRAME_MALLOC_CHUNK = 32640"
  by (simp add: FRAME_MALLOC_CHUNK_def)

lemma bucket_size_pos: "b < FRAME_MALLOC_NBUCKETS \<Longrightarrow> 0 < unat (bucket_to_size b)"
  using bucket_sizes_cases [of b] by simp

lemma malloc_okD:
  assumes "malloc_ok malloc" and "malloc live n \<noteq> NULL"
  shows "unat (malloc live n) + unat n \<le> 2 ^ 63"
    and "(q, k) \<in> set live \<Longrightarrow> range (malloc live n) n \<inter> range q k = {}"
  using assms unfolding malloc_ok_def by blast+

lemma extend_ranges:
  assumes m: "malloc_ok malloc" and r: "ranges_ok s C" and e: "extend_global_pool malloc s = Some s'"
    and ok: "pool_begin (fc s') \<noteq> NULL"
  shows "ranges_ok s' C" and "unat (pool_end (fc s')) = unat (pool_begin (fc s')) + 32640"
    and "cdr s' = cdr s" and "wc s' = wc s" and "global_free_list (fc s') = global_free_list (fc s)"
    and "allocated_from_global_pool (fc s') = allocated_from_global_pool (fc s)"
    and "batch_size (fc s') = batch_size (fc s)" and "potential_limit (fc s') = potential_limit (fc s)"
    and "fc_lock (fc s') = fc_lock (fc s)"
proof -
  define c where "c = malloc (os s) 16"
  define p where "p = malloc ((c, 16) # os s) FRAME_MALLOC_CHUNK"
  have c: "c \<noteq> NULL" using e by (auto simp: extend_global_pool_def os_malloc_def Let_def c_def split: if_splits)
  have p: "p \<noteq> NULL"
    using e ok c by (auto simp: extend_global_pool_def os_malloc_def Let_def c_def [symmetric] p_def [symmetric] split: if_splits)
  have s': "s' = upd_fc (pool_list_update (\<lambda>_. c)) (upd_fc (\<lambda>f. f\<lparr>pool_begin := p, pool_end := p + FRAME_MALLOC_CHUNK,
        allocated_from_os := allocated_from_os f + FRAME_MALLOC_CHUNK\<rparr>)
      (s\<lparr>os := (p, FRAME_MALLOC_CHUNK) # (c, 16) # os s,
         conses := (conses s)(c := \<lparr>pool_p = p, pool_cdr = pool_list (fc s)\<rparr>)\<rparr>))"
    using e c p by (simp add: extend_global_pool_def os_malloc_def Let_def c_def [symmetric] p_def [symmetric] upd_fc_def)
  show "cdr s' = cdr s" "wc s' = wc s" "global_free_list (fc s') = global_free_list (fc s)"
    "allocated_from_global_pool (fc s') = allocated_from_global_pool (fc s)"
    "batch_size (fc s') = batch_size (fc s)" "potential_limit (fc s') = potential_limit (fc s)"
    "fc_lock (fc s') = fc_lock (fc s)"
    by (simp_all add: s')
  have fit: "unat p + 32640 \<le> 2 ^ 63" and fresh: "\<And>q k. (q, k) \<in> set (os s) \<Longrightarrow> range p FRAME_MALLOC_CHUNK \<inter> range q k = {}"
    using malloc_okD [OF m, of "(c, 16) # os s" FRAME_MALLOC_CHUNK] p
    by (simp_all add: p_def [symmetric] chunk_unat)
  have end_eq: "unat (p + FRAME_MALLOC_CHUNK) = unat p + 32640"
    using fit by (subst unat_add_lem [THEN iffD1]) (simp_all add: chunk_unat)
  then show "unat (pool_end (fc s')) = unat (pool_begin (fc s')) + 32640" by (simp add: s')
  have pool: "{unat p ..< unat (p + FRAME_MALLOC_CHUNK)} = range p FRAME_MALLOC_CHUNK"
    by (simp add: range_def end_eq chunk_unat)
  have sub: "(\<Union>(q, k) \<in> set (os s). range q k) \<subseteq> (\<Union>(q, k) \<in> set (os s'). range q k)" by (auto simp: s')
  show "ranges_ok s' C"
    unfolding ranges_ok_def
  proof (intro conjI allI ballI impI)
    fix i j x y
    assume "x \<in> set (C i)" "y \<in> set (C j)" "x \<noteq> y"
    then show "block i x \<inter> block j y = {}" using r by (simp add: ranges_ok_def)
  next
    fix i x
    assume x: "x \<in> set (C i)"
    then have "block i x \<subseteq> (\<Union>(q, k) \<in> set (os s). range q k)" using r by (simp add: ranges_ok_def)
    with sub show "block i x \<subseteq> (\<Union>(q, k) \<in> set (os s'). range q k)" by (rule subset_trans [rotated])
    show "block i x \<inter> {unat (pool_begin (fc s')) ..< unat (pool_end (fc s'))} = {}"
      using \<open>block i x \<subseteq> (\<Union>(q, k) \<in> set (os s). range q k)\<close> fresh by (fastforce simp: s' pool)
  qed (use fit end_eq pool p c r in \<open>auto simp: s' word_le_nat_alt ranges_ok_def\<close>)
qed

lemma cells_disj: "cells_ok A C \<Longrightarrow> p \<in> set (C i) \<Longrightarrow> i \<noteq> j \<Longrightarrow> p \<notin> set (C j)"
  unfolding cells_ok_def by blast

lemma cells_NULL: "cells_ok A C \<Longrightarrow> p \<in> set (C i) \<Longrightarrow> p \<noteq> NULL"
  unfolding cells_ok_def by auto

lemma cells_bkt: "cells_ok A C \<Longrightarrow> p \<in> set (C i) \<Longrightarrow> bkt i < FRAME_MALLOC_NBUCKETS"
  by (cases "i \<in> places A") (auto simp: cells_ok_def places_def)

lemma carve_ranges:
  assumes r: "ranges_ok s C" and C: "cells_ok A C" and b: "b < FRAME_MALLOC_NBUCKETS"
    and fit: "unat (pool_begin (fc s)) + unat (bucket_to_size b) \<le> unat (pool_end (fc s))"
    and s': "pool_begin (fc s') = pool_begin (fc s) + bucket_to_size b" "pool_end (fc s') = pool_end (fc s)" "os s' = os s"
  shows "ranges_ok s' (C(User b := pool_begin (fc s) # C (User b)))" and "\<And>i. pool_begin (fc s) \<notin> set (C i)"
proof -
  let ?p = "pool_begin (fc s)"
  let ?C = "C(User b := ?p # C (User b))"
  have pos: "\<And>i. i < FRAME_MALLOC_NBUCKETS \<Longrightarrow> 0 < unat (bucket_to_size i)" by (rule bucket_size_pos)
  have new: "unat (pool_begin (fc s')) = unat ?p + unat (bucket_to_size b)"
    using fit r unfolding s' by (subst unat_add_lem [THEN iffD1]) (auto simp: ranges_ok_def)
  have blk: "block (User b) ?p \<subseteq> {unat ?p ..< unat (pool_end (fc s))}" "block (User b) ?p \<noteq> {}"
    "block (User b) ?p \<inter> {unat (pool_begin (fc s')) ..< unat (pool_end (fc s'))} = {}"
    using fit pos [OF b] new by (auto simp: block_def range_def)
  have old: "x \<in> set (?C i) \<Longrightarrow> x \<in> set (C i) \<or> i = User b \<and> x = ?p" for i x by (auto split: if_splits)
  have disj: "x \<in> set (C i) \<Longrightarrow> block i x \<inter> block (User b) ?p = {}" for i x
    using r blk(1) unfolding ranges_ok_def by blast
  show fresh: "?p \<notin> set (C i)" for i
  proof
    assume mem: "?p \<in> set (C i)"
    have "unat ?p \<in> block i ?p" "unat ?p \<in> block (User b) ?p"
      using pos [OF b] pos [OF cells_bkt [OF C mem]] by (auto simp: block_def range_def)
    then show False using disj [OF mem] by blast
  qed
  show "ranges_ok s' ?C"
    unfolding ranges_ok_def
  proof (intro conjI allI ballI impI)
    fix i j x y
    assume "x \<in> set (?C i)" "y \<in> set (?C j)" "x \<noteq> y"
    with old [of x i] old [of y j] disj r show "block i x \<inter> block j y = {}"
      unfolding ranges_ok_def by (metis inf_commute)
  next
    fix i x
    assume "x \<in> set (?C i)"
    with old [of x i] r blk(1) show "block i x \<subseteq> (\<Union>(q, k) \<in> set (os s'). range q k)"
      unfolding ranges_ok_def s' by blast
    show "block i x \<inter> {unat (pool_begin (fc s')) ..< unat (pool_end (fc s'))} = {}"
      using old [OF \<open>x \<in> set (?C i)\<close>] r blk(3) new unfolding ranges_ok_def s'(2) by fastforce
  qed (use r new fit in \<open>auto simp: ranges_ok_def s' word_le_nat_alt\<close>)
qed

subsection \<open>The global allocator\<close>

lemma fm_inv_carve:
  assumes inv: "fm_inv A s C" and b: "b < FRAME_MALLOC_NBUCKETS" and r: "ranges_ok s1 C"
    and p: "pool_begin (fc s1) \<noteq> NULL"
    and fit: "unat (pool_begin (fc s1)) + unat (bucket_to_size b) \<le> unat (pool_end (fc s1))"
    and s': "pool_begin (fc s') = pool_begin (fc s1) + bucket_to_size b" "pool_end (fc s') = pool_end (fc s1)" "os s' = os s1"
      "cdr s' = cdr s" "wc s' = wc s" "global_free_list (fc s') = global_free_list (fc s)"
      "allocated_from_global_pool (fc s') = allocated_from_global_pool (fc s) + bucket_to_size b"
  shows "fm_inv A s' (C(User b := pool_begin (fc s1) # C (User b)))"
proof -
  let ?p = "pool_begin (fc s1)"
  have C: "cells_ok A C" using inv by (simp add: fm_inv_def)
  note carve = carve_ranges [OF r C b fit s'(1-3)]
  have u: "User b \<in> places A" using b by (simp add: places_def)
  have "cells_ok A (C(User b := ?p # C (User b)))"
    using C carve(2) p u unfolding cells_ok_def by (auto simp: disjoint_iff)
  moreover have "head s' i = head s i" for i by (cases i) (simp_all add: s')
  moreover have "i \<in> A \<Longrightarrow> i \<noteq> User b" for i using C by (auto simp: cells_ok_def)
  moreover have "out_bytes A (C(User b := ?p # C (User b))) = out_bytes A C + bucket_to_size b"
    using out_bytes_upd [OF C u, of "?p # C (User b)"] by (simp add: algebra_simps)
  ultimately show ?thesis
    using inv carve(1) s' unfolding fm_inv_def by auto
qed

definition same_settings :: "fm \<Rightarrow> fm \<Rightarrow> bool" where
  "same_settings s s' \<longleftrightarrow> fc_lock (fc s') = fc_lock (fc s) \<and> batch_size (fc s') = batch_size (fc s) \<and>
     potential_limit (fc s') = potential_limit (fc s)"

lemma same_settings_refl [simp]: "same_settings s s" by (simp add: same_settings_def)

lemma same_settings_trans: "same_settings s s1 \<Longrightarrow> same_settings s1 s2 \<Longrightarrow> same_settings s s2"
  by (simp add: same_settings_def)

lemma fit_word:
  fixes p e k :: ptr
  assumes "\<not> p + k > e" and "p \<le> e" and "unat e \<le> 2 ^ 63" and "unat k \<le> 2048"
  shows "unat p + unat k \<le> unat e"
proof -
  have "unat p + unat k < 2 ^ LENGTH(64)" using assms(2-4) by (simp add: word_le_nat_alt)
  then have "unat (p + k) = unat p + unat k" by (rule unat_add_lem [THEN iffD1])
  with assms(1) show ?thesis by (simp add: word_less_nat_alt)
qed

lemma bucket_size_le: "b < FRAME_MALLOC_NBUCKETS \<Longrightarrow> unat (bucket_to_size b) \<le> 2048"
  using bucket_sizes_cases [of b] power_increasing [of b 5 "2 :: nat"] by (simp add: FRAME_MALLOC_NBUCKETS_def)

lemma global_alloc_inv:
  assumes inv: "fm_inv A s C" and g: "Glob b \<in> A" and m: "malloc_ok malloc"
    and e: "global_alloc malloc b s = Some (p, s')" and p: "p \<noteq> NULL"
  shows "fm_inv A s' (C(Glob b := tl (C (Glob b)), User b := p # C (User b))) \<and> wc s' = wc s \<and> same_settings s s'"
proof -
  have C: "cells_ok A C" and r: "ranges_ok s C" using inv by (simp_all add: fm_inv_def)
  have b: "b < FRAME_MALLOC_NBUCKETS" using C g by (auto simp: cells_ok_def)
  have path: "lpath (cdr s) (global_free_list (fc s) b) (C (Glob b)) NULL" using inv g by (auto simp: fm_inv_def)
  define s1 where "s1 = upd_fc (\<lambda>f. f\<lparr>allocated_from_global_pool := allocated_from_global_pool f + bucket_to_size b\<rparr>) s"
  show ?thesis
  proof (cases "C (Glob b)")
    case (Cons x xs)
    then have x: "global_free_list (fc s) b = x" "x \<noteq> NULL" "lpath (cdr s) (cdr s x) xs NULL" using path by auto
    then have s': "p = x" "s' = set_global_list b (cdr s x) s1"
      using e b by (auto simp: global_alloc_def fl_pop_def Let_def s1_def)
    have hd: "head s' j = head s j" if "j \<noteq> Glob b" for j using that by (cases j) (auto simp: s' s1_def)
    have "fm_inv A s' (C(Glob b := xs, User b := x # C (User b)))"
      using inv g
    proof (rule fm_inv_transfer)
      show "mset (xs @ x # C (User b)) = mset (C (Glob b) @ C (User b))" using Cons by simp
      show "lpath (cdr s') (head s' (Glob b)) xs NULL" using x by (simp add: s' s1_def)
    qed (use hd in \<open>simp_all add: s' s1_def algebra_simps\<close>)
    then show ?thesis using Cons s' by (simp add: s1_def same_settings_def)
  next
    case Nil
    then have empty: "global_free_list (fc s) b = NULL" using path by simp
    define s2 where "s2 = set_global_list b NULL s1"
    have head2: "head s2 j = head s j" for j using empty by (cases j) (auto simp: s2_def s1_def)
    have r2: "ranges_ok s2 C" using r by (simp add: ranges_ok_def s2_def s1_def)
    show ?thesis
    proof (cases "pool_begin (fc s2) + bucket_to_size b > pool_end (fc s2)")
      case False
      then have s': "p = pool_begin (fc s2)" "s' = upd_fc (\<lambda>f. f\<lparr>pool_begin := pool_begin f + bucket_to_size b\<rparr>) s2"
        using e b empty r by (simp_all add: global_alloc_def fl_pop_def Let_def s2_def s1_def ranges_ok_def)
      have "fm_inv A s' (C(User b := p # C (User b)))"
        unfolding s'(1)
      proof (rule fm_inv_carve [OF inv b r2])
        show "unat (pool_begin (fc s2)) + unat (bucket_to_size b) \<le> unat (pool_end (fc s2))"
          using False r2 bucket_size_le [OF b] by (intro fit_word) (auto simp: ranges_ok_def)
      qed (use p s' empty in \<open>auto simp: s2_def s1_def\<close>)
      moreover have "C(Glob b := []) = C" using Nil by (auto simp: fun_eq_iff)
      ultimately show ?thesis using Nil s' by (simp add: s2_def s1_def same_settings_def)
    next
      case True
      define s2' where "s2' = upd_fc (\<lambda>f. f\<lparr>wasted := wasted f + (pool_end f - pool_begin f)\<rparr>) s2"
      obtain s3 where s3: "extend_global_pool malloc s2' = Some s3" and
        s': "p = pool_begin (fc s3)" "s' = upd_fc (\<lambda>f. f\<lparr>pool_begin := pool_begin f + bucket_to_size b\<rparr>) s3"
        using e b empty r True
        by (auto simp: global_alloc_def fl_pop_def Let_def s2'_def s2_def s1_def ranges_ok_def split: bind_splits)
      have r2': "ranges_ok s2' C" using r2 by (simp add: ranges_ok_def s2'_def)
      have ok: "pool_begin (fc s3) \<noteq> NULL" using p s' by simp
      note ext = extend_ranges [OF m r2' s3 ok]
      have "fm_inv A s' (C(User b := p # C (User b)))"
        unfolding s'(1)
      proof (rule fm_inv_carve [OF inv b ext(1) ok])
        show "unat (pool_begin (fc s3)) + unat (bucket_to_size b) \<le> unat (pool_end (fc s3))"
          using ext(2) bucket_size_le [OF b] by simp
      qed (use s' empty ext in \<open>auto simp: s2'_def s2_def s1_def\<close>)
      moreover have "C(Glob b := []) = C" using Nil by (auto simp: fun_eq_iff)
      ultimately show ?thesis using Nil s' ext by (simp add: s2'_def s2_def s1_def same_settings_def)
    qed
  qed
qed

text \<open>\<open>malloc\<close> answers the next \<open>n\<close> extensions of the pool.\<close>

primrec mem_ok :: "(os_heap \<Rightarrow> 64 word \<Rightarrow> ptr) \<Rightarrow> nat \<Rightarrow> os_heap \<Rightarrow> bool" where
  "mem_ok malloc 0 live = True"
| "mem_ok malloc (Suc n) live =
     (let c = malloc live 16; p = malloc ((c, 16) # live) FRAME_MALLOC_CHUNK
      in c \<noteq> NULL \<and> p \<noteq> NULL \<and> mem_ok malloc n ((p, FRAME_MALLOC_CHUNK) # (c, 16) # live))"

lemma mem_ok_less: "mem_ok malloc (Suc n) live \<Longrightarrow> mem_ok malloc n live"
proof (induction n arbitrary: live)
  case (Suc n)
  let ?c = "malloc live 16"
  let ?p = "malloc ((?c, 16) # live) FRAME_MALLOC_CHUNK"
  have "mem_ok malloc (Suc n) ((?p, FRAME_MALLOC_CHUNK) # (?c, 16) # live)" and "?c \<noteq> NULL" "?p \<noteq> NULL"
    using Suc.prems unfolding mem_ok.simps(2) [of malloc "Suc n" live] Let_def by blast+
  with Suc.IH show ?case unfolding mem_ok.simps(2) [of malloc n live] Let_def by blast
qed simp

lemma global_alloc_total:
  assumes inv: "fm_inv A s C" and g: "Glob b \<in> A" and m: "mem_ok malloc (Suc n) (os s)"
  shows "\<exists>p s'. global_alloc malloc b s = Some (p, s') \<and> p \<noteq> NULL \<and> mem_ok malloc n (os s')"
proof -
  have b: "b < FRAME_MALLOC_NBUCKETS" and r: "ranges_ok s C" using inv g by (auto simp: fm_inv_def cells_ok_def)
  show ?thesis
  proof (cases "global_free_list (fc s) b = NULL \<and> \<not> pool_begin (fc s) + bucket_to_size b > pool_end (fc s)")
    case True
    have fit: "unat (pool_begin (fc s)) + unat (bucket_to_size b) \<le> unat (pool_end (fc s))"
      using True r bucket_size_le [OF b] by (intro fit_word) (auto simp: ranges_ok_def)
    have "pool_begin (fc s) \<noteq> NULL"
    proof
      assume z: "pool_begin (fc s) = NULL"
      have "0 < unat (pool_end (fc s))" using fit bucket_size_pos [OF b] by simp
      then have "0 \<in> (\<Union>(q, k) \<in> set (os s). range q k)"
        using r z unfolding ranges_ok_def by (auto simp: subset_iff)
      then show False using r by (auto simp: ranges_ok_def range_def unsigned_eq_0_iff)
    qed
    with True r b m mem_ok_less [OF m] show ?thesis
      by (simp add: global_alloc_def fl_pop_def Let_def ranges_ok_def)
  next
    case False
    show ?thesis
    proof (cases "global_free_list (fc s) b = NULL")
      case True
      with False r b m show ?thesis
        by (simp add: global_alloc_def fl_pop_def Let_def ranges_ok_def extend_global_pool_def os_malloc_def)
    next
      case False
      with b mem_ok_less [OF m] show ?thesis by (simp add: global_alloc_def fl_pop_def Let_def)
    qed
  qed
qed

lemma global_free_inv:
  assumes inv: "fm_inv A s C" and g: "Glob b \<in> A" and p: "p \<in> set (C (User b))"
  shows "\<exists>s'. global_free p b s = Some s' \<and> cdr s' = (cdr s)(p := global_free_list (fc s) b) \<and>
    fm_inv A s' (C(Glob b := p # C (Glob b), User b := remove1 p (C (User b)))) \<and> wc s' = wc s \<and> same_settings s s' \<and> os s' = os s"
proof -
  have C: "cells_ok A C" using inv by (simp add: fm_inv_def)
  have b: "b < FRAME_MALLOC_NBUCKETS" and p0: "p \<noteq> NULL" and ug: "p \<notin> set (C (Glob b))"
    using C g cells_NULL [OF C p] cells_disj [OF C p] by (auto simp: cells_ok_def)
  let ?s1 = "upd_fc (\<lambda>f. f\<lparr>allocated_from_global_pool := allocated_from_global_pool f - bucket_to_size b\<rparr>) s"
  let ?s' = "set_global_list b p (?s1\<lparr>cdr := (cdr s)(p := global_free_list (fc s) b)\<rparr>)"
  have e: "global_free p b s = Some ?s'" using b p0 by (simp add: global_free_def fl_push_def Let_def)
  have path: "lpath (cdr s) (global_free_list (fc s) b) (C (Glob b)) NULL" using inv g by (auto simp: fm_inv_def)
  have len: "length (C (User b)) = Suc (length (remove1 p (C (User b))))"
    using p by (simp add: length_remove1) (metis Suc_pred length_pos_if_in_set)
  have hd: "head ?s' j = head s j" if "j \<noteq> Glob b" for j using that by (cases j) auto
  have "fm_inv A ?s' (C(Glob b := p # C (Glob b), User b := remove1 p (C (User b))))"
    using inv g
  proof (rule fm_inv_transfer)
    show "mset ((p # C (Glob b)) @ remove1 p (C (User b))) = mset (C (Glob b) @ C (User b))" using p by simp
    show "lpath (cdr ?s') (head ?s' (Glob b)) (p # C (Glob b)) NULL" using path p0 ug by simp
    show "allocated_from_global_pool (fc ?s') = allocated_from_global_pool (fc s) +
      (if in_pool (Glob b) then bucket_to_size b * (of_nat (length (remove1 p (C (User b)))) - of_nat (length (C (User b)))) else 0)"
      unfolding len by (simp add: algebra_simps)
  qed (use hd p in auto)
  with e show ?thesis by (auto simp: same_settings_def)
qed

subsection \<open>The free list of a worker\<close>

lemma worker_push_inv:
  assumes inv: "fm_inv A s C" and w: "Work w b \<in> A" and p: "p \<in> set (C (User b))"
  shows "\<exists>s'. fl_push (free_list (wc s w) b) p s = Some (p, s') \<and>
    fm_inv A (set_worker_list w b p s') (C(Work w b := p # C (Work w b), User b := remove1 p (C (User b)))) \<and>
    fc s' = fc s \<and> wc s' = wc s \<and> os s' = os s"
proof -
  have C: "cells_ok A C" using inv by (simp add: fm_inv_def)
  have p0: "p \<noteq> NULL" and uw: "p \<notin> set (C (Work w b))" using cells_NULL [OF C p] cells_disj [OF C p] by auto
  let ?s' = "s\<lparr>cdr := (cdr s)(p := free_list (wc s w) b)\<rparr>"
  have path: "lpath (cdr s) (free_list (wc s w) b) (C (Work w b)) NULL" using inv w by (auto simp: fm_inv_def)
  have hd: "head (set_worker_list w b p ?s') j = head s j" if "j \<noteq> Work w b" for j using that by (cases j) auto
  have "fm_inv A (set_worker_list w b p ?s') (C(Work w b := p # C (Work w b), User b := remove1 p (C (User b))))"
    using inv w
  proof (rule fm_inv_transfer)
    show "mset ((p # C (Work w b)) @ remove1 p (C (User b))) = mset (C (Work w b) @ C (User b))" using p by simp
    show "lpath (cdr (set_worker_list w b p ?s')) (head (set_worker_list w b p ?s') (Work w b)) (p # C (Work w b)) NULL"
      using path p0 uw by simp
  qed (use hd p in auto)
  with p0 show ?thesis by (simp add: fl_push_def)
qed

lemma worker_pop_inv:
  assumes inv: "fm_inv A s C" and w: "Work w b \<in> A" and C: "C (Work w b) = p # ps"
  shows "fl_pop (free_list (wc s w) b) s = (p, cdr s p) \<and> p \<noteq> NULL \<and>
    fm_inv A (set_worker_list w b (cdr s p) s) (C(Work w b := ps, User b := p # C (User b)))"
proof -
  have path: "free_list (wc s w) b = p" "p \<noteq> NULL" "lpath (cdr s) (cdr s p) ps NULL"
    using inv w C by (auto simp: fm_inv_def dest!: bspec)
  have hd: "head (set_worker_list w b q s) j = head s j" if "j \<noteq> Work w b" for j q using that by (cases j) auto
  have "fm_inv A (set_worker_list w b (cdr s p) s) (C(Work w b := ps, User b := p # C (User b)))"
    using inv w
  proof (rule fm_inv_transfer)
    show "mset (ps @ p # C (User b)) = mset (C (Work w b) @ C (User b))" using C by simp
  qed (use hd path in auto)
  with path show ?thesis by (simp add: fl_pop_def)
qed

lemma worker_path:
  "fm_inv A s C \<Longrightarrow> Work w b \<in> A \<Longrightarrow> lpath (cdr s) (free_list (wc s w) b) (C (Work w b)) NULL"
  unfolding fm_inv_def by (metis head.simps(2))

lemma worker_empty:
  assumes "fm_inv A s C" and "Work w b \<in> A" and "C (Work w b) = []"
  shows "free_list (wc s w) b = NULL"
  using assms by (auto simp: fm_inv_def dest!: bspec)

lemma fm_inv_irrelevant:
  assumes "fm_inv A s C"
  shows "fm_inv A (set_potential w b n s) C" and "fm_inv A (upd_fc (fc_lock_update f) s) C"
proof -
  have "head (set_potential w b n s) j = head s j" "head (upd_fc (fc_lock_update f) s) j = head s j" for j
    by (cases j; simp)+
  then show "fm_inv A (set_potential w b n s) C" and "fm_inv A (upd_fc (fc_lock_update f) s) C"
    using assms by (simp_all add: fm_inv_def ranges_ok_def)
qed

subsection \<open>Batches\<close>

text \<open>Only the blocks of bucket \<open>b\<close> outside the global list and with worker \<open>w\<close> are touched.\<close>

definition only_bucket :: "ptr \<Rightarrow> nat \<Rightarrow> (spot \<Rightarrow> ptr list) \<Rightarrow> (spot \<Rightarrow> ptr list) \<Rightarrow> bool" where
  "only_bucket w b C C' \<longleftrightarrow> (\<forall>i. i \<notin> {Glob b, Work w b} \<longrightarrow> C' i = C i)"

lemma only_bucket_trans: "only_bucket w b C C1 \<Longrightarrow> only_bucket w b C1 C2 \<Longrightarrow> only_bucket w b C C2"
  by (simp add: only_bucket_def)

text \<open>One round: a block from the global allocator is pushed onto the worker's list.\<close>

lemma batch_round:
  assumes inv: "fm_inv A s C" and A: "Glob b \<in> A" "Work w b \<in> A" and m: "malloc_ok malloc"
    and mem: "mem_ok malloc (Suc n) (os s)"
  shows "\<exists>p s1 s2 C'. global_alloc malloc b s = Some (p, s1) \<and> fl_push (free_list (wc s1 w) b) p s1 = Some (p, s2) \<and>
    fm_inv A (set_worker_list w b p s2) C' \<and> only_bucket w b C C' \<and> C' (Work w b) = p # C (Work w b) \<and>
    wc s2 = wc s \<and> same_settings s s2 \<and> mem_ok malloc n (os s2)"
proof -
  obtain p s1 where p: "global_alloc malloc b s = Some (p, s1)" "p \<noteq> NULL" "mem_ok malloc n (os s1)"
    using global_alloc_total [OF inv A(1) mem] by blast
  let ?C1 = "C(Glob b := tl (C (Glob b)), User b := p # C (User b))"
  have inv1: "fm_inv A s1 ?C1" and s1: "wc s1 = wc s" "same_settings s s1"
    using global_alloc_inv [OF inv A(1) m p(1,2)] by auto
  have "p \<in> set (?C1 (User b))" by simp
  from worker_push_inv [OF inv1 A(2) this] obtain s2 where s2: "fl_push (free_list (wc s1 w) b) p s1 = Some (p, s2)"
      "fm_inv A (set_worker_list w b p s2) (?C1(Work w b := p # ?C1 (Work w b), User b := remove1 p (?C1 (User b))))"
      "fc s2 = fc s1" "wc s2 = wc s1" "os s2 = os s1"
    by blast
  moreover have "only_bucket w b C (?C1(Work w b := p # ?C1 (Work w b), User b := remove1 p (?C1 (User b))))"
    by (auto simp: only_bucket_def)
  moreover have "same_settings s s2" using s1(2) s2(3) by (simp add: same_settings_def)
  ultimately show ?thesis
    using p s1 by (intro exI [of _ p] exI [of _ s1] exI [of _ s2] exI conjI) (assumption | simp)+
qed

lemma batch_loop_inv:
  assumes "fm_inv A s C" and "Glob b \<in> A" and "Work w b \<in> A" and "malloc_ok malloc" and "mem_ok malloc k (os s)"
    and "unat (batch_size (fc s)) \<le> unat bytes + k * unat (bucket_to_size b)" and "k > 0"
    and "unat (batch_size (fc s)) \<le> 2 ^ 62" and "unat bytes < 2 ^ 62"
  shows "\<exists>s' C'. batch_loop malloc w b (bucket_to_size b) bytes s = Some s' \<and> fm_inv A s' C' \<and>
    only_bucket w b C C' \<and> C' (Work w b) \<noteq> [] \<and> same_settings s s'"
  using assms
proof (induction k arbitrary: s C bytes)
  case 0
  then show ?case by simp
next
  case (Suc k)
  let ?sz = "bucket_to_size b"
  let ?s1 = "set_potential w b (bucket_potential (wc s w) b + ?sz) s"
  have b: "b < FRAME_MALLOC_NBUCKETS" using Suc.prems(1,2) by (auto simp: fm_inv_def cells_ok_def)
  have inv1: "fm_inv A ?s1 C" using Suc.prems(1) by (rule fm_inv_irrelevant)
  have os1: "os ?s1 = os s" by simp
  obtain p s2 s3 C1 where r: "global_alloc malloc b ?s1 = Some (p, s2)" "fl_push (free_list (wc s2 w) b) p s2 = Some (p, s3)"
      "fm_inv A (set_worker_list w b p s3) C1" "only_bucket w b C C1" "C1 (Work w b) = p # C (Work w b)"
      "same_settings ?s1 s3" "mem_ok malloc k (os s3)"
    using batch_round [OF inv1 Suc.prems(2,3,4), of k] Suc.prems(5) os1 by metis
  let ?s4 = "set_worker_list w b p s3"
  have set: "same_settings s ?s4" "batch_size (fc ?s4) = batch_size (fc s)"
    using r(6) by (simp_all add: same_settings_def)
  have step: "batch_loop malloc w b ?sz bytes s =
      (if bytes + ?sz < batch_size (fc s) then batch_loop malloc w b ?sz (bytes + ?sz) ?s4 else Some ?s4)"
    using set(2) by (subst batch_loop.simps) (simp add: r Let_def)
  have sum: "unat (bytes + ?sz) = unat bytes + unat ?sz"
    using Suc.prems(9) bucket_size_le [OF b] by (intro unat_add_lem [THEN iffD1]) simp
  show ?case
  proof (cases "bytes + ?sz < batch_size (fc s)")
    case False
    then show ?thesis using step r set by (intro exI [of _ ?s4] exI [of _ C1]) auto
  next
    case True
    then have lt: "unat bytes + unat ?sz < unat (batch_size (fc s))" using sum by (simp add: word_less_nat_alt)
    then have "k > 0" using Suc.prems(6) by (cases k) auto
    moreover have "unat (batch_size (fc ?s4)) \<le> unat (bytes + ?sz) + k * unat ?sz"
      using Suc.prems(6) sum set(2) by (simp add: algebra_simps)
    moreover have "unat (bytes + ?sz) < 2 ^ 62" using lt sum Suc.prems(8) by simp
    moreover have "mem_ok malloc k (os ?s4)" using r(7) by simp
    moreover have "unat (batch_size (fc ?s4)) \<le> 2 ^ 62" using set(2) Suc.prems(8) by simp
    ultimately obtain s' C' where "batch_loop malloc w b ?sz (bytes + ?sz) ?s4 = Some s'" "fm_inv A s' C'"
        "only_bucket w b C1 C'" "C' (Work w b) \<noteq> []" "same_settings ?s4 s'"
      using Suc.IH [OF r(3) Suc.prems(2,3,4)] by blast
    with step True r(4) set(1) show ?thesis
      by (auto intro: only_bucket_trans same_settings_trans)
  qed
qed

definition fc_free :: "fm \<Rightarrow> bool" where
  "fc_free s \<longleftrightarrow> mutex_lock_word (fc_lock (fc s)) = 0 \<and> mutex_owner (fc_lock (fc s)) = NULL"

lemma lock_fc_free:
  "fc_free s \<Longrightarrow> lock_fc w s = Some (upd_fc (fc_lock_update (\<lambda>_. (fc_lock (fc s))\<lparr>mutex_lock_word := 1, mutex_owner := w\<rparr>)) s)"
proof -
  assume "fc_free s"
  then have "mutex_lock w (fc_lock (fc s)) = Some ((fc_lock (fc s))\<lparr>mutex_lock_word := 1, mutex_owner := w\<rparr>)"
    by (simp add: mutex_lock_Some_iff fc_free_def)
  then show ?thesis by (simp add: lock_fc_def)
qed

lemma unlock_fc_held:
  "mutex_owner (fc_lock (fc s)) = w \<Longrightarrow> \<exists>s'. unlock_fc w s = Some s' \<and> fc_free s' \<and>
    s' = upd_fc (fc_lock_update (\<lambda>_. (fc_lock (fc s))\<lparr>mutex_owner := NULL, mutex_lock_word := 0\<rparr>)) s"
  using mutex_unlock_total [of "fc_lock (fc s)"] by (auto simp: unlock_fc_def fc_free_def)

lemma allocate_batch_inv:
  assumes inv: "fm_inv A s C" and A: "Glob b \<in> A" "Work w b \<in> A" and m: "malloc_ok malloc" "mem_ok malloc k (os s)"
    and k: "unat (batch_size (fc s)) \<le> k * unat (bucket_to_size b)" "k > 0" "unat (batch_size (fc s)) \<le> 2 ^ 62"
    and free: "fc_free s"
  shows "\<exists>s' C'. allocate_batch malloc w b (bucket_to_size b) s = Some s' \<and> fm_inv A s' C' \<and> fc_free s' \<and>
    only_bucket w b C C' \<and> C' (Work w b) \<noteq> []"
proof -
  let ?l = "upd_fc (fc_lock_update (\<lambda>_. (fc_lock (fc s))\<lparr>mutex_lock_word := 1, mutex_owner := w\<rparr>)) s"
  obtain s2 C' where s2: "batch_loop malloc w b (bucket_to_size b) 0 ?l = Some s2" "fm_inv A s2 C'"
      "only_bucket w b C C'" "C' (Work w b) \<noteq> []" "same_settings ?l s2"
    using batch_loop_inv [OF fm_inv_irrelevant(2) [OF inv, of "\<lambda>_. (fc_lock (fc s))\<lparr>mutex_lock_word := 1, mutex_owner := w\<rparr>"]
        A m(1), where k = k and bytes = 0] m(2) k by (simp, blast)
  have "mutex_owner (fc_lock (fc s2)) = w" using s2(5) by (simp add: same_settings_def)
  then obtain s3 where "unlock_fc w s2 = Some s3" "fc_free s3" "fm_inv A s3 C'"
    using unlock_fc_held [of s2 w] fm_inv_irrelevant(2) [OF s2(2)] by auto
  with s2 lock_fc_free [OF free, of w] show ?thesis by (auto simp: allocate_batch_def)
qed

subsection \<open>Allocating a frame\<close>

lemma malloc_loop_pop:
  assumes inv: "fm_inv A s C" and w: "Work w b \<in> A" and ne: "C (Work w b) = p # ps"
  shows "malloc_loop malloc w b sz s = Some (p, set_worker_list w b (cdr s p) s)"
  using worker_pop_inv [OF inv w ne] by (subst malloc_loop.simps) (simp add: Let_def)

definition took :: "ptr \<Rightarrow> nat \<Rightarrow> ptr \<Rightarrow> (spot \<Rightarrow> ptr list) \<Rightarrow> (spot \<Rightarrow> ptr list) \<Rightarrow> bool" where
  "took w b p C C' \<longleftrightarrow> C' (User b) = p # C (User b) \<and> (\<forall>i. p \<notin> set (C (User i))) \<and>
     (\<forall>i. i \<notin> {Glob b, Work w b, User b} \<longrightarrow> C' i = C i)"

lemma pop_took:
  assumes inv: "fm_inv A s C" and w: "Work w b \<in> A" and ne: "C (Work w b) = p # ps"
  shows "\<exists>C'. fm_inv A (set_worker_list w b (cdr s p) s) C' \<and> took w b p C C'"
proof -
  have "p \<in> set (C (Work w b))" using ne by simp
  then have "p \<notin> set (C (User i))" for i using cells_disj inv by (auto simp: fm_inv_def)
  then show ?thesis
    using worker_pop_inv [OF inv w ne]
    by (intro exI [of _ "C(Work w b := ps, User b := p # C (User b))"]) (simp add: took_def)
qed

lemma frame_malloc_inv:
  assumes inv: "fm_inv A s C" and A: "Glob b \<in> A" "Work w b \<in> A" and m: "malloc_ok malloc" "mem_ok malloc k (os s)"
    and k: "unat (batch_size (fc s)) \<le> k * unat (bucket_to_size b)" "k > 0" "unat (batch_size (fc s)) \<le> 2 ^ 62"
    and free: "fc_free s" and w: "w \<noteq> NULL" and sz: "sz \<le> FRAME_MALLOC_MAX_SIZE" "bucket_of_size sz = Some b"
  shows "\<exists>p s' C'. frame_malloc malloc w sz s = Some (p, s') \<and> fm_inv A s' C' \<and> fc_free s' \<and> took w b p C C'"
proof -
  have fm: "frame_malloc malloc w sz s = malloc_loop malloc w b (bucket_to_size b) s"
    using w sz by (simp add: frame_malloc_def not_less [symmetric])
  show ?thesis
  proof (cases "C (Work w b)")
    case (Cons p ps)
    moreover have "fc_free (set_worker_list w b (cdr s p) s)" using free by (simp add: fc_free_def)
    ultimately show ?thesis using fm malloc_loop_pop [OF inv A(2)] pop_took [OF inv A(2)] by fastforce
  next
    case Nil
    have same: "set_worker_list w b NULL s = s"
    proof -
      have "(free_list (wc s w))(b := NULL) = free_list (wc s w)"
        using worker_empty [OF inv A(2) Nil] by (simp add: fun_upd_idem)
      then show ?thesis by (simp add: set_worker_list_def upd_wc_def)
    qed
    obtain s1 C1 where s1: "allocate_batch malloc w b (bucket_to_size b) s = Some s1" "fm_inv A s1 C1" "fc_free s1"
        "only_bucket w b C C1" "C1 (Work w b) \<noteq> []"
      using allocate_batch_inv [OF inv A m k free] by blast
    then obtain p ps where ne: "C1 (Work w b) = p # ps" by (cases "C1 (Work w b)") auto
    have "malloc_loop malloc w b (bucket_to_size b) s = malloc_loop malloc w b (bucket_to_size b) s1"
      using worker_empty [OF inv A(2) Nil] s1(1) same by (subst malloc_loop.simps) (simp add: fl_pop_def Let_def)
    with malloc_loop_pop [OF s1(2) A(2) ne] fm
    have "frame_malloc malloc w sz s = Some (p, set_worker_list w b (cdr s1 p) s1)" by simp
    moreover have "fc_free (set_worker_list w b (cdr s1 p) s1)" using s1(3) by (simp add: fc_free_def)
    moreover obtain C' where C': "fm_inv A (set_worker_list w b (cdr s1 p) s1) C'" "took w b p C1 C'"
      using pop_took [OF s1(2) A(2) ne] by blast
    moreover have "C1 (User i) = C (User i)" for i using s1(4) by (simp add: only_bucket_def)
    then have "took w b p C C'" using s1(4) C'(2) by (auto simp: took_def only_bucket_def)
    ultimately show ?thesis by blast
  qed
qed

subsection \<open>Giving blocks back to the global list\<close>

lemma gc_scan_path:
  "lpath (cdr s) p xs NULL \<Longrightarrow>
   \<exists>k \<le> length xs. gc_scan p n pot sz s = Some (if k = length xs then NULL else xs ! k, n + of_nat k * sz) \<and>
     (k < length xs \<longrightarrow> \<not> 2 * (n + of_nat k * sz) < pot) \<and> (\<forall>j < k. 2 * (n + of_nat j * sz) < pot)"
proof (induction xs arbitrary: p n)
  case Nil
  then show ?case by (intro exI [of _ 0]) (simp add: gc_scan.simps)
next
  case (Cons x xs)
  then have p: "p = x" "x \<noteq> NULL" "lpath (cdr s) (cdr s x) xs NULL" by auto
  show ?case
  proof (cases "2 * n < pot")
    case False
    with p show ?thesis by (intro exI [of _ 0]) (simp add: gc_scan.simps)
  next
    case True
    from Cons.IH [OF p(3), of "n + sz"] obtain k where k: "k \<le> length xs"
        "gc_scan (cdr s x) (n + sz) pot sz s = Some (if k = length xs then NULL else xs ! k, n + sz + of_nat k * sz)"
        "k < length xs \<longrightarrow> \<not> 2 * (n + sz + of_nat k * sz) < pot" "\<forall>j < k. 2 * (n + sz + of_nat j * sz) < pot"
      by blast
    have eq: "n + sz + of_nat j * sz = n + of_nat (Suc j) * sz" for j by (simp add: algebra_simps)
    have "\<forall>j < Suc k. 2 * (n + of_nat j * sz) < pot"
    proof (intro allI impI)
      fix j
      assume "j < Suc k"
      then show "2 * (n + of_nat j * sz) < pot" using k(4) True unfolding eq by (cases j) simp_all
    qed
    moreover have "gc_scan p n pot sz s = gc_scan (cdr s x) (n + sz) pot sz s"
      using p True by (subst gc_scan.simps) simp
    ultimately show ?thesis using k(1-3) unfolding eq by (intro exI [of _ "Suc k"]) simp
  qed
qed

lemma gc_free_inv:
  assumes "fm_inv A s C" and "Glob b \<in> A" and "Work w b \<in> A" and "C (Work w b) = xs @ p # ys"
  shows "\<exists>s' C'. gc_free p b s = Some s' \<and> fm_inv A s' C' \<and> C' (Work w b) = xs @ [p] \<and> only_bucket w b C C' \<and>
    wc s' = wc s \<and> same_settings s s'"
  using assms
proof (induction ys arbitrary: s C)
  case Nil
  then have "lpath (cdr s) (free_list (wc s w) b) (xs @ [p]) NULL" using worker_path by fastforce
  then have "cdr s p = NULL" by (rule lpath_last)
  then have "gc_free p b s = Some s" by (subst gc_free.simps) (simp add: fl_pop_def Let_def fun_upd_idem_iff)
  with Nil show ?case by (auto simp: only_bucket_def)
next
  case (Cons q ys)
  have path: "lpath (cdr s) (free_list (wc s w) b) (xs @ p # q # ys) NULL"
    using worker_path [OF Cons.prems(1,3)] Cons.prems(4) by simp
  have dist: "distinct (xs @ p # q # ys)" using Cons.prems(1,4) by (metis cells_ok_def fm_inv_def)
  have q: "cdr s p = q" "q \<noteq> NULL" "lpath (cdr s) (cdr s q) ys NULL" and start: "lpath (cdr s) (free_list (wc s w) b) xs p" "p \<noteq> NULL"
    using path by (auto simp: lpath_append)
  let ?s1 = "s\<lparr>cdr := (cdr s)(p := cdr s q)\<rparr>"
  let ?C1 = "C(Work w b := xs @ p # ys, User b := q # C (User b))"
  have hd: "head ?s1 j = head s j" for j by (cases j) auto
  have inv1: "fm_inv A ?s1 ?C1"
    using Cons.prems(1,3)
  proof (rule fm_inv_transfer)
    show "mset ((xs @ p # ys) @ q # C (User b)) = mset (C (Work w b) @ C (User b))" using Cons.prems(4) by simp
    show "lpath (cdr ?s1) (head ?s1 (Work w b)) (xs @ p # ys) NULL" using q start dist by (auto simp: lpath_append hd)
  qed (use hd Cons.prems(4) in auto)
  define C2 where "C2 = ?C1(Glob b := q # ?C1 (Glob b), User b := remove1 q (?C1 (User b)))"
  from global_free_inv [OF inv1 Cons.prems(2), of q]
  obtain s2 where s2: "global_free q b ?s1 = Some s2" "wc s2 = wc s" "same_settings s s2" "fm_inv A s2 C2"
    by (auto simp: same_settings_def C2_def)
  have C2: "C2 (Work w b) = xs @ p # ys" "only_bucket w b C C2" by (auto simp: C2_def only_bucket_def)
  from Cons.IH [OF s2(4) Cons.prems(2,3) C2(1)]
  obtain s' C' where "gc_free p b s2 = Some s'" "fm_inv A s' C'" "C' (Work w b) = xs @ [p]"
      "only_bucket w b C2 C'" "wc s' = wc s2" "same_settings s2 s'"
    by blast
  moreover have "gc_free p b s = gc_free p b s2"
    using q s2(1) by (subst gc_free.simps) (simp add: fl_pop_def Let_def)
  ultimately show ?case using s2(2,3) C2(2) by (auto intro: only_bucket_trans same_settings_trans)
qed

lemma gc_bucket_inv:
  assumes inv: "fm_inv A s C" and A: "Glob b \<in> A" "Work w b \<in> A" and free: "fc_free s"
  shows "\<exists>s' C' k. gc_bucket w b sz s = Some s' \<and> fm_inv A s' C' \<and> fc_free s' \<and> only_bucket w b C C' \<and>
    k \<le> length (C (Work w b)) \<and> C' (Work w b) = take (k + 1) (C (Work w b)) \<and>
    bucket_potential (wc s' w) b = of_nat k * sz \<and>
    (\<forall>j < k. 2 * (of_nat j * sz) < bucket_potential (wc s w) b)"
proof -
  let ?xs = "C (Work w b)"
  obtain k where k: "k \<le> length ?xs" "gc_scan (free_list (wc s w) b) 0 (bucket_potential (wc s w) b) sz s =
      Some (if k = length ?xs then NULL else ?xs ! k, of_nat k * sz)" "\<forall>j < k. 2 * (of_nat j * sz) < bucket_potential (wc s w) b"
    using gc_scan_path [OF worker_path [OF inv A(2)], of 0 "bucket_potential (wc s w) b" sz] by auto
  let ?s1 = "set_potential w b (of_nat k * sz) s"
  have inv1: "fm_inv A ?s1 C" and free1: "fc_free ?s1"
    using fm_inv_irrelevant(1) [OF inv] free by (simp_all add: fc_free_def)
  show ?thesis
  proof (cases "k = length ?xs")
    case True
    then have "gc_bucket w b sz s = Some ?s1" using k(2) by (simp add: gc_bucket_def)
    with True k inv1 free1 show ?thesis
      by (intro exI [of _ ?s1] exI [of _ C] exI [of _ k]) (simp add: only_bucket_def)
  next
    case False
    then have lt: "k < length ?xs" using k(1) by simp
    then have split: "?xs = take k ?xs @ ?xs ! k # drop (Suc k) ?xs" by (rule id_take_nth_drop)
    have nn: "?xs ! k \<noteq> NULL" using cells_NULL [where C = C and i = "Work w b"] nth_mem [OF lt] inv unfolding fm_inv_def by blast
    let ?s2 = "upd_fc (fc_lock_update (\<lambda>_. (fc_lock (fc ?s1))\<lparr>mutex_lock_word := 1, mutex_owner := w\<rparr>)) ?s1"
    obtain s3 C' where s3: "gc_free (?xs ! k) b ?s2 = Some s3" "fm_inv A s3 C'" "C' (Work w b) = take k ?xs @ [?xs ! k]"
        "only_bucket w b C C'" "wc s3 = wc ?s2" "same_settings ?s2 s3"
      using gc_free_inv [OF fm_inv_irrelevant(2) [OF inv1] A split] by blast
    have "mutex_owner (fc_lock (fc s3)) = w" using s3(6) by (simp add: same_settings_def)
    then obtain s4 where s4: "unlock_fc w s3 = Some s4" "fc_free s4"
        "s4 = upd_fc (fc_lock_update (\<lambda>_. (fc_lock (fc s3))\<lparr>mutex_owner := NULL, mutex_lock_word := 0\<rparr>)) s3"
      using unlock_fc_held by blast
    have "gc_bucket w b sz s = Some s4"
      using k(2) False nn lock_fc_free [OF free1, of w] s3(1) s4(1) by (simp add: gc_bucket_def)
    moreover have "fm_inv A s4 C'" unfolding s4(3) by (rule fm_inv_irrelevant(2) [OF s3(2)])
    moreover have "C' (Work w b) = take (k + 1) ?xs" using s3(3) lt by (simp add: take_Suc_conv_app_nth)
    moreover have "bucket_potential (wc s4 w) b = of_nat k * sz" using s3(5) by (simp add: s4(3))
    ultimately show ?thesis using s3(4) s4(2) k by blast
  qed
qed

definition gave :: "ptr \<Rightarrow> nat \<Rightarrow> ptr \<Rightarrow> (spot \<Rightarrow> ptr list) \<Rightarrow> (spot \<Rightarrow> ptr list) \<Rightarrow> bool" where
  "gave w b p C C' \<longleftrightarrow> C' (User b) = remove1 p (C (User b)) \<and>
     (\<forall>i. i \<notin> {Glob b, Work w b, User b} \<longrightarrow> C' i = C i)"

lemma frame_free_inv:
  assumes inv: "fm_inv A s C" and A: "Glob b \<in> A" "Work w b \<in> A" and free: "fc_free s" and w: "w \<noteq> NULL"
    and sz: "sz \<le> FRAME_MALLOC_MAX_SIZE" "bucket_of_size sz = Some b" and p: "p \<in> set (C (User b))"
  shows "\<exists>s' C'. frame_free w p sz s = Some s' \<and> fm_inv A s' C' \<and> fc_free s' \<and> gave w b p C C'"
proof -
  let ?sz = "bucket_to_size b"
  let ?s1 = "set_potential w b (bucket_potential (wc s w) b + ?sz) s"
  have inv1: "fm_inv A ?s1 C" by (rule fm_inv_irrelevant(1) [OF inv])
  let ?C1 = "C(Work w b := p # C (Work w b), User b := remove1 p (C (User b)))"
  obtain s2 where s2: "fl_push (free_list (wc ?s1 w) b) p ?s1 = Some (p, s2)" "fm_inv A (set_worker_list w b p s2) ?C1"
      "fc s2 = fc ?s1" "wc s2 = wc ?s1"
    using worker_push_inv [OF inv1 A(2) p] by blast
  let ?s3 = "set_worker_list w b p s2"
  have free3: "fc_free ?s3" using free s2(3) by (simp add: fc_free_def)
  have gave1: "gave w b p C ?C1" by (simp add: gave_def)
  have fr: "frame_free w p sz s =
      (if bucket_potential (wc ?s3 w) b > potential_limit (fc ?s3) then gc_bucket w b ?sz ?s3 else Some ?s3)"
    using w sz s2(1) by (simp add: frame_free_def not_less [symmetric] Let_def del: set_sel)
  show ?thesis
  proof (cases "bucket_potential (wc ?s3 w) b > potential_limit (fc ?s3)")
    case False
    then show ?thesis using fr s2(2) free3 gave1 by auto
  next
    case True
    obtain s' C' where g: "gc_bucket w b ?sz ?s3 = Some s'" "fm_inv A s' C'" "fc_free s'" "only_bucket w b ?C1 C'"
      using gc_bucket_inv [OF s2(2) A free3, of ?sz] by blast
    moreover have "gave w b p C C'" using g(4) by (auto simp: gave_def only_bucket_def)
    ultimately show ?thesis using fr True by auto
  qed
qed

subsection \<open>Cleaning up\<close>

lemma move_loop_inv:
  assumes "fm_inv A s C" and "Glob b \<in> A" and "lpath (cdr s) p ys NULL" and "set ys \<subseteq> set (C (User b))" and "distinct ys"
  shows "\<exists>s' C'. move_loop p b s = Some s' \<and> fm_inv A s' C' \<and> set (C' (User b)) = set (C (User b)) - set ys \<and>
    (\<forall>i. i \<notin> {Glob b, User b} \<longrightarrow> C' i = C i) \<and> wc s' = wc s \<and> same_settings s s'"
  using assms
proof (induction ys arbitrary: p s C)
  case Nil
  then show ?case by (subst move_loop.simps) (auto simp: fl_pop_def)
next
  case (Cons q ys)
  then have q: "p = q" "q \<noteq> NULL" "lpath (cdr s) (cdr s q) ys NULL" by auto
  let ?C1 = "C(Glob b := q # C (Glob b), User b := remove1 q (C (User b)))"
  obtain s1 where s1: "global_free q b s = Some s1" "cdr s1 = (cdr s)(q := global_free_list (fc s) b)" "fm_inv A s1 ?C1"
      "wc s1 = wc s" "same_settings s s1"
    using global_free_inv [OF Cons.prems(1,2), of q] Cons.prems(4) by auto
  have dist: "distinct (C (User b))" using Cons.prems(1) by (simp add: fm_inv_def cells_ok_def)
  have "lpath (cdr s1) (cdr s q) ys NULL" using q(3) Cons.prems(5) by (simp add: s1(2))
  moreover have "set ys \<subseteq> set (?C1 (User b))" using Cons.prems(4,5) dist by auto
  ultimately obtain s' C' where "move_loop (cdr s q) b s1 = Some s'" "fm_inv A s' C'"
      "set (C' (User b)) = set (?C1 (User b)) - set ys" "\<forall>i. i \<notin> {Glob b, User b} \<longrightarrow> C' i = ?C1 i"
      "wc s' = wc s1" "same_settings s1 s'"
    using Cons.IH [OF s1(3) Cons.prems(2), of "cdr s q"] Cons.prems(5) by auto
  moreover have "move_loop p b s = move_loop (cdr s q) b s1"
    using q s1(1) by (subst move_loop.simps) (simp add: fl_pop_def)
  moreover have "set (?C1 (User b)) - set ys = set (C (User b)) - set (q # ys)" using dist by auto
  ultimately show ?case using s1(4,5) by (auto intro: same_settings_trans)
qed

lemma out_bytes_drop:
  assumes "cells_ok A C" and "C i = []" and "\<And>b. i \<noteq> User b"
  shows "out_bytes (A - {i}) C = out_bytes A C"
  unfolding out_bytes_def
proof (rule sum.mono_neutral_left)
  show "finite {j \<in> places A. \<not> in_pool j}" using assms(1) by (auto simp: cells_ok_def places_def)
qed (use assms in \<open>auto simp: places_def\<close>)

lemma fm_inv_drop:
  assumes inv: "fm_inv A s C" and e: "C (Work w b) = []"
  shows "fm_inv (A - {Work w b}) (set_worker_list w b p s) C"
proof -
  have C: "cells_ok A C" using inv by (simp add: fm_inv_def)
  have "cells_ok (A - {Work w b}) C" using C e unfolding cells_ok_def places_def by auto
  moreover have "head (set_worker_list w b p s) j = head s j" if "j \<noteq> Work w b" for j using that by (cases j) auto
  ultimately show ?thesis
    using inv out_bytes_drop [OF C e] by (auto simp: fm_inv_def ranges_ok_def)
qed

text \<open>A worker that is cleaned up loses its lists; the blocks of other places stay where they are.\<close>

lemma move_bucket_inv:
  assumes inv: "fm_inv A s C" and A: "Glob b \<in> A" "Work w b \<in> A" and free: "fc_free s"
  shows "\<exists>s' C'. move_bucket_to_global_free_list w b s = Some s' \<and> fm_inv (A - {Work w b}) s' C' \<and> fc_free s' \<and>
    C' (Work w b) = [] \<and> set (C' (User b)) = set (C (User b)) \<and> (\<forall>i. i \<notin> {Glob b, Work w b, User b} \<longrightarrow> C' i = C i)"
proof -
  let ?p = "free_list (wc s w) b"
  let ?ys = "C (Work w b)"
  have path: "lpath (cdr s) ?p ?ys NULL" using inv A(2) by (rule worker_path)
  have C: "cells_ok A C" using inv by (simp add: fm_inv_def)
  let ?C1 = "C(Work w b := [], User b := ?ys @ C (User b))"
  have hd: "head (set_worker_list w b NULL s) j = head s j" if "j \<noteq> Work w b" for j using that by (cases j) auto
  have "fm_inv A (set_worker_list w b NULL s) ?C1"
    using inv A(2) by (rule fm_inv_transfer) (use hd in auto)
  then have "fm_inv (A - {Work w b}) (set_worker_list w b ?p (set_worker_list w b NULL s)) ?C1" by (rule fm_inv_drop) simp
  moreover have "set_worker_list w b ?p (set_worker_list w b NULL s) = s"
  proof -
    have "(free_list (wc s w))(b := ?p) = free_list (wc s w)" by simp
    then show ?thesis by (simp add: set_worker_list_def upd_wc_def)
  qed
  ultimately have inv1: "fm_inv (A - {Work w b}) s ?C1" by simp
  have disj: "set ?ys \<inter> set (C (User b)) = {}" "distinct ?ys" using C by (auto simp: cells_ok_def)
  have *: "fm_inv (A - {Work w b}) (set_potential w b 0 s1) C'" "fc_free s1 \<Longrightarrow> fc_free (set_potential w b 0 s1)"
    if "fm_inv (A - {Work w b}) s1 C'" for s1 C'
    using fm_inv_irrelevant(1) [OF that] by (simp_all add: fc_free_def)
  show ?thesis
  proof (cases "?p = NULL")
    case True
    then have "?ys = []" using path by simp
    then have "?C1 = C" by (auto simp: fun_eq_iff)
    moreover have "move_bucket_to_global_free_list w b s = Some (set_potential w b 0 s)"
      using True by (simp add: move_bucket_to_global_free_list_def)
    ultimately show ?thesis using *(1) [of s C] *(2) [of s C] inv1 free \<open>?ys = []\<close> by auto
  next
    case False
    let ?l = "upd_fc (fc_lock_update (\<lambda>_. (fc_lock (fc s))\<lparr>mutex_lock_word := 1, mutex_owner := w\<rparr>)) s"
    have "lpath (cdr ?l) ?p ?ys NULL" "Glob b \<in> A - {Work w b}" using path A by simp_all
    then obtain s2 C' where s2: "move_loop ?p b ?l = Some s2" "fm_inv (A - {Work w b}) s2 C'"
        "set (C' (User b)) = set (?C1 (User b)) - set ?ys" "\<forall>i. i \<notin> {Glob b, User b} \<longrightarrow> C' i = ?C1 i" "same_settings ?l s2"
      using move_loop_inv [OF fm_inv_irrelevant(2) [OF inv1], of b _ ?p ?ys] disj(2) by force
    have "mutex_owner (fc_lock (fc s2)) = w" using s2(5) by (simp add: same_settings_def)
    then obtain s3 where s3: "unlock_fc w s2 = Some s3" "fc_free s3" "fm_inv (A - {Work w b}) s3 C'"
      using unlock_fc_held [of s2 w] fm_inv_irrelevant(2) [OF s2(2)] by auto
    have "move_bucket_to_global_free_list w b s = Some (set_potential w b 0 s3)"
      using False lock_fc_free [OF free, of w] s2(1) s3(1) by (simp add: move_bucket_to_global_free_list_def)
    moreover have "set (C' (User b)) = set (C (User b))" using s2(3) disj(1) by auto
    ultimately show ?thesis using *(1) [OF s3(3)] *(2) [OF s3(3) s3(2)] s2(4) by auto
  qed
qed

lemma cleanup_from_inv:
  assumes "fm_inv A s C" and "fc_free s" and "i \<le> FRAME_MALLOC_NBUCKETS"
    and "\<And>b. b < FRAME_MALLOC_NBUCKETS \<Longrightarrow> Glob b \<in> A" and "\<And>b. i \<le> b \<Longrightarrow> b < FRAME_MALLOC_NBUCKETS \<Longrightarrow> Work w b \<in> A"
  shows "\<exists>s' C'. cleanup_from i w s = Some s' \<and> fm_inv (A - Work w ` {i..<FRAME_MALLOC_NBUCKETS}) s' C' \<and> fc_free s' \<and>
    (\<forall>b. set (C' (User b)) = set (C (User b))) \<and> (\<forall>v b. v \<noteq> w \<longrightarrow> C' (Work v b) = C (Work v b))"
  using assms
proof (induction "FRAME_MALLOC_NBUCKETS - i" arbitrary: i A s C)
  case 0
  then show ?case by (auto simp: cleanup_from.simps)
next
  case (Suc n)
  then have i: "i < FRAME_MALLOC_NBUCKETS" by simp
  obtain s1 C1 where s1: "move_bucket_to_global_free_list w i s = Some s1" "fm_inv (A - {Work w i}) s1 C1" "fc_free s1"
      "set (C1 (User i)) = set (C (User i))" "\<forall>j. j \<notin> {Glob i, Work w i, User i} \<longrightarrow> C1 j = C j"
    using move_bucket_inv [OF Suc.prems(1) Suc.prems(4) [OF i] Suc.prems(5) [OF _ i] Suc.prems(2)] by auto
  obtain s' C' where "cleanup_from (i + 1) w s1 = Some s'"
      "fm_inv (A - {Work w i} - Work w ` {i + 1..<FRAME_MALLOC_NBUCKETS}) s' C'" "fc_free s'"
      "\<forall>b. set (C' (User b)) = set (C1 (User b))" "\<forall>v b. v \<noteq> w \<longrightarrow> C' (Work v b) = C1 (Work v b)"
    using Suc.hyps(1) [of "i + 1", OF _ s1(2,3)] Suc.hyps(2) Suc.prems(4,5) i by fastforce
  moreover have "A - {Work w i} - Work w ` {i + 1..<FRAME_MALLOC_NBUCKETS} = A - Work w ` {i..<FRAME_MALLOC_NBUCKETS}"
    using i by (auto simp: image_iff Suc_le_eq intro: le_neq_implies_less)
  moreover have "set (C1 (User b)) = set (C (User b))" for b using s1(4,5) by (cases "b = i") auto
  moreover have "v \<noteq> w \<Longrightarrow> C1 (Work v b) = C (Work v b)" for v b using s1(5) by auto
  ultimately show ?case using i s1(1) by (subst cleanup_from.simps) auto
qed

subsection \<open>The start\<close>

definition active :: "ptr set \<Rightarrow> spot set" where
  "active W = Glob ` {..<FRAME_MALLOC_NBUCKETS} \<union> (\<Union>w \<in> W. Work w ` {..<FRAME_MALLOC_NBUCKETS})"

lemma active_simps [simp]:
  "Glob b \<in> active W \<longleftrightarrow> b < FRAME_MALLOC_NBUCKETS" "Work w b \<in> active W \<longleftrightarrow> w \<in> W \<and> b < FRAME_MALLOC_NBUCKETS"
  "User b \<notin> active W"
  by (auto simp: active_def)

lemma active_minus: "active W - Work w ` {0..<FRAME_MALLOC_NBUCKETS} = active (W - {w})"
  by (auto simp: active_def)

lemma global_init_inv: "fm_inv (active {}) (frame_malloc_global_init s) (\<lambda>_. []) \<longleftrightarrow> (\<forall>(q, k) \<in> set (os s). q \<noteq> NULL)"
  by (auto simp: fm_inv_def cells_ok_def ranges_ok_def frame_malloc_global_init_def upd_fc_def active_def out_bytes_def)

lemma worker_init_inv:
  assumes "fm_inv (active W) s C" and "w \<notin> W"
  shows "fm_inv (active (insert w W)) (frame_malloc_per_worker_init w s) C"
proof -
  have act: "active (insert w W) = active W \<union> Work w ` {..<FRAME_MALLOC_NBUCKETS}" by (auto simp: active_def)
  have C: "cells_ok (active W) C" using assms(1) by (simp add: fm_inv_def)
  have nil: "C (Work w b) = []" for b
  proof -
    have "Work w b \<notin> places (active W)" using assms(2) by (auto simp: places_def)
    then show ?thesis using C by (simp add: cells_ok_def)
  qed
  have out: "out_bytes (active (insert w W)) C = out_bytes (active W) C"
    unfolding out_bytes_def
  proof (rule sum.mono_neutral_right)
    show "finite {i \<in> places (active (insert w W)). \<not> in_pool i}" using C by (simp add: act places_def cells_ok_def)
  qed (use nil in \<open>auto simp: act places_def\<close>)
  have "cells_ok (active (insert w W)) C" using C by (auto simp: cells_ok_def act places_def)
  moreover have "head (frame_malloc_per_worker_init w s) i = (if i \<in> Work w ` {..<FRAME_MALLOC_NBUCKETS} then NULL else head s i)" 
    if "i \<in> active (insert w W)" for i
    using that by (cases i) (auto simp: frame_malloc_per_worker_init_def)
  ultimately show ?thesis
    using assms(1) nil out by (auto simp: fm_inv_def act ranges_ok_def frame_malloc_per_worker_init_def)
qed

subsection \<open>An example heap\<close>

text \<open>A \<open>malloc\<close> that answers the address after the highest live block.\<close>

definition heap_end :: "os_heap \<Rightarrow> nat" where
  "heap_end live = foldr (\<lambda>(q, k) m. max m (unat q + unat k + 1)) live 64"

definition bump_malloc :: "os_heap \<Rightarrow> 64 word \<Rightarrow> ptr" where
  "bump_malloc live n =
     (if heap_end live + unat n \<le> 2 ^ 62 then of_nat (heap_end live) else NULL)"

lemma heap_end_above: "(q, k) \<in> set live \<Longrightarrow> unat q + unat k < heap_end live"
  unfolding heap_end_def by (induction live) auto

lemma heap_end_64: "64 \<le> heap_end live"
  unfolding heap_end_def by (induction live) auto

lemma bump_malloc_unat:
  assumes "heap_end live + unat n \<le> 2 ^ 62"
  shows "unat (bump_malloc live n) = heap_end live"
  using assms by (simp add: bump_malloc_def unat_of_nat)

lemma bump_malloc_ok: "malloc_ok bump_malloc"
  unfolding malloc_ok_def
proof (intro allI impI)
  fix live :: os_heap and n
  assume nn: "bump_malloc live n \<noteq> NULL"
  then have fit: "heap_end live + unat n \<le> 2 ^ 62" by (auto simp: bump_malloc_def split: if_splits)
  note u = bump_malloc_unat [OF this]
  have "bump_malloc live n \<noteq> q" "range (bump_malloc live n) n \<inter> range q k = {}" if "(q, k) \<in> set live" for q k
    using heap_end_above [OF that] u by (auto simp: range_def)
  then show "unat (bump_malloc live n) + unat n \<le> 2 ^ 63 \<and>
      (\<forall>(q, k) \<in> set live. range (bump_malloc live n) n \<inter> range q k = {} \<and> bump_malloc live n \<noteq> q)"
    using fit u by (simp, blast)
qed

lemma bump_malloc_grows:
  assumes "heap_end live + unat n \<le> 2 ^ 62"
  shows "bump_malloc live n \<noteq> NULL" and "heap_end ((bump_malloc live n, n) # live) = heap_end live + unat n + 1"
proof -
  note u = bump_malloc_unat [OF assms]
  show "bump_malloc live n \<noteq> NULL" using u heap_end_64 [of live] by auto
  show "heap_end ((bump_malloc live n, n) # live) = heap_end live + unat n + 1"
    using u by (simp add: heap_end_def)
qed

lemma bump_mem_ok: "heap_end live + n * 33000 \<le> 2 ^ 61 \<Longrightarrow> mem_ok bump_malloc n live"
proof (induction n arbitrary: live)
  case (Suc n)
  note c = bump_malloc_grows [of live 16]
  note p = bump_malloc_grows [of "(bump_malloc live 16, 16) # live" FRAME_MALLOC_CHUNK]
  have "heap_end live + 33000 + n * 33000 \<le> 2 ^ 61" using Suc.prems by simp
  with c p Suc.IH show ?case by (simp add: Let_def chunk_unat)
qed simp

definition fm_zero :: fm where
  "fm_zero = \<lparr>cdr = (\<lambda>_. NULL), conses = (\<lambda>_. \<lparr>pool_p = NULL, pool_cdr = NULL\<rparr>),
     fc = \<lparr>fc_lock = \<lparr>mutex_lock_word = 0, mutex_owner = NULL\<rparr>, pool_list = NULL, pool_begin = NULL, pool_end = NULL,
       global_free_list = (\<lambda>_. NULL), batch_size = 0, potential_limit = 0, check_for_leaks = False,
       allocated_from_os = 0, wasted = 0, allocated_from_global_pool = 0\<rparr>,
     wc = (\<lambda>_. \<lparr>free_list = (\<lambda>_. NULL), bucket_potential = (\<lambda>_. 0)\<rparr>), os = []\<rparr>"

definition fm_demo :: fm where
  "fm_demo = frame_malloc_per_worker_init 8 (frame_malloc_global_init fm_zero)"

lemma fm_demo_inv: "fm_inv (active {8}) fm_demo (\<lambda>_. [])"
proof -
  have "fm_inv (active {}) (frame_malloc_global_init fm_zero) (\<lambda>_. [])"
    by (simp add: global_init_inv fm_zero_def)
  then show ?thesis unfolding fm_demo_def by (rule worker_init_inv) simp
qed

lemma fm_demo_facts: "batch_size (fc fm_demo) = 8000" "fc_free fm_demo" "os fm_demo = []"
  by (simp_all add: fm_demo_def fm_zero_def frame_malloc_per_worker_init_def frame_malloc_global_init_def fc_free_def mutex_init_def)

lemma bucket_2000: "bucket_of_size 2000 = Some 5"
  by (simp add: bucket_of_size_def bucket_from.simps FRAME_MALLOC_NBUCKETS_def numeral_2_eq_2 [symmetric])

subsection \<open>Properties\<close>

text \<open>C18 (frame_malloc_returns_fresh_block): with a worker, a size of at most 2048 bytes and a C library that
  has memory for one batch, \<open>frame_malloc\<close> returns a block that nobody holds, at least as large
  as was asked and disjoint from every block in use; the accounting of the allocator is kept.\<close>

theorem frame_malloc_returns_fresh_block:
  assumes "fm_inv (active W) s C" and "w \<in> W" and "w \<noteq> NULL" and "fc_free s" and "malloc_ok malloc"
    and "sz \<le> FRAME_MALLOC_MAX_SIZE" and "bucket_of_size sz = Some b" and "mem_ok malloc k (os s)" and "k > 0"
    and "unat (batch_size (fc s)) \<le> k * unat (bucket_to_size b)" and "unat (batch_size (fc s)) \<le> 2 ^ 62"
  shows "\<exists>p s' C'. frame_malloc malloc w sz s = Some (p, s') \<and> fm_inv (active W) s' C' \<and> fc_free s' \<and>
    C' (User b) = p # C (User b) \<and> (\<forall>i. i \<notin> {Glob b, Work w b, User b} \<longrightarrow> C' i = C i) \<and> sz \<le> bucket_to_size b \<and>
    (\<forall>i. \<forall>q \<in> set (C (User i)). p \<noteq> q \<and> range p (bucket_to_size b) \<inter> range q (bucket_to_size i) = {})"
proof -
  have b: "b < FRAME_MALLOC_NBUCKETS" "sz \<le> bucket_to_size b" using bucket_of_size_Some [OF assms(6)] assms(7) by auto
  obtain p s' C' where p: "frame_malloc malloc w sz s = Some (p, s')" "fm_inv (active W) s' C'" "fc_free s'" "took w b p C C'"
    using frame_malloc_inv [OF assms(1) _ _ assms(5,8,10,9,11,4,3,6,7)] assms(2) b(1) by auto
  have "p \<noteq> q \<and> range p (bucket_to_size b) \<inter> range q (bucket_to_size i) = {}" if q: "q \<in> set (C (User i))" for i q
  proof -
    have "p \<noteq> q" using p(4) q by (auto simp: took_def)
    moreover have "p \<in> set (C' (User b))" "q \<in> set (C' (User i))" using p(4) q by (cases "i = b"; simp add: took_def)+
    ultimately show ?thesis using p(2) unfolding fm_inv_def ranges_ok_def block_def by (metis bkt.simps(3))
  qed
  with p b(2) show ?thesis unfolding took_def by blast
qed

theorem frame_malloc_returns_fresh_block_witness:
  "\<exists>p s'. frame_malloc bump_malloc 8 2000 fm_demo = Some (p, s') \<and> fc_free s'"
proof -
  have "mem_ok bump_malloc 4 (os fm_demo)" using bump_mem_ok [of "[]" 4] by (simp add: fm_demo_facts heap_end_def)
  then show ?thesis
    using frame_malloc_returns_fresh_block [OF fm_demo_inv, of 8 bump_malloc 2000 5 4] fm_demo_facts bump_malloc_ok bucket_2000
    by (auto simp: FRAME_MALLOC_MAX_SIZE_def)
qed



text \<open>trimming a free list keeps a prefix of it: \<open>k\<close> blocks, of which all
  but the last lie within half of the bucket's potential, and one block more; the rest goes to
  the global list.\<close>

theorem gc_bucket_keeps_half_potential:
  assumes "fm_inv (active W) s C" and "w \<in> W" and "b < FRAME_MALLOC_NBUCKETS" and "fc_free s"
    and "unat (bucket_potential (wc s w) b) \<le> 2 ^ 62"
  shows "\<exists>s' C' k. gc_bucket w b (bucket_to_size b) s = Some s' \<and> fm_inv (active W) s' C' \<and>
    C' (Work w b) = take (k + 1) (C (Work w b)) \<and>
    (k = 0 \<or> 2 * (k - 1) * unat (bucket_to_size b) < unat (bucket_potential (wc s w) b))"
proof -
  let ?sz = "bucket_to_size b"
  let ?pot = "bucket_potential (wc s w) b"
  obtain s' C' k where g: "gc_bucket w b ?sz s = Some s'" "fm_inv (active W) s' C'" "C' (Work w b) = take (k + 1) (C (Work w b))"
      "\<forall>j < k. 2 * (of_nat j * ?sz) < ?pot"
    using gc_bucket_inv [OF assms(1) _ _ assms(4)] assms(2,3) by fastforce
  have sz: "unat ?sz \<le> 2048" using assms(3) by (rule bucket_size_le)
  have "j < k \<Longrightarrow> 2 * j * unat ?sz < unat ?pot" for j
  proof (induction j)
    case 0
    with g(4) show ?case by (auto simp: word_less_nat_alt dest!: spec [of _ 0])
  next
    case (Suc j)
    then have "2 * Suc j * unat ?sz < 2 ^ 62 + 4096 + 1" using assms(5) sz by simp
    then have small: "2 * (Suc j * unat ?sz) < 2 ^ LENGTH(64)" by simp
    have "unat (2 * (of_nat (Suc j) * ?sz)) = 2 * (Suc j * unat ?sz)"
    proof -
      have "2 * (of_nat (Suc j) * ?sz) = of_nat (2 * (Suc j * unat ?sz))"
        by (simp only: of_nat_mult of_nat_numeral of_nat_unat ucast_id)
      then show ?thesis using small by (simp only: unat_of_nat) simp
    qed
    with g(4) Suc.prems show ?case by (metis (no_types, lifting) mult.assoc word_less_nat_alt)
  qed
  then have "k = 0 \<or> 2 * (k - 1) * unat ?sz < unat ?pot" by (cases k) auto
  with g show ?thesis by blast
qed

theorem gc_bucket_keeps_half_potential_witness: "\<exists>s'. gc_bucket 8 5 (bucket_to_size 5) fm_demo = Some s'"
proof -
  have "unat (bucket_potential (wc fm_demo 8) 5) \<le> 2 ^ 62"
    by (simp add: fm_demo_def frame_malloc_per_worker_init_def FRAME_MALLOC_NBUCKETS_def)
  then show ?thesis
    using gc_bucket_keeps_half_potential [OF fm_demo_inv, of 8 5] fm_demo_facts by (auto simp: FRAME_MALLOC_NBUCKETS_def)
qed



text \<open>\<open>frame_malloc_roundup\<close> never fails; up to 2048 bytes it answers the smallest
  block size that holds the request, above it leaves the size alone, and it is idempotent.\<close>

theorem roundup_smallest_bucket:
  "\<exists>n. frame_malloc_roundup sz = Some n \<and> sz \<le> n \<and> frame_malloc_roundup n = Some n \<and>
     (if sz > FRAME_MALLOC_MAX_SIZE then n = sz
      else n \<in> set bucket_sizes \<and> (\<forall>m \<in> set bucket_sizes. sz \<le> m \<longrightarrow> n \<le> m))"
proof (cases "sz > FRAME_MALLOC_MAX_SIZE")
  case True
  then show ?thesis by (simp add: frame_malloc_roundup_def)
next
  case False
  then have "sz \<le> FRAME_MALLOC_MAX_SIZE" by simp
  then obtain b where b: "bucket_of_size sz = Some b" "b < FRAME_MALLOC_NBUCKETS" "sz \<le> bucket_to_size b"
      "\<And>c. c < b \<Longrightarrow> bucket_to_size c < sz"
    by (rule bucket_of_size_Some) blast
  have mono: "c \<le> d \<Longrightarrow> d < FRAME_MALLOC_NBUCKETS \<Longrightarrow> bucket_to_size c \<le> bucket_to_size d" for c d
    using bucket_sizes_cases [of c] bucket_sizes_cases [of d] by (simp only: word_le_nat_alt) (simp add: power_increasing)
  have max: "bucket_to_size b \<le> FRAME_MALLOC_MAX_SIZE"
    using mono [of b 5] b(2) by (simp add: FRAME_MALLOC_NBUCKETS_def FRAME_MALLOC_MAX_SIZE_def)
  have mem: "bucket_to_size b \<in> set bucket_sizes"
    using b(2) nth_mem [of b bucket_sizes] unfolding bucket_to_size_def
    by (simp add: bucket_sizes_def FRAME_MALLOC_NBUCKETS_def)
  have least: "bucket_to_size b \<le> m" if m: "m \<in> set bucket_sizes" "sz \<le> m" for m
  proof -
    obtain c where c: "c < FRAME_MALLOC_NBUCKETS" "m = bucket_to_size c"
    proof -
      have "length bucket_sizes = FRAME_MALLOC_NBUCKETS" by (simp add: bucket_sizes_def FRAME_MALLOC_NBUCKETS_def)
      then show ?thesis using that m(1) unfolding in_set_conv_nth bucket_to_size_def by auto
    qed
    then have "b \<le> c" using b(4) [of c] m(2) by (meson leD leI)
    with mono [of b c] c show ?thesis by simp
  qed
  obtain d where d: "bucket_of_size (bucket_to_size b) = Some d" "d < FRAME_MALLOC_NBUCKETS" "bucket_to_size b \<le> bucket_to_size d"
      "\<And>c. c < d \<Longrightarrow> bucket_to_size c < bucket_to_size b"
    using bucket_of_size_Some [OF max] by metis
  have "d \<le> b" using d(4) [of b] by (meson less_irrefl not_le)
  then have "bucket_to_size d = bucket_to_size b" using mono [of d b] b(2) d(3) by simp
  then have "frame_malloc_roundup (bucket_to_size b) = Some (bucket_to_size b)"
    using max d(1) by (simp add: frame_malloc_roundup_def not_less)
  with False b mem least show ?thesis by (simp add: frame_malloc_roundup_def)
qed

theorem roundup_smallest_bucket_witness:
  "frame_malloc_roundup 100 = Some 128 \<and> frame_malloc_roundup 128 = Some 128"
proof -
  have "\<not> (100 :: 64 word) > FRAME_MALLOC_MAX_SIZE" by (simp add: FRAME_MALLOC_MAX_SIZE_def)
  with roundup_smallest_bucket [of 100] obtain n where n: "frame_malloc_roundup 100 = Some n" "100 \<le> n"
      "frame_malloc_roundup n = Some n" "n \<in> set bucket_sizes" "\<forall>m \<in> set bucket_sizes. 100 \<le> m \<longrightarrow> n \<le> m"
    by auto
  then have "n \<le> 128" by (simp add: bucket_sizes_def)
  with n(2,4) have "n = 128" by (auto simp: bucket_sizes_def)
  with n(1,3) show ?thesis by simp
qed

end
