(* ===== verification/Full_Frame.thy ===== *)
theory Full_Frame
  imports Runtime_State
begin

text \<open>
  Full frames (runtime/full_frame.c and the frame functions of runtime/scheduler.c): making
  and destroying them, the tree of frames with its doubly linked list of children, the join
  counter, suspending and resuming a frame, and the promotion of a call stack to full frames
  on a steal. A block of memory for a new full frame comes from the allocator (theory
  Frame_Malloc); here the operations are given its address.
\<close>

subsection \<open>Flags of a stack frame\<close>

definition CILK_FRAME_STOLEN :: "32 word" where "CILK_FRAME_STOLEN = 0x01"
definition CILK_FRAME_UNSYNCHED :: "32 word" where "CILK_FRAME_UNSYNCHED = 0x02"
definition CILK_FRAME_DETACHED :: "32 word" where "CILK_FRAME_DETACHED = 0x04"
definition CILK_FRAME_EXCEPTION_PROBED :: "32 word" where "CILK_FRAME_EXCEPTION_PROBED = 0x08"
definition CILK_FRAME_EXCEPTING :: "32 word" where "CILK_FRAME_EXCEPTING = 0x10"
definition CILK_FRAME_SF_PEDIGREE_UNSYNCHED :: "32 word" where "CILK_FRAME_SF_PEDIGREE_UNSYNCHED = 0x20"
definition CILK_FRAME_LAST :: "32 word" where "CILK_FRAME_LAST = 0x80"
definition CILK_FRAME_EXITING :: "32 word" where "CILK_FRAME_EXITING = 0x0100"
definition CILK_FRAME_DATAFLOW :: "32 word" where "CILK_FRAME_DATAFLOW = 0x0200"
definition CILK_FRAME_DATAFLOW_ISSUED :: "32 word" where "CILK_FRAME_DATAFLOW_ISSUED = 0x0400"
definition CILK_FRAME_SUSPENDED :: "32 word" where "CILK_FRAME_SUSPENDED = 0x8000"
definition CILK_FRAME_NUMA :: "32 word" where "CILK_FRAME_NUMA = 0x20000"

definition CILK_FRAME_VERSION_VALUE :: "32 word \<Rightarrow> 32 word" where
  "CILK_FRAME_VERSION_VALUE fl = drop_bit 24 (fl AND 0xFF000000)"

lemmas frame_flag_defs = CILK_FRAME_STOLEN_def CILK_FRAME_UNSYNCHED_def CILK_FRAME_DETACHED_def
  CILK_FRAME_EXCEPTION_PROBED_def CILK_FRAME_EXCEPTING_def CILK_FRAME_SF_PEDIGREE_UNSYNCHED_def
  CILK_FRAME_LAST_def CILK_FRAME_EXITING_def CILK_FRAME_DATAFLOW_def CILK_FRAME_DATAFLOW_ISSUED_def
  CILK_FRAME_SUSPENDED_def

subsection \<open>Making and destroying a full frame\<close>

definition FULL_FRAME_MAGIC_0 :: "64 word" where "FULL_FRAME_MAGIC_0 = 0x361e710b9597d553"
definition FULL_FRAME_MAGIC_1 :: "64 word" where "FULL_FRAME_MAGIC_1 = 0x189986dcc7aee1ca"

text \<open>The size of the structure on LP64.\<close>

definition sizeof_full_frame :: "64 word" where "sizeof_full_frame = 176"

definition make_full_frame :: "ptr \<Rightarrow> ptr \<Rightarrow> 64 word \<Rightarrow> rt \<Rightarrow> rt" where
  "make_full_frame ff sf extra_space = upd_ff ff (\<lambda>f.
     \<lparr>full_frame_magic_0 = FULL_FRAME_MAGIC_0, ff_lock = mutex_init (ff_lock f), join_counter = 0,
      is_call_child = False, simulated_stolen = False, parent = NULL, left_sibling = NULL,
      right_sibling = NULL, rightmost_child = NULL, call_stack = sf, children_reducer_map = NULL,
      right_reducer_map = NULL, ff_pending_exception = NULL, child_pending_exception = NULL,
      right_pending_exception = NULL, sync_sp = 0, frame_size = 0, fiber_self = NULL, fiber_child = NULL,
      sync_master = NULL, alloc_size = sizeof_full_frame + extra_space, full_frame_magic_1 = FULL_FRAME_MAGIC_1\<rparr>)"

definition validate_full_frame :: "ptr \<Rightarrow> rt \<Rightarrow> unit option" where
  "validate_full_frame ff s =
     cilk_assert (\<not> (full_frame_magic_0 (ffs s ff) \<noteq> FULL_FRAME_MAGIC_0 \<or>
                     full_frame_magic_1 (ffs s ff) \<noteq> FULL_FRAME_MAGIC_1))"

text \<open>The block and its size as they are handed back to \<open>frame_free\<close>.\<close>

definition destroy_full_frame :: "ptr \<Rightarrow> rt \<Rightarrow> (ptr \<times> 64 word) option" where
  "destroy_full_frame ff s =
     do { validate_full_frame ff s;
          cilk_assert (children_reducer_map (ffs s ff) = NULL);
          cilk_assert (right_reducer_map (ffs s ff) = NULL);
          cilk_assert (ff_pending_exception (ffs s ff) = NULL);
          cilk_assert (child_pending_exception (ffs s ff) = NULL);
          cilk_assert (right_pending_exception (ffs s ff) = NULL);
          Some (ff, alloc_size (ffs s ff)) }"

definition frame_lock :: "ptr \<Rightarrow> ptr \<Rightarrow> rt \<Rightarrow> rt option" where
  "frame_lock w ff s =
     do { validate_full_frame ff s;
          m \<leftarrow> mutex_lock w (ff_lock (ffs s ff));
          Some (upd_ff ff (ff_lock_update (\<lambda>_. m)) s) }"

definition frame_unlock :: "ptr \<Rightarrow> ptr \<Rightarrow> rt \<Rightarrow> rt option" where
  "frame_unlock w ff s =
     do { m \<leftarrow> mutex_unlock w (ff_lock (ffs s ff));
          Some (upd_ff ff (ff_lock_update (\<lambda>_. m)) s) }"

subsection \<open>The stack pointer of a sync\<close>

definition put_stack :: "ptr \<Rightarrow> ptr \<Rightarrow> rt \<Rightarrow> rt" where
  "put_stack ff sf s = upd_ff ff (\<lambda>f. f\<lparr>sync_sp := sf_sp (sfs s sf) + sync_sp f\<rparr>) s"

definition take_stack :: "ptr \<Rightarrow> 64 word \<Rightarrow> rt \<Rightarrow> rt" where
  "take_stack ff sp = upd_ff ff (\<lambda>f. f\<lparr>sync_sp := sync_sp f - sp\<rparr>)"

definition adjust_stack :: "ptr \<Rightarrow> 64 word \<Rightarrow> rt \<Rightarrow> rt" where
  "adjust_stack ff sz = upd_ff ff (\<lambda>f. f\<lparr>sync_sp := sync_sp f + sz\<rparr>)"

subsection \<open>The tree of frames\<close>

definition double_link :: "ptr \<Rightarrow> ptr \<Rightarrow> rt \<Rightarrow> rt" where
  "double_link left_ff right_ff s =
     (let s1 = (if left_ff \<noteq> NULL then upd_ff left_ff (right_sibling_update (\<lambda>_. right_ff)) s else s)
      in if right_ff \<noteq> NULL then upd_ff right_ff (left_sibling_update (\<lambda>_. left_ff)) s1 else s1)"

definition push_child :: "ptr \<Rightarrow> ptr \<Rightarrow> rt \<Rightarrow> rt" where
  "push_child parent_ff child_ff s =
     upd_ff parent_ff (rightmost_child_update (\<lambda>_. child_ff))
       (double_link child_ff NULL (double_link (rightmost_child (ffs s parent_ff)) child_ff s))"

definition unlink_child :: "ptr \<Rightarrow> ptr \<Rightarrow> rt \<Rightarrow> rt option" where
  "unlink_child parent_ff child_ff s =
     do { let s1 = double_link (left_sibling (ffs s child_ff)) (right_sibling (ffs s child_ff)) s;
          s2 \<leftarrow> (if right_sibling (ffs s1 child_ff) = NULL then
                   do { cilk_assert (rightmost_child (ffs s1 parent_ff) = child_ff);
                        Some (upd_ff parent_ff (rightmost_child_update (\<lambda>_. left_sibling (ffs s1 child_ff))) s1) }
                 else Some s1);
          Some (upd_ff child_ff (\<lambda>f. f\<lparr>right_sibling := NULL, left_sibling := NULL\<rparr>) s2) }"

definition incjoin :: "ptr \<Rightarrow> rt \<Rightarrow> rt" where
  "incjoin ff = upd_ff ff (\<lambda>f. f\<lparr>join_counter := join_counter f + 1\<rparr>)"

definition decjoin :: "ptr \<Rightarrow> rt \<Rightarrow> (int \<times> rt) option" where
  "decjoin ff s =
     do { cilk_assert (join_counter (ffs s ff) > 0);
          let s1 = upd_ff ff (\<lambda>f. f\<lparr>join_counter := join_counter f - 1\<rparr>) s;
          Some (join_counter (ffs s1 ff), s1) }"

definition simulate_decjoin :: "ptr \<Rightarrow> rt \<Rightarrow> int option" where
  "simulate_decjoin ff s =
     do { cilk_assert (join_counter (ffs s ff) > 0); Some (join_counter (ffs s ff) - 1) }"

subsection \<open>Suspending and resuming\<close>

definition make_runnable :: "ptr \<Rightarrow> ptr \<Rightarrow> rt \<Rightarrow> rt" where
  "make_runnable w ff s =
     upd_ff ff (call_stack_update (\<lambda>_. NULL)) (upd_w w (w_frame_ff_update (\<lambda>_. ff)) s)"

definition make_unrunnable_sysdep :: "ptr \<Rightarrow> ptr \<Rightarrow> bool \<Rightarrow> rt \<Rightarrow> rt" where
  "make_unrunnable_sysdep ff sf is_loot s =
     (let s1 = upd_sf sf (except_data_update (\<lambda>_. NULL)) s
      in if is_loot
         then upd_sf sf (sf_sp_update (\<lambda>_. 0))
                (upd_ff ff (\<lambda>f. f\<lparr>frame_size := (if frame_size f = 0 then sf_fp (sfs s1 sf) - sf_sp (sfs s1 sf)
                                                 else frame_size f)\<rparr>) s1)
         else s1)"

definition make_unrunnable :: "ptr \<Rightarrow> ptr \<Rightarrow> bool \<Rightarrow> rt \<Rightarrow> rt" where
  "make_unrunnable ff sf is_loot s =
     (let s1 = upd_ff ff (call_stack_update (\<lambda>_. sf)) s
      in if sf \<noteq> NULL
         then let s2 = upd_sf sf (\<lambda>x. x\<lparr>flags := flags x OR (CILK_FRAME_STOLEN OR CILK_FRAME_SUSPENDED),
                                        sf_worker := NULL\<rparr>) s1;
                  s3 = (if is_loot then put_stack ff sf s2 else s2)
              in make_unrunnable_sysdep ff sf is_loot s3
         else s1)"

definition push_next_frame :: "ptr \<Rightarrow> ptr \<Rightarrow> rt \<Rightarrow> rt option" where
  "push_next_frame w ff s =
     do { cilk_assert (ff \<noteq> NULL);
          cilk_assert (next_frame_ff (wks s w) = NULL);
          Some (upd_w w (next_frame_ff_update (\<lambda>_. ff)) (incjoin ff s)) }"

definition pop_next_frame :: "ptr \<Rightarrow> rt \<Rightarrow> ptr \<times> rt" where
  "pop_next_frame w s =
     (let ff = next_frame_ff (wks s w)
      in (ff, if ff \<noteq> NULL then upd_w w (next_frame_ff_update (\<lambda>_. NULL)) s else s))"

definition set_sync_master :: "ptr \<Rightarrow> ptr \<Rightarrow> rt \<Rightarrow> rt" where
  "set_sync_master w ff s =
     upd_ff ff (sync_master_update (\<lambda>_. w)) (upd_w w (last_full_frame_update (\<lambda>_. ff)) s)"

definition unset_sync_master :: "ptr \<Rightarrow> ptr \<Rightarrow> rt \<Rightarrow> rt option" where
  "unset_sync_master w ff s =
     do { cilk_assert (wtype (wks s w) = WORKER_USER);
          cilk_assert (sync_master (ffs s ff) = w);
          Some (upd_w w (last_full_frame_update (\<lambda>_. NULL)) (upd_ff ff (sync_master_update (\<lambda>_. NULL)) s)) }"

subsection \<open>Promoting a call stack\<close>

definition PLACEHOLDER_FIBER :: ptr where "PLACEHOLDER_FIBER = - 2"

text \<open>\<open>child_ff\<close> is the block the allocator gave for the new frame.\<close>

definition make_child :: "ptr \<Rightarrow> ptr \<Rightarrow> ptr \<Rightarrow> ptr \<Rightarrow> rt \<Rightarrow> rt option" where
  "make_child parent_ff child_ff child_sf fiber s =
     do { let s1 = make_full_frame child_ff child_sf 0 s;
          let s2 = push_child parent_ff child_ff (upd_ff child_ff (parent_update (\<lambda>_. parent_ff)) s1);
          cilk_assert (call_stack (ffs s2 parent_ff) \<noteq> NULL);
          let s3 = upd_ff child_ff (is_call_child_update (\<lambda>_. fiber = NULL)) s2;
          let fiber' = (if fiber = PLACEHOLDER_FIBER then NULL else fiber);
          let s4 = upd_ff child_ff (\<lambda>f. f\<lparr>fiber_self := fiber_self (ffs s3 parent_ff), sync_master := NULL\<rparr>) s3;
          let s5 = (if is_call_child (ffs s4 child_ff) then upd_ff parent_ff (fiber_self_update (\<lambda>_. NULL)) s4
                    else upd_ff parent_ff (fiber_self_update (\<lambda>_. fiber')) s4);
          Some (incjoin parent_ff s5) }"

definition advance_frame :: "ptr \<Rightarrow> rt \<Rightarrow> ptr \<times> rt" where
  "advance_frame sf s = (call_parent (sfs s sf), upd_sf sf (call_parent_update (\<lambda>_. NULL)) s)"

definition stop_flags :: "32 word" where
  "stop_flags = CILK_FRAME_DETACHED OR CILK_FRAME_STOLEN OR CILK_FRAME_LAST"

partial_function (option) reverse_call_stack :: "ptr \<Rightarrow> ptr \<Rightarrow> rt \<Rightarrow> (ptr \<times> rt) option" where
  [code]: "reverse_call_stack sf rev_sf s =
     (let t_sf = (if flags (sfs s sf) AND stop_flags \<noteq> 0 then NULL else call_parent (sfs s sf));
          s1 = upd_sf sf (call_parent_update (\<lambda>_. rev_sf)) s
      in if t_sf \<noteq> NULL then reverse_call_stack t_sf sf s1 else Some (sf, s1))"

text \<open>\<open>news\<close> are the blocks for the new frames; running out of them would be a failure of the
  allocator.\<close>

partial_function (option) promote_frames :: "ptr \<Rightarrow> ptr \<Rightarrow> ptr \<Rightarrow> ptr list \<Rightarrow> rt \<Rightarrow> (ptr \<times> ptr \<times> ptr list \<times> rt) option" where
  [code]: "promote_frames loot_sf ff sf news s =
     (let (t_sf, s1) = advance_frame sf s
      in if t_sf = NULL then Some (ff, sf, news, s1)
         else (case news of
             [] \<Rightarrow> None
           | new # news' \<Rightarrow>
               do { s2 \<leftarrow> make_child ff new t_sf NULL s1;
                    promote_frames loot_sf new t_sf news' (make_unrunnable new t_sf (t_sf = loot_sf) s2) }))"

definition unroll_call_stack :: "ptr \<Rightarrow> ptr \<Rightarrow> ptr \<Rightarrow> ptr list \<Rightarrow> rt \<Rightarrow> (ptr \<times> ptr list \<times> rt) option" where
  "unroll_call_stack w ff loot_sf news s =
     do { cilk_assert (loot_sf \<noteq> NULL);
          let s1 = (if sf_worker (sfs s loot_sf) \<noteq> w
                    then upd_sf loot_sf (\<lambda>x. x\<lparr>flags := flags x OR CILK_FRAME_UNSYNCHED\<rparr>) s else s);
          (sf, s2) \<leftarrow> reverse_call_stack loot_sf NULL s1;
          let s3 = make_unrunnable ff sf (sf = loot_sf) s2;
          (ff', last_sf, news', s4) \<leftarrow> promote_frames loot_sf ff sf news s3;
          cilk_assert (call_parent (sfs s4 last_sf) = NULL);
          Some (ff', news', s4) }"

end
