(* ===== verification/Full_Frame_Proofs.thy ===== *)
theory Full_Frame_Proofs
  imports Full_Frame
begin

text \<open>
  Correctness of the tree of full frames: the children of a frame are a list, \<open>push_child\<close>
  appends to it and \<open>unlink_child\<close> removes from any place in it; promoting a call stack
  yields a chain of frames, one per stack frame, oldest first.
\<close>

subsection \<open>Doubly linked lists\<close>

definition hd0 :: "ptr list \<Rightarrow> ptr" where "hd0 xs = (if xs = [] then NULL else hd xs)"
definition last0 :: "ptr list \<Rightarrow> ptr" where "last0 xs = (if xs = [] then NULL else last xs)"

lemma hd0_simps [simp]: "hd0 [] = NULL" "hd0 (x # xs) = x" "hd0 (rev xs) = last0 xs" "last0 (rev xs) = hd0 xs"
  "last0 [] = NULL" "last0 (xs @ [x]) = x" "last0 [x] = x"
  by (auto simp: hd0_def last0_def hd_rev last_rev)

lemma hd0_in: "xs \<noteq> [] \<Longrightarrow> hd0 xs \<in> set xs" "xs \<noteq> [] \<Longrightarrow> last0 xs \<in> set xs"
  by (simp_all add: hd0_def last0_def)

lemma hd0_swap: "hd0 (xs @ x # ys) = hd0 (xs @ x # zs)"
  by (cases xs) simp_all

lemma hd0_NULL: "NULL \<notin> set xs \<Longrightarrow> hd0 xs = NULL \<longleftrightarrow> xs = []" "NULL \<notin> set xs \<Longrightarrow> last0 xs = NULL \<longleftrightarrow> xs = []"
  using hd0_in [of xs] by (cases "xs = []"; auto)+

text \<open>A list is linked forward by \<open>nx\<close> when every node leads to the next one.\<close>

definition linked :: "(ptr \<Rightarrow> ptr) \<Rightarrow> ptr list \<Rightarrow> bool" where
  "linked nx xs \<longleftrightarrow> lpath nx (hd0 xs) xs NULL"

lemma linked_Nil [simp]: "linked nx []" by (simp add: linked_def)

lemma linked_Cons: "linked nx (x # xs) \<longleftrightarrow> x \<noteq> NULL \<and> nx x = hd0 xs \<and> linked nx xs"
  using lpath_hd [of nx "nx x" xs] by (auto simp: linked_def hd0_def)

lemma linked_append: "linked nx (xs @ ys) \<longleftrightarrow> lpath nx (hd0 (xs @ ys)) xs (hd0 ys) \<and> linked nx ys"
proof (cases xs)
  case Nil
  then show ?thesis by (simp add: linked_def)
next
  case (Cons x xs')
  have "(\<exists>r. lpath nx x xs r \<and> lpath nx r ys NULL) \<longleftrightarrow> lpath nx x xs (hd0 ys) \<and> lpath nx (hd0 ys) ys NULL"
    using lpath_hd [of nx _ ys] by (auto simp: hd0_def)
  then show ?thesis unfolding linked_def lpath_append by (simp add: Cons del: lpath.simps)
qed

lemma linked_not_NULL: "linked nx xs \<Longrightarrow> NULL \<notin> set xs"
  by (simp add: linked_def lpath_not_NULL)

lemma linked_cong: "linked nx xs \<Longrightarrow> (\<And>x. x \<in> set xs \<Longrightarrow> nx' x = nx x) \<Longrightarrow> linked nx' xs"
  using lpath_cong [of xs nx' nx] by (simp add: linked_def)

lemma linked_upd [simp]: "a \<notin> set xs \<Longrightarrow> linked (nx(a := b)) xs \<longleftrightarrow> linked nx xs"
  by (simp add: linked_def)

lemma linked_snoc: "linked nx xs \<Longrightarrow> distinct (xs @ [c]) \<Longrightarrow> c \<noteq> NULL \<Longrightarrow> linked (nx(last0 xs := c, c := NULL)) (xs @ [c])"
proof (induction xs rule: rev_induct)
  case Nil
  then show ?case by (simp add: linked_Cons)
next
  case (snoc x xs)
  from snoc.prems have "lpath nx (hd0 (xs @ [x])) xs x" "x \<noteq> NULL" by (simp_all add: linked_append linked_Cons)
  moreover have "hd0 (xs @ [x, c]) = hd0 (xs @ [x])" by (rule hd0_swap)
  moreover have "lpath (nx(x := c, c := NULL)) p xs q \<longleftrightarrow> lpath nx p xs q" for p q
    using snoc.prems(2) by simp
  moreover have "(nx(x := c, c := NULL)) x = c" "(nx(x := c, c := NULL)) c = NULL" using snoc.prems(2) by auto
  ultimately show ?case using snoc.prems by (auto simp: linked_append linked_Cons simp del: lpath_upd fun_upd_apply)
qed

lemma linked_remove:
  assumes "linked nx (xs @ c # ys)" and "distinct (xs @ c # ys)"
  shows "linked (nx(last0 xs := hd0 ys)) (xs @ ys)"
proof (cases xs rule: rev_cases)
  case Nil
  with assms linked_not_NULL [OF assms(1)] show ?thesis by (simp add: linked_Cons)
next
  case (snoc zs z)
  with assms have "lpath nx (hd0 (zs @ z # c # ys)) zs z" "z \<noteq> NULL" "linked nx ys"
    by (auto simp: linked_append linked_Cons)
  moreover have "hd0 (zs @ z # c # ys) = hd0 (zs @ z # ys)" by (rule hd0_swap)
  moreover have "z \<notin> set ys" "z \<notin> set zs" using assms(2) snoc by auto
  ultimately show ?thesis using snoc by (simp add: linked_append linked_Cons)
qed

subsection \<open>The children of a frame\<close>

definition kids :: "rt \<Rightarrow> ptr \<Rightarrow> ptr list \<Rightarrow> bool" where
  "kids s p xs \<longleftrightarrow> linked (right_sibling \<circ> ffs s) xs \<and> linked (left_sibling \<circ> ffs s) (rev xs) \<and>
     rightmost_child (ffs s p) = last0 xs \<and> distinct xs"

lemma kids_cong:
  assumes "kids s p xs" and "rightmost_child (ffs s' p) = rightmost_child (ffs s p)"
    and "\<And>x. x \<in> set xs \<Longrightarrow> right_sibling (ffs s' x) = right_sibling (ffs s x) \<and> left_sibling (ffs s' x) = left_sibling (ffs s x)"
  shows "kids s' p xs"
  using assms linked_cong [of "right_sibling \<circ> ffs s" xs "right_sibling \<circ> ffs s'"]
    linked_cong [of "left_sibling \<circ> ffs s" "rev xs" "left_sibling \<circ> ffs s'"]
  by (simp add: kids_def)

lemma siblings_double_link:
  "right_sibling \<circ> ffs (double_link l r s) = (if l \<noteq> NULL then (right_sibling \<circ> ffs s)(l := r) else right_sibling \<circ> ffs s)"
  "left_sibling \<circ> ffs (double_link l r s) = (if r \<noteq> NULL then (left_sibling \<circ> ffs s)(r := l) else left_sibling \<circ> ffs s)"
  "rightmost_child \<circ> ffs (double_link l r s) = rightmost_child \<circ> ffs s"
  by (auto simp: double_link_def Let_def fun_eq_iff)

lemma push_child_fields:
  assumes "c \<noteq> NULL"
  shows "right_sibling \<circ> ffs (push_child p c s) =
      (let l = rightmost_child (ffs s p) in
       if l \<noteq> NULL then (right_sibling \<circ> ffs s)(l := c, c := NULL) else (right_sibling \<circ> ffs s)(c := NULL))"
    and "left_sibling \<circ> ffs (push_child p c s) = (left_sibling \<circ> ffs s)(c := rightmost_child (ffs s p))"
    and "rightmost_child \<circ> ffs (push_child p c s) = (rightmost_child \<circ> ffs s)(p := c)"
  using assms by (auto simp: push_child_def double_link_def Let_def fun_eq_iff)

lemma push_child_kids:
  assumes "kids s p xs" and "c \<noteq> NULL" and "c \<notin> set xs"
  shows "kids (push_child p c s) p (xs @ [c])"
proof -
  note f = push_child_fields [OF assms(2), where p = p and s = s]
  have l: "rightmost_child (ffs s p) = last0 xs" and R: "linked (right_sibling \<circ> ffs s) xs"
    and L: "linked (left_sibling \<circ> ffs s) (rev xs)" and d: "distinct (xs @ [c])"
    using assms by (simp_all add: kids_def)
  have "linked (right_sibling \<circ> ffs (push_child p c s)) (xs @ [c])"
  proof (cases "xs = []")
    case True
    then show ?thesis using assms(2) unfolding f(1) l by (simp add: linked_Cons)
  next
    case False
    then have "last0 xs \<noteq> NULL" using linked_not_NULL [OF R] hd0_in(2) by metis
    then show ?thesis using linked_snoc [OF R d assms(2)] unfolding f(1) l by (simp add: Let_def)
  qed
  moreover have "linked (left_sibling \<circ> ffs (push_child p c s)) (rev (xs @ [c]))"
    using L assms(2,3) unfolding f(2) l by (simp add: linked_Cons)
  moreover have "rightmost_child (ffs (push_child p c s) p) = c"
    using fun_cong [OF f(3), of p] by simp
  ultimately show ?thesis using d by (simp add: kids_def)
qed

lemma push_child_other:
  assumes "kids s q ys" and "kids s p xs" and "q \<noteq> p" and "c \<noteq> NULL" and "c \<notin> set ys" and "set xs \<inter> set ys = {}"
  shows "kids (push_child p c s) q ys"
  using assms(1)
proof (rule kids_cong)
  note f = push_child_fields [OF assms(4), where p = p and s = s]
  show "rightmost_child (ffs (push_child p c s) q) = rightmost_child (ffs s q)"
    using fun_cong [OF f(3), of q] assms(3) by simp
  fix x
  assume x: "x \<in> set ys"
  have "x \<noteq> rightmost_child (ffs s p) \<or> rightmost_child (ffs s p) = NULL"
    using assms(2,6) x hd0_in(2) [of xs] by (cases "xs = []") (auto simp: kids_def)
  then show "right_sibling (ffs (push_child p c s) x) = right_sibling (ffs s x) \<and>
      left_sibling (ffs (push_child p c s) x) = left_sibling (ffs s x)"
    using fun_cong [OF f(1), of x] fun_cong [OF f(2), of x] x assms(5) by (auto simp: Let_def split: if_splits)
qed

lemma unlink_child_kids:
  assumes k: "kids s p (xs @ c # ys)"
  shows "\<exists>s'. unlink_child p c s = Some s' \<and> kids s' p (xs @ ys) \<and>
    left_sibling (ffs s' c) = NULL \<and> right_sibling (ffs s' c) = NULL \<and>
    (\<forall>q. q \<noteq> p \<longrightarrow> rightmost_child (ffs s' q) = rightmost_child (ffs s q)) \<and>
    (\<forall>x. x \<notin> set (xs @ c # ys) \<longrightarrow> right_sibling (ffs s' x) = right_sibling (ffs s x) \<and>
       left_sibling (ffs s' x) = left_sibling (ffs s x))"
proof -
  have d: "distinct (xs @ c # ys)" and R: "linked (right_sibling \<circ> ffs s) (xs @ c # ys)"
    and L: "linked (left_sibling \<circ> ffs s) (rev ys @ c # rev xs)"
    and rm: "rightmost_child (ffs s p) = last0 (xs @ c # ys)"
    using k by (simp_all add: kids_def)
  have r: "right_sibling (ffs s c) = hd0 ys" and l: "left_sibling (ffs s c) = last0 xs"
    using R L by (simp_all add: linked_append linked_Cons)
  have nn: "NULL \<notin> set (xs @ c # ys)" using R by (rule linked_not_NULL)
  have lx: "last0 xs = NULL \<longleftrightarrow> xs = []" and hy: "hd0 ys = NULL \<longleftrightarrow> ys = []"
    using nn hd0_NULL [of xs] hd0_NULL [of ys] by auto
  have c_out: "last0 xs \<noteq> c" "hd0 ys \<noteq> c" using d nn hd0_in(2) [of xs] hd0_in(1) [of ys] by (cases "xs = []"; cases "ys = []"; auto)+
  let ?s1 = "double_link (last0 xs) (hd0 ys) s"
  have s1: "right_sibling (ffs ?s1 c) = hd0 ys" "left_sibling (ffs ?s1 c) = last0 xs"
      "\<And>q. rightmost_child (ffs ?s1 q) = rightmost_child (ffs s q)"
    using fun_cong [OF siblings_double_link(1), of "last0 xs" "hd0 ys" s c] fun_cong [OF siblings_double_link(2), of "last0 xs" "hd0 ys" s c]
      fun_cong [OF siblings_double_link(3), of "last0 xs" "hd0 ys" s] r l c_out
    by (auto split: if_splits)
  define s2 where "s2 = (if ys = [] then upd_ff p (rightmost_child_update (\<lambda>_. last0 xs)) ?s1 else ?s1)"
  define s' where "s' = upd_ff c (\<lambda>f. f\<lparr>right_sibling := NULL, left_sibling := NULL\<rparr>) s2"
  have "unlink_child p c s = Some s'"
    using r l hy s1 rm by (auto simp: unlink_child_def Let_def s'_def s2_def)
  moreover have fR: "right_sibling \<circ> ffs s' = (right_sibling \<circ> ffs ?s1)(c := NULL)"
    and fL: "left_sibling \<circ> ffs s' = (left_sibling \<circ> ffs ?s1)(c := NULL)"
    and fm: "rightmost_child \<circ> ffs s' = (rightmost_child \<circ> ffs s)(p := last0 (xs @ ys))"
    using s1(3) rm by (auto simp: s'_def s2_def fun_eq_iff last0_def)
  moreover have "linked (right_sibling \<circ> ffs s') (xs @ ys)"
  proof -
    have "linked (right_sibling \<circ> ffs ?s1) (xs @ ys)"
      using linked_remove [OF R d] linked_append [of _ "[c]" ys] R lx
      by (cases "xs = []") (auto simp: siblings_double_link linked_Cons)
    then show ?thesis using d by (simp add: fR)
  qed
  moreover have "linked (left_sibling \<circ> ffs s') (rev (xs @ ys))"
  proof -
    have "linked (left_sibling \<circ> ffs ?s1) (rev ys @ rev xs)"
      using linked_remove [OF L] d L hy by (cases "ys = []") (auto simp: siblings_double_link linked_Cons)
    then show ?thesis using d by (simp add: fL)
  qed
  moreover have "\<forall>x. x \<notin> set (xs @ c # ys) \<longrightarrow> right_sibling (ffs s' x) = right_sibling (ffs s x) \<and>
       left_sibling (ffs s' x) = left_sibling (ffs s x)"
    using fun_cong [OF fR] fun_cong [OF fL] lx hy hd0_in(2) [of xs] hd0_in(1) [of ys]
    by (auto simp: siblings_double_link split: if_splits)
  moreover have "right_sibling (ffs s' c) = NULL" "left_sibling (ffs s' c) = NULL" by (simp_all add: s'_def)
  moreover have "rightmost_child (ffs s' q) = (if q = p then last0 (xs @ ys) else rightmost_child (ffs s q))" for q
    using fun_cong [OF fm, of q] by simp
  ultimately show ?thesis using d by (intro exI [of _ s']) (simp add: kids_def)
qed

subsection \<open>The call stack\<close>

text \<open>The stack frames from the youngest one to the one at which unrolling stops: a detached
  frame, a frame that was stolen before, the last one, or one without a caller.\<close>

fun cstack :: "rt \<Rightarrow> ptr \<Rightarrow> ptr list \<Rightarrow> bool" where
  "cstack s sf [] = False"
| "cstack s sf [x] = (sf = x \<and> x \<noteq> NULL \<and> (flags (sfs s x) AND stop_flags \<noteq> 0 \<or> call_parent (sfs s x) = NULL))"
| "cstack s sf (x # y # xs) =
     (sf = x \<and> x \<noteq> NULL \<and> flags (sfs s x) AND stop_flags = 0 \<and> cstack s (call_parent (sfs s x)) (y # xs))"

lemma cstack_hd: "cstack s sf xs \<Longrightarrow> xs \<noteq> [] \<and> hd xs = sf \<and> sf \<noteq> NULL"
  by (induction s sf xs rule: cstack.induct) auto

lemma cstack_cong:
  "cstack s sf xs \<Longrightarrow> (\<And>x. x \<in> set xs \<Longrightarrow> flags (sfs s' x) AND stop_flags = flags (sfs s x) AND stop_flags \<and>
     call_parent (sfs s' x) = call_parent (sfs s x)) \<Longrightarrow> cstack s' sf xs"
  by (induction s sf xs rule: cstack.induct) auto

definition only_call_parent :: "ptr list \<Rightarrow> rt \<Rightarrow> rt \<Rightarrow> bool" where
  "only_call_parent xs s s' \<longleftrightarrow> ffs s' = ffs s \<and> wks s' = wks s \<and> pfs s' = pfs s \<and>
     (\<forall>x. x \<notin> set xs \<longrightarrow> sfs s' x = sfs s x) \<and>
     (\<forall>x. \<exists>c. sfs s' x = call_parent_update (\<lambda>_. c) (sfs s x))"

lemma only_call_parent_sel:
  assumes "only_call_parent xs s s'"
  shows "flags (sfs s' x) = flags (sfs s x)" "sf_worker (sfs s' x) = sf_worker (sfs s x)" "sf_sp (sfs s' x) = sf_sp (sfs s x)"
proof -
  obtain c where "sfs s' x = call_parent_update (\<lambda>_. c) (sfs s x)" using assms by (auto simp: only_call_parent_def)
  then show "flags (sfs s' x) = flags (sfs s x)" "sf_worker (sfs s' x) = sf_worker (sfs s x)" "sf_sp (sfs s' x) = sf_sp (sfs s x)"
    by simp_all
qed

lemma call_parent_twice:
  "call_parent_update (\<lambda>_. c) (call_parent_update (\<lambda>_. d) f) = call_parent_update (\<lambda>_. c) f"
  "\<exists>c. f = call_parent_update (\<lambda>_. c) f"
  by simp (metis stack_frame.surjective stack_frame.update_convs(2))

lemma only_call_parent_step:
  assumes "only_call_parent xs (upd_sf x (call_parent_update (\<lambda>_. r)) s) s'"
  shows "only_call_parent (x # xs) s s'"
  using assms unfolding only_call_parent_def
  by (simp add: fun_upd_apply split: if_splits) (metis call_parent_twice)

lemma reverse_call_stack_path:
  "cstack s sf xs \<Longrightarrow> distinct xs \<Longrightarrow>
   \<exists>s'. reverse_call_stack sf r s = Some (last xs, s') \<and> only_call_parent xs s s' \<and>
     lpath (call_parent \<circ> sfs s') (last xs) (rev xs) r"
proof (induction xs arbitrary: s sf r)
  case Nil
  then show ?case by simp
next
  case (Cons x xs)
  let ?s1 = "upd_sf x (call_parent_update (\<lambda>_. r)) s"
  show ?case
  proof (cases xs)
    case Nil
    with Cons.prems have "reverse_call_stack sf r s = Some (x, ?s1)"
      by (subst reverse_call_stack.simps) (auto simp: Let_def)
    moreover have "only_call_parent [x] s ?s1"
      using call_parent_twice(2) by (auto simp: only_call_parent_def)
    ultimately show ?thesis using Nil Cons.prems by simp
  next
    case (Cons y ys)
    with Cons.prems have x: "sf = x" "x \<noteq> NULL" "flags (sfs s x) AND stop_flags = 0" "cstack s (call_parent (sfs s x)) xs"
      by simp_all
    have "cstack ?s1 (call_parent (sfs s x)) xs"
      using x(4) Cons.prems(2) by (elim cstack_cong) auto
    moreover have "distinct xs" using Cons.prems(2) by simp
    ultimately obtain s' where s': "reverse_call_stack (call_parent (sfs s x)) x ?s1 = Some (last xs, s')"
        "only_call_parent xs ?s1 s'" "lpath (call_parent \<circ> sfs s') (last xs) (rev xs) x"
      using Cons.IH [of ?s1 _ x] by blast
    have "call_parent (sfs s x) \<noteq> NULL" using cstack_hd [OF x(4)] by simp
    then have "reverse_call_stack sf r s = Some (last xs, s')"
      using x s'(1) by (subst reverse_call_stack.simps) (simp add: Let_def)
    moreover have "call_parent (sfs s' x) = r"
      using s'(2) Cons.prems(2) by (simp add: only_call_parent_def)
    moreover have "lpath (call_parent \<circ> sfs s') (last xs) (rev (x # xs)) r"
      using s'(3) x(2) \<open>call_parent (sfs s' x) = r\<close>
      unfolding rev.simps lpath_append lpath.simps comp_apply by blast
    moreover have "only_call_parent (x # xs) s s'"
      using s'(2) by (rule only_call_parent_step)
    moreover have "last (x # xs) = last xs" using Cons by simp
    ultimately show ?thesis by metis
  qed
qed

subsection \<open>The whole forest\<close>

text \<open>\<open>K\<close> gives the list of children of every frame; no frame has two parents.\<close>

definition forest :: "rt \<Rightarrow> (ptr \<Rightarrow> ptr list) \<Rightarrow> bool" where
  "forest s K \<longleftrightarrow> (\<forall>p. kids s p (K p)) \<and> (\<forall>p q. p \<noteq> q \<longrightarrow> set (K p) \<inter> set (K q) = {})"

lemma push_child_forest:
  assumes "forest s K" and "c \<noteq> NULL" and "\<And>q. c \<notin> set (K q)"
  shows "forest (push_child p c s) (K(p := K p @ [c]))"
  unfolding forest_def
proof (intro conjI allI impI)
  fix q
  show "kids (push_child p c s) q ((K(p := K p @ [c])) q)"
    using assms push_child_kids [of s p "K p" c] push_child_other [of s q "K q" p "K p" c]
    by (cases "q = p") (auto simp: forest_def)
next
  fix q r :: ptr
  assume "q \<noteq> r"
  then show "set ((K(p := K p @ [c])) q) \<inter> set ((K(p := K p @ [c])) r) = {}"
    using assms(1,3) by (auto simp: forest_def)
qed

lemma unlink_child_forest:
  assumes "forest s K" and "K p = xs @ c # ys"
  shows "\<exists>s'. unlink_child p c s = Some s' \<and> forest s' (K(p := xs @ ys)) \<and>
    left_sibling (ffs s' c) = NULL \<and> right_sibling (ffs s' c) = NULL"
proof -
  have k: "kids s p (xs @ c # ys)" using assms by (metis forest_def)
  from unlink_child_kids [OF k] obtain s' where s': "unlink_child p c s = Some s'" "kids s' p (xs @ ys)"
      "left_sibling (ffs s' c) = NULL" "right_sibling (ffs s' c) = NULL"
      "\<And>q. q \<noteq> p \<Longrightarrow> rightmost_child (ffs s' q) = rightmost_child (ffs s q)"
      "\<And>x. x \<notin> set (xs @ c # ys) \<Longrightarrow> right_sibling (ffs s' x) = right_sibling (ffs s x) \<and>
         left_sibling (ffs s' x) = left_sibling (ffs s x)"
    by blast
  have dj: "set (K q) \<inter> set (K r) = {}" if "q \<noteq> r" for q r using assms(1) that by (auto simp: forest_def)
  have "kids s' q (K q)" if "q \<noteq> p" for q
  proof (rule kids_cong)
    show "kids s q (K q)" using assms(1) by (simp add: forest_def)
    show "rightmost_child (ffs s' q) = rightmost_child (ffs s q)" using s'(5) that by simp
    fix x
    assume "x \<in> set (K q)"
    then show "right_sibling (ffs s' x) = right_sibling (ffs s x) \<and> left_sibling (ffs s' x) = left_sibling (ffs s x)"
      using dj [OF that] assms(2) s'(6) [of x] by auto
  qed
  moreover have "set ((K(p := xs @ ys)) q) \<inter> set ((K(p := xs @ ys)) r) = {}" if "q \<noteq> r" for q r
    using dj [OF that] assms(2) by (auto split: if_splits)
  ultimately have "forest s' (K(p := xs @ ys))" using s'(2) by (simp add: forest_def)
  with s' show ?thesis by blast
qed

lemma forest_zero: "forest rt_zero (\<lambda>_. [])"
  by (simp add: forest_def kids_def zero_defs)

definition ff_demo :: rt where
  "ff_demo = push_child 1 4 (push_child 1 3 (push_child 1 2 rt_zero))"

lemma ff_demo_forest: "forest ff_demo ((\<lambda>_. [])(1 := [2, 3, 4]))"
proof -
  have 1: "forest (push_child 1 2 rt_zero) ((\<lambda>_. [])(1 := [2]))"
    using push_child_forest [OF forest_zero, of 2 1] by simp
  have 2: "forest (push_child 1 3 (push_child 1 2 rt_zero)) ((\<lambda>_. [])(1 := [2, 3]))"
    using push_child_forest [OF 1, of 3 1] by simp
  show ?thesis using push_child_forest [OF 2, of 4 1] by (simp add: ff_demo_def)
qed

text \<open>In a forest of frames, \<open>push_child\<close> makes the new frame the last
  child of its parent, both in the forward and the backward links and in
  \<open>rightmost_child\<close>, and leaves the children of every other frame as they were.\<close>

theorem push_child_appends:
  assumes "forest s K" and "c \<noteq> NULL" and "\<And>q. c \<notin> set (K q)"
  shows "forest (push_child p c s) (K(p := K p @ [c])) \<and> rightmost_child (ffs (push_child p c s) p) = c"
  using push_child_forest [OF assms] by (simp add: push_child_def)

theorem push_child_appends_witness:
  "forest (push_child 1 5 ff_demo) (((\<lambda>_. [])(1 := [2, 3, 4]))(1 := [2, 3, 4, 5])) \<and>
   rightmost_child (ffs (push_child 1 5 ff_demo) 1) = 5"
  using push_child_appends [OF ff_demo_forest, of 5 1] by simp

text \<open>C25 (unlink_child_removes): \<open>unlink_child\<close> takes a child out of any place of its parent's
  list of children, first, middle, last or only one, without failing its assertion; the
  other children stay in order and the child's sibling links are cleared.\<close>

theorem unlink_child_removes:
  assumes "forest s K" and "K p = xs @ c # ys"
  shows "\<exists>s'. unlink_child p c s = Some s' \<and> forest s' (K(p := xs @ ys)) \<and>
    left_sibling (ffs s' c) = NULL \<and> right_sibling (ffs s' c) = NULL"
  using assms by (rule unlink_child_forest)

theorem unlink_child_removes_witness:
  "\<exists>s'. unlink_child 1 3 ff_demo = Some s' \<and> forest s' (((\<lambda>_. [])(1 := [2, 3, 4]))(1 := [2, 4])) \<and>
    left_sibling (ffs s' 3) = NULL \<and> right_sibling (ffs s' 3) = NULL"
  using unlink_child_removes [OF ff_demo_forest, of 1 "[2]" 3 "[4]"] by simp

end
