(* ===== verification/Frame_Promotion.thy ===== *)
theory Frame_Promotion
  imports Full_Frame_Proofs
begin

text \<open>
  What a steal does to the call stack it takes: every stack frame of it becomes a full frame,
  the oldest one on top, each the only child of its caller (\<open>unroll_call_stack\<close> of
  runtime/scheduler.c), and how the stack pointer of a suspended frame is kept as an offset
  (\<open>put_stack\<close> and \<open>take_stack\<close> of runtime/full_frame.c).
\<close>

subsection \<open>The chain of promoted frames\<close>

definition suspended_sf :: "rt \<Rightarrow> ptr \<Rightarrow> bool" where
  "suspended_sf s y \<longleftrightarrow> flags (sfs s y) AND (CILK_FRAME_STOLEN OR CILK_FRAME_SUSPENDED) =
      CILK_FRAME_STOLEN OR CILK_FRAME_SUSPENDED \<and> sf_worker (sfs s y) = NULL"

text \<open>The frame \<open>f\<close> holds the stack frame \<open>y\<close> and, below it, each further stack frame is held
  by a call child of the frame above, whose only join is that child.\<close>

fun chain :: "rt \<Rightarrow> ptr \<Rightarrow> ptr list \<Rightarrow> ptr \<Rightarrow> ptr list \<Rightarrow> bool" where
  "chain s f [] y [] = (call_stack (ffs s f) = y \<and> suspended_sf s y \<and> call_parent (sfs s y) = NULL)"
| "chain s f (g # fs) y (z # zs) =
     (call_stack (ffs s f) = y \<and> suspended_sf s y \<and> call_parent (sfs s y) = NULL \<and>
      parent (ffs s g) = f \<and> is_call_child (ffs s g) \<and> rightmost_child (ffs s f) = g \<and>
      join_counter (ffs s g) = (if fs = [] then 0 else 1) \<and> chain s g fs z zs)"
| "chain s f fs y zs = False"

definition touched_only :: "ptr set \<Rightarrow> ptr set \<Rightarrow> rt \<Rightarrow> rt \<Rightarrow> bool" where
  "touched_only F S s s' \<longleftrightarrow> wks s' = wks s \<and> pfs s' = pfs s \<and>
     (\<forall>x. x \<notin> F \<longrightarrow> ffs s' x = ffs s x) \<and> (\<forall>x. x \<notin> S \<longrightarrow> sfs s' x = sfs s x)"

lemma touched_only_ff: "touched_only F S s s' \<Longrightarrow> x \<notin> F \<Longrightarrow> ffs s' x = ffs s x"
  by (simp add: touched_only_def)

lemma touched_only_sf: "touched_only F S s s' \<Longrightarrow> x \<notin> S \<Longrightarrow> sfs s' x = sfs s x"
  by (simp add: touched_only_def)

lemma touched_only_trans:
  "touched_only F S s s' \<Longrightarrow> touched_only F' S' s' s'' \<Longrightarrow> F \<subseteq> G \<Longrightarrow> F' \<subseteq> G \<Longrightarrow> S \<subseteq> U \<Longrightarrow> S' \<subseteq> U \<Longrightarrow>
   touched_only G U s s''"
  unfolding touched_only_def by (metis subset_iff)

lemma or_then_and: "(a OR m) AND m = (m :: 32 word)"
  by (simp add: bit.conj_disj_distrib2 word_ao_absorbs word_bw_comms)

lemma make_unrunnable_effect:
  assumes "y \<noteq> NULL"
  shows "call_stack (ffs (make_unrunnable f y b s) f) = y" and "suspended_sf (make_unrunnable f y b s) y"
    and "call_parent (sfs (make_unrunnable f y b s) x) = call_parent (sfs s x)"
    and "touched_only {f} {y} s (make_unrunnable f y b s)"
    and "join_counter (ffs (make_unrunnable f y b s) x) = join_counter (ffs s x)"
    and "parent (ffs (make_unrunnable f y b s) x) = parent (ffs s x)"
    and "is_call_child (ffs (make_unrunnable f y b s) x) = is_call_child (ffs s x)"
    and "rightmost_child (ffs (make_unrunnable f y b s) x) = rightmost_child (ffs s x)"
  using assms
  by (simp_all add: make_unrunnable_def make_unrunnable_sysdep_def Let_def put_stack_def suspended_sf_def
      touched_only_def or_then_and)

lemma make_child_effect:
  assumes "f \<noteq> NULL" and "g \<noteq> f" and "g \<noteq> NULL" and "rightmost_child (ffs s f) \<noteq> g" and "call_stack (ffs s f) \<noteq> NULL"
  shows "\<exists>s'. make_child f g z NULL s = Some s' \<and> touched_only ({f, g, rightmost_child (ffs s f)} - {NULL}) {} s s' \<and>
    sfs s' = sfs s \<and> parent (ffs s' g) = f \<and> is_call_child (ffs s' g) \<and> rightmost_child (ffs s' g) = NULL \<and>
    join_counter (ffs s' g) = 0 \<and> call_stack (ffs s' g) = z \<and> rightmost_child (ffs s' f) = g \<and>
    parent (ffs s' f) = parent (ffs s f) \<and> is_call_child (ffs s' f) = is_call_child (ffs s f) \<and>
    call_stack (ffs s' f) = call_stack (ffs s f) \<and> join_counter (ffs s' f) = join_counter (ffs s f) + 1"
  using assms
  by (auto simp: make_child_def make_full_frame_def push_child_def double_link_def incjoin_def Let_def touched_only_def)

lemma promote_frames_chain:
  assumes "lpath (call_parent \<circ> sfs s) y (y # zs) NULL" and "distinct (y # zs)"
    and "length zs \<le> length news" and "distinct (f # news)" and "NULL \<notin> set (f # news)"
    and "rightmost_child (ffs s f) \<notin> set (f # news)"
    and "call_stack (ffs s f) = y" and "suspended_sf s y"
  shows "\<exists>s'. promote_frames loot f y news s =
       Some (last (f # take (length zs) news), last (y # zs), drop (length zs) news, s') \<and>
     chain s' f (take (length zs) news) y zs \<and>
     touched_only (insert f (insert (rightmost_child (ffs s f)) (set (take (length zs) news))) - {NULL}) (set (y # zs)) s s' \<and>
     join_counter (ffs s' f) = join_counter (ffs s f) + (if zs = [] then 0 else 1) \<and>
     parent (ffs s' f) = parent (ffs s f) \<and> is_call_child (ffs s' f) = is_call_child (ffs s f)"
  using assms
proof (induction zs arbitrary: y f news s)
  case Nil
  then show ?case
    by (subst promote_frames.simps) (auto simp: advance_frame_def touched_only_def suspended_sf_def)
next
  case (Cons z zs)
  then obtain g news' where news: "news = g # news'" by (cases news) auto
  have y: "y \<noteq> NULL" "call_parent (sfs s y) = z" "z \<noteq> NULL" and path: "lpath (call_parent \<circ> sfs s) z (z # zs) NULL"
    using Cons.prems(1) by (auto simp: o_def)
  define s1 where "s1 = upd_sf y (call_parent_update (\<lambda>_. NULL)) s"
  have s1: "ffs s1 = ffs s" "sfs s1 = (sfs s)(y := call_parent_update (\<lambda>_. NULL) (sfs s y))"
    by (simp_all add: s1_def)
  have "f \<noteq> NULL" "g \<noteq> f" "g \<noteq> NULL" "rightmost_child (ffs s1 f) \<noteq> g" "call_stack (ffs s1 f) \<noteq> NULL"
    using Cons.prems y(1) news by (auto simp: s1)
  note gf = this
  from make_child_effect [OF gf, of z] obtain s2 where s2: "make_child f g z NULL s1 = Some s2"
    "touched_only ({f, g, rightmost_child (ffs s f)} - {NULL}) {} s1 s2" "sfs s2 = sfs s1" "parent (ffs s2 g) = f"
    "is_call_child (ffs s2 g)" "rightmost_child (ffs s2 g) = NULL" "join_counter (ffs s2 g) = 0"
    "call_stack (ffs s2 g) = z" "rightmost_child (ffs s2 f) = g" 
    "parent (ffs s2 f) = parent (ffs s f)" "is_call_child (ffs s2 f) = is_call_child (ffs s f)"
    "call_stack (ffs s2 f) = y"
    "join_counter (ffs s2 f) = join_counter (ffs s f) + 1"
    unfolding s1(1) Cons.prems(7) by (elim exE conjE) (rule that; assumption)
  define s3 where "s3 = make_unrunnable g z (z = loot) s2"
  note u = make_unrunnable_effect [OF y(3), where f = g and b = "z = loot" and s = s2, folded s3_def]
  have yz: "y \<noteq> z" "y \<notin> set zs" "distinct (z # zs)" using Cons.prems(2) by auto
  have p3: "lpath (call_parent \<circ> sfs s3) z (z # zs) NULL"
  proof -
    have "(call_parent \<circ> sfs s3) x = (call_parent \<circ> sfs s) x" if "x \<in> set (z # zs)" for x
      using that yz(1,2) unfolding comp_apply u(3) s2(3) s1(2) by auto
    then show ?thesis using path lpath_cong by blast
  qed
  have n3: "length zs \<le> length news'" "distinct (g # news')" "NULL \<notin> set (g # news')"
    "rightmost_child (ffs s3 g) \<notin> set (g # news')"
    using Cons.prems(3,4,5) news s2(6) unfolding u(8) by auto
  have g3: "rightmost_child (ffs s3 g) = NULL" "join_counter (ffs s3 g) = 0" "parent (ffs s3 g) = f" "is_call_child (ffs s3 g)"
    unfolding u(5-8) by (fact s2)+
  from Cons.IH [OF p3 yz(3) n3 u(1,2)] obtain s' where s': "promote_frames loot g z news' s3 =
       Some (last (g # take (length zs) news'), last (z # zs), drop (length zs) news', s')"
     "chain s' g (take (length zs) news') z zs"
     "touched_only (insert g (insert NULL (set (take (length zs) news'))) - {NULL}) (set (z # zs)) s3 s'"
     "join_counter (ffs s' g) = (if zs = [] then 0 else 1)" "parent (ffs s' g) = f" "is_call_child (ffs s' g)"
    using g3(4) unfolding g3(1-3) by auto
  have "promote_frames loot f y news s = promote_frames loot g z news' s3"
    using y s2(1) news by (subst promote_frames.simps) (simp add: advance_frame_def s3_def s1_def)
  moreover have out: "f \<notin> insert g (insert NULL (set (take (length zs) news'))) - {NULL}"
    using Cons.prems(4,5) news by (auto dest: in_set_takeD)
  have f_same: "ffs s' f = ffs s3 f" using touched_only_ff [OF s'(3) out] .
  have f3: "ffs s3 f = ffs s2 f" using touched_only_ff [OF u(4)] gf(2) by simp
  have y_same: "sfs s' y = sfs s1 y"
    using touched_only_sf [OF s'(3)] touched_only_sf [OF u(4)] yz s2(3) by simp
  have sus: "suspended_sf s' y \<and> call_parent (sfs s' y) = NULL"
    using Cons.prems(8) by (simp add: suspended_sf_def y_same s1)
  let ?F = "insert f (insert (rightmost_child (ffs s f)) (set (g # take (length zs) news'))) - {NULL}"
  have "touched_only {} {y} s s1" by (simp add: touched_only_def s1_def)
  then have "touched_only ?F (set (y # z # zs)) s s2" using s2(2) by (rule touched_only_trans) auto
  then have "touched_only ?F (set (y # z # zs)) s s3"
    using u(4) by (rule touched_only_trans) (use gf(3) in auto)
  then have "touched_only ?F (set (y # z # zs)) s s'" using s'(3) by (rule touched_only_trans) auto
  moreover have "length zs < length news" using Cons.prems(3) by simp
  ultimately show ?case
    using s' sus f_same f3 s2(9-13) news by auto
qed

lemma chain_last: "chain s f fs y zs \<Longrightarrow> call_parent (sfs s (last (y # zs))) = NULL"
  by (induction s f fs y zs rule: chain.induct) auto

subsection \<open>Unrolling a stolen call stack\<close>

lemma unsynched_keeps_stop_flags: "(a OR CILK_FRAME_UNSYNCHED) AND stop_flags = a AND stop_flags"
  by (simp add: stop_flags_def frame_flag_defs bit.conj_disj_distrib2)

lemma unroll_call_stack_chain:
  assumes c: "cstack s loot (rev (y # zs))" and d: "distinct (y # zs)"
    and len: "length zs \<le> length news" and dn: "distinct (f # news)" and nn: "NULL \<notin> set (f # news)"
    and fresh: "rightmost_child (ffs s f) \<notin> set (f # news)"
  shows "\<exists>s'. unroll_call_stack w f loot news s =
       Some (last (f # take (length zs) news), drop (length zs) news, s') \<and>
     chain s' f (take (length zs) news) y zs \<and>
     touched_only (insert f (insert (rightmost_child (ffs s f)) (set (take (length zs) news))) - {NULL}) (set (y # zs)) s s' \<and>
     join_counter (ffs s' f) = join_counter (ffs s f) + (if zs = [] then 0 else 1) \<and>
     parent (ffs s' f) = parent (ffs s f) \<and> is_call_child (ffs s' f) = is_call_child (ffs s f)"
proof -
  have hd: "hd (rev (y # zs)) = loot" "loot \<noteq> NULL" using cstack_hd [OF c] by auto
  then have mem: "loot \<in> set (y # zs)" by (metis hd_in_set rev_is_Nil_conv set_rev list.simps(3))
  define s1 where "s1 = (if sf_worker (sfs s loot) \<noteq> w
     then upd_sf loot (\<lambda>x. x\<lparr>flags := flags x OR CILK_FRAME_UNSYNCHED\<rparr>) s else s)"
  have s1: "ffs s1 = ffs s" "touched_only {} (set (y # zs)) s s1"
    using mem by (auto simp: s1_def touched_only_def)
  have "cstack s1 loot (rev (y # zs))"
    using c by (rule cstack_cong) (simp add: s1_def unsynched_keeps_stop_flags)
  from reverse_call_stack_path [OF this, of NULL] d obtain s2 where
    s2: "reverse_call_stack loot NULL s1 = Some (y, s2)" "only_call_parent (rev (y # zs)) s1 s2"
      "lpath (call_parent \<circ> sfs s2) y (y # zs) NULL" by (simp del: rev.simps) (auto simp del: lpath.simps)
  have f2: "ffs s2 = ffs s" "touched_only {} (set (y # zs)) s1 s2"
    using s2(2) s1(1) by (auto simp: only_call_parent_def touched_only_def)
  define s3 where "s3 = make_unrunnable f y (y = loot) s2"
  have y: "y \<noteq> NULL" using s2(3) by simp
  note u = make_unrunnable_effect [OF y, where f = f and b = "y = loot" and s = s2, folded s3_def]
  have p3: "lpath (call_parent \<circ> sfs s3) y (y # zs) NULL"
  proof -
    have "(call_parent \<circ> sfs s3) = (call_parent \<circ> sfs s2)" using u(3) by (simp add: fun_eq_iff)
    then show ?thesis using s2(3) by metis
  qed
  have fr: "rightmost_child (ffs s3 f) \<notin> set (f # news)" using fresh unfolding u(8) f2(1) .
  from promote_frames_chain [OF p3 d len dn nn fr u(1,2), of loot] obtain s' where
    s': "promote_frames loot f y news s3 = Some (last (f # take (length zs) news), last (y # zs), drop (length zs) news, s')"
      "chain s' f (take (length zs) news) y zs"
      "touched_only (insert f (insert (rightmost_child (ffs s f)) (set (take (length zs) news))) - {NULL}) (set (y # zs)) s3 s'"
      "join_counter (ffs s' f) = join_counter (ffs s f) + (if zs = [] then 0 else 1)"
      "parent (ffs s' f) = parent (ffs s f)" "is_call_child (ffs s' f) = is_call_child (ffs s f)"
    unfolding u(5-8) f2(1) by (elim exE conjE) (rule that; assumption)
  have "call_parent (sfs s' (last (y # zs))) = NULL"
    using s'(2) by (rule chain_last)
  then have "unroll_call_stack w f loot news s = Some (last (f # take (length zs) news), drop (length zs) news, s')"
    using hd(2) s2(1) s'(1) by (simp add: unroll_call_stack_def Let_def flip: s1_def s3_def)
  moreover
  let ?F = "insert f (insert (rightmost_child (ffs s f)) (set (take (length zs) news))) - {NULL}"
  have "touched_only ?F (set (y # zs)) s s2" using s1(2) f2(2) by (rule touched_only_trans) auto
  then have "touched_only ?F (set (y # zs)) s s3" using u(4) by (rule touched_only_trans) (use nn in auto)
  then have "touched_only ?F (set (y # zs)) s s'" using s'(3) by (rule touched_only_trans) auto
  ultimately show ?thesis using s' by (intro exI [of _ s'] conjI)
qed

text \<open>C24 (unroll_promotes_call_stack): Stealing a call stack whose frames, oldest first, are
  \<open>y # zs\<close> succeeds as soon as there are blocks for all but the oldest one, and yields a chain
  of full frames: the victim's frame holds the oldest stack frame and each new full frame, a
  call child and the only pending child of the one above, holds the next; every stack frame is
  marked stolen and suspended, has no worker and no caller link left. The frame returned, the
  loot, is the last of the chain and has nothing to join. Nothing else is touched.\<close>

theorem unroll_promotes_call_stack:
  assumes "cstack s loot (rev (y # zs))" and "distinct (y # zs)"
    and "length zs \<le> length news" and "distinct (f # news)" and "NULL \<notin> set (f # news)"
    and "rightmost_child (ffs s f) \<notin> set (f # news)"
  shows "\<exists>s'. unroll_call_stack w f loot news s =
       Some (last (f # take (length zs) news), drop (length zs) news, s') \<and>
     chain s' f (take (length zs) news) y zs \<and>
     touched_only (insert f (insert (rightmost_child (ffs s f)) (set (take (length zs) news))) - {NULL}) (set (y # zs)) s s' \<and>
     join_counter (ffs s' f) = join_counter (ffs s f) + (if zs = [] then 0 else 1)"
  using unroll_call_stack_chain [OF assms] by blast

definition unroll_demo :: rt where
  "unroll_demo = upd_sf 11 (\<lambda>x. x\<lparr>call_parent := 12, sf_worker := 7\<rparr>)
     (upd_sf 12 (\<lambda>x. x\<lparr>call_parent := 13, sf_worker := 7\<rparr>)
       (upd_sf 13 (\<lambda>x. x\<lparr>call_parent := 14, flags := CILK_FRAME_DETACHED\<rparr>) rt_zero))"

theorem unroll_promotes_call_stack_witness:
  "\<exists>s'. unroll_call_stack 7 1 11 [2, 3, 4] unroll_demo = Some (3, [4], s') \<and>
     chain s' 1 [2, 3] 13 [12, 11] \<and> touched_only ({1, 0, 2, 3} - {0}) {13, 12, 11} unroll_demo s' \<and>
     join_counter (ffs s' 1) = 1"
  using unroll_promotes_call_stack [of unroll_demo 11 13 "[12, 11]" "[2, 3, 4]" 1 7]
  by (simp add: unroll_demo_def zero_defs stop_flags_def frame_flag_defs)

subsection \<open>Suspended stack pointers\<close>

lemma rt_ffs_id: "s\<lparr>ffs := (ffs s)(ff := ffs s ff)\<rparr> = s" by simp

lemma put_take_stack: "take_stack ff (sf_sp (sfs s sf)) (put_stack ff sf s) = s"
  by (simp add: put_stack_def take_stack_def upd_ff_def)

text \<open>While a frame is suspended its stack pointer is kept in the full frame, as an offset:
  suspending it as loot and taking the same pointer out again on resumption leaves the offset
  as it was, modulo 2^64 whatever the pointers are.\<close>

lemma suspend_resume_offset:
  assumes "sf \<noteq> NULL"
  shows "sync_sp (ffs (take_stack ff (sf_sp (sfs s sf)) (make_unrunnable ff sf True s)) ff) = sync_sp (ffs s ff)"
    and "sf_sp (sfs (make_unrunnable ff sf True s) sf) = 0"
  using assms by (simp_all add: put_stack_def take_stack_def make_unrunnable_def make_unrunnable_sysdep_def Let_def)

lemma make_destroy_full_frame:
  "destroy_full_frame ff (make_full_frame ff sf n s) = Some (ff, sizeof_full_frame + n)"
  by (simp add: destroy_full_frame_def validate_full_frame_def make_full_frame_def)

end
