(* ===== verification/THE_Protocol.thy ===== *)
theory THE_Protocol
  imports Work_Deque
begin

text \<open>
  The THE protocol of a worker and its thieves (runtime/scheduler.c, runtime/cilk-abi.c), one
  step per access to the shared pointers, in every interleaving. The worker's lock admits one
  party at a time (theory Worker_Lock); outside it only the owner pushes, lowers the tail and
  compares it with E. The machine is taken to be sequentially consistent at these accesses,
  which the fences and the locked instruction of the code provide.

  Ghost state: every frame pushed gets a number; \<open>slot\<close> says which number sits in which slot,
  \<open>outs\<close> are the numbers the owner has still to return to, the youngest first, \<open>popped\<close> and
  \<open>robbed\<close> those that were returned to and those that were stolen.
\<close>

datatype the_owner = OFree | OStored | OCheck | ONeedLock | OLocked | OReset
datatype the_thief = TNone | THold | TRaised | TGo | TBack
datatype the_lock = Free | Owner | Thief ptr

record the_sys =
  dq :: work_deque
  own :: the_owner
  thf :: the_thief
  wlock :: the_lock
  slot :: "int \<Rightarrow> nat"
  fresh :: nat
  outs :: "nat list"
  popped :: "nat list"
  robbed :: "nat list"

abbreviation owner_pops :: "the_sys \<Rightarrow> the_sys" where
  "owner_pops s \<equiv> s\<lparr>own := OFree, popped := hd (outs s) # popped s, outs := tl (outs s)\<rparr>"

inductive the_step :: "the_sys \<Rightarrow> the_sys \<Rightarrow> bool" where
  store: "own s = OFree \<Longrightarrow> x \<noteq> NULL \<Longrightarrow>
     the_step s (s\<lparr>dq := (dq s)\<lparr>ltq := (ltq (dq s))(wtail (dq s) := x)\<rparr>,
                   slot := (slot s)(wtail (dq s) := fresh s), own := OStored\<rparr>)"
| publish: "own s = OStored \<Longrightarrow>
     the_step s (s\<lparr>dq := (dq s)\<lparr>wtail := wtail (dq s) + 1\<rparr>, own := OFree,
                   outs := fresh s # outs s, fresh := Suc (fresh s)\<rparr>)"
| undo: "own s = OFree \<Longrightarrow> outs s \<noteq> [] \<Longrightarrow> the_step s (s\<lparr>dq := lower_tail (dq s), own := OCheck\<rparr>)"
| undo_wins: "own s = OCheck \<Longrightarrow> \<not> tail_below_exc (dq s) \<Longrightarrow> the_step s (owner_pops s)"
| undo_asks: "own s = OCheck \<Longrightarrow> tail_below_exc (dq s) \<Longrightarrow> the_step s (s\<lparr>own := ONeedLock\<rparr>)"
| check_lock: "own s = ONeedLock \<Longrightarrow> wlock s = Free \<Longrightarrow> the_step s (s\<lparr>wlock := Owner, own := OLocked\<rparr>)"
| check_reset: "own s = OLocked \<Longrightarrow> the_step s (s\<lparr>dq := reset_THE_exception (dq s), own := OReset\<rparr>)"
| check_kept: "own s = OReset \<Longrightarrow> \<not> stolen_p (dq s) \<Longrightarrow> the_step s ((owner_pops s)\<lparr>wlock := Free\<rparr>)"
| check_lost: "own s = OReset \<Longrightarrow> stolen_p (dq s) \<Longrightarrow>
     the_step s (s\<lparr>dq := (dq s)\<lparr>wtail := wtail (dq s) + 1\<rparr>, wlock := Free, own := OFree, outs := []\<rparr>)"
| pop: "own s = OFree \<Longrightarrow> wlock s = Free \<Longrightarrow> pop_tail (dq s) = (sf, d) \<Longrightarrow>
     the_step s (if sf = NULL then s\<lparr>dq := d\<rparr> else (owner_pops s)\<lparr>dq := d\<rparr>)"
| protect: "own s = OFree \<Longrightarrow> the_step s (s\<lparr>dq := snd (disallow_stealing n (dq s))\<rparr>)"
| unprotect: "own s = OFree \<Longrightarrow> the_step s (s\<lparr>dq := restore_stealing n (dq s)\<rparr>)"
| thief_lock: "wlock s = Free \<Longrightarrow> the_step s (s\<lparr>wlock := Thief i, thf := THold\<rparr>)"
| thief_raise: "thf s = THold \<Longrightarrow> the_step s (s\<lparr>dq := increment_E (dq s), thf := TRaised\<rparr>)"
| thief_test: "thf s = TRaised \<Longrightarrow>
     the_step s (s\<lparr>thf := (if can_steal_from (dq s) then TGo else TBack)\<rparr>)"
| thief_back: "thf s = TBack \<Longrightarrow> the_step s (s\<lparr>dq := decrement_E (dq s), wlock := Free, thf := TNone\<rparr>)"
| thief_take: "thf s = TGo \<Longrightarrow> take_head (dq s) = Some (sf, d) \<Longrightarrow>
     the_step s (s\<lparr>dq := d, robbed := slot s (whead (dq s)) # robbed s, wlock := Free, thf := TNone\<rparr>)"

definition the_init :: the_sys where
  "the_init = \<lparr>dq = worker_locks.extend init_locks (work_deque.fields 0 0 (Some 0) 1024 1024 (\<lambda>_. NULL)),
     own = OFree, thf = TNone, wlock = Free, slot = (\<lambda>_. 0), fresh = 0, outs = [], popped = [], robbed = []\<rparr>"

inductive the_reachable :: "the_sys \<Rightarrow> bool" where
  start: "the_reachable the_init"
| more: "the_reachable s \<Longrightarrow> the_step s t \<Longrightarrow> the_reachable t"

subsection \<open>The invariant\<close>

definition in_check :: "the_owner \<Rightarrow> bool" where
  "in_check pc \<longleftrightarrow> pc = OCheck \<or> pc = ONeedLock \<or> pc = OLocked \<or> pc = OReset"

lemma in_check_simps [simp]:
  "\<not> in_check OFree" "\<not> in_check OStored" "in_check OCheck" "in_check ONeedLock" "in_check OLocked" "in_check OReset"
  by (simp_all add: in_check_def)

text \<open>The tail as it was before the owner lowered it, and the numbers of the frames in the deque,
  oldest first.\<close>

definition full_tail :: "the_sys \<Rightarrow> int" where
  "full_tail s = wtail (dq s) + (if in_check (own s) then 1 else 0)"

definition live :: "the_sys \<Rightarrow> nat list" where
  "live s = map (slot s) [whead (dq s) .. full_tail s - 1]"

definition exc_inv :: "the_sys \<Rightarrow> bool" where
  "exc_inv s \<longleftrightarrow> exc (dq s) = Some (whead (dq s) + (if thf s \<in> {TRaised, TGo, TBack} then 1 else 0))"

definition wlock_inv :: "the_sys \<Rightarrow> bool" where
  "wlock_inv s \<longleftrightarrow> ((\<exists>i. wlock s = Thief i) \<longleftrightarrow> thf s \<noteq> TNone) \<and> (wlock s = Owner \<longleftrightarrow> own s \<in> {OLocked, OReset})"

definition ptr_inv :: "the_sys \<Rightarrow> bool" where
  "ptr_inv s \<longleftrightarrow> whead (dq s) \<le> full_tail s \<and> (thf s = TGo \<longrightarrow> whead (dq s) < full_tail s) \<and>
     (\<forall>i \<in> {whead (dq s) ..< full_tail s}. ltq (dq s) i \<noteq> NULL) \<and>
     (own s = OStored \<longrightarrow> ltq (dq s) (wtail (dq s)) \<noteq> NULL \<and> slot s (wtail (dq s)) = fresh s)"

definition ghost_inv :: "the_sys \<Rightarrow> bool" where
  "ghost_inv s \<longleftrightarrow> distinct (popped s @ robbed s @ live s) \<and>
     set (popped s @ robbed s @ live s) = {..< fresh s} \<and> sorted_wrt (<) (live s) \<and>
     (\<exists>gone. outs s = rev (live s) @ gone \<and> set gone \<subseteq> set (robbed s)) \<and>
     (in_check (own s) \<longrightarrow> outs s \<noteq> [])"

definition the_inv :: "the_sys \<Rightarrow> bool" where
  "the_inv s \<longleftrightarrow> exc_inv s \<and> wlock_inv s \<and> ptr_inv s \<and> ghost_inv s"

lemma live_cong:
  "whead (dq t) = whead (dq s) \<Longrightarrow> full_tail t = full_tail s \<Longrightarrow>
   (\<And>i. whead (dq s) \<le> i \<Longrightarrow> i < full_tail s \<Longrightarrow> slot t i = slot s i) \<Longrightarrow> live t = live s"
  by (simp add: live_def)

lemma live_last: "whead (dq s) < full_tail s \<Longrightarrow>
   live s = map (slot s) [whead (dq s) .. full_tail s - 2] @ [slot s (full_tail s - 1)]"
  by (simp add: live_def upto_snoc)

lemma live_hd: "whead (dq s) < full_tail s \<Longrightarrow>
   live s = slot s (whead (dq s)) # map (slot s) [whead (dq s) + 1 .. full_tail s - 1]"
  by (simp add: live_def upto_hd)

lemma live_Nil: "live s = [] \<longleftrightarrow> full_tail s \<le> whead (dq s)"
  by (auto simp: live_def)

lemma exc_inv_step: "the_inv s \<Longrightarrow> the_step s t \<Longrightarrow> exc_inv t"
  by (erule the_step.cases)
    (auto simp: the_inv_def exc_inv_def wlock_inv_def deque_defs disallow_stealing_def Let_def split: if_splits)

lemma wlock_inv_step: "the_inv s \<Longrightarrow> the_step s t \<Longrightarrow> wlock_inv t"
  by (erule the_step.cases) (auto simp: the_inv_def wlock_inv_def)

lemma ptr_inv_step: "the_inv s \<Longrightarrow> the_step s t \<Longrightarrow> ptr_inv t"
  by (erule the_step.cases)
    (auto simp: the_inv_def ptr_inv_def exc_inv_def wlock_inv_def full_tail_def deque_defs disallow_stealing_def Let_def
      split: if_splits)

lemma ghost_inv_same:
  assumes "ghost_inv s" and "live t = live s" and "popped t = popped s" and "robbed t = robbed s"
    and "fresh t = fresh s" and "outs t = outs s" and "in_check (own t) \<Longrightarrow> outs s \<noteq> []"
  shows "ghost_inv t"
  using assms by (simp add: ghost_inv_def)

lemma ghost_inv_push:
  assumes "ghost_inv s" and "live t = live s @ [fresh s]" and "popped t = popped s" and "robbed t = robbed s"
    and "fresh t = Suc (fresh s)" and "outs t = fresh s # outs s" and "\<not> in_check (own t)"
  shows "ghost_inv t"
proof -
  have all: "set (popped s @ robbed s @ live s) = {..< fresh s}" and d: "distinct (popped s @ robbed s @ live s)"
    using assms(1) by (simp_all add: ghost_inv_def)
  have new: "x < fresh s" if "x \<in> set (popped s @ robbed s @ live s)" for x using that unfolding all by simp
  have "distinct (popped t @ robbed t @ live t)"
    using d assms(2-4) new by (auto simp: distinct_append)
  moreover have "set (popped t @ robbed t @ live t) = {..< fresh t}"
    using all assms(2-5) by (simp add: lessThan_Suc)
  moreover have "sorted_wrt (<) (live t)"
  proof -
    have "\<forall>x \<in> set (live s). x < fresh s" using new by auto
    then show ?thesis using assms(1,2) by (simp add: ghost_inv_def sorted_wrt_append)
  qed
  ultimately show ?thesis using assms(1,2,4,6,7) by (auto simp: ghost_inv_def)
qed

lemma ghost_inv_pop:
  assumes "ghost_inv s" and "live s = live t @ [x]" and "popped t = hd (outs s) # popped s" and "robbed t = robbed s"
    and "fresh t = fresh s" and "outs t = tl (outs s)" and "\<not> in_check (own t)"
  shows "ghost_inv t"
proof -
  from assms(1) obtain gone where g: "outs s = rev (live s) @ gone" "set gone \<subseteq> set (robbed s)"
    by (auto simp: ghost_inv_def)
  then have x: "hd (outs s) = x" "outs t = rev (live t) @ gone" using assms(2,6) by simp_all
  have all: "set (popped s @ robbed s @ live t @ [x]) = {..< fresh s}" "distinct (popped s @ robbed s @ live t @ [x])"
      "sorted_wrt (<) (live t @ [x])"
    using assms(1) unfolding ghost_inv_def assms(2) by blast+
  have p: "popped t = x # popped s" using assms(3) x(1) by simp
  have "distinct (popped t @ robbed t @ live t)" using all(2) by (auto simp: p assms(4))
  moreover have "set (popped t @ robbed t @ live t) = {..< fresh t}" using all(1) by (simp add: p assms(4,5))
  moreover have "sorted_wrt (<) (live t)" using all(3) by (simp add: sorted_wrt_append)
  moreover have "set gone \<subseteq> set (robbed t)" using g(2) by (simp add: assms(4))
  ultimately show ?thesis using x(2) assms(7) by (simp add: ghost_inv_def)
qed

lemma ghost_inv_take:
  assumes "ghost_inv s" and "live s = x # live t" and "robbed t = x # robbed s" and "popped t = popped s"
    and "fresh t = fresh s" and "outs t = outs s" and "in_check (own t) \<Longrightarrow> outs s \<noteq> []"
  shows "ghost_inv t"
proof -
  from assms(1) obtain gone where g: "outs s = rev (live s) @ gone" "set gone \<subseteq> set (robbed s)"
    by (auto simp: ghost_inv_def)
  then have "outs t = rev (live t) @ (x # gone)" "set (x # gone) \<subseteq> set (robbed t)" using assms(2,3,6) by auto
  moreover have all: "set (popped s @ robbed s @ x # live t) = {..< fresh s}" "distinct (popped s @ robbed s @ x # live t)"
      "sorted_wrt (<) (x # live t)"
    using assms(1) unfolding ghost_inv_def assms(2) by blast+
  moreover have "distinct (popped t @ robbed t @ live t)" using all(2) by (auto simp: assms(3,4))
  moreover have "set (popped t @ robbed t @ live t) = {..< fresh t}" using all(1) by (simp add: assms(3-5))
  ultimately show ?thesis using assms(6,7) by (simp add: ghost_inv_def)
qed

lemma live_pops:
  assumes "whead (dq s) < full_tail s" and "whead (dq t) = whead (dq s)" and "slot t = slot s"
    and "full_tail t = full_tail s - 1"
  shows "live s = live t @ [slot s (full_tail s - 1)]"
  using live_last [OF assms(1)] assms(2-4) by (simp add: live_def)

lemma ghost_inv_step:
  assumes "the_inv s" and "the_step s t"
  shows "ghost_inv t"
proof -
  have g: "ghost_inv s" and p: "ptr_inv s" and e: "exc_inv s" and l: "wlock_inv s" using assms(1) by (simp_all add: the_inv_def)
  note simps = full_tail_def deque_defs Let_def disallow_stealing_def
  from assms(2) show ?thesis
  proof cases
    case (store x)
    have "live t = live s" by (rule live_cong) (auto simp: store simps)
    with g show ?thesis by (rule ghost_inv_same) (simp_all add: store)
  next
    case publish
    have "live t = live s @ [fresh s]"
      using p publish by (simp add: live_def ptr_inv_def simps upto_snoc [of "whead (dq s)" "wtail (dq s)"])
    with g show ?thesis by (rule ghost_inv_push) (simp_all add: publish)
  next
    case undo
    have "live t = live s" by (rule live_cong) (auto simp: undo simps)
    with g show ?thesis by (rule ghost_inv_same) (simp_all add: undo)
  next
    case undo_wins
    have "whead (dq s) < full_tail s"
      using e undo_wins by (auto simp: exc_inv_def simps split: if_splits)
    then have "live s = live t @ [slot s (full_tail s - 1)]" by (rule live_pops) (auto simp: undo_wins simps)
    with g show ?thesis by (rule ghost_inv_pop) (simp_all add: undo_wins)
  next
    case undo_asks
    have "live t = live s" by (rule live_cong) (auto simp: undo_asks simps)
    with g show ?thesis by (rule ghost_inv_same) (use g in \<open>simp_all add: undo_asks ghost_inv_def\<close>)
  next
    case check_lock
    have "live t = live s" by (rule live_cong) (auto simp: check_lock simps)
    with g show ?thesis by (rule ghost_inv_same) (use g in \<open>simp_all add: check_lock ghost_inv_def\<close>)
  next
    case check_reset
    have "live t = live s" by (rule live_cong) (auto simp: check_reset simps)
    with g show ?thesis by (rule ghost_inv_same) (use g in \<open>simp_all add: check_reset ghost_inv_def\<close>)
  next
    case check_kept
    have "whead (dq s) < full_tail s" using check_kept by (simp add: simps)
    then have "live s = live t @ [slot s (full_tail s - 1)]" by (rule live_pops) (auto simp: check_kept simps)
    with g show ?thesis by (rule ghost_inv_pop) (simp_all add: check_kept)
  next
    case check_lost
    have same: "live t = live s" by (rule live_cong) (auto simp: check_lost simps)
    have "live s = []" using check_lost by (simp add: live_Nil simps)
    with same g show ?thesis by (simp add: check_lost ghost_inv_def)
  next
    case (pop sf d)
    show ?thesis
    proof (cases "whead (dq s) < wtail (dq s)")
      case True
      then have sf: "sf \<noteq> NULL" using p pop by (auto simp: ptr_inv_def simps)
      have "whead (dq s) < full_tail s" using True pop by (simp add: simps)
      then have "live s = live t @ [slot s (full_tail s - 1)]" by (rule live_pops) (use pop sf True in \<open>auto simp: simps\<close>)
      with g show ?thesis by (rule ghost_inv_pop) (simp_all add: pop sf)
    next
      case False
      then have t: "t = s" using pop by (auto simp: simps)
      with g show ?thesis by simp
    qed
  next
    case (protect n)
    have "live t = live s" by (rule live_cong) (auto simp: protect simps)
    with g show ?thesis by (rule ghost_inv_same) (simp_all add: protect)
  next
    case (unprotect n)
    have "live t = live s" by (rule live_cong) (auto simp: unprotect simps)
    with g show ?thesis by (rule ghost_inv_same) (simp_all add: unprotect)
  next
    case (thief_lock i)
    have "live t = live s" by (rule live_cong) (auto simp: thief_lock simps)
    with g show ?thesis by (rule ghost_inv_same) (use g in \<open>simp_all add: thief_lock ghost_inv_def\<close>)
  next
    case thief_raise
    have "live t = live s" by (rule live_cong) (auto simp: thief_raise simps split: option.splits)
    with g show ?thesis by (rule ghost_inv_same) (use g in \<open>simp_all add: thief_raise ghost_inv_def\<close>)
  next
    case thief_test
    have "live t = live s" by (rule live_cong) (auto simp: thief_test simps)
    with g show ?thesis by (rule ghost_inv_same) (use g in \<open>simp_all add: thief_test ghost_inv_def\<close>)
  next
    case thief_back
    have "live t = live s" by (rule live_cong) (auto simp: thief_back simps split: option.splits)
    with g show ?thesis by (rule ghost_inv_same) (use g in \<open>simp_all add: thief_back ghost_inv_def\<close>)
  next
    case (thief_take sf d)
    have lt: "whead (dq s) < full_tail s" using p thief_take by (simp add: ptr_inv_def)
    have "live s = slot s (whead (dq s)) # live t"
      using live_hd [OF lt] thief_take by (auto simp: live_def simps)
    with g show ?thesis by (rule ghost_inv_take) (use g in \<open>simp_all add: thief_take ghost_inv_def\<close>)
  qed
qed

lemma the_inv_init: "the_inv the_init"
  by (simp add: the_inv_def the_init_def exc_inv_def wlock_inv_def ptr_inv_def ghost_inv_def full_tail_def live_def
      worker_locks.defs work_deque.defs)

lemma the_reachable_inv: "the_reachable s \<Longrightarrow> the_inv s"
proof (induction rule: the_reachable.induct)
  case start
  show ?case by (rule the_inv_init)
next
  case (more s t)
  then show ?case
    unfolding the_inv_def [of t] using exc_inv_step wlock_inv_step ptr_inv_step ghost_inv_step by blast
qed

subsection \<open>What the protocol guarantees\<close>

lemma the_accounts:
  assumes "the_reachable s"
  shows "distinct (popped s @ robbed s @ live s)" and "set (popped s @ robbed s @ live s) = {..< fresh s}"
  using the_reachable_inv [OF assms] by (simp_all add: the_inv_def ghost_inv_def)

lemma the_kept_not_robbed:
  assumes "the_inv s" and "whead (dq s) < full_tail s"
  shows "hd (outs s) \<notin> set (robbed s)"
proof -
  have "live s \<noteq> []" using assms(2) by (simp add: live_Nil)
  then obtain xs x where x: "live s = xs @ [x]" by (metis rev_exhaust)
  then have "hd (outs s) = x" "distinct (robbed s @ live s)"
    using assms(1) by (auto simp: the_inv_def ghost_inv_def)
  then show ?thesis using x by auto
qed

lemma the_verdict:
  assumes "the_inv s" and "own s = OReset"
  shows "stolen_p (dq s) \<longleftrightarrow> hd (outs s) \<in> set (robbed s)"
    and "stolen_p (dq s) \<Longrightarrow> whead (dq s) = wtail (dq s) + 1"
proof -
  have g: "ghost_inv s" and p: "ptr_inv s" using assms(1) by (simp_all add: the_inv_def)
  have ne: "outs s \<noteq> []" using g assms(2) by (simp add: ghost_inv_def)
  show "whead (dq s) = wtail (dq s) + 1" if "stolen_p (dq s)"
    using that p assms(2) by (simp add: stolen_p_def ptr_inv_def full_tail_def)
  have "hd (outs s) \<in> set (robbed s)" if "stolen_p (dq s)"
  proof -
    have "live s = []" using that assms(2) by (simp add: live_Nil full_tail_def stolen_p_def)
    with g ne show ?thesis by (auto simp: ghost_inv_def)
  qed
  moreover have "hd (outs s) \<notin> set (robbed s)" if "\<not> stolen_p (dq s)"
    using the_kept_not_robbed [OF assms(1)] that assms(2) by (simp add: stolen_p_def full_tail_def)
  ultimately show "stolen_p (dq s) \<longleftrightarrow> hd (outs s) \<in> set (robbed s)" by blast
qed

lemma the_win:
  assumes "the_inv s" and "own s = OCheck" and "\<not> tail_below_exc (dq s)"
  shows "hd (outs s) \<notin> set (robbed s)"
proof (rule the_kept_not_robbed [OF assms(1)])
  show "whead (dq s) < full_tail s"
    using assms by (auto simp: the_inv_def exc_inv_def full_tail_def tail_below_exc_def split: if_splits)
qed

lemma the_take:
  assumes "the_inv s" and "thf s = TGo"
  shows "take_head (dq s) \<noteq> None" and "\<exists>ns. live s = slot s (whead (dq s)) # ns" and "sorted_wrt (<) (live s)"
proof -
  have p: "ptr_inv s" and lt: "whead (dq s) < full_tail s" using assms by (simp_all add: the_inv_def ptr_inv_def)
  then have "ltq (dq s) (whead (dq s)) \<noteq> NULL" by (simp add: ptr_inv_def)
  then show "take_head (dq s) \<noteq> None" by (simp add: take_head_def)
  show "\<exists>ns. live s = slot s (whead (dq s)) # ns" using live_hd [OF lt] by blast
  show "sorted_wrt (<) (live s)" using assms(1) by (simp add: the_inv_def ghost_inv_def)
qed

text \<open>An example: the thief 7 has passed its test for the only frame, number 0, when the owner
  lowers the tail, finds E above it, waits for the lock and looks again.\<close>

definition the_demo :: "int \<Rightarrow> int \<Rightarrow> int \<Rightarrow> the_owner \<Rightarrow> the_thief \<Rightarrow> the_lock \<Rightarrow> nat \<Rightarrow> nat list \<Rightarrow> nat list \<Rightarrow> the_sys" where
  "the_demo h t e pc ph lk fr os rs =
     \<lparr>dq = worker_locks.extend init_locks (work_deque.fields t h (Some e) 1024 1024 ((\<lambda>_. NULL)(0 := 5))),
      own = pc, thf = ph, wlock = lk, slot = (\<lambda>_. 0), fresh = fr, outs = os, popped = [], robbed = rs\<rparr>"

lemmas the_demo_simps = the_demo_def the_init_def worker_locks.defs work_deque.defs deque_defs fun_upd_idem

lemma the_demo_go: "the_reachable (the_demo 0 1 1 OFree TGo (Thief 7) 1 [0] [])"
proof -
  have 1: "the_reachable (the_demo 0 0 0 OStored TNone Free 0 [] [])"
    using more [OF start store, of 5] by (simp add: the_demo_simps)
  have 2: "the_reachable (the_demo 0 1 0 OFree TNone Free 1 [0] [])"
    using more [OF 1 publish] by (simp add: the_demo_simps)
  have 3: "the_reachable (the_demo 0 1 0 OFree THold (Thief 7) 1 [0] [])"
    using more [OF 2 thief_lock, of 7] by (simp add: the_demo_simps)
  have 4: "the_reachable (the_demo 0 1 1 OFree TRaised (Thief 7) 1 [0] [])"
    using more [OF 3 thief_raise] by (simp add: the_demo_simps)
  show ?thesis using more [OF 4 thief_test] by (simp add: the_demo_simps)
qed

lemma the_demo_reset: "the_reachable (the_demo 1 0 1 OReset TNone Owner 1 [0] [0])"
proof -
  have 1: "the_reachable (the_demo 0 0 1 OCheck TGo (Thief 7) 1 [0] [])"
    using more [OF the_demo_go undo] by (simp add: the_demo_simps)
  have 2: "the_reachable (the_demo 0 0 1 ONeedLock TGo (Thief 7) 1 [0] [])"
    using more [OF 1 undo_asks] by (simp add: the_demo_simps)
  have 3: "the_reachable (the_demo 1 0 1 ONeedLock TNone Free 1 [0] [0])"
    using more [OF 2 thief_take] by (simp add: the_demo_simps)
  have 4: "the_reachable (the_demo 1 0 1 OLocked TNone Owner 1 [0] [0])"
    using more [OF 3 check_lock] by (simp add: the_demo_simps)
  show ?thesis using more [OF 4 check_reset] by (simp add: the_demo_simps)
qed

text \<open>C4 (the_each_frame_once): In every interleaving of the owner and its thieves, every frame pushed on the
  deque is in exactly one place: popped by the owner, taken by a thief, or still in the deque;
  none is lost and none is both returned to and stolen.\<close>

theorem the_each_frame_once:
  assumes "the_reachable s"
  shows "distinct (popped s @ robbed s @ live s) \<and> set (popped s @ robbed s @ live s) = {..< fresh s}"
  using the_accounts [OF assms] by blast

theorem the_each_frame_once_witness:
  "distinct (popped (the_demo 1 0 1 OReset TNone Owner 1 [0] [0]) @ robbed (the_demo 1 0 1 OReset TNone Owner 1 [0] [0])
     @ live (the_demo 1 0 1 OReset TNone Owner 1 [0] [0])) \<and> robbed (the_demo 1 0 1 OReset TNone Owner 1 [0] [0]) = [0]"
  using the_each_frame_once [OF the_demo_reset] by (simp add: the_demo_def)

text \<open>C19 (the_owner_verdict): The owner's decision is right: when \<open>undo_detach\<close> finds the tail not below E, the
  parent it returns to was not stolen; when \<open>__cilkrts_c_THE_exception_check\<close> decides under the
  lock, \<open>stolen_p\<close> holds exactly when the parent was stolen, and the deque is then empty once
  the tail is put back.\<close>

theorem the_owner_verdict:
  assumes "the_reachable s"
  shows "(own s = OCheck \<and> \<not> tail_below_exc (dq s) \<longrightarrow> hd (outs s) \<notin> set (robbed s)) \<and>
    (own s = OReset \<longrightarrow> (stolen_p (dq s) \<longleftrightarrow> hd (outs s) \<in> set (robbed s)) \<and>
       (stolen_p (dq s) \<longrightarrow> whead (dq s) = wtail (dq s) + 1))"
  using the_win the_verdict the_reachable_inv [OF assms] by blast

theorem the_owner_verdict_witness:
  "stolen_p (dq (the_demo 1 0 1 OReset TNone Owner 1 [0] [0]))"
  using the_owner_verdict [OF the_demo_reset] by (simp add: the_demo_def)

text \<open>When a thief's test has succeeded, whatever the owner does meanwhile, the slot
  at H holds a frame (the assertion of \<open>detach_for_steal\<close>), and it is the oldest one in the
  deque.\<close>

theorem the_thief_takes_oldest:
  assumes "the_reachable s" and "thf s = TGo"
  shows "take_head (dq s) \<noteq> None \<and> (\<exists>ns. live s = slot s (whead (dq s)) # ns) \<and> sorted_wrt (<) (live s)"
  using the_take [OF the_reachable_inv [OF assms(1)] assms(2)] by blast

theorem the_thief_takes_oldest_witness:
  "take_head (dq (the_demo 0 1 1 OFree TGo (Thief 7) 1 [0] [])) \<noteq> None"
  using the_thief_takes_oldest [OF the_demo_go] by (simp add: the_demo_def)

end
