(* ===== verification/Issue_Race.thy ===== *)
theory Issue_Race
  imports Prelude
begin

text \<open>
  The race between the return of a dataflow task and its issue. A task spawned on the fast
  path is announced in the field \<open>df_issue_child\<close> of its parent and is issued, that is entered
  in the task lists of its objects, only when the parent is stolen while it runs. Its worker,
  on return (\<open>__cilkrts_pop_frame_df\<close> of runtime/cilk-abi.c), cancels the announcement, or
  releases the task when it has been issued; the thief of the parent (\<open>detach_for_steal\<close> of
  runtime/scheduler.c) marks the announcement with its lowest bit, issues, and clears it. One
  step per access to the field, in any interleaving; afterwards the parent may run on
  elsewhere and announce other children.
\<close>

datatype issue_owner = ICas | IWait | IRelease | IReleased | ICancelled
datatype issue_thief = JTest | JOr | JIssue ptr | JCas ptr | JDone

record issue_sys =
  cell :: ptr
  iown :: issue_owner
  ithf :: issue_thief
  issued :: "ptr list"
  released :: nat

text \<open>\<open>compare_and_swap\<close> answers the old value; so does \<open>fetch_or_one\<close>.\<close>

definition compare_and_swap :: "ptr \<Rightarrow> ptr \<Rightarrow> ptr \<Rightarrow> ptr \<times> ptr" where
  "compare_and_swap v old new = (v, if v = old then new else v)"

definition fetch_or_one :: "ptr \<Rightarrow> ptr \<times> ptr" where
  "fetch_or_one v = (v, v OR 1)"

text \<open>What the returning task does after its compare-and-swap answered \<open>to_issue\<close>.\<close>

definition after_cancel :: "ptr \<Rightarrow> ptr \<Rightarrow> issue_owner" where
  "after_cancel sf to_issue =
     (if to_issue = sf then ICancelled else if to_issue AND NOT 1 = sf then IWait else IRelease)"

inductive issue_step :: "ptr \<Rightarrow> issue_sys \<Rightarrow> issue_sys \<Rightarrow> bool" for sf :: ptr where
  owner_cas: "iown s = ICas \<Longrightarrow> compare_and_swap (cell s) sf NULL = (old, v) \<Longrightarrow>
     issue_step sf s (s\<lparr>cell := v, iown := after_cancel sf old\<rparr>)"
| owner_wait: "iown s = IWait \<Longrightarrow>
     issue_step sf s (s\<lparr>iown := (if cell s = sf OR 1 then IWait else IRelease)\<rparr>)"
| owner_release: "iown s = IRelease \<Longrightarrow> issue_step sf s (s\<lparr>iown := IReleased, released := released s + 1\<rparr>)"
| thief_test: "ithf s = JTest \<Longrightarrow> issue_step sf s (s\<lparr>ithf := (if cell s \<noteq> NULL then JOr else JDone)\<rparr>)"
| thief_or: "ithf s = JOr \<Longrightarrow> fetch_or_one (cell s) = (old, v) \<Longrightarrow>
     issue_step sf s (s\<lparr>cell := v, ithf := (if old \<noteq> NULL then JIssue old else JDone)\<rparr>)"
| thief_issue: "ithf s = JIssue t \<Longrightarrow> issue_step sf s (s\<lparr>issued := t # issued s, ithf := JCas t\<rparr>)"
| thief_cas: "ithf s = JCas t \<Longrightarrow> compare_and_swap (cell s) (t OR 1) NULL = (old, v) \<Longrightarrow>
     issue_step sf s (s\<lparr>cell := v, ithf := JDone\<rparr>)"
| parent_goes_on: "ithf s = JDone \<Longrightarrow> x \<noteq> sf \<Longrightarrow> x \<noteq> sf OR 1 \<Longrightarrow> issue_step sf s (s\<lparr>cell := x\<rparr>)"

definition issue_init :: "ptr \<Rightarrow> issue_sys" where
  "issue_init sf = \<lparr>cell = sf, iown = ICas, ithf = JTest, issued = [], released = 0\<rparr>"

inductive issue_reachable :: "ptr \<Rightarrow> issue_sys \<Rightarrow> bool" for sf :: ptr where
  announced: "issue_reachable sf (issue_init sf)"
| issue_next: "issue_reachable sf s \<Longrightarrow> issue_step sf s t \<Longrightarrow> issue_reachable sf t"

text \<open>The address of a frame is even and not null.\<close>

definition frame_addr :: "ptr \<Rightarrow> bool" where
  "frame_addr sf \<longleftrightarrow> sf \<noteq> NULL \<and> sf AND 1 = 0"

lemma bit_parts: "v = (v AND NOT 1) OR (v AND 1)" "v AND 1 = 0 \<or> v AND 1 = 1" for v :: ptr
proof -
  show "v = (v AND NOT 1) OR (v AND 1)"
    by (metis bit.conj_disj_distrib bit.conj_one_right bit.disj_cancel_left)
  show "v AND 1 = 0 \<or> v AND 1 = 1" by (simp add: and_one_eq mod_2_eq_odd)
qed

lemma frame_addr_or_one:
  assumes "frame_addr sf"
  shows "sf OR 1 \<noteq> sf" and "(sf OR 1) AND NOT 1 = sf" and "sf OR 1 \<noteq> NULL" and "sf OR 1 \<noteq> 1" and "sf \<noteq> 1"
proof -
  have one: "(sf OR 1) AND 1 = 1" by (simp add: bit.conj_disj_distrib2)
  have even: "sf AND 1 = 0" "sf \<noteq> NULL" using assms by (simp_all add: frame_addr_def)
  show "sf OR 1 \<noteq> sf" using one even(1) by (metis zero_neq_one)
  show "sf OR 1 \<noteq> NULL" using one by (metis and_zero_eq bit.conj_zero_left zero_neq_one)
  have "sf AND NOT 1 = sf" using bit_parts(1) [of sf] even(1) by (metis bit.disj_zero_right)
  moreover have "(sf OR 1) AND NOT 1 = sf AND NOT 1"
    by (metis bit.conj_disj_distrib2 bit.conj_cancel_right bit.disj_zero_right)
  ultimately show a: "(sf OR 1) AND NOT 1 = sf" by simp
  show "sf OR 1 \<noteq> 1" using a even(2) by (metis bit.conj_cancel_right)
  show "sf \<noteq> 1" using even(1) by (metis and.idem zero_neq_one)
qed

lemma after_cancel_cases:
  assumes "frame_addr sf"
  shows "after_cancel sf v = (if v = sf then ICancelled else if v = sf OR 1 then IWait else IRelease)"
proof -
  have "v = sf \<or> v = sf OR 1" if "v AND NOT 1 = sf"
    using bit_parts [of v] that by (metis bit.disj_zero_right)
  then show ?thesis using frame_addr_or_one(2) [OF assms] by (auto simp: after_cancel_def)
qed

definition thief_active :: "ptr \<Rightarrow> issue_thief \<Rightarrow> bool" where
  "thief_active sf pc \<longleftrightarrow> pc = JIssue sf \<or> pc = JCas sf"

definition issue_inv :: "ptr \<Rightarrow> issue_sys \<Rightarrow> bool" where
  "issue_inv sf s \<longleftrightarrow>
     (\<forall>t. ithf s = JIssue t \<or> ithf s = JCas t \<longrightarrow> t = sf \<and> cell s = sf OR 1) \<and>
     (cell s = sf OR 1 \<longrightarrow> thief_active sf (ithf s)) \<and>
     (ithf s \<in> {JTest, JOr} \<longrightarrow> (iown s = ICas \<and> cell s = sf) \<or> (iown s = ICancelled \<and> cell s = NULL)) \<and>
     (ithf s = JDone \<longrightarrow> cell s \<noteq> sf) \<and>
     (iown s \<in> {IRelease, IReleased} \<longrightarrow> ithf s = JDone) \<and>
     (iown s = IWait \<longrightarrow> thief_active sf (ithf s) \<or> ithf s = JDone) \<and>
     (iown s = ICancelled \<longrightarrow> \<not> thief_active sf (ithf s)) \<and>
     issued s = (if iown s \<noteq> ICancelled \<and> (ithf s = JCas sf \<or> ithf s = JDone) then [sf] else []) \<and>
     released s = (if iown s = IReleased then 1 else 0)"

lemma issue_inv_init: "frame_addr sf \<Longrightarrow> issue_inv sf (issue_init sf)"
  using frame_addr_or_one [of sf] by (auto simp: issue_inv_def issue_init_def thief_active_def)

text \<open>The lowest bit out of the way: only these facts about addresses are used.\<close>

lemma issue_inv_step:
  assumes "frame_addr sf" and "issue_inv sf s" and "issue_step sf s t"
  shows "issue_inv sf t"
proof -
  obtain sf1 where sf1: "sf OR 1 = sf1" by blast
  have ne: "sf1 \<noteq> sf" "sf1 \<noteq> NULL" "sf1 \<noteq> 1" "sf \<noteq> 1" "sf \<noteq> NULL"
    using frame_addr_or_one [OF assms(1)] assms(1) by (simp_all add: sf1 frame_addr_def)
  have or: "fetch_or_one sf = (sf, sf1)" "fetch_or_one NULL = (NULL, 1)"
    by (simp_all add: fetch_or_one_def sf1)
  note inv = assms(2) [unfolded issue_inv_def sf1]
  from assms(3) show ?thesis
  proof cases
    case (owner_cas old v)
    then have t: "t = s\<lparr>cell := (if cell s = sf then NULL else cell s), iown :=
        (if cell s = sf then ICancelled else if cell s = sf1 then IWait else IRelease)\<rparr>"
      using after_cancel_cases [OF assms(1)] by (auto simp: compare_and_swap_def sf1)
    consider "cell s = sf" | "cell s = sf1" | "cell s \<noteq> sf" "cell s \<noteq> sf1" by blast
    then show "issue_inv sf t"
    proof cases
      case 1
      with inv ne owner_cas(2) show ?thesis by (cases "ithf s") (simp_all add: t thief_active_def issue_inv_def sf1)
    next
      case 2
      with inv ne owner_cas(2) show ?thesis by (cases "ithf s") (simp_all add: t thief_active_def issue_inv_def sf1)
    next
      case 3
      with inv ne owner_cas(2) show ?thesis by (cases "ithf s") (simp_all add: t thief_active_def issue_inv_def sf1)
    qed
  qed (use inv ne or in \<open>auto simp: compare_and_swap_def thief_active_def issue_inv_def sf1 split: if_splits\<close>)
qed

lemma issue_reachable_inv: "issue_reachable sf s \<Longrightarrow> frame_addr sf \<Longrightarrow> issue_inv sf s"
  by (induction rule: issue_reachable.induct) (auto intro: issue_inv_init issue_inv_step)

lemma issue_demo: "issue_reachable 16 \<lparr>cell = NULL, iown = IWait, ithf = JDone, issued = [16], released = 0\<rparr>"
proof -
  let ?s = "\<lambda>v pc ph os. \<lparr>cell = v, iown = pc, ithf = ph, issued = os, released = 0\<rparr>"
  have 1: "issue_reachable 16 (?s 16 ICas JOr [])"
    using issue_next [OF announced thief_test, of 16] by (simp add: issue_init_def)
  have 2: "issue_reachable 16 (?s 17 ICas (JIssue 16) [])"
    using issue_next [OF 1 thief_or, of 16 17] by (simp add: fetch_or_one_def)
  have 3: "issue_reachable 16 (?s 17 IWait (JIssue 16) [])"
    using issue_next [OF 2 owner_cas, of 17 17] by (simp add: compare_and_swap_def after_cancel_def)
  have 4: "issue_reachable 16 (?s 17 IWait (JCas 16) [16])"
    using issue_next [OF 3 thief_issue, of 16] by simp
  show ?thesis using issue_next [OF 4 thief_cas, of 16 17 0] by (simp add: compare_and_swap_def)
qed

lemma issue_demo_released: "issue_reachable 16 \<lparr>cell = NULL, iown = IReleased, ithf = JDone, issued = [16], released = 1\<rparr>"
proof -
  have 1: "issue_reachable 16 \<lparr>cell = NULL, iown = IRelease, ithf = JDone, issued = [16], released = 0\<rparr>"
    using issue_next [OF issue_demo owner_wait] by simp
  show ?thesis using issue_next [OF 1 owner_release] by simp
qed

text \<open>C10 (released_iff_issued): In every interleaving of a returning dataflow task with the thief of its parent, the
  thief issues at most this task and at most once; the task is released only after its issue has
  completed, and at most once; and a task that cancelled its announcement is never issued. So once
  both are done, it was issued and released, or neither.\<close>

theorem released_iff_issued:
  assumes "issue_reachable sf s" and "frame_addr sf"
  shows "(issued s = [] \<or> issued s = [sf]) \<and> released s \<le> 1 \<and>
    (iown s \<in> {IRelease, IReleased} \<longrightarrow> issued s = [sf] \<and> ithf s = JDone) \<and>
    (iown s = ICancelled \<longrightarrow> issued s = [] \<and> released s = 0 \<and> ithf s \<notin> {JIssue sf, JCas sf})"
  using issue_reachable_inv [OF assms]
  by (cases "iown s"; simp add: issue_inv_def thief_active_def split: if_splits)

theorem released_iff_issued_witness:
  "issue_reachable 16 \<lparr>cell = NULL, iown = IReleased, ithf = JDone, issued = [16], released = 1\<rparr> \<and> frame_addr 16 \<and>
   issued \<lparr>cell = NULL, iown = IReleased, ithf = JDone, issued = [16], released = 1\<rparr> = [16]"
  using released_iff_issued [OF issue_demo_released] issue_demo_released by (simp add: frame_addr_def)

text \<open>A returning task waits only while the thief is issuing it: as soon as the thief has
  cleared the field, whatever is announced there next, the wait is over.\<close>

theorem waiting_owner_goes_on:
  assumes "issue_reachable sf s" and "frame_addr sf" and "iown s = IWait"
  shows "ithf s \<in> {JIssue sf, JCas sf} \<or> issue_step sf s (s\<lparr>iown := IRelease\<rparr>)"
proof -
  have inv: "issue_inv sf s" by (rule issue_reachable_inv [OF assms(1,2)])
  show ?thesis
  proof (cases "ithf s \<in> {JIssue sf, JCas sf}")
    case False
    then have "cell s \<noteq> sf OR 1" using inv by (auto simp: issue_inv_def thief_active_def)
    with owner_wait [where sf = sf, OF assms(3)] show ?thesis by simp
  qed simp
qed

theorem waiting_owner_goes_on_witness:
  "issue_step 16 \<lparr>cell = NULL, iown = IWait, ithf = JDone, issued = [16], released = 0\<rparr>
     \<lparr>cell = NULL, iown = IRelease, ithf = JDone, issued = [16], released = 0\<rparr>"
  using waiting_owner_goes_on [OF issue_demo] by (simp add: frame_addr_def)

end
