(* ===== verification/Reducer_Map.thy ===== *)
theory Reducer_Map
  imports Frame_Malloc
begin

text \<open>
  Reducer maps (runtime/reducer_impl.cpp): the hash table from the address of a hyperobject to
  the view a strand has of it, and the merge of two of them. A bucket is the list of its
  elements before the terminating null key, with the capacity of its array; the table is a
  list of buckets, null ones as \<open>None\<close>. Views are addresses and their values are a function
  \<open>vals\<close>; the user's reduce function of the hyperobject at \<open>hb\<close> is the parameter \<open>rop hb\<close>, its
  identity \<open>rid hb\<close>. Sizes are those of memory that exists, so they are natural numbers here.
  Copying and freeing the arrays is not modelled beyond the capacities.
\<close>

record elem =
  el_key :: ptr
  el_hb :: ptr
  el_view :: ptr

record bucket =
  b_nmax :: nat
  b_els :: "elem list"

record cilkred_map =
  nelem :: nat
  buckets :: "bucket option list"
  merging :: bool
  rm_leftmost :: bool

datatype merge_kind = MERGE_UNORDERED | MERGE_INTO_LEFT | MERGE_INTO_RIGHT

subsection \<open>Sizes\<close>

definition sizeof_bucket :: "nat \<Rightarrow> nat" where
  "sizeof_bucket nmax = 32 + nmax * 24"

text \<open>\<open>__cilkrts_frame_malloc_roundup\<close> on natural numbers.\<close>

definition block_roundup :: "nat \<Rightarrow> nat" where
  "block_roundup sz =
     (if sz > 2048 then sz
      else case find (\<lambda>b. sz \<le> unat b) bucket_sizes of Some b \<Rightarrow> unat b | None \<Rightarrow> sz)"

definition roundup :: "nat \<Rightarrow> nat" where
  "roundup nmax = (block_roundup (sizeof_bucket nmax) - 32) div 24"

definition is_power_of_2 :: "64 word \<Rightarrow> bool" where
  "is_power_of_2 n \<longleftrightarrow> n AND (n - 1) = 0"

definition minsz :: "nat \<Rightarrow> nat" where "minsz n = 1 + n + n div 8"
definition nextsz :: "nat \<Rightarrow> nat" where "nextsz n = 2 * n"

subsection \<open>The table\<close>

definition nbuckets :: "cilkred_map \<Rightarrow> nat" where
  "nbuckets m = length (buckets m)"

definition hash_mix :: "ptr \<Rightarrow> ptr" where
  "hash_mix key =
     (let k1 = key XOR drop_bit 21 key;
          k2 = k1 XOR drop_bit 8 k1
      in k2 XOR drop_bit 3 k2)"

definition hashfun :: "nat \<Rightarrow> ptr \<Rightarrow> nat" where
  "hashfun nb key = unat (hash_mix key AND (of_nat nb - 1))"

definition bels :: "bucket option \<Rightarrow> elem list" where
  "bels b = (case b of None \<Rightarrow> [] | Some x \<Rightarrow> b_els x)"

definition elements :: "cilkred_map \<Rightarrow> elem list" where
  "elements m = concat (map bels (buckets m))"

definition need_rehash_p :: "cilkred_map \<Rightarrow> bool" where
  "need_rehash_p m \<longleftrightarrow> minsz (nelem m) > nbuckets m"

definition make_buckets :: "nat \<Rightarrow> cilkred_map \<Rightarrow> cilkred_map option" where
  "make_buckets n m =
     do { cilk_assert (is_power_of_2 (of_nat n));
          Some (m\<lparr>buckets := replicate n None, nelem := 0\<rparr>) }"

definition make_reducer_map :: "cilkred_map option" where
  "make_reducer_map =
     make_buckets 1 \<lparr>nelem = 0, buckets = [], merging = False, rm_leftmost = False\<rparr>"

text \<open>The bucket with room for one more element after its last one.\<close>

definition grow :: "bucket option \<Rightarrow> bucket" where
  "grow b =
     (case b of
        None \<Rightarrow> \<lparr>b_nmax = roundup 0, b_els = []\<rparr>
      | Some x \<Rightarrow> if length (b_els x) < b_nmax x then x
                  else \<lparr>b_nmax = roundup (2 * b_nmax x), b_els = b_els x\<rparr>)"

definition insert_no_rehash :: "ptr \<Rightarrow> ptr \<Rightarrow> ptr \<Rightarrow> cilkred_map \<Rightarrow> cilkred_map option" where
  "insert_no_rehash key hb view m =
     do { cilk_assert (key \<noteq> NULL);
          cilk_assert (view \<noteq> NULL);
          let i = hashfun (nbuckets m) key;
          let b = grow (buckets m ! i);
          Some (m\<lparr>buckets := (buckets m)[i := Some (b\<lparr>b_els := b_els b @ [\<lparr>el_key = key, el_hb = hb, el_view = view\<rparr>]\<rparr>)],
                  nelem := nelem m + 1\<rparr>) }"

fun insert_all :: "elem list \<Rightarrow> cilkred_map \<Rightarrow> cilkred_map option" where
  "insert_all [] m = Some m"
| "insert_all (e # es) m = do { m1 \<leftarrow> insert_no_rehash (el_key e) (el_hb e) (el_view e) m; insert_all es m1 }"

definition rehash :: "cilkred_map \<Rightarrow> cilkred_map option" where
  "rehash m =
     do { m1 \<leftarrow> make_buckets (nextsz (nbuckets m)) m;
          m2 \<leftarrow> insert_all (elements m) m1;
          cilk_assert (nelem m2 = nelem m);
          Some m2 }"

definition rehash_and_insert :: "ptr \<Rightarrow> ptr \<Rightarrow> ptr \<Rightarrow> cilkred_map \<Rightarrow> cilkred_map option" where
  "rehash_and_insert key hb view m =
     do { m1 \<leftarrow> (if need_rehash_p m then rehash m else Some m);
          insert_no_rehash key hb view m1 }"

text \<open>The outer \<open>option\<close> is the assertion that a stored view is not null.\<close>

definition lookup :: "ptr \<Rightarrow> cilkred_map \<Rightarrow> elem option option" where
  "lookup key m =
     (case find (\<lambda>e. el_key e = key) (bels (buckets m ! hashfun (nbuckets m) key)) of
        None \<Rightarrow> Some None
      | Some e \<Rightarrow> do { cilk_assert (el_view e \<noteq> NULL); Some (Some e) })"

text \<open>A pointer to an element is used to replace its view or to remove it.\<close>

definition upd_bucket :: "ptr \<Rightarrow> (elem list \<Rightarrow> elem list) \<Rightarrow> cilkred_map \<Rightarrow> cilkred_map" where
  "upd_bucket key f m =
     (let i = hashfun (nbuckets m) key
      in m\<lparr>buckets := (buckets m)[i := map_option (b_els_update f) (buckets m ! i)]\<rparr>)"

definition set_view :: "ptr \<Rightarrow> ptr \<Rightarrow> cilkred_map \<Rightarrow> cilkred_map" where
  "set_view key v = upd_bucket key (map (\<lambda>e. if el_key e = key then e\<lparr>el_view := v\<rparr> else e))"

fun remove_key :: "ptr \<Rightarrow> elem list \<Rightarrow> elem list" where
  "remove_key key [] = []"
| "remove_key key (e # es) = (if el_key e = key then es else e # remove_key key es)"

definition is_leftmost :: "elem \<Rightarrow> bool" where
  "is_leftmost e \<longleftrightarrow> el_key e = el_view e"

subsection \<open>Hyperobjects\<close>

text \<open>\<open>h\<close> is the worker's reducer map, \<open>key\<close> the address of the leftmost view. An error of the
  user, reported by \<open>__cilkrts_bug\<close> or \<open>cilkos_error\<close>, ends the process.\<close>

definition hyper_create :: "ptr \<Rightarrow> ptr \<Rightarrow> cilkred_map option \<Rightarrow> cilkred_map option" where
  "hyper_create hb key h =
     do { m \<leftarrow> (case h of None \<Rightarrow> make_reducer_map | Some m \<Rightarrow> Some m);
          el \<leftarrow> lookup key m;
          cilk_assert (el = None);
          cilk_assert (\<not> merging m);
          rehash_and_insert key hb key m }"

text \<open>\<open>rep\<close> is the memory that the reducer's allocate function answers.\<close>

definition hyper_lookup ::
  "(ptr \<Rightarrow> 'v) \<Rightarrow> ptr \<Rightarrow> ptr \<Rightarrow> ptr \<Rightarrow> cilkred_map option \<Rightarrow> (ptr \<Rightarrow> 'v) \<Rightarrow> (ptr \<times> cilkred_map \<times> (ptr \<Rightarrow> 'v)) option" where
  "hyper_lookup rid hb key rep h vals =
     do { m \<leftarrow> (case h of None \<Rightarrow> make_reducer_map | Some m \<Rightarrow> Some m);
          cilk_assert (\<not> merging m);
          el \<leftarrow> lookup key m;
          (case el of
             Some e \<Rightarrow> Some (el_view e, m, vals)
           | None \<Rightarrow>
               if rm_leftmost m then do { m1 \<leftarrow> rehash_and_insert key hb key m; Some (key, m1, vals) }
               else do { m1 \<leftarrow> rehash_and_insert key hb rep m; Some (rep, m1, vals(rep := rid hb)) }) }"

definition hyper_destroy :: "ptr \<Rightarrow> cilkred_map option \<Rightarrow> cilkred_map option" where
  "hyper_destroy key h =
     do { m \<leftarrow> h;
          cilk_assert (\<not> merging m);
          el \<leftarrow> lookup key m;
          e \<leftarrow> el;
          cilk_assert (is_leftmost e);
          Some (upd_bucket key (remove_key key) m\<lparr>nelem := nelem m - 1\<rparr>) }"

subsection \<open>Merging\<close>

definition merge_elem ::
  "(ptr \<Rightarrow> 'v \<Rightarrow> 'v \<Rightarrow> 'v) \<Rightarrow> merge_kind \<Rightarrow> elem \<Rightarrow> cilkred_map \<times> (ptr \<Rightarrow> 'v) \<Rightarrow> (cilkred_map \<times> (ptr \<Rightarrow> 'v)) option" where
  "merge_elem rop kind other_el mv =
     (case mv of (m, vals) \<Rightarrow>
     do { let other_view = el_view other_el;
          cilk_assert (other_view \<noteq> NULL);
          let key = el_key other_el;
          let hb = el_hb other_el;
          el0 \<leftarrow> lookup key m;
          (m1, this_view) \<leftarrow>
            (case el0 of
               Some e \<Rightarrow> Some (m, Some (el_view e))
             | None \<Rightarrow> if rm_leftmost m \<and> key \<noteq> other_view
                       then do { m' \<leftarrow> rehash_and_insert key hb key m; Some (m', Some key) }
                       else Some (m, None));
          (case this_view of
             None \<Rightarrow> do { m2 \<leftarrow> rehash_and_insert key hb other_view m1; Some (m2, vals) }
           | Some v \<Rightarrow>
               (case kind of
                  MERGE_UNORDERED \<Rightarrow> None
                | MERGE_INTO_LEFT \<Rightarrow> Some (m1, vals(v := rop hb (vals v) (vals other_view)))
                | MERGE_INTO_RIGHT \<Rightarrow>
                    Some (set_view key other_view m1,
                          vals(other_view := rop hb (vals other_view) (vals v))))) })"

fun merge_elems ::
  "(ptr \<Rightarrow> 'v \<Rightarrow> 'v \<Rightarrow> 'v) \<Rightarrow> merge_kind \<Rightarrow> elem list \<Rightarrow> cilkred_map \<times> (ptr \<Rightarrow> 'v) \<Rightarrow> (cilkred_map \<times> (ptr \<Rightarrow> 'v)) option" where
  "merge_elems rop kind [] mv = Some mv"
| "merge_elems rop kind (e # es) mv = do { mv1 \<leftarrow> merge_elem rop kind e mv; merge_elems rop kind es mv1 }"

definition merge ::
  "(ptr \<Rightarrow> 'v \<Rightarrow> 'v \<Rightarrow> 'v) \<Rightarrow> cilkred_map \<Rightarrow> merge_kind \<Rightarrow> cilkred_map \<Rightarrow> (ptr \<Rightarrow> 'v) \<Rightarrow> (cilkred_map \<times> (ptr \<Rightarrow> 'v)) option" where
  "merge rop other kind this vals =
     do { cilk_assert (\<not> rm_leftmost other);
          (m, vals') \<leftarrow> merge_elems rop kind (elements other) (this\<lparr>merging := True\<rparr>, vals);
          Some (m\<lparr>rm_leftmost := rm_leftmost m \<or> rm_leftmost other, merging := False\<rparr>, vals') }"

definition merge_reducer_maps ::
  "(ptr \<Rightarrow> 'v \<Rightarrow> 'v \<Rightarrow> 'v) \<Rightarrow> cilkred_map option \<Rightarrow> cilkred_map option \<Rightarrow> (ptr \<Rightarrow> 'v) \<Rightarrow>
   (cilkred_map option \<times> (ptr \<Rightarrow> 'v)) option" where
  "merge_reducer_maps rop left right vals =
     (case left of
        None \<Rightarrow> Some (right, vals)
      | Some l \<Rightarrow>
          (case right of
             None \<Rightarrow> Some (left, vals)
           | Some r \<Rightarrow>
               if rm_leftmost l \<or> nelem l > nelem r
               then do { (m, v) \<leftarrow> merge rop r MERGE_INTO_LEFT l vals; Some (Some m, v) }
               else do { (m, v) \<leftarrow> merge rop l MERGE_INTO_RIGHT r vals; Some (Some m, v) }))"

end
