(* ===== verification/Reducer_Map_Proofs.thy ===== *)
theory Reducer_Map_Proofs
  imports Reducer_Map "HOL-Library.Multiset"
begin

text \<open>
  Correctness of reducer maps: the table keeps every element in the bucket of its hash
  through insertions, growth and removal, a lookup finds exactly what was inserted, and merging
  two maps combines the views of each hyperobject in left-to-right order, whichever map is
  merged into which.
\<close>

subsection \<open>The hash function\<close>

lemma pow2_word: "n < 64 \<Longrightarrow> (of_nat (2 ^ n) :: 64 word) - 1 = mask n"
  by (simp add: mask_eq_exp_minus_1)

lemma hashfun_less: "n < 64 \<Longrightarrow> hashfun (2 ^ n) key < 2 ^ n"
proof -
  assume n: "n < 64"
  have "hashfun (2 ^ n) key = unat (take_bit n (hash_mix key))"
    unfolding hashfun_def pow2_word [OF n] take_bit_eq_mask ..
  then show ?thesis by (simp add: unsigned_take_bit_eq)
qed

lemma is_power_of_2_exp: "n < 64 \<Longrightarrow> is_power_of_2 (of_nat (2 ^ n))"
proof -
  assume n: "n < 64"
  have "(of_nat (2 ^ n) :: 64 word) AND mask n = take_bit n (2 ^ n)" by (simp add: take_bit_eq_mask)
  also have "\<dots> = 0" by (rule bit_eqI) (auto simp: bit_simps)
  finally show ?thesis unfolding is_power_of_2_def pow2_word [OF n] .
qed

subsection \<open>The invariant of a table\<close>

definition rm_inv :: "cilkred_map \<Rightarrow> bool" where
  "rm_inv m \<longleftrightarrow> (\<exists>n < 64. nbuckets m = 2 ^ n) \<and> nelem m = length (elements m) \<and>
     distinct (map el_key (elements m)) \<and>
     (\<forall>i < nbuckets m. \<forall>e \<in> set (bels (buckets m ! i)).
        el_key e \<noteq> NULL \<and> el_view e \<noteq> NULL \<and> hashfun (nbuckets m) (el_key e) = i)"

text \<open>Far fewer elements than the address space holds.\<close>

definition rm_small :: "nat \<Rightarrow> bool" where "rm_small n \<longleftrightarrow> n < 2 ^ 60"

lemma rm_inv_hash: "rm_inv m \<Longrightarrow> hashfun (nbuckets m) key < nbuckets m"
  using hashfun_less by (auto simp: rm_inv_def)

lemma elements_mem: "e \<in> set (elements m) \<longleftrightarrow> (\<exists>i < nbuckets m. e \<in> set (bels (buckets m ! i)))"
  by (auto simp: elements_def nbuckets_def set_conv_nth [of "buckets m"])

lemma rm_inv_elem: "rm_inv m \<Longrightarrow> e \<in> set (elements m) \<Longrightarrow> el_key e \<noteq> NULL \<and> el_view e \<noteq> NULL"
  by (auto simp: rm_inv_def elements_mem)

lemma find_key:
  assumes "distinct (map el_key es)"
  shows "find (\<lambda>e. el_key e = k) es = Some e \<longleftrightarrow> e \<in> set es \<and> el_key e = k"
    and "find (\<lambda>e. el_key e = k) es = None \<longleftrightarrow> k \<notin> el_key ` set es"
  using assms by (induction es) auto

lemma bucket_distinct: "rm_inv m \<Longrightarrow> i < nbuckets m \<Longrightarrow> distinct (map el_key (bels (buckets m ! i)))"
proof -
  assume "rm_inv m" and i: "i < nbuckets m"
  then have "distinct (concat (map (map el_key \<circ> bels) (buckets m)))"
    by (simp add: rm_inv_def elements_def map_concat)
  with i show ?thesis by (simp add: nbuckets_def distinct_concat_iff)
qed

lemma lookup_find:
  assumes "rm_inv m"
  shows "lookup k m = Some (find (\<lambda>e. el_key e = k) (elements m))"
proof -
  let ?i = "hashfun (nbuckets m) k"
  have i: "?i < nbuckets m" using assms by (rule rm_inv_hash)
  have d: "distinct (map el_key (elements m))" using assms by (simp add: rm_inv_def)
  have mem: "e \<in> set (elements m) \<longleftrightarrow> e \<in> set (bels (buckets m ! ?i))" if "el_key e = k" for e
    using assms that i by (auto simp: elements_mem rm_inv_def)
  show ?thesis
  proof (cases "find (\<lambda>e. el_key e = k) (bels (buckets m ! ?i))")
    case None
    then have "k \<notin> el_key ` set (elements m)"
      using find_key(2) [OF bucket_distinct [OF assms i]] mem by auto
    then have "find (\<lambda>e. el_key e = k) (elements m) = None" using find_key(2) [OF d] by blast
    then show ?thesis using None by (simp add: lookup_def)
  next
    case (Some e)
    then have e: "e \<in> set (bels (buckets m ! ?i))" "el_key e = k"
      using find_key(1) [OF bucket_distinct [OF assms i]] by auto
    then have "find (\<lambda>e. el_key e = k) (elements m) = Some e" using mem find_key(1) [OF d] by blast
    moreover have "el_view e \<noteq> NULL" using assms e i by (auto simp: rm_inv_def)
    ultimately show ?thesis using Some by (simp add: lookup_def)
  qed
qed

subsection \<open>Insertion and growth\<close>

lemma mset_concat_update:
  "i < length bs \<Longrightarrow> mset (concat (map f (bs[i := b]))) + mset (f (bs ! i)) = mset (concat (map f bs)) + mset (f b)"
proof (induction bs arbitrary: i)
  case Nil
  then show ?case by simp
next
  case (Cons a bs)
  show ?case
  proof (cases i)
    case 0
    then show ?thesis by simp
  next
    case (Suc j)
    then have "j < length bs" using Cons.prems by simp
    from Cons.IH [OF this] Suc show ?thesis by (simp add: union_assoc)
  qed
qed

lemma grow_els [simp]: "b_els (grow b) = bels b"
  by (simp add: grow_def bels_def split: option.split)

lemma rm_inv_update:
  assumes inv: "rm_inv m" and i: "i < nbuckets m"
    and m': "buckets m' = (buckets m)[i := Some b]" and "nelem m' = length (elements m')"
    and "distinct (map el_key (elements m'))"
    and "\<forall>e \<in> set (b_els b). el_key e \<noteq> NULL \<and> el_view e \<noteq> NULL \<and> hashfun (nbuckets m) (el_key e) = i"
  shows "rm_inv m'"
proof -
  have nb: "nbuckets m' = nbuckets m" by (simp add: nbuckets_def m')
  have "bels (buckets m' ! j) = (if j = i then b_els b else bels (buckets m ! j))" if "j < nbuckets m" for j
    using that i by (simp add: m' nbuckets_def bels_def)
  with assms show ?thesis unfolding rm_inv_def nb by simp
qed

lemma insert_no_rehash_inv:
  assumes inv: "rm_inv m" and "key \<noteq> NULL" and "view \<noteq> NULL" and new: "key \<notin> el_key ` set (elements m)"
  shows "\<exists>m'. insert_no_rehash key hb view m = Some m' \<and> rm_inv m' \<and> nbuckets m' = nbuckets m \<and>
    mset (elements m') = add_mset \<lparr>el_key = key, el_hb = hb, el_view = view\<rparr> (mset (elements m)) \<and>
    rm_leftmost m' = rm_leftmost m \<and> merging m' = merging m"
proof -
  let ?i = "hashfun (nbuckets m) key" and ?e = "\<lparr>el_key = key, el_hb = hb, el_view = view\<rparr>"
  let ?b = "grow (buckets m ! ?i)"
  let ?b' = "?b\<lparr>b_els := b_els ?b @ [?e]\<rparr>"
  let ?m' = "m\<lparr>buckets := (buckets m)[?i := Some ?b'], nelem := nelem m + 1\<rparr>"
  have i: "?i < nbuckets m" using inv by (rule rm_inv_hash)
  have els: "mset (elements ?m') = add_mset ?e (mset (elements m))"
    using mset_concat_update [of ?i "buckets m" bels "Some ?b'"] i
    by (simp add: elements_def nbuckets_def bels_def [of "Some _"])
  have "mset (map el_key (elements ?m')) = mset (key # map el_key (elements m))" using els by simp
  then have "distinct (map el_key (elements ?m'))"
    using inv new by (metis distinct.simps(2) image_set mset_eq_imp_distinct_iff rm_inv_def)
  moreover have "nelem ?m' = length (elements ?m')"
    using inv arg_cong [OF els, of size] by (simp add: rm_inv_def)
  moreover have "\<forall>e \<in> set (b_els ?b'). el_key e \<noteq> NULL \<and> el_view e \<noteq> NULL \<and> hashfun (nbuckets m) (el_key e) = ?i"
    using inv i assms(2,3) by (auto simp: rm_inv_def)
  ultimately have "rm_inv ?m'" by (intro rm_inv_update [OF inv i, of ?m' ?b']) simp_all
  then show ?thesis using els assms(2,3) by (auto simp: insert_no_rehash_def Let_def nbuckets_def)
qed

lemma insert_all_inv:
  "rm_inv m \<Longrightarrow> distinct (map el_key es) \<Longrightarrow> el_key ` set es \<inter> el_key ` set (elements m) = {} \<Longrightarrow>
   \<forall>e \<in> set es. el_key e \<noteq> NULL \<and> el_view e \<noteq> NULL \<Longrightarrow>
   \<exists>m'. insert_all es m = Some m' \<and> rm_inv m' \<and> nbuckets m' = nbuckets m \<and>
     mset (elements m') = mset es + mset (elements m) \<and> rm_leftmost m' = rm_leftmost m \<and> merging m' = merging m"
proof (induction es arbitrary: m)
  case Nil
  then show ?case by simp
next
  case (Cons e es)
  have "el_key e \<noteq> NULL" "el_view e \<noteq> NULL" "el_key e \<notin> el_key ` set (elements m)"
    using Cons.prems by auto
  from insert_no_rehash_inv [OF Cons.prems(1) this, of "el_hb e"] obtain m1 where
    m1: "insert_no_rehash (el_key e) (el_hb e) (el_view e) m = Some m1" "rm_inv m1" "nbuckets m1 = nbuckets m"
      "mset (elements m1) = add_mset e (mset (elements m))" "rm_leftmost m1 = rm_leftmost m" "merging m1 = merging m"
    by auto
  have s: "set (elements m1) = insert e (set (elements m))"
    using arg_cong [OF m1(4), of set_mset] by simp
  have "el_key ` set es \<inter> el_key ` set (elements m1) = {}" using Cons.prems(2,3) by (auto simp: s)
  from Cons.IH [OF m1(2) _ this] Cons.prems m1 show ?case by auto
qed

lemma elements_replicate: "buckets m = replicate n None \<Longrightarrow> elements m = []"
  by (simp add: elements_def bels_def)

lemma make_buckets_inv:
  assumes "n < 64"
  shows "\<exists>m'. make_buckets (2 ^ n) m = Some m' \<and> rm_inv m' \<and> nbuckets m' = 2 ^ n \<and> elements m' = [] \<and>
    rm_leftmost m' = rm_leftmost m \<and> merging m' = merging m"
proof -
  let ?m' = "m\<lparr>buckets := replicate (2 ^ n) None, nelem := 0\<rparr>"
  have "elements ?m' = []" by (rule elements_replicate) simp
  moreover from this have "rm_inv ?m'" using assms by (auto simp: rm_inv_def nbuckets_def bels_def)
  ultimately show ?thesis using is_power_of_2_exp [OF assms] by (simp add: make_buckets_def nbuckets_def)
qed

lemma make_reducer_map_inv:
  "\<exists>m. make_reducer_map = Some m \<and> rm_inv m \<and> elements m = [] \<and> \<not> rm_leftmost m \<and> \<not> merging m"
  using make_buckets_inv [of 0 "\<lparr>nelem = 0, buckets = [], merging = False, rm_leftmost = False\<rparr>"]
  by (auto simp: make_reducer_map_def)

lemma need_rehash_bound:
  assumes "need_rehash_p m" and "nbuckets m = 2 ^ n" and "rm_small (nelem m)"
  shows "Suc n < 64"
proof (rule ccontr)
  assume "\<not> Suc n < 64"
  then have "(2 :: nat) ^ 63 \<le> 2 ^ n" by (intro power_increasing) auto
  moreover have "2 ^ n < minsz (nelem m)" using assms(1,2) by (simp add: need_rehash_p_def)
  moreover have "minsz (nelem m) \<le> 2 ^ 62" using assms(3) by (simp add: minsz_def rm_small_def)
  ultimately show False by simp
qed

lemma rehash_inv:
  assumes inv: "rm_inv m" and "need_rehash_p m" and "rm_small (nelem m)"
  shows "\<exists>m'. rehash m = Some m' \<and> rm_inv m' \<and> mset (elements m') = mset (elements m) \<and>
    rm_leftmost m' = rm_leftmost m \<and> merging m' = merging m"
proof -
  from inv obtain n where n: "nbuckets m = 2 ^ n" by (auto simp: rm_inv_def)
  with assms have "Suc n < 64" using need_rehash_bound by blast
  from make_buckets_inv [OF this, of m] obtain m1 where
    m1: "make_buckets (nextsz (nbuckets m)) m = Some m1" "rm_inv m1" "elements m1 = []"
      "rm_leftmost m1 = rm_leftmost m" "merging m1 = merging m"
    by (auto simp: nextsz_def n)
  have d: "distinct (map el_key (elements m))" using inv by (simp add: rm_inv_def)
  have ok: "\<forall>e \<in> set (elements m). el_key e \<noteq> NULL \<and> el_view e \<noteq> NULL" using rm_inv_elem [OF inv] by blast
  from insert_all_inv [OF m1(2) d _ ok] m1(3) obtain m2 where
    m2: "insert_all (elements m) m1 = Some m2" "rm_inv m2" "mset (elements m2) = mset (elements m)"
      "rm_leftmost m2 = rm_leftmost m1" "merging m2 = merging m1" by auto
  have "nelem m2 = nelem m" using inv m2(2) arg_cong [OF m2(3), of size] by (simp add: rm_inv_def)
  with m1 m2 show ?thesis by (simp add: rehash_def)
qed

lemma rehash_and_insert_inv:
  assumes inv: "rm_inv m" and "rm_small (nelem m)" and "key \<noteq> NULL" and "view \<noteq> NULL" and new: "key \<notin> el_key ` set (elements m)"
  shows "\<exists>m'. rehash_and_insert key hb view m = Some m' \<and> rm_inv m' \<and>
    mset (elements m') = add_mset \<lparr>el_key = key, el_hb = hb, el_view = view\<rparr> (mset (elements m)) \<and>
    nelem m' = Suc (nelem m) \<and> rm_leftmost m' = rm_leftmost m \<and> merging m' = merging m"
proof -
  obtain m1 where m1: "(if need_rehash_p m then rehash m else Some m) = Some m1" "rm_inv m1"
      "mset (elements m1) = mset (elements m)" "rm_leftmost m1 = rm_leftmost m" "merging m1 = merging m"
    using rehash_inv [OF inv _ assms(2)] inv by (cases "need_rehash_p m") auto
  have "key \<notin> el_key ` set (elements m1)" using new mset_eq_setD [OF m1(3)] by simp
  from insert_no_rehash_inv [OF m1(2) assms(3,4) this, of hb] obtain m' where
    m': "insert_no_rehash key hb view m1 = Some m'" "rm_inv m'"
      "mset (elements m') = add_mset \<lparr>el_key = key, el_hb = hb, el_view = view\<rparr> (mset (elements m))"
      "rm_leftmost m' = rm_leftmost m" "merging m' = merging m"
    unfolding m1(3-5) by blast
  have "nelem m' = Suc (nelem m)" using inv m'(2) arg_cong [OF m'(3), of size] by (simp add: rm_inv_def)
  with m1(1) m' show ?thesis by (simp add: rehash_and_insert_def)
qed

lemma multiset_swap: "A + B = E + F \<Longrightarrow> F + X = B + N \<Longrightarrow> A + X = E + N" for A :: "'a multiset"
proof -
  assume 1: "A + B = E + F" and 2: "F + X = B + N"
  have "(A + X) + B = (A + B) + X" by (simp only: ac_simps)
  also have "\<dots> = E + (F + X)" by (simp only: 1 add.assoc)
  also have "\<dots> = (E + N) + B" by (simp only: 2 ac_simps)
  finally show ?thesis by simp
qed

lemma upd_bucket_inv:
  assumes inv: "rm_inv m" and mem: "e \<in> set (elements m)" "el_key e = key"
    and f: "mset (f (bels (buckets m ! hashfun (nbuckets m) key))) + {#e#} =
            mset (bels (buckets m ! hashfun (nbuckets m) key)) + mset new"
    and new: "\<forall>e' \<in> set new. el_key e' = key \<and> el_view e' \<noteq> NULL" and len: "length new \<le> 1"
  shows "mset (elements (upd_bucket key f m)) + {#e#} = mset (elements m) + mset new"
    and "n + 1 = nelem m + length new \<Longrightarrow> rm_inv (upd_bucket key f m\<lparr>nelem := n\<rparr>)"
proof -
  let ?i = "hashfun (nbuckets m) key"
  have i: "?i < nbuckets m" using inv by (rule rm_inv_hash)
  have e: "e \<in> set (bels (buckets m ! ?i))" using inv mem by (auto simp: rm_inv_def elements_mem)
  then obtain b where b: "buckets m ! ?i = Some b" by (cases "buckets m ! ?i") (auto simp: bels_def)
  let ?b = "b_els_update f b"
  have m': "buckets (upd_bucket key f m) = (buckets m)[?i := Some ?b]" by (simp add: upd_bucket_def Let_def b)
  have "mset (elements (upd_bucket key f m)) + mset (b_els b) = mset (elements m) + mset (f (b_els b))"
  proof -
    have "bels (buckets m ! ?i) = b_els b" "bels (Some ?b) = f (b_els b)" by (simp_all add: b bels_def)
    then show ?thesis
      using mset_concat_update [of ?i "buckets m" bels "Some ?b"] i
      unfolding elements_def m' by (simp add: nbuckets_def [symmetric])
  qed
  moreover have f': "mset (f (b_els b)) + {#e#} = mset (b_els b) + mset new" using f by (simp add: b bels_def)
  ultimately show els: "mset (elements (upd_bucket key f m)) + {#e#} = mset (elements m) + mset new"
    by (rule multiset_swap)
  show "rm_inv (upd_bucket key f m\<lparr>nelem := n\<rparr>)" if n: "n + 1 = nelem m + length new"
  proof (rule rm_inv_update [OF inv i, of _ ?b])
    let ?m' = "upd_bucket key f m\<lparr>nelem := n\<rparr>"
    have e': "elements ?m' = elements (upd_bucket key f m)" by (simp add: elements_def)
    show "buckets ?m' = (buckets m)[?i := Some ?b]" by (simp add: m')
    show "nelem ?m' = length (elements ?m')"
      using n inv arg_cong [OF els, of size] by (simp add: e' rm_inv_def)
    have "mset (elements (upd_bucket key f m)) = mset (new @ remove1 e (elements m))"
    proof -
      define R where "R = mset (remove1 e (elements m))"
      have "mset (elements m) = add_mset e R" using mem(1) by (simp add: R_def)
      then have "add_mset e (mset (elements (upd_bucket key f m))) = add_mset e (mset new + R)" using els by (simp add: ac_simps)
      then show ?thesis by (simp add: R_def del: mset_remove1)
    qed
    then have "mset (map el_key (elements ?m')) = mset (map el_key (new @ remove1 e (elements m)))"
      unfolding e' mset_map by simp
    moreover have "distinct (map el_key (new @ remove1 e (elements m)))"
    proof -
      have d: "distinct (map el_key (elements m))" using inv by (simp add: rm_inv_def)
      then have "key \<notin> el_key ` set (remove1 e (elements m))" "distinct (map el_key (remove1 e (elements m)))"
        using mem by (auto simp: distinct_map inj_on_def dest: notin_set_remove1)
      then show ?thesis using new len by (cases new) auto
    qed
    ultimately show "distinct (map el_key (elements ?m'))" by (metis mset_eq_imp_distinct_iff)
    have "set (f (b_els b)) \<subseteq> set (b_els b) \<union> set new" using arg_cong [OF f', of set_mset] by auto
    then show "\<forall>x \<in> set (b_els ?b). el_key x \<noteq> NULL \<and> el_view x \<noteq> NULL \<and> hashfun (nbuckets m) (el_key x) = ?i"
      using inv i b new rm_inv_elem [OF inv mem(1)] mem(2) by (auto simp: rm_inv_def bels_def) 
  qed
qed

subsection \<open>The table as a map from keys to views\<close>

definition kmap :: "cilkred_map \<Rightarrow> ptr \<Rightarrow> ptr option" where
  "kmap m k = map_option el_view (find (\<lambda>e. el_key e = k) (elements m))"

lemma kmap_Some: "rm_inv m \<Longrightarrow> kmap m k = Some v \<longleftrightarrow> (\<exists>e \<in> set (elements m). el_key e = k \<and> el_view e = v)"
  using find_key(1) [of "elements m" k] by (auto simp: rm_inv_def kmap_def)

lemma kmap_None: "rm_inv m \<Longrightarrow> kmap m k = None \<longleftrightarrow> k \<notin> el_key ` set (elements m)"
  using find_key(2) [of "elements m" k] by (auto simp: rm_inv_def kmap_def)

lemma kmap_eqI:
  assumes "rm_inv m" and "\<And>k v. f k = Some v \<longleftrightarrow> (\<exists>e \<in> set (elements m). el_key e = k \<and> el_view e = v)"
  shows "kmap m = f"
proof (rule ext)
  fix k
  have "kmap m k = Some v \<longleftrightarrow> f k = Some v" for v using kmap_Some [OF assms(1)] assms(2) by blast
  then show "kmap m k = f k" by (metis option.exhaust)
qed

lemma kmap_empty: "elements m = [] \<Longrightarrow> kmap m = Map.empty"
  by (simp add: kmap_def fun_eq_iff)

lemma kmap_insert:
  assumes "rm_inv m" and "rm_inv m'" and "key \<notin> el_key ` set (elements m)"
    and "mset (elements m') = add_mset \<lparr>el_key = key, el_hb = hb, el_view = view\<rparr> (mset (elements m))"
  shows "kmap m' = (kmap m)(key \<mapsto> view)"
proof (rule kmap_eqI [OF assms(2)])
  have s: "set (elements m') = insert \<lparr>el_key = key, el_hb = hb, el_view = view\<rparr> (set (elements m))"
    using arg_cong [OF assms(4), of set_mset] by simp
  show "((kmap m)(key \<mapsto> view)) k = Some v \<longleftrightarrow> (\<exists>e \<in> set (elements m'). el_key e = k \<and> el_view e = v)" for k v
    using kmap_Some [OF assms(1), of k v] assms(3) unfolding s by auto
qed

lemma kmap_replace:
  assumes "rm_inv m" and "rm_inv m'" and e: "e \<in> set (elements m)" "el_key e = key"
    and "mset (elements m') + {#e#} = mset (elements m) + mset new" and "\<forall>e' \<in> set new. el_key e' = key" and "length new \<le> 1"
  shows "kmap m' = (kmap m)(key := (case new of [] \<Rightarrow> None | e' # _ \<Rightarrow> Some (el_view e')))"
proof (rule kmap_eqI [OF assms(2)])
  have mm: "mset (elements m') = mset (new @ remove1 e (elements m))"
  proof -
    define R where "R = mset (remove1 e (elements m))"
    have "mset (elements m) = add_mset e R" using e by (simp add: R_def)
    then have "add_mset e (mset (elements m')) = add_mset e (mset new + R)" using assms(5) by (simp add: ac_simps)
    then show ?thesis by (simp add: R_def del: mset_remove1)
  qed
  have s: "set (elements m') = set new \<union> set (remove1 e (elements m))"
    using arg_cong [OF mm, of set_mset] by (simp del: mset_remove1)
  have d: "distinct (map el_key (elements m))" using assms(1) by (simp add: rm_inv_def)
  then have r: "set (remove1 e (elements m)) = {x \<in> set (elements m). el_key x \<noteq> key}"
    using e by (auto simp: distinct_map inj_on_def)
  show "((kmap m)(key := (case new of [] \<Rightarrow> None | e' # _ \<Rightarrow> Some (el_view e')))) k = Some v \<longleftrightarrow>
      (\<exists>e \<in> set (elements m'). el_key e = k \<and> el_view e = v)" for k v
    using kmap_Some [OF assms(1), of k v] assms(6,7) unfolding s r by (cases new) auto
qed

lemma lookup_kmap:
  assumes "rm_inv m"
  shows "\<exists>el. lookup k m = Some el \<and> map_option el_view el = kmap m k"
  using lookup_find [OF assms] by (simp add: kmap_def)

lemma rehash_and_insert_kmap:
  assumes "rm_inv m" and "rm_small (nelem m)" and "key \<noteq> NULL" and "view \<noteq> NULL" and "kmap m key = None"
  shows "\<exists>m'. rehash_and_insert key hb view m = Some m' \<and> rm_inv m' \<and> kmap m' = (kmap m)(key \<mapsto> view) \<and>
    nelem m' = Suc (nelem m) \<and> rm_leftmost m' = rm_leftmost m \<and> merging m' = merging m"
proof -
  have new: "key \<notin> el_key ` set (elements m)" using assms(1,5) by (simp add: kmap_None)
  from rehash_and_insert_inv [OF assms(1-4) new, of hb] kmap_insert [OF assms(1) _ new] show ?thesis by blast
qed

lemma bucket_element:
  assumes "rm_inv m" and "kmap m key = Some v"
  shows "\<exists>e. e \<in> set (elements m) \<and> el_key e = key \<and> el_view e = v \<and>
    e \<in> set (bels (buckets m ! hashfun (nbuckets m) key)) \<and>
    distinct (map el_key (bels (buckets m ! hashfun (nbuckets m) key)))"
proof -
  from kmap_Some [OF assms(1)] assms(2) obtain e where e: "e \<in> set (elements m)" "el_key e = key" "el_view e = v" by blast
  then have "e \<in> set (bels (buckets m ! hashfun (nbuckets m) key))" using assms(1) by (auto simp: rm_inv_def elements_mem)
  with e bucket_distinct [OF assms(1) rm_inv_hash [OF assms(1)]] show ?thesis by blast
qed

lemma mset_map_view:
  "e \<in> set es \<Longrightarrow> el_key e = k \<Longrightarrow> distinct (map el_key es) \<Longrightarrow>
   mset (map (\<lambda>e. if el_key e = k then e\<lparr>el_view := v\<rparr> else e) es) + {#e#} = mset es + mset [e\<lparr>el_view := v\<rparr>]"
proof (induction es)
  case Nil
  then show ?case by simp
next
  case (Cons a es)
  show ?case
  proof (cases "a = e")
    case True
    with Cons.prems have "map (\<lambda>e. if el_key e = k then e\<lparr>el_view := v\<rparr> else e) es = es"
      by (intro map_idI) (auto, metis image_eqI)
    then have "mset (map (\<lambda>e. if el_key e = k then e\<lparr>el_view := v\<rparr> else e) (a # es)) = add_mset (e\<lparr>el_view := v\<rparr>) (mset es)"
      using True Cons.prems(2) by simp
    then show ?thesis using True by simp
  next
    case False
    with Cons.prems have "el_key a \<noteq> k" "e \<in> set es" by auto
    with Cons show ?thesis by simp
  qed
qed

lemma mset_remove_key:
  "e \<in> set es \<Longrightarrow> el_key e = k \<Longrightarrow> distinct (map el_key es) \<Longrightarrow> mset (remove_key k es) + {#e#} = mset es + mset []"
  by (induction es) auto

lemma upd_bucket_sel [simp]: "nelem (upd_bucket k f m) = nelem m" "merging (upd_bucket k f m) = merging m"
  "rm_leftmost (upd_bucket k f m) = rm_leftmost m"
  by (simp_all add: upd_bucket_def Let_def)

lemma set_view_kmap:
  assumes "rm_inv m" and "kmap m key = Some v0" and "v \<noteq> NULL"
  shows "rm_inv (set_view key v m) \<and> kmap (set_view key v m) = (kmap m)(key \<mapsto> v)"
proof -
  from bucket_element [OF assms(1,2)] obtain e where e: "e \<in> set (elements m)" "el_key e = key"
      "e \<in> set (bels (buckets m ! hashfun (nbuckets m) key))"
      "distinct (map el_key (bels (buckets m ! hashfun (nbuckets m) key)))" by blast
  note u = upd_bucket_inv [where f = "map (\<lambda>e. if el_key e = key then e\<lparr>el_view := v\<rparr> else e)",
      OF assms(1) e(1,2) mset_map_view [OF e(3,2,4), of v], folded set_view_def]
  have "rm_inv (set_view key v m\<lparr>nelem := nelem m\<rparr>)" using u(2) [of "nelem m"] e(2) assms(3) by simp
  moreover have "set_view key v m\<lparr>nelem := nelem m\<rparr> = set_view key v m" by (simp add: set_view_def upd_bucket_def Let_def)
  ultimately have inv: "rm_inv (set_view key v m)" by simp
  with kmap_replace [OF assms(1) inv e(1,2) u(1)] e(2) assms(3) show ?thesis by simp
qed

lemma remove_key_kmap:
  assumes "rm_inv m" and "kmap m key = Some v0"
  shows "rm_inv (upd_bucket key (remove_key key) m\<lparr>nelem := nelem m - 1\<rparr>) \<and>
    kmap (upd_bucket key (remove_key key) m\<lparr>nelem := nelem m - 1\<rparr>) = (kmap m)(key := None)"
proof -
  let ?m = "upd_bucket key (remove_key key) m\<lparr>nelem := nelem m - 1\<rparr>"
  from bucket_element [OF assms] obtain e where e: "e \<in> set (elements m)" "el_key e = key"
      "e \<in> set (bels (buckets m ! hashfun (nbuckets m) key))"
      "distinct (map el_key (bels (buckets m ! hashfun (nbuckets m) key)))" by blast
  note u = upd_bucket_inv [where f = "remove_key key", OF assms(1) e(1,2) mset_remove_key [OF e(3,2,4)]]
  have "0 < nelem m" using e(1) assms(1) by (auto simp: rm_inv_def)
  then have inv: "rm_inv ?m" using u(2) [of "nelem m - 1"] by simp
  have "mset (elements ?m) + {#e#} = mset (elements m) + mset []" using u(1) by (simp add: elements_def)
  from kmap_replace [OF assms(1) inv e(1,2) this] inv show ?thesis by simp
qed

end
