(* ===== verification/Reducer_Merge.thy ===== *)
theory Reducer_Merge
  imports Reducer_Map_Proofs
begin

text \<open>
  Merging reducer maps combines views from left to right. The user's side of the contract is
  the locale \<open>reducer_monoid\<close>: the reduce function of every hyperobject is associative and its
  identity neutral. Then the value a map holds for a hyperobject, taking the identity where the
  map has no view yet, is a homomorphism for \<open>merge_reducer_maps\<close>, whichever map is merged into
  which.
\<close>

locale reducer_monoid =
  fixes rop :: "ptr \<Rightarrow> 'v \<Rightarrow> 'v \<Rightarrow> 'v"
    and rid :: "ptr \<Rightarrow> 'v"
  assumes rop_assoc: "rop hb (rop hb a b) c = rop hb a (rop hb b c)"
    and rop_left: "rop hb (rid hb) a = a"
    and rop_right: "rop hb a (rid hb) = a"

subsection \<open>What a map holds\<close>

text \<open>\<open>hbof\<close> is the hyperobject of a key. \<open>G\<close> are the hyperobjects whose initial view belongs to
  the leftmost strand although no map has an element for it (they were never registered, or before
  the runtime started): a map marked leftmost stands for those initial views.\<close>

definition held :: "ptr set \<Rightarrow> (ptr \<Rightarrow> 'v) \<Rightarrow> (ptr \<Rightarrow> ptr) \<Rightarrow> (ptr \<Rightarrow> 'v) \<Rightarrow> cilkred_map \<Rightarrow> ptr \<Rightarrow> 'v" where
  "held G rid hbof vals m k =
     (case kmap m k of Some v \<Rightarrow> vals v | None \<Rightarrow> if rm_leftmost m \<and> k \<in> G then vals k else rid (hbof k))"

definition held_opt :: "ptr set \<Rightarrow> (ptr \<Rightarrow> 'v) \<Rightarrow> (ptr \<Rightarrow> ptr) \<Rightarrow> (ptr \<Rightarrow> 'v) \<Rightarrow> cilkred_map option \<Rightarrow> ptr \<Rightarrow> 'v" where
  "held_opt G rid hbof vals h k = (case h of None \<Rightarrow> rid (hbof k) | Some m \<Rightarrow> held G rid hbof vals m k)"

text \<open>\<open>K\<close> are the addresses of hyperobjects: a view other than a leftmost one lies elsewhere, and no
  two keys share a view.\<close>

definition views_ok :: "ptr set \<Rightarrow> cilkred_map \<Rightarrow> bool" where
  "views_ok K m \<longleftrightarrow> NULL \<notin> K \<and> dom (kmap m) \<subseteq> K \<and> inj_on (kmap m) (dom (kmap m)) \<and>
     (\<forall>k v. kmap m k = Some v \<longrightarrow> v = k \<or> v \<notin> K)"

definition combine :: "(ptr \<Rightarrow> 'v \<Rightarrow> 'v \<Rightarrow> 'v) \<Rightarrow> merge_kind \<Rightarrow> ptr \<Rightarrow> 'v \<Rightarrow> 'v \<Rightarrow> 'v" where
  "combine rop kind hb this other = (if kind = MERGE_INTO_LEFT then rop hb this other else rop hb other this)"

text \<open>All elements of the other map.\<close>

definition mergeable_els :: "ptr set \<Rightarrow> ptr set \<Rightarrow> (ptr \<Rightarrow> ptr) \<Rightarrow> elem list \<Rightarrow> cilkred_map \<Rightarrow> bool" where
  "mergeable_els G K hbof es m \<longleftrightarrow> distinct (map el_key es) \<and> distinct (map el_view es) \<and>
     (\<forall>e \<in> set es. el_key e \<in> K \<and> el_hb e = hbof (el_key e) \<and> el_view e \<noteq> NULL \<and>
        (el_view e = el_key e \<or> el_view e \<notin> K) \<and> el_view e \<notin> ran (kmap m) \<and>
        (rm_leftmost m \<longrightarrow> (if el_view e = el_key e then el_key e \<notin> G
                           else kmap m (el_key e) = None \<longrightarrow> el_key e \<in> G)))"

lemma views_ok_insert:
  assumes "views_ok K m" and "k \<in> K" and "v = k \<or> v \<notin> K" and "v \<notin> ran (kmap m)" and "kmap m' = (kmap m)(k \<mapsto> v)"
  shows "views_ok K m'"
proof -
  have "kmap m x \<noteq> Some v" for x using assms(4) by (auto simp: ran_def)
  then show ?thesis using assms(1-3) unfolding views_ok_def assms(5)
    by (auto simp: inj_on_def split: if_splits)
qed

lemma views_ok_inj: "views_ok K m \<Longrightarrow> kmap m k = Some v \<Longrightarrow> kmap m k' = Some v \<Longrightarrow> k = k'"
  by (auto simp: views_ok_def inj_on_def dom_def)

subsection \<open>Every element keeps the hyperobject of its key\<close>

definition hbs_ok :: "(ptr \<Rightarrow> ptr) \<Rightarrow> elem list \<Rightarrow> bool" where
  "hbs_ok hbof es \<longleftrightarrow> (\<forall>e \<in> set es. el_hb e = hbof (el_key e))"

lemma elements_update:
  assumes "hbs_ok hbof (elements m)" and "i < nbuckets m \<Longrightarrow> hbs_ok hbof (bels (buckets m ! i)) \<Longrightarrow> hbs_ok hbof (bels b)"
    and "buckets m' = (buckets m)[i := b]"
  shows "hbs_ok hbof (elements m')"
proof (cases "i < nbuckets m")
  case True
  then have "buckets m ! i \<in> set (buckets m)" by (simp add: nbuckets_def)
  then have "hbs_ok hbof (bels (buckets m ! i))" using assms(1) by (auto simp: hbs_ok_def elements_def)
  then have "hbs_ok hbof (bels b)" using assms(2) True by simp
  moreover have "set (elements m') \<subseteq> set (elements m) \<union> set (bels b)"
    using set_update_subset_insert [of "buckets m" i b] assms(3) by (auto simp: elements_def)
  ultimately show ?thesis using assms(1) by (auto simp: hbs_ok_def)
next
  case False
  then have "buckets m' = buckets m" using assms(3) by (simp add: nbuckets_def list_update_beyond)
  then show ?thesis using assms(1) by (simp add: elements_def)
qed

lemma insert_no_rehash_hbs:
  assumes "insert_no_rehash key hb view m = Some m'" and "hbs_ok hbof (elements m)" and hb: "hb = hbof key"
  shows "hbs_ok hbof (elements m')"
proof (rule elements_update [OF assms(2)])
  let ?i = "hashfun (nbuckets m) key"
  let ?b = "grow (buckets m ! ?i)\<lparr>b_els := b_els (grow (buckets m ! ?i)) @ [\<lparr>el_key = key, el_hb = hbof key, el_view = view\<rparr>]\<rparr>"
  show "buckets m' = (buckets m)[?i := Some ?b]"
    using assms(1) hb by (auto simp: insert_no_rehash_def Let_def cilk_assert_def split: if_splits)
  show "hbs_ok hbof (bels (Some ?b))" if "hbs_ok hbof (bels (buckets m ! ?i))"
    using that by (auto simp: hbs_ok_def bels_def grow_def split: option.splits)
qed

lemma insert_all_hbs:
  "insert_all es m = Some m' \<Longrightarrow> hbs_ok hbof es \<Longrightarrow> hbs_ok hbof (elements m) \<Longrightarrow> hbs_ok hbof (elements m')"
proof (induction es arbitrary: m)
  case (Cons e es)
  from Cons.prems(1) obtain m1 where m1: "insert_no_rehash (el_key e) (el_hb e) (el_view e) m = Some m1"
    and m': "insert_all es m1 = Some m'" by (cases "insert_no_rehash (el_key e) (el_hb e) (el_view e) m") auto
  have "el_hb e = hbof (el_key e)" using Cons.prems(2) by (simp add: hbs_ok_def)
  with m1 Cons.prems(3) have "hbs_ok hbof (elements m1)" using insert_no_rehash_hbs by blast
  moreover have "hbs_ok hbof es" using Cons.prems(2) by (simp add: hbs_ok_def)
  ultimately show ?case using Cons.IH m' by blast
qed simp

lemma rehash_hbs:
  assumes "rehash m = Some m'" and "hbs_ok hbof (elements m)"
  shows "hbs_ok hbof (elements m')"
proof -
  from assms(1) obtain m1 where m1: "make_buckets (nextsz (nbuckets m)) m = Some m1" "insert_all (elements m) m1 = Some m'"
    by (auto simp: rehash_def bind_eq_Some_conv cilk_assert_def split: if_splits)
  from m1(1) have "buckets m1 = replicate (nextsz (nbuckets m)) None"
    by (auto simp: make_buckets_def cilk_assert_def split: if_splits)
  then have "hbs_ok hbof (elements m1)" using elements_replicate by (simp add: hbs_ok_def)
  with insert_all_hbs m1(2) assms(2) show ?thesis by blast
qed

lemma rehash_and_insert_hbs:
  assumes "rehash_and_insert key hb view m = Some m'" and "hbs_ok hbof (elements m)" and hb: "hb = hbof key"
  shows "hbs_ok hbof (elements m')"
proof -
  obtain m1 where m1: "(if need_rehash_p m then rehash m else Some m) = Some m1" "insert_no_rehash key hb view m1 = Some m'"
    using assms(1) by (auto simp: rehash_and_insert_def bind_eq_Some_conv)
  then have "hbs_ok hbof (elements m1)" using rehash_hbs assms(2) by (cases "need_rehash_p m") auto
  then show ?thesis using insert_no_rehash_hbs m1(2) hb by blast
qed

lemma set_view_hbs: "hbs_ok hbof (elements m) \<Longrightarrow> hbs_ok hbof (elements (set_view key v m))"
  by (rule elements_update [where i = "hashfun (nbuckets m) key"
        and b = "map_option (b_els_update (map (\<lambda>e. if el_key e = key then e\<lparr>el_view := v\<rparr> else e))) (buckets m ! hashfun (nbuckets m) key)"])
    (auto simp: set_view_def upd_bucket_def Let_def hbs_ok_def bels_def split: option.splits)

lemma merge_elem_hbs:
  assumes "merge_elem rop kind e (m, vals) = Some (m', vals')" and "hbs_ok hbof (elements m)" and "el_hb e = hbof (el_key e)"
  shows "hbs_ok hbof (elements m')"
proof -
  have ins: "hbs_ok hbof (elements m2)" if "rehash_and_insert (el_key e) (el_hb e) v m1 = Some m2" "hbs_ok hbof (elements m1)" for v m1 m2
    using that rehash_and_insert_hbs assms(3) by blast
  obtain el0 where el0: "lookup (el_key e) m = Some el0"
    using assms(1) by (auto simp: merge_elem_def Let_def bind_eq_Some_conv)
  show ?thesis
  proof (cases el0)
    case (Some e0)
    then show ?thesis using assms(1,2) el0 set_view_hbs
      by (auto simp: merge_elem_def Let_def bind_eq_Some_conv split: merge_kind.splits)
  next
    case None
    show ?thesis
    proof (cases "rm_leftmost m \<and> el_key e \<noteq> el_view e")
      case True
      then obtain m1 where m1: "rehash_and_insert (el_key e) (el_hb e) (el_key e) m = Some m1"
        using assms(1) el0 None by (auto simp: merge_elem_def Let_def bind_eq_Some_conv)
      then show ?thesis using assms(1) el0 None True ins [OF m1 assms(2)] set_view_hbs
        by (auto simp: merge_elem_def Let_def bind_eq_Some_conv split: merge_kind.splits)
    next
      case False
      then show ?thesis using assms(1,2) el0 None ins
        by (auto simp: merge_elem_def Let_def bind_eq_Some_conv)
    qed
  qed
qed

lemma merge_elems_hbs:
  "merge_elems rop kind es (m, vals) = Some (m', vals') \<Longrightarrow> hbs_ok hbof (elements m) \<Longrightarrow> hbs_ok hbof es \<Longrightarrow>
   hbs_ok hbof (elements m')"
proof (induction es arbitrary: m vals)
  case (Cons e es)
  from Cons.prems(1) obtain m1 vals1 where m1: "merge_elem rop kind e (m, vals) = Some (m1, vals1)"
    and m': "merge_elems rop kind es (m1, vals1) = Some (m', vals')" by (auto simp: bind_eq_Some_conv)
  have "hbs_ok hbof (elements m1)" using merge_elem_hbs [OF m1 Cons.prems(2)] Cons.prems(3) by (simp add: hbs_ok_def)
  with Cons.IH [OF m'] Cons.prems(3) show ?case by (simp add: hbs_ok_def)
qed simp

subsection \<open>Merging element by element\<close>

context reducer_monoid
begin

lemma combine_unit: "combine rop kind hb (rid hb) a = a"
  by (simp add: combine_def rop_left rop_right)

text \<open>One element of the other map.\<close>

lemma merge_elem_held:
  assumes inv: "rm_inv m" and small: "rm_small (nelem m)" "rm_small (Suc (nelem m))" and ok: "views_ok K m"
    and e: "el_key e = k" "k \<in> K" "el_hb e = hbof k" "el_view e = ov" "ov = k \<or> ov \<notin> K" "ov \<noteq> NULL" "ov \<notin> ran (kmap m)"
    and left: "rm_leftmost m \<longrightarrow> (if ov = k then k \<notin> G else kmap m k = None \<longrightarrow> k \<in> G)"
    and kind: "kind \<noteq> MERGE_UNORDERED"
  shows "\<exists>m' vals'. merge_elem rop kind e (m, vals) = Some (m', vals') \<and> rm_inv m' \<and> views_ok K m' \<and>
    nelem m' \<le> Suc (nelem m) \<and> rm_leftmost m' = rm_leftmost m \<and>
    ran (kmap m') \<subseteq> ran (kmap m) \<union> {k, ov} \<and> dom (kmap m) \<subseteq> dom (kmap m') \<and>
    (\<forall>x. x \<notin> ran (kmap m) \<union> {k, ov} \<longrightarrow> vals' x = vals x) \<and>
    (\<forall>k' \<in> K. held G rid hbof vals' m' k' =
       (if k' = k then combine rop kind (hbof k) (held G rid hbof vals m k) (vals ov) else held G rid hbof vals m k'))"
proof -
  have k0: "k \<noteq> NULL" using ok e(2) by (auto simp: views_ok_def)
  have ov: "kmap m x \<noteq> Some ov" for x using e(7) by (auto simp: ran_def)
  from lookup_kmap [OF inv, of k] obtain el where el: "lookup k m = Some el" "map_option el_view el = kmap m k" by blast
  text \<open>With a view in place the two kinds differ only in which view survives.\<close>
  have present: ?thesis
    if m1: "rm_inv m1" "views_ok K m1" "kmap m1 k = Some v" "rm_leftmost m1 = rm_leftmost m" "nelem m1 \<le> Suc (nelem m)"
      and run: "merge_elem rop kind e (m, vals) =
        (if kind = MERGE_INTO_LEFT then Some (m1, vals(v := rop (hbof k) (vals v) (vals ov)))
         else Some (set_view k ov m1, vals(ov := rop (hbof k) (vals ov) (vals v))))"
      and same: "\<And>k'. k' \<in> K \<Longrightarrow> held G rid hbof vals m1 k' = held G rid hbof vals m k'"
      and r: "ran (kmap m1) \<subseteq> ran (kmap m) \<union> {k}" "v \<in> ran (kmap m) \<union> {k}" "ov \<notin> ran (kmap m1)"
        "dom (kmap m) \<subseteq> dom (kmap m1)"
    for m1 v
  proof (cases "kind = MERGE_INTO_LEFT")
    case True
    let ?vals' = "vals(v := rop (hbof k) (vals v) (vals ov))"
    have upd: "held G rid hbof ?vals' m1 k' = (if k' = k then rop (hbof k) (held G rid hbof vals m1 k) (vals ov) else held G rid hbof vals m1 k')"
      if "k' \<in> K" for k'
    proof -
      have "v = k \<or> v \<notin> K" using m1(2,3) unfolding views_ok_def by blast
      moreover have "kmap m1 k' \<noteq> Some v" if "k' \<noteq> k" using views_ok_inj [OF m1(2,3), of k'] that by blast
      ultimately show ?thesis using that m1(3) by (cases "kmap m1 k'") (auto simp: held_def)
    qed
    show ?thesis
    proof (intro exI [of _ m1] exI [of _ ?vals'] conjI ballI allI impI)
      fix k' assume "k' \<in> K"
      then show "held G rid hbof ?vals' m1 k' =
          (if k' = k then combine rop kind (hbof k) (held G rid hbof vals m k) (vals ov) else held G rid hbof vals m k')"
        using upd [of k'] same [of k'] same [OF e(2)] True by (simp add: combine_def)
    qed (use True run m1 r e(2) in \<open>auto simp del: fun_upd_apply\<close>, use r e(2) in auto)
  next
    case False
    let ?vals' = "vals(ov := rop (hbof k) (vals ov) (vals v))"
    have sv: "rm_inv (set_view k ov m1)" "kmap (set_view k ov m1) = (kmap m1)(k \<mapsto> ov)"
      using set_view_kmap [OF m1(1,3) e(6)] by auto
    have lm: "rm_leftmost (set_view k ov m1) = rm_leftmost m" "nelem (set_view k ov m1) = nelem m1"
      using m1(4) by (simp_all add: set_view_def)
    have "views_ok K (set_view k ov m1)" using views_ok_insert [OF m1(2) e(2) _ r(3) sv(2)] e(5) by blast
    moreover have "held G rid hbof ?vals' (set_view k ov m1) k' =
        (if k' = k then rop (hbof k) (vals ov) (held G rid hbof vals m1 k) else held G rid hbof vals m1 k')" if "k' \<in> K" for k'
    proof -
      have "kmap m1 x \<noteq> Some ov" for x using r(3) by (auto simp: ran_def)
      then show ?thesis using that m1(3,4) sv(2) lm e(5) by (auto simp: held_def split: option.splits)
    qed
    moreover have "ran (kmap (set_view k ov m1)) \<subseteq> ran (kmap m) \<union> {k, ov}" using r(1) sv(2) by (auto simp: ran_def split: if_splits)
    ultimately have upd: "views_ok K (set_view k ov m1)" "ran (kmap (set_view k ov m1)) \<subseteq> ran (kmap m) \<union> {k, ov}"
      "\<And>k'. k' \<in> K \<Longrightarrow> held G rid hbof ?vals' (set_view k ov m1) k' =
        (if k' = k then rop (hbof k) (vals ov) (held G rid hbof vals m1 k) else held G rid hbof vals m1 k')" by blast+
    have d: "dom (kmap m) \<subseteq> dom (kmap (set_view k ov m1))" using r(4) sv(2) by auto
    show ?thesis
    proof (intro exI [of _ "set_view k ov m1"] exI [of _ ?vals'] conjI ballI allI impI)
      fix k' assume "k' \<in> K"
      then show "held G rid hbof ?vals' (set_view k ov m1) k' =
          (if k' = k then combine rop kind (hbof k) (held G rid hbof vals m k) (vals ov) else held G rid hbof vals m k')"
        using upd(3) [of k'] same [of k'] same [OF e(2)] False by (simp add: combine_def)
    qed (use False run upd sv(1) lm m1(5) d in auto)
  qed
  show ?thesis
  proof (cases "kmap m k")
    case (Some v)
    then obtain e0 where e0: "el = Some e0" "el_view e0 = v" using el by auto
    have "merge_elem rop kind e (m, vals) =
        (if kind = MERGE_INTO_LEFT then Some (m, vals(v := rop (hbof k) (vals v) (vals ov)))
         else Some (set_view k ov m, vals(ov := rop (hbof k) (vals ov) (vals v))))"
      using kind el(1) e e0 by (cases kind) (simp_all add: merge_elem_def)
    then show ?thesis by (rule present [OF inv ok Some refl le_SucI [OF le_refl]]) (use Some e(7) in \<open>auto simp: ran_def\<close>)
  next
    case None
    then have el0: "el = None" using el(2) by simp
    show ?thesis
    proof (cases "rm_leftmost m \<and> k \<noteq> ov")
      case True
      from rehash_and_insert_kmap [OF inv small(1) k0 k0 None, of "hbof k"] obtain m1 where
        m1: "rehash_and_insert k (hbof k) k m = Some m1" "rm_inv m1" "kmap m1 = (kmap m)(k \<mapsto> k)"
          "nelem m1 = Suc (nelem m)" "rm_leftmost m1 = rm_leftmost m" by blast
      have "kmap m a \<noteq> Some k" for a
      proof
        assume a: "kmap m a = Some k"
        then have "k = a" using ok e(2) unfolding views_ok_def by blast
        with a None show False by simp
      qed
      then have "k \<notin> ran (kmap m)" by (auto simp: ran_def)
      then have ok1: "views_ok K m1" using views_ok_insert [OF ok e(2) _ _ m1(3)] by blast
      have run: "merge_elem rop kind e (m, vals) =
          (if kind = MERGE_INTO_LEFT then Some (m1, vals(k := rop (hbof k) (vals k) (vals ov)))
           else Some (set_view k ov m1, vals(ov := rop (hbof k) (vals ov) (vals k))))"
        using kind el(1) el0 e m1(1) True by (cases kind) (simp_all add: merge_elem_def Let_def)
      have kk: "kmap m1 k = Some k" and n1: "nelem m1 \<le> Suc (nelem m)" using m1(3,4) by auto
      have same: "held G rid hbof vals m1 k' = held G rid hbof vals m k'" for k'
        using m1(3,5) None True left by (auto simp: held_def)
      have r1: "ran (kmap m1) \<subseteq> ran (kmap m) \<union> {k}" unfolding m1(3) by (auto simp: ran_def split: if_splits)
      have r3: "ov \<notin> ran (kmap m1)" using r1 e(7) True by blast
      have d: "dom (kmap m) \<subseteq> dom (kmap m1)" unfolding m1(3) by auto
      show ?thesis by (rule present [OF m1(2) ok1 kk m1(5) n1 run same r1 _ r3 d]) simp
    next
      case False
      from rehash_and_insert_kmap [OF inv small(1) k0 e(6) None, of "hbof k"] obtain m1 where
        m1: "rehash_and_insert k (hbof k) ov m = Some m1" "rm_inv m1" "kmap m1 = (kmap m)(k \<mapsto> ov)"
          "nelem m1 = Suc (nelem m)" "rm_leftmost m1 = rm_leftmost m" by blast
      have "merge_elem rop kind e (m, vals) = Some (m1, vals)"
        using el(1) el0 e(1,3,4,6) m1(1) False by (cases "rm_leftmost m") (simp_all add: merge_elem_def Let_def)
      moreover have "views_ok K m1" using views_ok_insert [OF ok e(2) _ e(7) m1(3)] e(5) by blast
      moreover have "held G rid hbof vals m1 k' = (if k' = k then combine rop kind (hbof k) (held G rid hbof vals m k) (vals ov)
          else held G rid hbof vals m k')" for k'
        using False None m1(3,5) left by (cases "rm_leftmost m") (simp_all add: held_def combine_unit)
      moreover have "ran (kmap m1) \<subseteq> ran (kmap m) \<union> {k, ov}" unfolding m1(3) by (auto simp: ran_def split: if_splits)
      moreover have "dom (kmap m) \<subseteq> dom (kmap m1)" unfolding m1(3) by auto
      ultimately show ?thesis using m1(2,4,5) by (intro exI [of _ m1] exI [of _ vals]) simp
    qed
  qed
qed

lemma merge_elems_held:
  assumes "rm_inv m" and "rm_small (nelem m + length es)" and "views_ok K m" and "mergeable_els G K hbof es m"
    and "kind \<noteq> MERGE_UNORDERED"
  shows "\<exists>m' vals'. merge_elems rop kind es (m, vals) = Some (m', vals') \<and> rm_inv m' \<and> views_ok K m' \<and>
    rm_leftmost m' = rm_leftmost m \<and>
    ran (kmap m') \<subseteq> ran (kmap m) \<union> el_key ` set es \<union> el_view ` set es \<and>
    (\<forall>x. x \<notin> ran (kmap m) \<union> el_key ` set es \<union> el_view ` set es \<longrightarrow> vals' x = vals x) \<and>
    (\<forall>k \<in> K. held G rid hbof vals' m' k =
       (case map_of (map (\<lambda>e. (el_key e, el_view e)) es) k of
          None \<Rightarrow> held G rid hbof vals m k
        | Some ov \<Rightarrow> combine rop kind (hbof k) (held G rid hbof vals m k) (vals ov)))"
  using assms
proof (induction es arbitrary: m vals)
  case Nil
  then show ?case by simp
next
  case (Cons e es)
  let ?k = "el_key e" and ?ov = "el_view e"
  have small: "rm_small (nelem m)" "rm_small (Suc (nelem m))" using Cons.prems(2) by (simp_all add: rm_small_def)
  have e: "?k \<in> K" "el_hb e = hbof ?k" "?ov = ?k \<or> ?ov \<notin> K" "?ov \<noteq> NULL" "?ov \<notin> ran (kmap m)"
    and left: "rm_leftmost m \<longrightarrow> (if ?ov = ?k then ?k \<notin> G else kmap m ?k = None \<longrightarrow> ?k \<in> G)"
    using Cons.prems(4) by (simp_all add: mergeable_els_def)
  from merge_elem_held [where e = e and k = "el_key e" and ov = "el_view e" and hbof = hbof and vals = vals, OF Cons.prems(1) small Cons.prems(3) refl e(1,2) refl e(3-5) left Cons.prems(5)]
  obtain m1 vals1 where run: "merge_elem rop kind e (m, vals) = Some (m1, vals1)"
    and m1: "rm_inv m1" "views_ok K m1" "nelem m1 \<le> Suc (nelem m)" "rm_leftmost m1 = rm_leftmost m"
    and r1: "ran (kmap m1) \<subseteq> ran (kmap m) \<union> {?k, ?ov}" "dom (kmap m) \<subseteq> dom (kmap m1)"
    and v1: "\<forall>x. x \<notin> ran (kmap m) \<union> {?k, ?ov} \<longrightarrow> vals1 x = vals x"
    and h1: "\<forall>k' \<in> K. held G rid hbof vals1 m1 k' =
       (if k' = ?k then combine rop kind (hbof ?k) (held G rid hbof vals m ?k) (vals ?ov) else held G rid hbof vals m k')"
    by (elim exE conjE) (rule that; assumption)
  have small1: "rm_small (nelem m1 + length es)" using m1(3) Cons.prems(2) by (simp add: rm_small_def)
  have fresh: "el_view e' \<notin> ran (kmap m) \<union> {?k, ?ov}" if "e' \<in> set es" for e'
  proof -
    have "el_view e' \<in> el_view ` set es" "el_key e' \<in> el_key ` set es" using that by auto
    moreover have "?ov \<notin> el_view ` set es" "?k \<notin> el_key ` set es" using Cons.prems(4) by (auto simp: mergeable_els_def)
    ultimately have "el_view e' \<noteq> ?ov" "el_key e' \<noteq> ?k" by metis+
    moreover have "el_view e' = el_key e' \<or> el_view e' \<notin> K" "el_view e' \<notin> ran (kmap m)"
      using Cons.prems(4) that by (auto simp: mergeable_els_def)
    ultimately show ?thesis using e(1) by auto
  qed
  have "mergeable_els G K hbof es m1"
    unfolding mergeable_els_def
  proof (intro conjI ballI)
    fix e' assume e': "e' \<in> set es"
    have old: "rm_leftmost m \<longrightarrow> (if el_view e' = el_key e' then el_key e' \<notin> G
        else kmap m (el_key e') = None \<longrightarrow> el_key e' \<in> G)"
      using Cons.prems(4) e' by (simp add: mergeable_els_def)
    show "el_view e' \<notin> ran (kmap m1)" using fresh [OF e'] r1(1) by blast
    show "rm_leftmost m1 \<longrightarrow> (if el_view e' = el_key e' then el_key e' \<notin> G
        else kmap m1 (el_key e') = None \<longrightarrow> el_key e' \<in> G)"
      using old r1(2) m1(4) by (auto simp: dom_def)
  qed (use Cons.prems(4) in \<open>auto simp: mergeable_els_def\<close>)
  from Cons.IH [OF m1(1) small1 m1(2) this Cons.prems(5), of vals1]
  obtain m2 vals2 where run2: "merge_elems rop kind es (m1, vals1) = Some (m2, vals2)"
    and m2: "rm_inv m2" "views_ok K m2" "rm_leftmost m2 = rm_leftmost m1"
    and r2: "ran (kmap m2) \<subseteq> ran (kmap m1) \<union> el_key ` set es \<union> el_view ` set es"
    and v2: "\<forall>x. x \<notin> ran (kmap m1) \<union> el_key ` set es \<union> el_view ` set es \<longrightarrow> vals2 x = vals1 x"
    and h2: "\<forall>k \<in> K. held G rid hbof vals2 m2 k =
       (case map_of (map (\<lambda>e. (el_key e, el_view e)) es) k of
          None \<Rightarrow> held G rid hbof vals1 m1 k
        | Some ov \<Rightarrow> combine rop kind (hbof k) (held G rid hbof vals1 m1 k) (vals1 ov))"
    by (elim exE conjE) (rule that; assumption)
  have "held G rid hbof vals2 m2 k =
       (case map_of (map (\<lambda>e. (el_key e, el_view e)) (e # es)) k of
          None \<Rightarrow> held G rid hbof vals m k
        | Some ov \<Rightarrow> combine rop kind (hbof k) (held G rid hbof vals m k) (vals ov))" if k: "k \<in> K" for k
  proof (cases "map_of (map (\<lambda>e. (el_key e, el_view e)) es) k")
    case None
    then show ?thesis using h1 h2 k by simp
  next
    case (Some ov)
    then obtain e' where e': "e' \<in> set es" "el_key e' = k" "el_view e' = ov" by (auto dest!: map_of_SomeD)
    moreover have "k \<noteq> ?k"
    proof -
      have "k \<in> el_key ` set es" using e' by auto
      moreover have "?k \<notin> el_key ` set es" using Cons.prems(4) by (auto simp: mergeable_els_def)
      ultimately show ?thesis by metis
    qed
    moreover have "vals1 ov = vals ov" using v1 fresh [OF e'(1)] e'(3) by simp
    ultimately show ?thesis using Some h1 h2 k by simp
  qed
  moreover have "vals2 x = vals x"
    if "x \<notin> ran (kmap m) \<union> el_key ` set (e # es) \<union> el_view ` set (e # es)" for x
  proof -
    have "x \<notin> ran (kmap m1) \<union> el_key ` set es \<union> el_view ` set es" "x \<notin> ran (kmap m) \<union> {?k, ?ov}"
      using that r1(1) by auto
    then show ?thesis using v1 v2 by simp
  qed
  moreover have "ran (kmap m2) \<subseteq> ran (kmap m) \<union> el_key ` set (e # es) \<union> el_view ` set (e # es)"
    using r1(1) r2 by auto
  ultimately show ?case using run run2 m2 m1(4) by simp
qed

end

subsection \<open>Merging maps\<close>

lemma kmap_map_of: "kmap m k = map_of (map (\<lambda>e. (el_key e, el_view e)) (elements m)) k"
proof -
  have "map_option el_view (find (\<lambda>e. el_key e = k) es) = map_of (map (\<lambda>e. (el_key e, el_view e)) es) k" for es
    by (induction es) auto
  then show ?thesis by (simp add: kmap_def)
qed

text \<open>What a map of the program satisfies.\<close>

definition map_ok :: "ptr set \<Rightarrow> (ptr \<Rightarrow> ptr) \<Rightarrow> cilkred_map \<Rightarrow> bool" where
  "map_ok K hbof m \<longleftrightarrow> rm_inv m \<and> views_ok K m \<and> hbs_ok hbof (elements m)"

text \<open>Two maps of strands whose views are not shared, the right one not the leftmost map; when the
  left one is, a view of a hyperobject it does not hold is either the initial view, moved from a
  strand that created the hyperobject, or the initial view is still the leftmost strand's.\<close>

definition mergeable :: "ptr set \<Rightarrow> ptr set \<Rightarrow> (ptr \<Rightarrow> ptr) \<Rightarrow> cilkred_map \<Rightarrow> cilkred_map \<Rightarrow> bool" where
  "mergeable G K hbof l r \<longleftrightarrow> map_ok K hbof l \<and> map_ok K hbof r \<and> rm_small (nelem l + nelem r) \<and>
     ran (kmap l) \<inter> ran (kmap r) = {} \<and> \<not> rm_leftmost r \<and>
     (rm_leftmost l \<longrightarrow> (\<forall>k v. kmap r k = Some v \<longrightarrow> (if v = k then k \<notin> G else kmap l k = None \<longrightarrow> k \<in> G)))"

lemma mergeable_elsI:
  assumes r: "map_ok K hbof r" and "ran (kmap l) \<inter> ran (kmap r) = {}"
    and "rm_leftmost l \<longrightarrow> (\<forall>k v. kmap r k = Some v \<longrightarrow> (if v = k then k \<notin> G else kmap l k = None \<longrightarrow> k \<in> G))"
  shows "mergeable_els G K hbof (elements r) l"
  unfolding mergeable_els_def
proof (intro conjI ballI)
  have inv: "rm_inv r" and ok: "views_ok K r" and hb: "hbs_ok hbof (elements r)" using r by (auto simp: map_ok_def)
  have km: "kmap r (el_key e) = Some (el_view e)" if "e \<in> set (elements r)" for e using that kmap_Some [OF inv] by blast
  show d: "distinct (map el_key (elements r))" using inv by (simp add: rm_inv_def)
  then have "inj_on el_key (set (elements r))" by (simp add: distinct_map)
  then have "inj_on el_view (set (elements r))"
    using km views_ok_inj [OF ok] unfolding inj_on_def by metis
  with d show "distinct (map el_view (elements r))" by (simp add: distinct_map)
  fix e assume e: "e \<in> set (elements r)"
  show "el_key e \<in> K" using km [OF e] ok by (auto simp: views_ok_def)
  show "el_hb e = hbof (el_key e)" using hb e by (simp add: hbs_ok_def)
  show "el_view e \<noteq> NULL" using rm_inv_elem [OF inv e] by simp
  show "el_view e = el_key e \<or> el_view e \<notin> K" using km [OF e] ok by (auto simp: views_ok_def)
  show "el_view e \<notin> ran (kmap l)" using km [OF e] assms(2) by (auto simp: ran_def)
  show "rm_leftmost l \<longrightarrow> (if el_view e = el_key e then el_key e \<notin> G else kmap l (el_key e) = None \<longrightarrow> el_key e \<in> G)"
    using km [OF e] assms(3) by auto
qed

lemma merging_sel [simp]: "kmap (m\<lparr>merging := b\<rparr>) = kmap m" "kmap (m\<lparr>rm_leftmost := c\<rparr>) = kmap m"
  "elements (m\<lparr>merging := b\<rparr>) = elements m" "elements (m\<lparr>rm_leftmost := c\<rparr>) = elements m"
  "rm_inv (m\<lparr>merging := b\<rparr>) = rm_inv m" "rm_inv (m\<lparr>rm_leftmost := c\<rparr>) = rm_inv m"
  by (simp_all add: kmap_def elements_def rm_inv_def nbuckets_def fun_eq_iff)

context reducer_monoid
begin

lemma merge_held:
  assumes tm: "map_ok K hbof m" and other: "map_ok K hbof o'" and small: "rm_small (nelem m + nelem o')"
    and left: "\<not> rm_leftmost o'" and els: "mergeable_els G K hbof (elements o') m" and kind: "kind \<noteq> MERGE_UNORDERED"
  shows "\<exists>m' vals'. merge rop o' kind m vals = Some (m', vals') \<and> map_ok K hbof m' \<and>
    rm_leftmost m' = rm_leftmost m \<and> \<not> merging m' \<and> ran (kmap m') \<subseteq> ran (kmap m) \<union> ran (kmap o') \<union> dom (kmap o') \<and>
    (\<forall>x. x \<notin> ran (kmap m) \<union> ran (kmap o') \<union> dom (kmap o') \<longrightarrow> vals' x = vals x) \<and>
    (\<forall>k \<in> K. held G rid hbof vals' m' k = combine rop kind (hbof k) (held G rid hbof vals m k) (held G rid hbof vals o' k))"
proof -
  let ?m = "m\<lparr>merging := True\<rparr>" and ?es = "elements o'"
  have inv: "rm_inv m" "views_ok K m" "rm_inv o'" and hb: "hbs_ok hbof (elements m)" "hbs_ok hbof ?es"
    using tm other by (auto simp: map_ok_def)
  have no: "nelem o' = length ?es" using inv(3) by (simp add: rm_inv_def)
  have pre: "rm_inv ?m" "rm_small (nelem ?m + length ?es)" "views_ok K ?m" "mergeable_els G K hbof ?es ?m"
    using inv small els no by (simp_all add: views_ok_def mergeable_els_def)
  from merge_elems_held [OF pre kind, of vals] obtain m1 vals1 where
    run: "merge_elems rop kind ?es (?m, vals) = Some (m1, vals1)" and m1: "rm_inv m1" "views_ok K m1" "rm_leftmost m1 = rm_leftmost ?m"
    and r: "ran (kmap m1) \<subseteq> ran (kmap ?m) \<union> el_key ` set ?es \<union> el_view ` set ?es"
    and v: "\<forall>x. x \<notin> ran (kmap ?m) \<union> el_key ` set ?es \<union> el_view ` set ?es \<longrightarrow> vals1 x = vals x"
    and h: "\<forall>k \<in> K. held G rid hbof vals1 m1 k =
       (case map_of (map (\<lambda>e. (el_key e, el_view e)) ?es) k of
          None \<Rightarrow> held G rid hbof vals ?m k
        | Some ov \<Rightarrow> combine rop kind (hbof k) (held G rid hbof vals ?m k) (vals ov))"
    by (elim exE conjE) (rule that; assumption)
  let ?m' = "m1\<lparr>rm_leftmost := rm_leftmost m, merging := False\<rparr>"
  have sets: "el_view ` set ?es \<subseteq> ran (kmap o')" "el_key ` set ?es \<subseteq> dom (kmap o')"
    using kmap_Some [OF inv(3)] by (force simp: ran_def dom_def)+
  have "hbs_ok hbof (elements m1)" using merge_elems_hbs [OF run _ hb(2)] hb(1) by simp
  then have ok: "map_ok K hbof ?m'" using m1 by (simp add: map_ok_def views_ok_def)
  have "merge rop o' kind m vals = Some (?m', vals1)" using run m1(3) left by (simp add: merge_def cilk_assert_def)
  moreover have "held G rid hbof vals1 ?m' k =
      combine rop kind (hbof k) (held G rid hbof vals m k) (held G rid hbof vals o' k)" if "k \<in> K" for k
  proof -
    have "held G rid hbof vals1 ?m' k = held G rid hbof vals1 m1 k" "held G rid hbof vals ?m k = held G rid hbof vals m k"
      using m1(3) by (auto simp: held_def split: option.split)
    moreover have "combine rop kind (hbof k) a (rid (hbof k)) = a" for a by (simp add: combine_def rop_left rop_right)
    ultimately show ?thesis using h that left by (simp add: held_def [of _ _ _ _ o'] kmap_map_of [of o'] split: option.splits)
  qed
  moreover have "ran (kmap ?m') \<subseteq> ran (kmap m) \<union> ran (kmap o') \<union> dom (kmap o')" using r sets unfolding merging_sel by blast
  moreover have "vals1 x = vals x" if "x \<notin> ran (kmap m) \<union> ran (kmap o') \<union> dom (kmap o')" for x
  proof -
    have "x \<notin> ran (kmap ?m) \<union> el_key ` set ?es \<union> el_view ` set ?es" using that sets unfolding merging_sel by blast
    then show ?thesis using v by blast
  qed
  ultimately show ?thesis using ok by (intro exI [of _ ?m'] exI [of _ vals1]) simp
qed

text \<open>Merging the right map into the left one, in whichever direction.\<close>

lemma merge_reducer_maps_held:
  assumes "mergeable G K hbof l r"
  shows "\<exists>m' vals'. merge_reducer_maps rop (Some l) (Some r) vals = Some (Some m', vals') \<and> map_ok K hbof m' \<and>
    rm_leftmost m' = rm_leftmost l \<and>
    (\<forall>k \<in> K. held G rid hbof vals' m' k = rop (hbof k) (held G rid hbof vals l k) (held G rid hbof vals r k))"
proof -
  have ok: "map_ok K hbof l" "map_ok K hbof r" and small: "rm_small (nelem l + nelem r)" "rm_small (nelem r + nelem l)"
    and dis: "ran (kmap l) \<inter> ran (kmap r) = {}" and nl: "\<not> rm_leftmost r"
    and left: "rm_leftmost l \<longrightarrow> (\<forall>k v. kmap r k = Some v \<longrightarrow> (if v = k then k \<notin> G else kmap l k = None \<longrightarrow> k \<in> G))"
    using assms by (simp_all add: mergeable_def add.commute)
  show ?thesis
  proof (cases "rm_leftmost l \<or> nelem l > nelem r")
    case True
    from merge_held [OF ok small(1) nl mergeable_elsI [OF ok(2) dis left], of MERGE_INTO_LEFT vals] True
    show ?thesis by (auto simp: merge_reducer_maps_def combine_def)
  next
    case False
    have "mergeable_els G K hbof (elements l) r" using mergeable_elsI [OF ok(1), of r G] dis nl by blast
    from merge_held [OF ok(2,1) small(2) _ this, of MERGE_INTO_RIGHT vals] False nl
    show ?thesis by (auto simp: merge_reducer_maps_def combine_def)
  qed
qed

end

end
