(* ===== verification/Reducer_Hyper.thy ===== *)
theory Reducer_Hyper
  imports Reducer_Merge
begin

text \<open>
  The operations on hyperobjects (runtime/reducer_impl.cpp): what create, lookup and destroy do
  to the map of a strand, their errors, the room in a bucket and the load of the table.
\<close>

subsection \<open>Room\<close>

lemma block_roundup_ge: "sz \<le> block_roundup sz"
proof (cases "find (\<lambda>b. sz \<le> unat b) bucket_sizes")
  case (Some b)
  then have "sz \<le> unat b" by (auto simp: find_Some_iff)
  with Some show ?thesis by (simp add: block_roundup_def)
qed (simp add: block_roundup_def)

lemma roundup_ge: "n \<le> roundup n"
proof -
  have "32 + n * 24 \<le> block_roundup (sizeof_bucket n)" using block_roundup_ge [of "sizeof_bucket n"] by (simp add: sizeof_bucket_def)
  then have "n * 24 \<le> block_roundup (sizeof_bucket n) - 32" by simp
  then have "n * 24 div 24 \<le> roundup n" unfolding roundup_def by (rule div_le_mono)
  then show ?thesis by simp
qed

lemma roundup_0: "0 < roundup 0"
  by (simp add: roundup_def sizeof_bucket_def block_roundup_def bucket_sizes_def)

definition bucket_fits :: "bucket \<Rightarrow> bool" where
  "bucket_fits b \<longleftrightarrow> length (b_els b) \<le> b_nmax b \<and> 0 < b_nmax b"

lemma grow_fits: "(\<And>x. b = Some x \<Longrightarrow> bucket_fits x) \<Longrightarrow> length (b_els (grow b)) < b_nmax (grow b)"
  using roundup_0 roundup_ge [of "2 * b_nmax (the b)"]
  by (cases b) (auto simp: grow_def bucket_fits_def)

definition table_fits :: "cilkred_map \<Rightarrow> bool" where
  "table_fits m \<longleftrightarrow> (\<forall>b. Some b \<in> set (buckets m) \<longrightarrow> bucket_fits b)"

lemma insert_no_rehash_fits:
  assumes "insert_no_rehash key hb view m = Some m'" and "table_fits m" and "hashfun (nbuckets m) key < nbuckets m"
  shows "table_fits m'"
proof -
  let ?i = "hashfun (nbuckets m) key"
  let ?b = "grow (buckets m ! ?i)\<lparr>b_els := b_els (grow (buckets m ! ?i)) @ [\<lparr>el_key = key, el_hb = hb, el_view = view\<rparr>]\<rparr>"
  have b': "buckets m' = (buckets m)[?i := Some ?b]"
    using assms(1) by (auto simp: insert_no_rehash_def Let_def cilk_assert_def split: if_splits)
  have "bucket_fits x" if "buckets m ! ?i = Some x" for x
    using assms(2,3) that nth_mem [of ?i "buckets m"] by (auto simp: table_fits_def nbuckets_def)
  then have "length (b_els (grow (buckets m ! ?i))) < b_nmax (grow (buckets m ! ?i))" by (rule grow_fits)
  then have "bucket_fits ?b" by (simp add: bucket_fits_def)
  moreover have "set (buckets m') \<subseteq> insert (Some ?b) (set (buckets m))"
    unfolding b' by (rule set_update_subset_insert)
  ultimately show ?thesis using assms(2) unfolding table_fits_def by blast
qed

subsection \<open>Load\<close>

lemma minsz_double: "0 < n \<Longrightarrow> n \<le> nb \<Longrightarrow> minsz n \<le> nextsz nb"
  by (simp add: minsz_def nextsz_def)

lemma insert_no_rehash_count:
  "insert_no_rehash key hb view m = Some m' \<Longrightarrow> nelem m' = Suc (nelem m) \<and> nbuckets m' = nbuckets m"
  by (auto simp: insert_no_rehash_def Let_def cilk_assert_def nbuckets_def split: if_splits)

lemma insert_all_count: "insert_all es m = Some m' \<Longrightarrow> nbuckets m' = nbuckets m"
proof (induction es arbitrary: m)
  case (Cons e es)
  then show ?case using insert_no_rehash_count by (fastforce simp: bind_eq_Some_conv)
qed simp

lemma rehash_count: "rehash m = Some m' \<Longrightarrow> nelem m' = nelem m \<and> nbuckets m' = nextsz (nbuckets m)"
proof -
  assume "rehash m = Some m'"
  then obtain m1 where m1: "make_buckets (nextsz (nbuckets m)) m = Some m1" "insert_all (elements m) m1 = Some m'" "nelem m' = nelem m"
    by (auto simp: rehash_def bind_eq_Some_conv cilk_assert_def split: if_splits)
  then have "nbuckets m1 = nextsz (nbuckets m)"
    by (auto simp: make_buckets_def cilk_assert_def nbuckets_def split: if_splits)
  with m1 insert_all_count show ?thesis by simp
qed

lemma insert_all_fits:
  "insert_all es m = Some m' \<Longrightarrow> table_fits m \<Longrightarrow> n < 64 \<Longrightarrow> nbuckets m = 2 ^ n \<Longrightarrow> table_fits m'"
proof (induction es arbitrary: m)
  case (Cons e es)
  from Cons.prems(1) obtain m1 where m1: "insert_no_rehash (el_key e) (el_hb e) (el_view e) m = Some m1" "insert_all es m1 = Some m'"
    by (auto simp: bind_eq_Some_conv)
  have "table_fits m1" using insert_no_rehash_fits [OF m1(1) Cons.prems(2)] hashfun_less [OF Cons.prems(3)] Cons.prems(4) by simp
  then show ?case using Cons.IH [OF m1(2)] insert_no_rehash_count [OF m1(1)] Cons.prems(3,4) by simp
qed simp

lemma rehash_fits: "rehash m = Some m' \<Longrightarrow> Suc n < 64 \<Longrightarrow> nbuckets m = 2 ^ n \<Longrightarrow> table_fits m'"
proof -
  assume "rehash m = Some m'" and n: "Suc n < 64" "nbuckets m = 2 ^ n"
  then obtain m1 where m1: "make_buckets (nextsz (nbuckets m)) m = Some m1" "insert_all (elements m) m1 = Some m'"
    by (auto simp: rehash_def bind_eq_Some_conv cilk_assert_def split: if_splits)
  then have "buckets m1 = replicate (2 ^ Suc n) None"
    using n(2) by (auto simp: make_buckets_def cilk_assert_def nextsz_def split: if_splits)
  then have "table_fits m1" "nbuckets m1 = 2 ^ Suc n" by (simp_all add: table_fits_def nbuckets_def)
  then show ?thesis using insert_all_fits [OF m1(2)] n(1) by blast
qed

subsection \<open>A failed assertion, or an error of the user\<close>

lemma insert_fails: "insert_no_rehash key hb view m = None \<longleftrightarrow> key = NULL \<or> view = NULL"
  by (simp add: insert_no_rehash_def Let_def cilk_assert_def)

lemma lookup_no_fail: "rm_inv m \<Longrightarrow> lookup k m \<noteq> None"
  using lookup_find by simp

lemma lookup_view: "rm_inv m \<Longrightarrow> kmap m k = Some v \<Longrightarrow> \<exists>e. lookup k m = Some (Some e) \<and> el_key e = k \<and> el_view e = v"
  using lookup_find [of m k] by (auto simp: kmap_def find_Some_iff)

lemma lookup_absent: "rm_inv m \<Longrightarrow> kmap m k = None \<Longrightarrow> lookup k m = Some None"
  using lookup_find [of m k] by (auto simp: kmap_def)

lemma new_map: "rm_inv (the make_reducer_map)" "rm_small (nelem (the make_reducer_map))"
  "kmap (the make_reducer_map) = Map.empty" "\<not> merging (the make_reducer_map)" "table_fits (the make_reducer_map)"
proof -
  obtain m where m: "make_reducer_map = Some m" "rm_inv m" "elements m = []" "\<not> merging m" using make_reducer_map_inv by blast
  have e: "the make_reducer_map = m" by (simp add: m(1))
  have "nelem m = 0" using m(2,3) by (simp add: rm_inv_def)
  then show "rm_inv (the make_reducer_map)" "rm_small (nelem (the make_reducer_map))"
    "kmap (the make_reducer_map) = Map.empty" "\<not> merging (the make_reducer_map)"
    unfolding e using m(2-4) by (simp_all add: rm_small_def kmap_empty)
  show "table_fits (the make_reducer_map)"
    by (simp add: table_fits_def make_reducer_map_def make_buckets_def cilk_assert_def is_power_of_2_def)
qed

subsection \<open>Properties of hyperobjects\<close>

text \<open>inserting into a reducer map keeps at most one element per
  bucket on average: one doubling of the table is always enough.\<close>

theorem load_factor_at_most_one:
  assumes "rehash_and_insert key hb view m = Some m'" and "nelem m \<le> nbuckets m" and "0 < nbuckets m"
  shows "nelem m' \<le> nbuckets m'"
proof -
  obtain m1 where m1: "(if need_rehash_p m then rehash m else Some m) = Some m1" "insert_no_rehash key hb view m1 = Some m'"
    using assms(1) by (auto simp: rehash_and_insert_def bind_eq_Some_conv)
  have "minsz (nelem m) \<le> nbuckets m1 \<and> nelem m1 = nelem m"
  proof (cases "need_rehash_p m")
    case True
    then have "0 < nelem m" using assms(3) by (auto simp: need_rehash_p_def minsz_def)
    then have "minsz (nelem m) \<le> nextsz (nbuckets m)" using minsz_double assms(2) by blast
    then show ?thesis using True m1(1) rehash_count [of m m1] by simp
  next
    case False
    then show ?thesis using m1(1) by (simp add: need_rehash_p_def)
  qed
  then show ?thesis using insert_no_rehash_count [OF m1(2)] by (simp add: minsz_def)
qed

theorem load_factor_at_most_one_witness:
  "nelem (the (make_reducer_map \<bind> rehash_and_insert 64 64 64 \<bind> rehash_and_insert 128 128 128)) \<le>
   nbuckets (the (make_reducer_map \<bind> rehash_and_insert 64 64 64 \<bind> rehash_and_insert 128 128 128))"
proof (rule load_factor_at_most_one)
  show "rehash_and_insert 128 128 128 (the (make_reducer_map \<bind> rehash_and_insert 64 64 64)) =
      Some (the (make_reducer_map \<bind> rehash_and_insert 64 64 64 \<bind> rehash_and_insert 128 128 128))" by code_simp
  show "nelem (the (make_reducer_map \<bind> rehash_and_insert 64 64 64)) \<le> nbuckets (the (make_reducer_map \<bind> rehash_and_insert 64 64 64))"
    by code_simp
  show "0 < nbuckets (the (make_reducer_map \<bind> rehash_and_insert 64 64 64))" by code_simp
qed

text \<open>inserting into a reducer map never writes behind a bucket's
  array, its terminating null element included: every bucket keeps at most \<open>nmax\<close> elements.\<close>

theorem bucket_never_overflows:
  assumes "rehash_and_insert key hb view m = Some m'" and "rm_inv m" and "rm_small (nelem m)" and "table_fits m"
  shows "table_fits m'"
proof -
  from assms(2) obtain n where n: "n < 64" "nbuckets m = 2 ^ n" by (auto simp: rm_inv_def)
  obtain m1 where m1: "(if need_rehash_p m then rehash m else Some m) = Some m1" "insert_no_rehash key hb view m1 = Some m'"
    using assms(1) by (auto simp: rehash_and_insert_def bind_eq_Some_conv)
  have "table_fits m1 \<and> (\<exists>n < 64. nbuckets m1 = 2 ^ n)"
  proof (cases "need_rehash_p m")
    case True
    then have "Suc n < 64" using need_rehash_bound n(2) assms(3) by blast
    then show ?thesis using True m1(1) rehash_fits [of m m1 n] rehash_count [of m m1] n(2)
      by (auto simp: nextsz_def intro!: exI [of _ "Suc n"])
  next
    case False
    then show ?thesis using m1(1) assms(4) n by auto
  qed
  then show ?thesis using insert_no_rehash_fits [OF m1(2)] hashfun_less by metis
qed

theorem bucket_never_overflows_witness:
  "table_fits (the (rehash_and_insert 64 64 64 (the make_reducer_map)))"
proof (rule bucket_never_overflows)
  show "rehash_and_insert 64 64 64 (the make_reducer_map) = Some (the (rehash_and_insert 64 64 64 (the make_reducer_map)))"
    by code_simp
qed (rule new_map)+

text \<open>C31 (hyperobject_round_trip): a hyperobject that is created, looked up and destroyed in a
  strand yields its leftmost view and leaves every other view of the strand's map as it was.\<close>

theorem hyperobject_round_trip:
  assumes "rm_inv m" and "rm_small (nelem m)" and "kmap m key = None" and "\<not> merging m" and "key \<noteq> NULL"
  shows "\<exists>m1 m2. hyper_create hb key (Some m) = Some m1 \<and>
    hyper_lookup rid hb key rep (Some m1) vals = Some (key, m1, vals) \<and>
    hyper_destroy key (Some m1) = Some m2 \<and> rm_inv m2 \<and> kmap m2 = kmap m"
proof -
  from rehash_and_insert_kmap [OF assms(1,2,5,5,3), of hb] obtain m1 where
    m1: "rehash_and_insert key hb key m = Some m1" "rm_inv m1" "kmap m1 = (kmap m)(key \<mapsto> key)" "merging m1 = merging m" by blast
  obtain e where e: "lookup key m1 = Some (Some e)" "el_key e = key" "el_view e = key" using lookup_view [OF m1(2), of key key] m1(3) by auto
  from remove_key_kmap [OF m1(2)] m1(3) have
    r: "rm_inv (upd_bucket key (remove_key key) m1\<lparr>nelem := nelem m1 - 1\<rparr>)"
       "kmap (upd_bucket key (remove_key key) m1\<lparr>nelem := nelem m1 - 1\<rparr>) = (kmap m1)(key := None)" by simp_all
  show ?thesis
  proof (intro exI conjI)
    show "hyper_create hb key (Some m) = Some m1"
      using lookup_absent [OF assms(1,3)] m1(1) assms(4) by (simp add: hyper_create_def cilk_assert_def)
    show "hyper_lookup rid hb key rep (Some m1) vals = Some (key, m1, vals)"
      using e m1(4) assms(4) by (simp add: hyper_lookup_def cilk_assert_def)
    show "hyper_destroy key (Some m1) = Some (upd_bucket key (remove_key key) m1\<lparr>nelem := nelem m1 - 1\<rparr>)"
      using e m1(4) assms(4) by (simp add: hyper_destroy_def cilk_assert_def is_leftmost_def)
    show "kmap (upd_bucket key (remove_key key) m1\<lparr>nelem := nelem m1 - 1\<rparr>) = kmap m"
      unfolding r(2) m1(3) using assms(3) by auto
  qed (rule r(1))
qed


theorem hyperobject_round_trip_witness:
  "\<exists>m1 m2. hyper_create 16 64 (Some (the make_reducer_map)) = Some m1 \<and>
    hyper_lookup (\<lambda>_. 0 :: nat) 16 64 128 (Some m1) (\<lambda>_. 5) = Some (64, m1, \<lambda>_. 5) \<and>
    hyper_destroy 64 (Some m1) = Some m2 \<and> rm_inv m2 \<and> kmap m2 = kmap (the make_reducer_map)"
  by (rule hyperobject_round_trip) (simp_all add: new_map)

lemma insert_fails_iff:
  assumes "rm_inv m" and "rm_small (nelem m)" and "kmap m key = None"
  shows "rehash_and_insert key hb view m = None \<longleftrightarrow> key = NULL \<or> view = NULL"
proof
  show "key = NULL \<or> view = NULL" if "rehash_and_insert key hb view m = None"
    using that rehash_and_insert_kmap [OF assms(1,2) _ _ assms(3), of view hb] by auto
  show "rehash_and_insert key hb view m = None" if "key = NULL \<or> view = NULL"
    using that insert_fails by (auto simp: rehash_and_insert_def bind_eq_None_conv)
qed

text \<open>C32 (hyperobject_errors): creating, looking up and destroying a hyperobject abort exactly when
  the map is being merged, when a created hyperobject is already there, when one to be destroyed is
  absent or not represented by its leftmost view, or when an address is null.\<close>

theorem hyperobject_errors:
  assumes "rm_inv m" and "rm_small (nelem m)"
  shows "(hyper_create hb key (Some m) = None \<longleftrightarrow> merging m \<or> kmap m key \<noteq> None \<or> key = NULL) \<and>
    (hyper_lookup rid hb key rep (Some m) vals = None \<longleftrightarrow>
       merging m \<or> kmap m key = None \<and> (key = NULL \<or> \<not> rm_leftmost m \<and> rep = NULL)) \<and>
    (hyper_destroy key (Some m) = None \<longleftrightarrow> merging m \<or> kmap m key \<noteq> Some key)"
proof (cases "kmap m key")
  case None
  note f = insert_fails_iff [OF assms None]
  show ?thesis using lookup_absent [OF assms(1) None] None f [of hb key] f [of hb rep]
    by (auto simp: hyper_create_def hyper_lookup_def hyper_destroy_def cilk_assert_def bind_eq_None_conv split: if_splits)
next
  case (Some v)
  obtain e where e: "lookup key m = Some (Some e)" "el_key e = key" "el_view e = v" using lookup_view [OF assms(1) Some] by blast
  show ?thesis using e Some
    by (auto simp: hyper_create_def hyper_lookup_def hyper_destroy_def cilk_assert_def is_leftmost_def)
qed

theorem hyperobject_errors_witness:
  "hyper_destroy 64 (Some (the make_reducer_map)) = None"
  using hyperobject_errors [of "the make_reducer_map" 0 64 "\<lambda>_. 0 :: nat" 8 "\<lambda>_. 0"]
  by (simp add: new_map)

end
