(* ===== verification/Reducer_Views.thy ===== *)
theory Reducer_Views
  imports Reducer_Hyper
begin

unbundle bit_operations_syntax

text \<open>
  The views of the reducer library (include/cilk/reducer_*.h): the accumulator of a strand, its
  updates and the reduce function. The template parameter of the bitwise and arithmetic reducers
  is a machine word. An allocator is a value that compares equal or not; a pointer to a view in
  the proxy of an assignment is its address.
\<close>

subsection \<open>What makes a view a reducer\<close>

text \<open>\<open>val\<close> is the value the user sees. An update multiplies it on the right by \<open>g x\<close>, so that a
  strand that starts from the identity view computes the factor of its updates.\<close>

locale reducer_view =
  fixes reduce :: "'v \<Rightarrow> 'v \<Rightarrow> 'v"
    and ident :: 'v
    and upd :: "'x \<Rightarrow> 'v \<Rightarrow> 'v"
    and ok :: "'v \<Rightarrow> bool"
    and val :: "'v \<Rightarrow> 'a"
    and mult :: "'a \<Rightarrow> 'a \<Rightarrow> 'a"
    and g :: "'x \<Rightarrow> 'a"
  assumes ok_ident: "ok ident"
    and ok_upd: "ok v \<Longrightarrow> ok (upd x v)"
    and ok_reduce: "ok a \<Longrightarrow> ok b \<Longrightarrow> ok (reduce a b)"
    and val_reduce: "ok a \<Longrightarrow> ok b \<Longrightarrow> val (reduce a b) = mult (val a) (val b)"
    and val_upd: "ok v \<Longrightarrow> val (upd x v) = mult (val v) (g x)"
    and mult_assoc: "mult (mult p q) r = mult p (mult q r)"
    and mult_ident: "mult p (val ident) = p"
begin

lemma ok_fold: "ok v \<Longrightarrow> ok (fold upd xs v)"
  by (induction xs arbitrary: v) (simp_all add: ok_upd)

lemma val_fold: "ok v \<Longrightarrow> val (fold upd xs v) = mult (val v) (val (fold upd xs ident))"
proof (induction xs rule: rev_induct)
  case (snoc x xs)
  then show ?case by (simp add: val_upd ok_fold ok_ident mult_assoc)
qed (simp add: mult_ident)

text \<open>However the updates are cut into strands, reducing the strands' views from left to right
  gives the serial value.\<close>

lemma strands:
  "ok v \<Longrightarrow> val (fold (\<lambda>xs w. reduce w (fold upd xs ident)) xss v) = val (fold upd (concat xss) v)"
proof -
  assume v: "ok v"
  have "ok (fold (\<lambda>xs w. reduce w (fold upd xs ident)) xss v) \<and>
    val (fold (\<lambda>xs w. reduce w (fold upd xs ident)) xss v) = val (fold upd (concat xss) v)"
  proof (induction xss rule: rev_induct)
    case (snoc xs xss)
    let ?w = "fold (\<lambda>xs w. reduce w (fold upd xs ident)) xss v"
    have "val (reduce ?w (fold upd xs ident)) = mult (val (fold upd (concat xss) v)) (val (fold upd xs ident))"
      using snoc by (simp add: val_reduce ok_fold ok_ident)
    also have "\<dots> = val (fold upd xs (fold upd (concat xss) v))" using val_fold [OF ok_fold [OF v]] by simp
    finally show ?case using snoc by (simp add: ok_reduce ok_fold ok_ident)
  qed (simp add: v)
  then show ?thesis ..
qed

end

subsection \<open>Arithmetic and bitwise reducers\<close>

text \<open>\<open>rp_view\<close> is the view the right-hand side was made from.\<close>

record 'a rhs_proxy =
  rp_view :: ptr
  rp_value :: 'a

datatype 'a signed_op = Plus 'a | Minus 'a

definition op_add_identity :: "'a :: len word" where "op_add_identity = 0"
definition op_add_reduce :: "'a :: len word \<Rightarrow> 'a word \<Rightarrow> 'a word" where "op_add_reduce l r = l + r"
definition op_add_incr :: "'a :: len word \<Rightarrow> 'a word \<Rightarrow> 'a word" where "op_add_incr x v = v + x"
definition op_add_decr :: "'a :: len word \<Rightarrow> 'a word \<Rightarrow> 'a word" where "op_add_decr x v = v - x"

text \<open>The expression \<open>view + x\<close> or \<open>view - x\<close>, and a further term.\<close>

fun op_add_proxy :: "ptr \<Rightarrow> 'a :: len word signed_op \<Rightarrow> 'a word rhs_proxy" where
  "op_add_proxy this (Plus x) = \<lparr>rp_view = this, rp_value = x\<rparr>"
| "op_add_proxy this (Minus x) = \<lparr>rp_view = this, rp_value = - x\<rparr>"

fun op_add_term :: "'a :: len word signed_op \<Rightarrow> 'a word rhs_proxy \<Rightarrow> 'a word rhs_proxy" where
  "op_add_term (Plus x) p = p\<lparr>rp_value := rp_value p + x\<rparr>"
| "op_add_term (Minus x) p = p\<lparr>rp_value := rp_value p - x\<rparr>"

definition op_add_assign :: "ptr \<Rightarrow> 'a :: len word rhs_proxy \<Rightarrow> 'a word \<Rightarrow> 'a word option" where
  "op_add_assign this rhs v = do { cilk_assert (this = rp_view rhs); Some (v + rp_value rhs) }"

definition op_mul_identity :: "'a :: len word" where "op_mul_identity = 1"
definition op_mul_reduce :: "'a :: len word \<Rightarrow> 'a word \<Rightarrow> 'a word" where "op_mul_reduce l r = l * r"
definition op_mul_update :: "'a :: len word \<Rightarrow> 'a word \<Rightarrow> 'a word" where "op_mul_update x v = v * x"

definition op_and_identity :: "'a :: len word" where "op_and_identity = NOT 0"
definition op_and_reduce :: "'a :: len word \<Rightarrow> 'a word \<Rightarrow> 'a word" where "op_and_reduce l r = l AND r"
definition op_and_update :: "'a :: len word \<Rightarrow> 'a word \<Rightarrow> 'a word" where "op_and_update x v = v AND x"

definition op_or_identity :: "'a :: len word" where "op_or_identity = 0"
definition op_or_reduce :: "'a :: len word \<Rightarrow> 'a word \<Rightarrow> 'a word" where "op_or_reduce l r = l OR r"
definition op_or_update :: "'a :: len word \<Rightarrow> 'a word \<Rightarrow> 'a word" where "op_or_update x v = v OR x"

definition op_xor_identity :: "'a :: len word" where "op_xor_identity = 0"
definition op_xor_reduce :: "'a :: len word \<Rightarrow> 'a word \<Rightarrow> 'a word" where "op_xor_reduce l r = l XOR r"
definition op_xor_update :: "'a :: len word \<Rightarrow> 'a word \<Rightarrow> 'a word" where "op_xor_update x v = v XOR x"

text \<open>The other classes' proxies: \<open>view op x\<close>, a further factor, and the assignment.\<close>

definition op_mul_proxy :: "ptr \<Rightarrow> 'a :: len word \<Rightarrow> 'a word rhs_proxy" where
  "op_mul_proxy this x = \<lparr>rp_view = this, rp_value = x\<rparr>"
definition op_mul_term :: "'a :: len word \<Rightarrow> 'a word rhs_proxy \<Rightarrow> 'a word rhs_proxy" where
  "op_mul_term x p = p\<lparr>rp_value := rp_value p * x\<rparr>"
definition op_mul_assign :: "ptr \<Rightarrow> 'a :: len word rhs_proxy \<Rightarrow> 'a word \<Rightarrow> 'a word option" where
  "op_mul_assign this rhs v = do { cilk_assert (this = rp_view rhs); Some (v * rp_value rhs) }"

definition op_and_proxy :: "ptr \<Rightarrow> 'a :: len word \<Rightarrow> 'a word rhs_proxy" where
  "op_and_proxy this x = \<lparr>rp_view = this, rp_value = x\<rparr>"
definition op_and_term :: "'a :: len word \<Rightarrow> 'a word rhs_proxy \<Rightarrow> 'a word rhs_proxy" where
  "op_and_term x p = p\<lparr>rp_value := rp_value p AND x\<rparr>"
definition op_and_assign :: "ptr \<Rightarrow> 'a :: len word rhs_proxy \<Rightarrow> 'a word \<Rightarrow> 'a word option" where
  "op_and_assign this rhs v = do { cilk_assert (this = rp_view rhs); Some (v AND rp_value rhs) }"

definition op_or_proxy :: "ptr \<Rightarrow> 'a :: len word \<Rightarrow> 'a word rhs_proxy" where
  "op_or_proxy this x = \<lparr>rp_view = this, rp_value = x\<rparr>"
definition op_or_term :: "'a :: len word \<Rightarrow> 'a word rhs_proxy \<Rightarrow> 'a word rhs_proxy" where
  "op_or_term x p = p\<lparr>rp_value := rp_value p OR x\<rparr>"
definition op_or_assign :: "ptr \<Rightarrow> 'a :: len word rhs_proxy \<Rightarrow> 'a word \<Rightarrow> 'a word option" where
  "op_or_assign this rhs v = do { cilk_assert (this = rp_view rhs); Some (v OR rp_value rhs) }"

definition op_xor_proxy :: "ptr \<Rightarrow> 'a :: len word \<Rightarrow> 'a word rhs_proxy" where
  "op_xor_proxy this x = \<lparr>rp_view = this, rp_value = x\<rparr>"
definition op_xor_term :: "'a :: len word \<Rightarrow> 'a word rhs_proxy \<Rightarrow> 'a word rhs_proxy" where
  "op_xor_term x p = p\<lparr>rp_value := rp_value p XOR x\<rparr>"
definition op_xor_assign :: "ptr \<Rightarrow> 'a :: len word rhs_proxy \<Rightarrow> 'a word \<Rightarrow> 'a word option" where
  "op_xor_assign this rhs v = do { cilk_assert (this = rp_view rhs); Some (v XOR rp_value rhs) }"

lemmas op_defs = op_add_identity_def op_add_reduce_def op_add_incr_def op_add_decr_def
  op_mul_identity_def op_mul_reduce_def op_mul_update_def op_and_identity_def op_and_reduce_def op_and_update_def
  op_or_identity_def op_or_reduce_def op_or_update_def op_xor_identity_def op_xor_reduce_def op_xor_update_def

interpretation opadd: reducer_view op_add_reduce op_add_identity op_add_incr "\<lambda>_. True" "\<lambda>v. v" "(+)" "\<lambda>x. x"
  by unfold_locales (simp_all add: op_defs algebra_simps)
interpretation opsub: reducer_view op_add_reduce op_add_identity op_add_decr "\<lambda>_. True" "\<lambda>v. v" "(+)" "\<lambda>x. - x"
  by unfold_locales (simp_all add: op_defs algebra_simps)
interpretation opmul: reducer_view op_mul_reduce op_mul_identity op_mul_update "\<lambda>_. True" "\<lambda>v. v" "(*)" "\<lambda>x. x"
  by unfold_locales (simp_all add: op_defs algebra_simps)
interpretation opand: reducer_view op_and_reduce op_and_identity op_and_update "\<lambda>_. True" "\<lambda>v. v" "(AND)" "\<lambda>x. x"
  by unfold_locales (simp_all add: op_defs ac_simps)
interpretation opor: reducer_view op_or_reduce op_or_identity op_or_update "\<lambda>_. True" "\<lambda>v. v" "(OR)" "\<lambda>x. x"
  by unfold_locales (simp_all add: op_defs ac_simps)
interpretation opxor: reducer_view op_xor_reduce op_xor_identity op_xor_update "\<lambda>_. True" "\<lambda>v. v" "(XOR)" "\<lambda>x. x"
  by unfold_locales (simp_all add: op_defs ac_simps)

text \<open>Each of them is what the reducer maps merge with.\<close>

interpretation opadd_maps: reducer_monoid "\<lambda>_ :: ptr. op_add_reduce" "\<lambda>_. op_add_identity"
  by unfold_locales (simp_all add: op_defs algebra_simps)

text \<open>A chain of terms assigned to the view it was made from has the effect of the updates.\<close>

fun op_add_apply :: "'a :: len word signed_op \<Rightarrow> 'a word \<Rightarrow> 'a word" where
  "op_add_apply (Plus x) v = op_add_incr x v"
| "op_add_apply (Minus x) v = op_add_decr x v"

lemma op_add_terms: "rp_value (fold op_add_term ts p) + v = fold op_add_apply ts (v + rp_value p)"
proof (induction ts arbitrary: p v)
  case (Cons t ts)
  then show ?case by (cases t) (simp_all add: op_defs algebra_simps)
qed simp

lemma op_add_terms_view: "rp_view (fold op_add_term ts p) = rp_view p"
proof (induction ts arbitrary: p)
  case (Cons t ts)
  then show ?case by (cases t) simp_all
qed simp

lemma op_mul_terms: "v * rp_value (fold op_mul_term xs p) = fold op_mul_update xs (v * rp_value p)"
  by (induction xs arbitrary: p) (simp_all add: op_mul_term_def op_defs ac_simps)
lemma op_and_terms: "v AND rp_value (fold op_and_term xs p) = fold op_and_update xs (v AND rp_value p)"
  by (induction xs arbitrary: p) (simp_all add: op_and_term_def op_defs ac_simps)
lemma op_or_terms: "v OR rp_value (fold op_or_term xs p) = fold op_or_update xs (v OR rp_value p)"
  by (induction xs arbitrary: p) (simp_all add: op_or_term_def op_defs ac_simps)
lemma op_xor_terms: "v XOR rp_value (fold op_xor_term xs p) = fold op_xor_update xs (v XOR rp_value p)"
  by (induction xs arbitrary: p) (simp_all add: op_xor_term_def op_defs ac_simps)

lemma op_term_view:
  "rp_view (fold op_mul_term xs p) = rp_view p" "rp_view (fold op_and_term xs p) = rp_view p"
  "rp_view (fold op_or_term xs p) = rp_view p" "rp_view (fold op_xor_term xs p) = rp_view p"
  by (induction xs arbitrary: p) (simp_all add: op_mul_term_def op_and_term_def op_or_term_def op_xor_term_def)

subsection \<open>Strings and vectors\<close>

text \<open>A list of completed pieces and the one under construction; the element type is a parameter,
  the two classes are the same but for the container.\<close>

record 'a pieces =
  m_list :: "'a list list"
  m_string :: "'a list"

definition flatten :: "'a pieces \<Rightarrow> 'a pieces" where
  "flatten v = (if m_list v = [] then v else \<lparr>m_list = [], m_string = concat (m_list v) @ m_string v\<rparr>)"

definition pieces_reduce :: "'a pieces \<Rightarrow> 'a pieces \<Rightarrow> 'a pieces" where
  "pieces_reduce l r =
     (if m_string r \<noteq> [] \<or> m_list r \<noteq> []
      then \<lparr>m_list = m_list l @ (if m_string l \<noteq> [] then [m_string l] else []) @ m_list r, m_string = m_string r\<rparr>
      else l)"

definition pieces_identity :: "'a pieces" where "pieces_identity = \<lparr>m_list = [], m_string = []\<rparr>"

definition pieces_append :: "'a list \<Rightarrow> 'a pieces \<Rightarrow> 'a pieces" where
  "pieces_append xs v = v\<lparr>m_string := m_string v @ xs\<rparr>"

definition pieces_set_value :: "'a list \<Rightarrow> 'a pieces \<Rightarrow> 'a pieces" where
  "pieces_set_value xs v = \<lparr>m_list = [], m_string = xs\<rparr>"

definition pieces_get_value :: "'a pieces \<Rightarrow> 'a list \<times> 'a pieces" where
  "pieces_get_value v = (m_string (flatten v), flatten v)"

text \<open>The user's container is handed over; \<open>eq\<close> is the outcome of the comparison of allocators.\<close>

definition pieces_move_in :: "bool \<Rightarrow> 'a list \<Rightarrow> 'a pieces \<Rightarrow> 'a list \<times> 'a pieces" where
  "pieces_move_in eq s v = ([], \<lparr>m_list = [], m_string = s\<rparr>)"

definition string_move_out :: "bool \<Rightarrow> 'a list \<Rightarrow> 'a pieces \<Rightarrow> 'a list \<times> 'a pieces" where
  "string_move_out eq s v =
     (let w = flatten v;
          (s', w') = (if eq then (m_string w, w\<lparr>m_string := s\<rparr>) else (m_string w, w))
      in (s', w'\<lparr>m_string := []\<rparr>))"

definition vector_move_out :: "bool \<Rightarrow> 'a list \<Rightarrow> 'a pieces \<Rightarrow> 'a list \<times> 'a pieces" where
  "vector_move_out eq s v =
     (let w = flatten v
      in if eq then (m_string w, w\<lparr>m_string := s\<rparr>) else (m_string w, w\<lparr>m_string := []\<rparr>))"

definition pieces_value :: "'a pieces \<Rightarrow> 'a list" where
  "pieces_value v = concat (m_list v) @ m_string v"

lemma flatten_value [simp]: "pieces_value (flatten v) = pieces_value v"
  by (simp add: flatten_def pieces_value_def)

lemma m_string_flatten: "m_string (flatten v) = pieces_value v"
  by (simp add: flatten_def pieces_value_def)

interpretation pieces: reducer_view pieces_reduce pieces_identity pieces_append "\<lambda>_. True" pieces_value "(@)" "\<lambda>xs. xs"
  by unfold_locales (auto simp: pieces_reduce_def pieces_identity_def pieces_append_def pieces_value_def)

interpretation pieces_maps: reducer_monoid "\<lambda>_ :: ptr. pieces_reduce" "\<lambda>_. pieces_identity"
  by unfold_locales (auto simp: pieces_reduce_def pieces_identity_def)

subsection \<open>Lists\<close>

text \<open>A list with its allocator.\<close>

record ('e, 'al) alloc_list =
  al_value :: "'e list"
  al_alloc :: 'al

definition list_reduce_append :: "('e, 'al) alloc_list \<Rightarrow> ('e, 'al) alloc_list \<Rightarrow> ('e, 'al) alloc_list option" where
  "list_reduce_append l r = do { cilk_assert (al_alloc l = al_alloc r); Some (l\<lparr>al_value := al_value l @ al_value r\<rparr>) }"

definition list_reduce_prepend :: "('e, 'al) alloc_list \<Rightarrow> ('e, 'al) alloc_list \<Rightarrow> ('e, 'al) alloc_list option" where
  "list_reduce_prepend l r = do { cilk_assert (al_alloc l = al_alloc r); Some (l\<lparr>al_value := al_value r @ al_value l\<rparr>) }"

definition list_push_back :: "'e \<Rightarrow> ('e, 'al) alloc_list \<Rightarrow> ('e, 'al) alloc_list" where
  "list_push_back x v = v\<lparr>al_value := al_value v @ [x]\<rparr>"
definition list_insert_back_n :: "nat \<Rightarrow> 'e \<Rightarrow> ('e, 'al) alloc_list \<Rightarrow> ('e, 'al) alloc_list" where
  "list_insert_back_n n x v = v\<lparr>al_value := al_value v @ replicate n x\<rparr>"
definition list_insert_back :: "'e list \<Rightarrow> ('e, 'al) alloc_list \<Rightarrow> ('e, 'al) alloc_list" where
  "list_insert_back xs v = v\<lparr>al_value := al_value v @ xs\<rparr>"

definition list_push_front :: "'e \<Rightarrow> ('e, 'al) alloc_list \<Rightarrow> ('e, 'al) alloc_list" where
  "list_push_front x v = v\<lparr>al_value := x # al_value v\<rparr>"
definition list_insert_front_n :: "nat \<Rightarrow> 'e \<Rightarrow> ('e, 'al) alloc_list \<Rightarrow> ('e, 'al) alloc_list" where
  "list_insert_front_n n x v = v\<lparr>al_value := replicate n x @ al_value v\<rparr>"
definition list_insert_front :: "'e list \<Rightarrow> ('e, 'al) alloc_list \<Rightarrow> ('e, 'al) alloc_list" where
  "list_insert_front xs v = v\<lparr>al_value := xs @ al_value v\<rparr>"

text \<open>\<open>splice_back(x)\<close> and \<open>splice_front(x)\<close>: the list that loses its elements and the view. In the
  second the copy for unequal allocators is from \<open>x.begin()\<close> to \<open>x.begin()\<close>.\<close>

definition list_splice_back :: "('e, 'al) alloc_list \<Rightarrow> ('e, 'al) alloc_list \<Rightarrow> ('e, 'al) alloc_list \<times> ('e, 'al) alloc_list" where
  "list_splice_back x v =
     (if al_alloc x = al_alloc v then (x\<lparr>al_value := []\<rparr>, v\<lparr>al_value := al_value v @ al_value x\<rparr>)
      else (x\<lparr>al_value := []\<rparr>, list_insert_back (al_value x) v))"

definition list_splice_front :: "('e, 'al) alloc_list \<Rightarrow> ('e, 'al) alloc_list \<Rightarrow> ('e, 'al) alloc_list \<times> ('e, 'al) alloc_list" where
  "list_splice_front x v =
     (if al_alloc x = al_alloc v then (x\<lparr>al_value := []\<rparr>, v\<lparr>al_value := al_value x @ al_value v\<rparr>)
      else (x\<lparr>al_value := []\<rparr>, list_insert_front (take 0 (al_value x)) v))"

text \<open>Positions stand for the iterators: one element, and a range from \<open>i\<close> up to \<open>j\<close>.\<close>

definition list_splice_back_at :: "nat \<Rightarrow> ('e, 'al) alloc_list \<Rightarrow> ('e, 'al) alloc_list \<Rightarrow> ('e, 'al) alloc_list \<times> ('e, 'al) alloc_list" where
  "list_splice_back_at i x v =
     (x\<lparr>al_value := take i (al_value x) @ drop (Suc i) (al_value x)\<rparr>, list_push_back (al_value x ! i) v)"
definition list_splice_front_at :: "nat \<Rightarrow> ('e, 'al) alloc_list \<Rightarrow> ('e, 'al) alloc_list \<Rightarrow> ('e, 'al) alloc_list \<times> ('e, 'al) alloc_list" where
  "list_splice_front_at i x v =
     (x\<lparr>al_value := take i (al_value x) @ drop (Suc i) (al_value x)\<rparr>, list_push_front (al_value x ! i) v)"
definition list_splice_back_range ::
  "nat \<Rightarrow> nat \<Rightarrow> ('e, 'al) alloc_list \<Rightarrow> ('e, 'al) alloc_list \<Rightarrow> ('e, 'al) alloc_list \<times> ('e, 'al) alloc_list" where
  "list_splice_back_range i j x v =
     (x\<lparr>al_value := take i (al_value x) @ drop j (al_value x)\<rparr>, list_insert_back (drop i (take j (al_value x))) v)"
definition list_splice_front_range ::
  "nat \<Rightarrow> nat \<Rightarrow> ('e, 'al) alloc_list \<Rightarrow> ('e, 'al) alloc_list \<Rightarrow> ('e, 'al) alloc_list \<times> ('e, 'al) alloc_list" where
  "list_splice_front_range i j x v =
     (x\<lparr>al_value := take i (al_value x) @ drop j (al_value x)\<rparr>, list_insert_front (drop i (take j (al_value x))) v)"

text \<open>The views of one reducer share the monoid's allocator \<open>a\<close>, so reducing them never aborts.\<close>

definition list_append_reduce_total :: "('e, 'al) alloc_list \<Rightarrow> ('e, 'al) alloc_list \<Rightarrow> ('e, 'al) alloc_list" where
  "list_append_reduce_total l r = the (list_reduce_append l r)"
definition list_prepend_reduce_total :: "('e, 'al) alloc_list \<Rightarrow> ('e, 'al) alloc_list \<Rightarrow> ('e, 'al) alloc_list" where
  "list_prepend_reduce_total l r = the (list_reduce_prepend l r)"

lemmas list_defs = list_reduce_append_def list_reduce_prepend_def list_append_reduce_total_def list_prepend_reduce_total_def
  list_push_back_def list_insert_back_def list_insert_back_n_def list_push_front_def list_insert_front_def list_insert_front_n_def

interpretation list_append: reducer_view list_append_reduce_total "\<lparr>al_value = [], al_alloc = a\<rparr>" list_push_back
    "\<lambda>v. al_alloc v = a" al_value "(@)" "\<lambda>x. [x]" for a
  by unfold_locales (simp_all add: list_defs cilk_assert_def)

interpretation list_prepend: reducer_view list_prepend_reduce_total "\<lparr>al_value = [], al_alloc = a\<rparr>" list_push_front
    "\<lambda>v. al_alloc v = a" al_value "\<lambda>p q. q @ p" "\<lambda>x. [x]" for a
  by unfold_locales (simp_all add: list_defs cilk_assert_def)

subsection \<open>Minimum and maximum\<close>

text \<open>The content of a view, without and with an index. \<open>opt\<close> says whether the class is the one of
  the is_set optimisation, which starts from the identity of the type instead of an undefined
  value; \<open>idv\<close> is that identity, \<open>dflt\<close> and \<open>dix\<close> the default values of the types.\<close>

record 'a view_content =
  vc_value :: 'a
  vc_is_set :: bool

record ('i, 'a) index_content =
  ic_index :: 'i
  ic_value :: 'a
  ic_is_set :: bool

definition max_identity :: "'a :: len word" where "max_identity = 0"
definition min_identity :: "'a :: len word" where "min_identity = - 1"

definition view_content_new :: "bool \<Rightarrow> 'a \<Rightarrow> 'a \<Rightarrow> 'a view_content" where
  "view_content_new opt idv dflt = \<lparr>vc_value = (if opt then idv else dflt), vc_is_set = False\<rparr>"

definition view_content_of :: "'a \<Rightarrow> 'a view_content" where
  "view_content_of x = \<lparr>vc_value = x, vc_is_set = True\<rparr>"

definition has_value :: "bool \<Rightarrow> 'a view_content \<Rightarrow> bool" where
  "has_value opt v \<longleftrightarrow> opt \<or> vc_is_set v"

definition index_content_new :: "bool \<Rightarrow> 'a \<Rightarrow> 'a \<Rightarrow> 'i \<Rightarrow> ('i, 'a) index_content" where
  "index_content_new opt idv dflt dix = \<lparr>ic_index = dix, ic_value = (if opt then idv else dflt), ic_is_set = False\<rparr>"

definition index_has_value :: "bool \<Rightarrow> ('i, 'a) index_content \<Rightarrow> bool" where
  "index_has_value opt v \<longleftrightarrow> opt \<or> ic_is_set v"

definition set_default_index :: "'i \<Rightarrow> ('i, 'a) index_content \<Rightarrow> ('i, 'a) index_content" where
  "set_default_index i v = v\<lparr>ic_index := i\<rparr>"

text \<open>\<open>cmp x y\<close> is the comparison of the view: the user's one for a maximum, its reverse for a
  minimum.\<close>

definition reverse_predicate :: "('a \<Rightarrow> 'a \<Rightarrow> bool) \<Rightarrow> 'a \<Rightarrow> 'a \<Rightarrow> bool" where
  "reverse_predicate p x y = p y x"

definition view_reduce :: "('a \<Rightarrow> 'a \<Rightarrow> bool) \<Rightarrow> 'a view_content \<Rightarrow> 'a view_content \<Rightarrow> 'a view_content" where
  "view_reduce cmp l r =
     (if vc_is_set r \<and> (\<not> vc_is_set l \<or> cmp (vc_value l) (vc_value r))
      then \<lparr>vc_value = vc_value r, vc_is_set = True\<rparr> else l)"

definition view_calc :: "bool \<Rightarrow> ('a \<Rightarrow> 'a \<Rightarrow> bool) \<Rightarrow> 'a \<Rightarrow> 'a view_content \<Rightarrow> 'a view_content" where
  "view_calc opt cmp x v =
     \<lparr>vc_value = (if \<not> has_value opt v \<or> cmp (vc_value v) x then x else vc_value v), vc_is_set = True\<rparr>"

definition index_reduce :: "('a \<Rightarrow> 'a \<Rightarrow> bool) \<Rightarrow> ('i, 'a) index_content \<Rightarrow> ('i, 'a) index_content \<Rightarrow> ('i, 'a) index_content" where
  "index_reduce cmp l r =
     (if ic_is_set r \<and> (\<not> ic_is_set l \<or> cmp (ic_value l) (ic_value r))
      then \<lparr>ic_index = ic_index r, ic_value = ic_value r, ic_is_set = True\<rparr> else l)"

definition index_calc :: "bool \<Rightarrow> ('a \<Rightarrow> 'a \<Rightarrow> bool) \<Rightarrow> 'i \<times> 'a \<Rightarrow> ('i, 'a) index_content \<Rightarrow> ('i, 'a) index_content" where
  "index_calc opt cmp x v =
     (if \<not> index_has_value opt v \<or> cmp (ic_value v) (snd x)
      then \<lparr>ic_index = fst x, ic_value = snd x, ic_is_set = True\<rparr>
      else v\<lparr>ic_is_set := True\<rparr>)"

text \<open>The right-hand side \<open>max_of(view, x)\<close>, nested, and its assignment.\<close>

definition make_proxy :: "ptr \<Rightarrow> 'a \<Rightarrow> 'a rhs_proxy" where
  "make_proxy this x = \<lparr>rp_view = this, rp_value = x\<rparr>"

definition proxy_calc :: "('a \<Rightarrow> 'a \<Rightarrow> bool) \<Rightarrow> 'a \<Rightarrow> 'a rhs_proxy \<Rightarrow> 'a rhs_proxy" where
  "proxy_calc cmp x p = p\<lparr>rp_value := (if cmp (rp_value p) x then x else rp_value p)\<rparr>"

definition view_assign :: "bool \<Rightarrow> ('a \<Rightarrow> 'a \<Rightarrow> bool) \<Rightarrow> ptr \<Rightarrow> 'a rhs_proxy \<Rightarrow> 'a view_content \<Rightarrow> 'a view_content option" where
  "view_assign opt cmp this rhs v = do { cilk_assert (this = rp_view rhs); Some (view_calc opt cmp (rp_value rhs) v) }"

text \<open>A content seen as the value it has, if any.\<close>

definition vc_val :: "'a view_content \<Rightarrow> 'a option" where
  "vc_val v = (if vc_is_set v then Some (vc_value v) else None)"

definition best :: "('a \<Rightarrow> 'a \<Rightarrow> bool) \<Rightarrow> 'a option \<Rightarrow> 'a option \<Rightarrow> 'a option" where
  "best cmp p q =
     (case (p, q) of (None, _) \<Rightarrow> q | (_, None) \<Rightarrow> p | (Some x, Some y) \<Rightarrow> Some (if cmp x y then y else x))"

text \<open>The documented requirement on the comparison: a strict weak ordering. With the optimisation
  the identity is below every other value.\<close>

locale strict_weak_order =
  fixes cmp :: "'a \<Rightarrow> 'a \<Rightarrow> bool"
  assumes cmp_irrefl: "\<not> cmp x x"
    and cmp_trans: "cmp x y \<Longrightarrow> cmp y z \<Longrightarrow> cmp x z"
    and cmp_incomp: "cmp x z \<Longrightarrow> cmp x y \<or> cmp y z"
begin

lemma best_assoc: "best cmp (best cmp p q) r = best cmp p (best cmp q r)"
proof (cases "p = None \<or> q = None \<or> r = None")
  case True
  then show ?thesis by (auto simp: best_def split: option.split)
next
  case False
  then obtain x y z where e: "p = Some x" "q = Some y" "r = Some z" by auto
  show ?thesis unfolding e
    by (cases "cmp x y"; cases "cmp y z"; cases "cmp x z") (simp_all add: best_def, (metis cmp_trans cmp_incomp)+)
qed

end

locale min_max_view = strict_weak_order +
  fixes opt :: bool and idv :: 'a and dflt :: 'a
  assumes idv_least: "opt \<Longrightarrow> x = idv \<or> cmp idv x"

sublocale min_max_view \<subseteq> mm: reducer_view "view_reduce cmp" "view_content_new opt idv dflt" "view_calc opt cmp"
    "\<lambda>v. opt \<longrightarrow> \<not> vc_is_set v \<longrightarrow> vc_value v = idv" vc_val "best cmp" Some
proof unfold_locales
  fix v :: "'a view_content" and x assume ok: "opt \<longrightarrow> \<not> vc_is_set v \<longrightarrow> vc_value v = idv"
  show "vc_val (view_calc opt cmp x v) = best cmp (vc_val v) (Some x)"
    using ok idv_least [of x] by (auto simp: view_calc_def vc_val_def best_def has_value_def)
qed (auto simp: view_reduce_def view_content_new_def view_calc_def vc_val_def best_def best_assoc cmp_irrefl
       dest: cmp_trans cmp_incomp split: option.splits)

interpretation op_max: min_max_view "(<) :: 'a :: linorder \<Rightarrow> 'a \<Rightarrow> bool" False d d for d
  by unfold_locales auto
interpretation op_min: min_max_view "reverse_predicate ((<) :: 'a :: linorder \<Rightarrow> 'a \<Rightarrow> bool)" False d d for d
  by unfold_locales (auto simp: reverse_predicate_def)
interpretation op_max_opt: min_max_view "(<) :: 'a :: len word \<Rightarrow> 'a word \<Rightarrow> bool" True max_identity d for d
  by unfold_locales (auto simp: max_identity_def word_greater_zero_iff)
interpretation op_min_opt: min_max_view "reverse_predicate ((<) :: 'a :: len word \<Rightarrow> 'a word \<Rightarrow> bool)" True min_identity d for d
  by unfold_locales (auto simp: min_identity_def reverse_predicate_def word_order.not_eq_extremum [symmetric])

subsection \<open>Properties of the reducers\<close>

text \<open>C33 (scalar_reducers_serial): for the addition, multiplication and bitwise reducers over
  machine words, however the updates are cut into strands, each starting from an identity view, and
  the views reduced in order, the value is the serial one.\<close>

theorem scalar_reducers_serial:
  "fold (\<lambda>xs w. op_add_reduce w (fold op_add_incr xs op_add_identity)) xss v = fold op_add_incr (concat xss) v \<and>
   fold (\<lambda>xs w. op_mul_reduce w (fold op_mul_update xs op_mul_identity)) xss v = fold op_mul_update (concat xss) v \<and>
   fold (\<lambda>xs w. op_and_reduce w (fold op_and_update xs op_and_identity)) xss v = fold op_and_update (concat xss) v \<and>
   fold (\<lambda>xs w. op_or_reduce w (fold op_or_update xs op_or_identity)) xss v = fold op_or_update (concat xss) v \<and>
   fold (\<lambda>xs w. op_xor_reduce w (fold op_xor_update xs op_xor_identity)) xss v = fold op_xor_update (concat xss) v"
  by (intro conjI opadd.strands opmul.strands opand.strands opor.strands opxor.strands TrueI)

text \<open>a string (or vector) reducer whose appends are cut into strands and
  reduced in order shows, after flattening, the concatenation the serial execution would show.\<close>

theorem string_reducer_serial:
  "fst (pieces_get_value (fold (\<lambda>xs w. pieces_reduce w (fold pieces_append xs pieces_identity)) xss v)) =
   pieces_value v @ concat (concat xss)"
proof -
  have "pieces_value (fold pieces_append xs v) = pieces_value v @ concat xs" for xs :: "'a list list" and v
    by (induction xs arbitrary: v) (simp_all add: pieces_append_def pieces_value_def)
  then show ?thesis using pieces.strands [OF TrueI, of xss v] by (simp add: pieces_get_value_def m_string_flatten)
qed

text \<open>the list reducers of views with the monoid's allocator never fail
  their assertion and give the serial list, appended or prepended.\<close>

theorem list_reducers_serial:
  "al_value (fold (\<lambda>xs w. list_append_reduce_total w (fold list_push_back xs \<lparr>al_value = [], al_alloc = a\<rparr>)) xss
     \<lparr>al_value = ys, al_alloc = a\<rparr>) = ys @ concat xss \<and>
   al_value (fold (\<lambda>xs w. list_prepend_reduce_total w (fold list_push_front xs \<lparr>al_value = [], al_alloc = a\<rparr>)) xss
     \<lparr>al_value = ys, al_alloc = a\<rparr>) = rev (concat xss) @ ys"
proof -
  have "al_value (fold list_push_back xs v) = al_value v @ xs" for xs :: "'a list" and v :: "('a, 'b) alloc_list"
    by (induction xs arbitrary: v) (simp_all add: list_push_back_def)
  moreover have "al_value (fold list_push_front xs v) = rev xs @ al_value v" for xs :: "'a list" and v :: "('a, 'b) alloc_list"
    by (induction xs arbitrary: v) (simp_all add: list_push_front_def)
  ultimately show ?thesis
    using list_append.strands [of "\<lparr>al_value = ys, al_alloc = a\<rparr>" a xss]
      list_prepend.strands [of "\<lparr>al_value = ys, al_alloc = a\<rparr>" a xss] by simp
qed

text \<open>a maximum reducer over any linear order, and over unsigned words with
  the is_set optimisation, has after the reductions the value, or none, of the serial execution.\<close>

theorem max_reducer_serial:
  "vc_val (fold (\<lambda>xs w. view_reduce (<) w (fold (view_calc False (<)) xs (view_content_new False d d))) xss
     (view_content_new False d d)) =
   vc_val (fold (view_calc False (<)) (concat xss) (view_content_new False d (d :: 'a :: linorder))) \<and>
   vc_val (fold (\<lambda>xs w. view_reduce (<) w (fold (view_calc True (<)) xs (view_content_new True max_identity e))) xss'
     (view_content_new True max_identity e)) =
   vc_val (fold (view_calc True (<)) (concat xss') (view_content_new True max_identity (e :: 'b :: len word)))"
  using op_max.mm.strands [OF op_max.mm.ok_ident] op_max_opt.mm.strands [OF op_max_opt.mm.ok_ident] by blast

text \<open>with the is_set optimisation a maximum reducer with index that sees
  only the least value of the type keeps the default index, not the index of that value, although
  it counts as set.\<close>

theorem index_of_identity_lost:
  "fold (index_calc True (<)) (map (\<lambda>i. (i, max_identity)) (i # is)) (index_content_new True max_identity d dix) =
   \<lparr>ic_index = dix, ic_value = (max_identity :: 'a :: len word), ic_is_set = True\<rparr> \<and>
   fold (index_calc False (<)) (map (\<lambda>i. (i, max_identity)) (i # is)) (index_content_new False max_identity d dix) =
   \<lparr>ic_index = i, ic_value = (max_identity :: 'a word), ic_is_set = True\<rparr>"
proof -
  have "fold (index_calc opt (<)) (map (\<lambda>i. (i, max_identity)) is) \<lparr>ic_index = k, ic_value = (max_identity :: 'a word), ic_is_set = True\<rparr> =
      \<lparr>ic_index = k, ic_value = max_identity, ic_is_set = True\<rparr>" for opt k
    by (induction "is") (simp_all add: index_calc_def index_has_value_def)
  then show ?thesis by (simp add: index_calc_def index_has_value_def index_content_new_def)
qed

text \<open>splicing a list with another allocator onto a list-prepend
  reducer empties the list and adds nothing, while the append reducer takes all its elements.\<close>

theorem splice_front_loses_elements:
  "list_splice_front \<lparr>al_value = xs, al_alloc = a\<rparr> \<lparr>al_value = ys, al_alloc = b\<rparr> =
     (\<lparr>al_value = [], al_alloc = a\<rparr>, \<lparr>al_value = (if a = b then xs @ ys else ys), al_alloc = b\<rparr>) \<and>
   list_splice_back \<lparr>al_value = xs, al_alloc = a\<rparr> \<lparr>al_value = ys, al_alloc = b\<rparr> =
     (\<lparr>al_value = [], al_alloc = a\<rparr>, \<lparr>al_value = ys @ xs, al_alloc = b\<rparr>)"
  by (simp add: list_splice_front_def list_splice_back_def list_insert_front_def list_insert_back_def)

text \<open>C7 (reducer_maps_merge_in_order): merging the map of a right strand into the map of a left one,
  in whichever direction the sizes suggest, gives for every hyperobject the reduction of the left
  value and the right one, with an absent view counting as the identity (or as the initial view, in
  the leftmost map); the result is again a well-formed map.\<close>

theorem reducer_maps_merge_in_order:
  assumes "reducer_monoid rop rid" and "mergeable G K hbof l r"
  shows "\<exists>m vals'. merge_reducer_maps rop (Some l) (Some r) vals = Some (Some m, vals') \<and> map_ok K hbof m \<and>
    (\<forall>k \<in> K. held G rid hbof vals' m k = rop (hbof k) (held G rid hbof vals l k) (held G rid hbof vals r k))"
  using reducer_monoid.merge_reducer_maps_held [OF assms] by blast

lemma singleton_map:
  assumes "k \<noteq> NULL" and "v \<noteq> NULL" and "m = the (rehash_and_insert k (hbof k) v (the make_reducer_map))" and "k \<in> K" and "NULL \<notin> K" and "v = k \<or> v \<notin> K"
  shows "map_ok K hbof m \<and> kmap m = [k \<mapsto> v] \<and> nelem m = 1 \<and> \<not> rm_leftmost m"
proof -
  from rehash_and_insert_kmap [OF new_map(1,2) assms(1,2), of "hbof k"] obtain m1 where
    m1: "rehash_and_insert k (hbof k) v (the make_reducer_map) = Some m1" "rm_inv m1" "kmap m1 = [k \<mapsto> v]"
      "nelem m1 = Suc (nelem (the make_reducer_map))" "rm_leftmost m1 = rm_leftmost (the make_reducer_map)"
    by (auto simp: new_map(3))
  obtain m0 where m0: "make_reducer_map = Some m0" "elements m0 = []" "\<not> rm_leftmost m0" using make_reducer_map_inv by blast
  then have "elements (the make_reducer_map) = []" "\<not> rm_leftmost (the make_reducer_map)" by (simp_all add: m0(1))
  moreover from this have "nelem (the make_reducer_map) = 0" using new_map(1) by (simp add: rm_inv_def)
  moreover have "hbs_ok hbof (elements m1)"
    by (rule rehash_and_insert_hbs [OF m1(1)]) (simp_all add: calculation(1) hbs_ok_def)
  ultimately show ?thesis using m1 assms(3-6) by (simp add: map_ok_def views_ok_def)
qed

theorem reducer_maps_merge_in_order_witness:
  "\<exists>m vals'. merge_reducer_maps (\<lambda>_. op_add_reduce)
      (Some (the (rehash_and_insert 64 16 64 (the make_reducer_map))))
      (Some (the (rehash_and_insert 64 16 128 (the make_reducer_map)))) (\<lambda>x. if x = 64 then 5 else 7) = Some (Some m, vals') \<and>
    held {} (\<lambda>_. op_add_identity) (\<lambda>k. k - 48) vals' m 64 = (12 :: 32 word)"
proof -
  let ?l = "the (rehash_and_insert 64 16 64 (the make_reducer_map))"
  let ?r = "the (rehash_and_insert 64 16 128 (the make_reducer_map))"
  have l: "map_ok {64} (\<lambda>k. k - 48) ?l \<and> kmap ?l = [64 \<mapsto> 64] \<and> nelem ?l = 1 \<and> \<not> rm_leftmost ?l"
    by (rule singleton_map) simp_all
  have r: "map_ok {64} (\<lambda>k. k - 48) ?r \<and> kmap ?r = [64 \<mapsto> 128] \<and> nelem ?r = 1 \<and> \<not> rm_leftmost ?r"
    by (rule singleton_map) simp_all
  have "mergeable {} {64} (\<lambda>k. k - 48) ?l ?r" using l r by (simp add: mergeable_def rm_small_def)
  from reducer_maps_merge_in_order [OF opadd_maps.reducer_monoid_axioms this, of "\<lambda>x. if x = 64 then 5 else 7"]
  obtain m vals' where "merge_reducer_maps (\<lambda>_. op_add_reduce) (Some ?l) (Some ?r) (\<lambda>x. if x = 64 then 5 else 7) = Some (Some m, vals')"
    "held {} (\<lambda>_. op_add_identity) (\<lambda>k. k - 48) vals' m 64 =
     op_add_reduce (held {} (\<lambda>_. op_add_identity) (\<lambda>k. k - 48) (\<lambda>x. if x = 64 then 5 else 7) ?l 64)
       (held {} (\<lambda>_. op_add_identity) (\<lambda>k. k - 48) (\<lambda>x. if x = 64 then 5 else 7) ?r 64 :: 32 word)" by blast
  moreover have "held {} (\<lambda>_. op_add_identity) (\<lambda>k. k - 48) (\<lambda>x. if x = 64 then 5 else 7) ?l 64 = (5 :: 32 word)"
    "held {} (\<lambda>_. op_add_identity) (\<lambda>k. k - 48) (\<lambda>x. if x = 64 then 5 else 7) ?r 64 = (7 :: 32 word)"
    using l r by (simp_all add: held_def)
  ultimately show ?thesis by (intro exI conjI) (assumption, simp add: op_add_reduce_def)
qed

end
