(* ===== verification/Exceptions.thy ===== *)
theory Exceptions
  imports Runtime_State
begin

text \<open>
  Pending exceptions (runtime/except-gcc.cpp): the record a strand leaves behind when it suspends
  or dies with an exception, and the merge of two of them in serial order. A chain of caught
  exceptions is the list of its members; deleting an exception of the C++ runtime is not modelled.
\<close>

record eh_globals =
  caughtExceptions :: "ptr list"
  uncaughtExceptions :: "32 word"

record exc_info =
  active :: ptr
  rethrow :: bool
  runtime_state :: eh_globals

definition exc_check :: "exc_info \<Rightarrow> bool" where
  "exc_check e \<longleftrightarrow> (active e \<noteq> NULL \<longrightarrow> 0 <s uncaughtExceptions (runtime_state e))"

text \<open>The record made from the thread's state, which is read and cleared.\<close>

definition exc_make :: "eh_globals \<Rightarrow> ptr \<Rightarrow> bool \<Rightarrow> exc_info \<times> eh_globals" where
  "exc_make state_in exc_in rethrow_in =
     (\<lparr>active = exc_in, rethrow = rethrow_in, runtime_state = state_in\<rparr>,
      state_in\<lparr>caughtExceptions := [], uncaughtExceptions := 0\<rparr>)"

definition exc_empty :: "exc_info \<Rightarrow> bool" where
  "exc_empty e \<longleftrightarrow> active e = NULL \<and> \<not> rethrow e \<and> caughtExceptions (runtime_state e) = [] \<and>
     uncaughtExceptions (runtime_state e) = 0"

definition exc_destruct :: "exc_info \<Rightarrow> exc_info" where
  "exc_destruct e = e\<lparr>active := NULL, runtime_state := (runtime_state e)\<lparr>caughtExceptions := []\<rparr>\<rparr>"

text \<open>\<open>info\<close> is the block the allocator gives for the record.\<close>

definition save_exception_info ::
  "ptr \<Rightarrow> ptr \<Rightarrow> eh_globals \<Rightarrow> ptr \<Rightarrow> bool \<Rightarrow> rt \<times> (ptr \<Rightarrow> exc_info) \<Rightarrow> (eh_globals \<times> rt \<times> (ptr \<Rightarrow> exc_info)) option" where
  "save_exception_info w info state exc_in rethrow_in sh =
     (case sh of (s, h) \<Rightarrow>
     do { cilk_assert (info \<noteq> NULL);
          let (e, state') = exc_make state exc_in rethrow_in;
          cilk_assert (w_pending_exception (wks s w) = NULL);
          Some (state', upd_w w (w_pending_exception_update (\<lambda>_. info)) s, h(info := e)) })"

definition save_exception_state ::
  "ptr \<Rightarrow> ptr \<Rightarrow> ptr \<Rightarrow> eh_globals \<Rightarrow> rt \<times> (ptr \<Rightarrow> exc_info) \<Rightarrow> (eh_globals \<times> rt \<times> (ptr \<Rightarrow> exc_info)) option" where
  "save_exception_state w ff info state sh =
     do { (state', s, h) \<leftarrow> save_exception_info w info state NULL False sh;
          cilk_assert (ff_pending_exception (ffs s ff) = NULL);
          let s1 = upd_ff ff (ff_pending_exception_update (\<lambda>_. w_pending_exception (wks s w))) s;
          Some (state', upd_w w (w_pending_exception_update (\<lambda>_. NULL)) s1, h) }"

text \<open>Merging the record \<open>r\<close> into the serially earlier \<open>l\<close>.\<close>

definition merge_exc :: "exc_info \<Rightarrow> exc_info \<Rightarrow> (exc_info \<times> exc_info) option" where
  "merge_exc l r =
     do { (l1, r1) \<leftarrow>
            (if caughtExceptions (runtime_state l) \<noteq> []
             then do { cilk_assert (caughtExceptions (runtime_state r) = []); Some (l, r) }
             else do { cilk_assert (\<not> rethrow l);
                       Some (l\<lparr>rethrow := rethrow r,
                               runtime_state := (runtime_state l)\<lparr>caughtExceptions := caughtExceptions (runtime_state r)\<rparr>\<rparr>,
                             r\<lparr>runtime_state := (runtime_state r)\<lparr>caughtExceptions := []\<rparr>\<rparr>) });
          let right_uncaught = uncaughtExceptions (runtime_state r1);
          if active l1 = NULL
          then Some (l1\<lparr>active := active r1,
                        runtime_state := (runtime_state l1)\<lparr>uncaughtExceptions :=
                          uncaughtExceptions (runtime_state l1) + right_uncaught\<rparr>\<rparr>,
                     r1\<lparr>active := NULL\<rparr>)
          else Some (l1\<lparr>runtime_state := (runtime_state l1)\<lparr>uncaughtExceptions :=
                          uncaughtExceptions (runtime_state l1) +
                          (right_uncaught - (if active r1 \<noteq> NULL then 1 else 0))\<rparr>\<rparr>, r1) }"

definition merge_pending_exceptions :: "ptr \<Rightarrow> ptr \<Rightarrow> (ptr \<Rightarrow> exc_info) \<Rightarrow> (ptr \<times> (ptr \<Rightarrow> exc_info)) option" where
  "merge_pending_exceptions left right h =
     (if left = NULL then Some (right, h)
      else if right = NULL then Some (left, h)
      else do { (l, r) \<leftarrow> merge_exc (h left) (h right);
                let h1 = h(left := l, right := exc_destruct r);
                Some (if exc_empty l then (NULL, h1(left := exc_destruct l)) else (left, h1)) })"

subsection \<open>The first exception wins\<close>

text \<open>What a chain of records in serial order stands for: the first active exception.\<close>

fun first_active :: "exc_info list \<Rightarrow> ptr" where
  "first_active [] = NULL"
| "first_active (e # es) = (if active e \<noteq> NULL then active e else first_active es)"

definition exc_active :: "(ptr \<Rightarrow> exc_info) \<Rightarrow> ptr \<Rightarrow> ptr" where
  "exc_active h p = (if p = NULL then NULL else active (h p))"

lemma merge_exc_active:
  assumes "merge_exc l r = Some (l', r')"
  shows "active l' = (if active l \<noteq> NULL then active l else active r)"
  using assms by (auto simp: merge_exc_def bind_eq_Some_conv cilk_assert_def Let_def split: if_splits)

lemma merge_pending_active:
  assumes "merge_pending_exceptions left right h = Some (p, h')" and "left \<noteq> right \<or> left = NULL"
  shows "exc_active h' p = (if exc_active h left \<noteq> NULL then exc_active h left else exc_active h right)"
    and "p \<in> {left, right, NULL}" and "x \<noteq> left \<Longrightarrow> x \<noteq> right \<Longrightarrow> h' x = h x"
proof -
  consider "left = NULL" | "left \<noteq> NULL" "right = NULL" | "left \<noteq> NULL" "right \<noteq> NULL" by blast
  then show "exc_active h' p = (if exc_active h left \<noteq> NULL then exc_active h left else exc_active h right)"
  proof cases
    case 3
    then obtain l r where m: "merge_exc (h left) (h right) = Some (l, r)" using assms(1)
      by (auto simp: merge_pending_exceptions_def bind_eq_Some_conv)
    from merge_exc_active [OF m] assms 3 m show ?thesis
      by (auto simp: merge_pending_exceptions_def exc_active_def exc_empty_def exc_destruct_def Let_def split: if_splits)
  qed (use assms in \<open>auto simp: merge_pending_exceptions_def exc_active_def\<close>)
  show "p \<in> {left, right, NULL}" and "x \<noteq> left \<Longrightarrow> x \<noteq> right \<Longrightarrow> h' x = h x"
    using assms(1) by (auto simp: merge_pending_exceptions_def bind_eq_Some_conv Let_def split: if_splits)
qed

text \<open>A slot into which the records \<open>ps\<close> are merged one after the other.\<close>

fun merge_all :: "ptr \<Rightarrow> ptr list \<Rightarrow> (ptr \<Rightarrow> exc_info) \<Rightarrow> (ptr \<times> (ptr \<Rightarrow> exc_info)) option" where
  "merge_all left [] h = Some (left, h)"
| "merge_all left (p # ps) h = do { (left', h') \<leftarrow> merge_pending_exceptions left p h; merge_all left' ps h' }"


definition exc_demo :: "ptr \<Rightarrow> exc_info" where
  "exc_demo p = \<lparr>active = (if p = 2 then 20 else if p = 3 then 30 else NULL), rethrow = False,
     runtime_state = \<lparr>caughtExceptions = [], uncaughtExceptions = (if p = 1 then 0 else 1)\<rparr>\<rparr>"


end
