(* ===== verification/Reductions.thy ===== *)
theory Reductions
  imports Exceptions Full_Frame_Proofs
begin

text \<open>
  The reducer protocol (runtime/scheduler.c, from \<open>compute_left_ptrs_for_spawn_return\<close> on, and
  \<open>repeated_merge_reducer_maps\<close>): where a child that returns, or a parent that stalls at a sync,
  deposits its reducer map and its exception, and the loops that merge maps with the lock of the
  parent released. The store is \<open>rt\<close> with the pending exceptions and, for each reducer map, the
  sequence of updates it stands for: merging two maps concatenates them, whichever of the two
  structures survives. \<open>into_left\<close> is the choice that \<open>merge_reducer_maps\<close> makes from the two
  maps. The user's reduce functions run without using reducers themselves.

  A worker holds the parent's frame lock in the sections \<open>fast_path_reductions_for_spawn_return\<close>,
  \<open>slow_section\<close> and \<open>sync_section\<close>; the merges happen between them.
\<close>

record 'a red =
  rs :: rt
  excs :: "ptr \<Rightarrow> exc_info"
  rcont :: "ptr \<Rightarrow> 'a list"

definition upd_rs :: "(rt \<Rightarrow> rt) \<Rightarrow> 'a red \<Rightarrow> 'a red" where
  "upd_rs f z = z\<lparr>rs := f (rs z)\<rparr>"

subsection \<open>The place to the left\<close>

datatype left_place = Right_of ptr | Children_of ptr

definition compute_left_ptrs_for_spawn_return :: "ptr \<Rightarrow> rt \<Rightarrow> left_place" where
  "compute_left_ptrs_for_spawn_return ff s =
     (if left_sibling (ffs s ff) \<noteq> NULL then Right_of (left_sibling (ffs s ff)) else Children_of (parent (ffs s ff)))"

definition compute_left_ptrs_for_sync :: "ptr \<Rightarrow> rt \<Rightarrow> left_place option" where
  "compute_left_ptrs_for_sync ff s =
     (if rightmost_child (ffs s ff) \<noteq> NULL
      then do { cilk_assert (parent (ffs s (rightmost_child (ffs s ff))) = ff); Some (Right_of (rightmost_child (ffs s ff))) }
      else Some (Children_of ff))"

fun left_map :: "left_place \<Rightarrow> rt \<Rightarrow> ptr" where
  "left_map (Right_of f) s = right_reducer_map (ffs s f)"
| "left_map (Children_of f) s = children_reducer_map (ffs s f)"

fun set_left_map :: "left_place \<Rightarrow> ptr \<Rightarrow> rt \<Rightarrow> rt" where
  "set_left_map (Right_of f) m s = upd_ff f (right_reducer_map_update (\<lambda>_. m)) s"
| "set_left_map (Children_of f) m s = upd_ff f (children_reducer_map_update (\<lambda>_. m)) s"

fun left_exception :: "left_place \<Rightarrow> rt \<Rightarrow> ptr" where
  "left_exception (Right_of f) s = right_pending_exception (ffs s f)"
| "left_exception (Children_of f) s = child_pending_exception (ffs s f)"

fun set_left_exception :: "left_place \<Rightarrow> ptr \<Rightarrow> rt \<Rightarrow> rt" where
  "set_left_exception (Right_of f) e s = upd_ff f (right_pending_exception_update (\<lambda>_. e)) s"
| "set_left_exception (Children_of f) e s = upd_ff f (child_pending_exception_update (\<lambda>_. e)) s"

subsection \<open>Merging\<close>

definition merge_exceptions_into :: "left_place \<Rightarrow> ptr \<Rightarrow> 'a red \<Rightarrow> 'a red option" where
  "merge_exceptions_into loc e z =
     do { (p, h) \<leftarrow> merge_pending_exceptions (left_exception loc (rs z)) e (excs z);
          Some (upd_rs (set_left_exception loc p) z\<lparr>excs := h\<rparr>) }"

definition splice_exceptions_for_spawn :: "ptr \<Rightarrow> left_place \<Rightarrow> 'a red \<Rightarrow> 'a red option" where
  "splice_exceptions_for_spawn ff loc z =
     do { z1 \<leftarrow> merge_exceptions_into loc (ff_pending_exception (ffs (rs z) ff)) z;
          let z2 = upd_rs (upd_ff ff (ff_pending_exception_update (\<lambda>_. NULL))) z1;
          z3 \<leftarrow> merge_exceptions_into loc (right_pending_exception (ffs (rs z2) ff)) z2;
          Some (upd_rs (upd_ff ff (right_pending_exception_update (\<lambda>_. NULL))) z3) }"

text \<open>\<open>merge_reducer_maps\<close> at the level of the pointers.\<close>

definition merge_maps :: "(ptr \<Rightarrow> ptr \<Rightarrow> bool) \<Rightarrow> ptr \<Rightarrow> ptr \<Rightarrow> (ptr \<Rightarrow> 'a list) \<Rightarrow> ptr \<times> (ptr \<Rightarrow> 'a list)" where
  "merge_maps into_left l r c =
     (if l = NULL then (r, c) else if r = NULL then (l, c)
      else if into_left l r then (l, c(l := c l @ c r)) else (r, c(r := c l @ c r)))"

partial_function (option) repeated_merge_reducer_maps ::
  "(ptr \<Rightarrow> ptr \<Rightarrow> bool) \<Rightarrow> ptr \<Rightarrow> ptr \<Rightarrow> ptr \<Rightarrow> 'a red \<Rightarrow> (ptr \<times> 'a red) option" where
  [code]: "repeated_merge_reducer_maps into_left w l r z =
     (let (l', c) = merge_maps into_left l r (rcont z);
          r' = reducer_map (wks (rs z) w);
          z' = upd_rs (upd_w w (reducer_map_update (\<lambda>_. NULL))) (z\<lparr>rcont := c\<rparr>)
      in if r' \<noteq> NULL then repeated_merge_reducer_maps into_left w l' r' z' else Some (l', z'))"

subsection \<open>A child returns\<close>

text \<open>\<open>None\<close> inside is the null pointer: nothing is left to reduce.\<close>

definition fast_path_reductions_for_spawn_return :: "ptr \<Rightarrow> ptr \<Rightarrow> 'a red \<Rightarrow> (left_place option \<times> 'a red) option" where
  "fast_path_reductions_for_spawn_return w ff z =
     do { cilk_assert (w_pending_exception (wks (rs z) w) = NULL);
          let loc = compute_left_ptrs_for_spawn_return ff (rs z);
          z1 \<leftarrow> splice_exceptions_for_spawn ff loc z;
          let l = (left_map loc (rs z1) \<noteq> NULL);
          let m = (reducer_map (wks (rs z1) w) \<noteq> NULL);
          let r = (right_reducer_map (ffs (rs z1) ff) \<noteq> NULL);
          Some (if \<not> m \<and> \<not> r then (None, z1)
                else if \<not> l \<and> m \<and> \<not> r then
                  (None, upd_rs (\<lambda>s. upd_w w (reducer_map_update (\<lambda>_. NULL)) (set_left_map loc (reducer_map (wks s w)) s)) z1)
                else if \<not> l \<and> \<not> m \<and> r then
                  (None, upd_rs (\<lambda>s. upd_ff ff (right_reducer_map_update (\<lambda>_. NULL))
                                       (set_left_map loc (right_reducer_map (ffs s ff)) s)) z1)
                else (Some loc, z1)) }"

text \<open>The loop of the slow path up to the release of the lock: the maps slide to the left, and the
  three maps are taken unless nothing is left to merge.\<close>

definition slow_section :: "ptr \<Rightarrow> ptr \<Rightarrow> left_place \<Rightarrow> rt \<Rightarrow> (ptr \<times> ptr \<times> ptr) option \<times> rt" where
  "slow_section w ff loc s =
     (let s1 = (if left_map loc s = NULL
                then upd_w w (reducer_map_update (\<lambda>_. NULL)) (set_left_map loc (reducer_map (wks s w)) s) else s);
          s2 = (if reducer_map (wks s1 w) = NULL
                then upd_ff ff (right_reducer_map_update (\<lambda>_. NULL))
                       (upd_w w (reducer_map_update (\<lambda>_. right_reducer_map (ffs s1 ff))) s1) else s1)
      in if reducer_map (wks s2 w) = NULL then (None, s2)
         else let l = left_map loc s2; s3 = set_left_map loc NULL s2;
                  m = reducer_map (wks s3 w); s4 = upd_w w (reducer_map_update (\<lambda>_. NULL)) s3;
                  r = right_reducer_map (ffs s4 ff); s5 = upd_ff ff (right_reducer_map_update (\<lambda>_. NULL)) s4
              in (Some (l, m, r), s5))"

text \<open>Without the lock: merge, and put the result and the exceptions of the reductions where the
  next round finds them.\<close>

definition slow_merge :: "(ptr \<Rightarrow> ptr \<Rightarrow> bool) \<Rightarrow> ptr \<Rightarrow> ptr \<Rightarrow> ptr \<times> ptr \<times> ptr \<Rightarrow> 'a red \<Rightarrow> 'a red option" where
  "slow_merge into_left w ff lmr z =
     (case lmr of (l, m, r) \<Rightarrow>
     do { (l1, z1) \<leftarrow> repeated_merge_reducer_maps into_left w l m z;
          (l2, z2) \<leftarrow> repeated_merge_reducer_maps into_left w l1 r z1;
          cilk_assert (reducer_map (wks (rs z2) w) = NULL);
          let z3 = upd_rs (upd_w w (reducer_map_update (\<lambda>_. l2))) z2;
          cilk_assert (ff_pending_exception (ffs (rs z3) ff) = NULL);
          Some (upd_rs (\<lambda>s. upd_w w (w_pending_exception_update (\<lambda>_. NULL))
                  (upd_ff ff (ff_pending_exception_update (\<lambda>_. w_pending_exception (wks s w))) s)) z3) })"

text \<open>With the lock again: who is to the left may have changed.\<close>

definition slow_retry :: "ptr \<Rightarrow> 'a red \<Rightarrow> (left_place \<times> 'a red) option" where
  "slow_retry ff z =
     do { let loc = compute_left_ptrs_for_spawn_return ff (rs z);
          z1 \<leftarrow> splice_exceptions_for_spawn ff loc z;
          Some (loc, z1) }"

text \<open>The whole loop when no other worker runs.\<close>

partial_function (option) slow_path_reductions_for_spawn_return ::
  "(ptr \<Rightarrow> ptr \<Rightarrow> bool) \<Rightarrow> ptr \<Rightarrow> ptr \<Rightarrow> left_place \<Rightarrow> 'a red \<Rightarrow> 'a red option" where
  [code]: "slow_path_reductions_for_spawn_return into_left w ff loc z =
     (case slow_section w ff loc (rs z) of
        (None, s) \<Rightarrow> Some (z\<lparr>rs := s\<rparr>)
      | (Some lmr, s) \<Rightarrow>
          do { z1 \<leftarrow> slow_merge into_left w ff lmr (z\<lparr>rs := s\<rparr>);
               (loc', z2) \<leftarrow> slow_retry ff z1;
               slow_path_reductions_for_spawn_return into_left w ff loc' z2 })"

definition finish_spawn_return_on_user_stack :: "ptr \<Rightarrow> ptr \<Rightarrow> ptr \<Rightarrow> rt \<Rightarrow> rt option" where
  "finish_spawn_return_on_user_stack w parent_ff child_ff s =
     do { cilk_assert (fiber_to_free (wks s w) = NULL);
          s1 \<leftarrow> (if left_sibling (ffs s child_ff) \<noteq> NULL \<or> fiber_child (ffs s parent_ff) \<noteq> NULL
                 then do { cilk_assert (fiber_child (ffs s parent_ff) \<noteq> fiber_self (ffs s child_ff));
                           Some (upd_w w (fiber_to_free_update (\<lambda>_. fiber_self (ffs s child_ff))) s) }
                 else Some (upd_w w (fiber_to_free_update (\<lambda>_. NULL))
                        (upd_ff parent_ff (fiber_child_update (\<lambda>_. fiber_self (ffs s child_ff))) s)));
          unlink_child parent_ff child_ff (upd_ff child_ff (fiber_self_update (\<lambda>_. NULL)) s1) }"

definition restore_frame_for_spawn_return_reduction :: "ptr \<Rightarrow> ptr \<Rightarrow> ptr \<Rightarrow> rt \<Rightarrow> rt" where
  "restore_frame_for_spawn_return_reduction w ff returning_sf s =
     make_runnable w ff (upd_w w (current_stack_frame_update (\<lambda>_. returning_sf)) s)"

definition execute_reductions_for_spawn_return ::
  "(ptr \<Rightarrow> ptr \<Rightarrow> bool) \<Rightarrow> ptr \<Rightarrow> ptr \<Rightarrow> ptr \<Rightarrow> 'a red \<Rightarrow> 'a red option" where
  "execute_reductions_for_spawn_return into_left w ff returning_sf z =
     do { let z0 = upd_rs (restore_frame_for_spawn_return_reduction w ff returning_sf) z;
          (loc, z1) \<leftarrow> fast_path_reductions_for_spawn_return w ff z0;
          z2 \<leftarrow> (case loc of None \<Rightarrow> Some z1
                 | Some l \<Rightarrow> slow_path_reductions_for_spawn_return into_left w ff l z1);
          s \<leftarrow> finish_spawn_return_on_user_stack w (parent (ffs (rs z2) ff)) ff (rs z2);
          Some (z2\<lparr>rs := s\<rparr>) }"

subsection \<open>A parent stalls at a sync\<close>

definition fast_path_reductions_for_sync :: "ptr \<Rightarrow> ptr \<Rightarrow> rt \<Rightarrow> bool" where
  "fast_path_reductions_for_sync w ff s \<longleftrightarrow>
     \<not> (reducer_map (wks s w) \<noteq> NULL \<or> ff_pending_exception (ffs s ff) \<noteq> NULL)"

text \<open>One round under the lock with the map \<open>mid\<close> in hand; the pair of maps still to merge, if any.\<close>

definition sync_section :: "ptr \<Rightarrow> ptr \<Rightarrow> 'a red \<Rightarrow> ((ptr \<times> ptr) option \<times> 'a red) option" where
  "sync_section ff mid z =
     do { loc \<leftarrow> compute_left_ptrs_for_sync ff (rs z);
          let l0 = left_map loc (rs z);
          let z1 = upd_rs (set_left_map loc NULL) z;
          let (l, m) = (if l0 = NULL then (mid, NULL) else (l0, mid));
          z2 \<leftarrow> merge_exceptions_into loc (ff_pending_exception (ffs (rs z1) ff)) z1;
          let z3 = upd_rs (upd_ff ff (ff_pending_exception_update (\<lambda>_. NULL))) z2;
          Some (if m = NULL then (None, upd_rs (set_left_map loc l) z3) else (Some (l, m), z3)) }"

definition sync_merge :: "(ptr \<Rightarrow> ptr \<Rightarrow> bool) \<Rightarrow> ptr \<Rightarrow> ptr \<Rightarrow> ptr \<times> ptr \<Rightarrow> 'a red \<Rightarrow> (ptr \<times> 'a red) option" where
  "sync_merge into_left w ff lm z =
     do { (m, z1) \<leftarrow> repeated_merge_reducer_maps into_left w (fst lm) (snd lm) z;
          cilk_assert (ff_pending_exception (ffs (rs z1) ff) = NULL);
          Some (m, upd_rs (\<lambda>s. upd_w w (w_pending_exception_update (\<lambda>_. NULL))
                  (upd_ff ff (ff_pending_exception_update (\<lambda>_. w_pending_exception (wks s w))) s)) z1) }"

partial_function (option) sync_loop :: "(ptr \<Rightarrow> ptr \<Rightarrow> bool) \<Rightarrow> ptr \<Rightarrow> ptr \<Rightarrow> ptr \<Rightarrow> 'a red \<Rightarrow> 'a red option" where
  [code]: "sync_loop into_left w ff mid z =
     do { (lm, z1) \<leftarrow> sync_section ff mid z;
          (case lm of None \<Rightarrow> Some z1
           | Some p \<Rightarrow> do { (m, z2) \<leftarrow> sync_merge into_left w ff p z1; sync_loop into_left w ff m z2 }) }"

definition slow_path_reductions_for_sync :: "(ptr \<Rightarrow> ptr \<Rightarrow> bool) \<Rightarrow> ptr \<Rightarrow> ptr \<Rightarrow> 'a red \<Rightarrow> 'a red option" where
  "slow_path_reductions_for_sync into_left w ff z =
     sync_loop into_left w ff (reducer_map (wks (rs z) w)) (upd_rs (upd_w w (reducer_map_update (\<lambda>_. NULL))) z)"

definition execute_reductions_for_sync :: "(ptr \<Rightarrow> ptr \<Rightarrow> bool) \<Rightarrow> ptr \<Rightarrow> ptr \<Rightarrow> ptr \<Rightarrow> 'a red \<Rightarrow> 'a red option" where
  "execute_reductions_for_sync into_left w ff sf_at_sync z =
     do { let z1 = upd_rs (\<lambda>s. make_unrunnable_sysdep ff sf_at_sync True
                     (put_stack ff sf_at_sync (upd_ff ff (call_stack_update (\<lambda>_. NULL)) s))) z;
          cilk_assert (flags (sfs (rs z) sf_at_sync) OR CILK_FRAME_STOLEN \<noteq> 0);
          cilk_assert (w_frame_ff (wks (rs z1) w) = ff);
          z2 \<leftarrow> (if fast_path_reductions_for_sync w ff (rs z1) then Some z1
                 else slow_path_reductions_for_sync into_left w ff z1);
          cilk_assert (w_frame_ff (wks (rs z2) w) = ff);
          cilk_assert (call_stack (ffs (rs z2) ff) = NULL);
          Some (upd_rs (\<lambda>s. let s1 = upd_sf sf_at_sync (\<lambda>x. x\<lparr>flags := flags x OR CILK_FRAME_SUSPENDED\<rparr>)
                                        (upd_ff ff (call_stack_update (\<lambda>_. sf_at_sync)) s);
                                s2 = upd_w w (fiber_to_free_update (\<lambda>_. fiber_self (ffs s1 ff))) s1
                            in upd_ff ff (fiber_self_update (\<lambda>_. NULL)) s2) z2) }"

end
