(* ===== verification/Reductions_Order.thy ===== *)
theory Reductions_Order
  imports Reductions
begin

text \<open>
  The reducer protocol keeps the serial order: while the children of a frame return and the frame
  itself stalls at its sync, in any interleaving of their sections under the frame's lock and
  of the merges between them, the updates held in the maps, read from left to right, stay the same
  sequence. At the end they are all in the frame's \<open>children_reducer_map\<close>.
\<close>

subsection \<open>A family: a frame and its children\<close>

text \<open>A child is running, has taken three maps to merge them without the lock, or waits to lock the
  parent again.\<close>

datatype phase = Running | Merging ptr ptr ptr | Retry

datatype parent_phase = PRunning | PHand ptr | PMerging ptr ptr | PDone

record 'a family =
  fz :: "'a red"
  fxs :: "ptr list"
  fph :: "ptr \<Rightarrow> phase"
  fpp :: parent_phase

text \<open>\<open>wk f\<close> is the worker that executes the child \<open>f\<close>, \<open>pw\<close> the one of the parent \<open>p\<close>.\<close>

definition finish_child :: "ptr \<Rightarrow> (ptr \<Rightarrow> ptr) \<Rightarrow> ptr \<Rightarrow> 'a red \<Rightarrow> 'a family \<Rightarrow> 'a family option" where
  "finish_child p wk f z F =
     do { s \<leftarrow> finish_spawn_return_on_user_stack (wk f) p f (rs z);
          Some (F\<lparr>fz := z\<lparr>rs := s\<rparr>, fxs := remove1 f (fxs F)\<rparr>) }"

definition slow_child :: "ptr \<Rightarrow> (ptr \<Rightarrow> ptr) \<Rightarrow> ptr \<Rightarrow> left_place \<Rightarrow> 'a red \<Rightarrow> 'a family \<Rightarrow> 'a family option" where
  "slow_child p wk f loc z F =
     (case slow_section (wk f) f loc (rs z) of
        (None, s) \<Rightarrow> finish_child p wk f (z\<lparr>rs := s\<rparr>) F
      | (Some (l, m, r), s) \<Rightarrow> Some (F\<lparr>fz := z\<lparr>rs := s\<rparr>, fph := (fph F)(f := Merging l m r)\<rparr>))"

definition child_step :: "(ptr \<Rightarrow> ptr \<Rightarrow> bool) \<Rightarrow> ptr \<Rightarrow> (ptr \<Rightarrow> ptr) \<Rightarrow> ptr \<Rightarrow> 'a family \<Rightarrow> 'a family option" where
  "child_step into_left p wk f F =
     (case fph F f of
        Running \<Rightarrow>
          do { (loc, z) \<leftarrow> fast_path_reductions_for_spawn_return (wk f) f (fz F);
               (case loc of None \<Rightarrow> finish_child p wk f z F | Some l \<Rightarrow> slow_child p wk f l z F) }
      | Merging l m r \<Rightarrow>
          do { z \<leftarrow> slow_merge into_left (wk f) f (l, m, r) (fz F);
               Some (F\<lparr>fz := z, fph := (fph F)(f := Retry)\<rparr>) }
      | Retry \<Rightarrow> do { (loc, z) \<leftarrow> slow_retry f (fz F); slow_child p wk f loc z F })"

definition parent_step :: "(ptr \<Rightarrow> ptr \<Rightarrow> bool) \<Rightarrow> ptr \<Rightarrow> ptr \<Rightarrow> 'a family \<Rightarrow> 'a family option" where
  "parent_step into_left p pw F =
     (case fpp F of
        PRunning \<Rightarrow> Some (F\<lparr>fz := upd_rs (upd_w pw (reducer_map_update (\<lambda>_. NULL))) (fz F),
                           fpp := PHand (reducer_map (wks (rs (fz F)) pw))\<rparr>)
      | PHand m \<Rightarrow>
          do { (lm, z) \<leftarrow> sync_section p m (fz F);
               Some (F\<lparr>fz := z, fpp := (case lm of None \<Rightarrow> PDone | Some (l, m') \<Rightarrow> PMerging l m')\<rparr>) }
      | PMerging l m \<Rightarrow>
          do { (m', z) \<leftarrow> sync_merge into_left pw p (l, m) (fz F);
               Some (F\<lparr>fz := z, fpp := PHand m'\<rparr>) }
      | PDone \<Rightarrow> None)"

inductive family_step :: "(ptr \<Rightarrow> ptr \<Rightarrow> bool) \<Rightarrow> ptr \<Rightarrow> ptr \<Rightarrow> (ptr \<Rightarrow> ptr) \<Rightarrow> 'a family \<Rightarrow> 'a family \<Rightarrow> bool"
  for into_left p pw wk where
  child: "f \<in> set (fxs F) \<Longrightarrow> child_step into_left p wk f F = Some F' \<Longrightarrow> family_step into_left p pw wk F F'"
| parent: "parent_step into_left p pw F = Some F' \<Longrightarrow> family_step into_left p pw wk F F'"

subsection \<open>The places of the maps, from left to right\<close>

definition nn :: "ptr list \<Rightarrow> ptr list" where "nn = filter (\<lambda>p. p \<noteq> NULL)"

lemma nn_simps [simp]: "nn [] = []" "nn (x # xs) = (if x = NULL then nn xs else x # nn xs)" "nn (xs @ ys) = nn xs @ nn ys"
  by (simp_all add: nn_def)

lemma set_nn: "set (nn xs) = set xs - {NULL}" by (auto simp: nn_def)

definition place :: "rt \<Rightarrow> left_place \<Rightarrow> ptr" where "place s l = left_map l s"

definition wmap :: "rt \<Rightarrow> ptr \<Rightarrow> ptr" where "wmap s w = reducer_map (wks s w)"

fun hand :: "phase \<Rightarrow> ptr list" where
  "hand (Merging l m r) = [l, m, r]"
| "hand _ = []"

fun phand :: "parent_phase \<Rightarrow> ptr list" where
  "phand (PHand m) = [m]"
| "phand (PMerging l m) = [l, m]"
| "phand _ = []"

definition block :: "rt \<Rightarrow> (ptr \<Rightarrow> ptr) \<Rightarrow> (ptr \<Rightarrow> phase) \<Rightarrow> ptr \<Rightarrow> ptr list" where
  "block s wk ph f = hand (ph f) @ [wmap s (wk f), place s (Right_of f)]"

definition slots :: "ptr \<Rightarrow> ptr \<Rightarrow> (ptr \<Rightarrow> ptr) \<Rightarrow> rt \<Rightarrow> ptr list \<Rightarrow> (ptr \<Rightarrow> phase) \<Rightarrow> parent_phase \<Rightarrow> ptr list" where
  "slots p pw wk s xs ph pp =
     place s (Children_of p) # concat (map (block s wk ph) xs) @ phand pp @ [wmap s pw]"

definition left_place_of :: "ptr \<Rightarrow> ptr list \<Rightarrow> left_place" where
  "left_place_of p as = (if as = [] then Children_of p else Right_of (last as))"

text \<open>Only the places around one child change.\<close>

lemma slots_at:
  assumes d: "distinct (as @ f # bs)" and inj: "inj_on wk (set (as @ f # bs))" and pw: "pw \<notin> wk ` set (as @ f # bs)"
    and pl: "\<And>l. l \<noteq> left_place_of p as \<Longrightarrow> l \<noteq> Right_of f \<Longrightarrow> place s' l = place s l"
    and w: "\<And>v. v \<noteq> wk f \<Longrightarrow> wmap s' v = wmap s v"
    and h: "\<And>g. g \<noteq> f \<Longrightarrow> ph' g = ph g"
  shows "\<exists>pre post.
    slots p pw wk s (as @ f # bs) ph pp = pre @ [place s (left_place_of p as)] @ block s wk ph f @ post \<and>
    slots p pw wk s' (as @ f # bs) ph' pp = pre @ [place s' (left_place_of p as)] @ block s' wk ph' f @ post \<and>
    slots p pw wk s' (as @ bs) ph' pp = pre @ [place s' (left_place_of p as)] @ post"
proof -
  have wf: "wk g \<noteq> wk f" if "g \<in> set (as @ bs)" for g
  proof
    assume "wk g = wk f"
    then have "g = f" using inj that by (auto simp: inj_on_def)
    then show False using d that by auto
  qed
  have blk: "block s' wk ph' g = block s wk ph g" if "g \<in> set (as @ bs)" "Right_of g \<noteq> left_place_of p as" for g
  proof -
    have "g \<noteq> f" using d that(1) by auto
    then show ?thesis using that wf [OF that(1)] pl w h by (simp add: block_def)
  qed
  have post: "concat (map (block s' wk ph') bs) @ phand pp @ [wmap s' pw] = concat (map (block s wk ph) bs) @ phand pp @ [wmap s pw]"
  proof -
    have "block s' wk ph' g = block s wk ph g" if "g \<in> set bs" for g
    proof (rule blk)
      show "Right_of g \<noteq> left_place_of p as"
        using d that by (cases as rule: rev_cases) (auto simp: left_place_of_def)
    qed (simp add: that)
    then have "map (block s' wk ph') bs = map (block s wk ph) bs" by simp
    moreover have "wk f \<in> wk ` set (as @ f # bs)" by simp
    ultimately show ?thesis using w [of pw] pw by metis
  qed
  show ?thesis
  proof (cases as rule: rev_cases)
    case Nil
    have "slots p pw wk s' (as @ f # bs) ph' pp = [] @ [place s' (left_place_of p as)] @ block s' wk ph' f @
        (concat (map (block s wk ph) bs) @ phand pp @ [wmap s pw])"
      "slots p pw wk s' (as @ bs) ph' pp = [] @ [place s' (left_place_of p as)] @
        (concat (map (block s wk ph) bs) @ phand pp @ [wmap s pw])"
      unfolding post [symmetric] using Nil by (simp_all add: slots_def left_place_of_def)
    moreover have "slots p pw wk s (as @ f # bs) ph pp = [] @ [place s (left_place_of p as)] @ block s wk ph f @
        (concat (map (block s wk ph) bs) @ phand pp @ [wmap s pw])"
      using Nil by (simp add: slots_def left_place_of_def)
    ultimately show ?thesis by blast
  next
    case (snoc as' g)
    have "block s' wk ph' x = block s wk ph x" if "x \<in> set as'" for x
    proof (rule blk)
      show "Right_of x \<noteq> left_place_of p as" using d that snoc by (auto simp: left_place_of_def)
    qed (simp add: that snoc)
    then have m: "concat (map (block s' wk ph') as') = concat (map (block s wk ph) as')" by (simp cong: map_cong)
    have g: "g \<noteq> f" "wk g \<noteq> wk f" using d wf snoc by auto
    have c: "place s' (Children_of p) = place s (Children_of p)"
      by (rule pl) (simp_all add: left_place_of_def snoc)
    have bg: "block s' wk ph' g = (hand (ph g) @ [wmap s (wk g)]) @ [place s' (left_place_of p as)]"
      "block s wk ph g = (hand (ph g) @ [wmap s (wk g)]) @ [place s (left_place_of p as)]"
      using g w h snoc by (simp_all add: block_def left_place_of_def)
    define pre where "pre = place s (Children_of p) # concat (map (block s wk ph) as') @ hand (ph g) @ [wmap s (wk g)]"
    define post' where "post' = concat (map (block s wk ph) bs) @ phand pp @ [wmap s pw]"
    have "slots p pw wk s' (as @ f # bs) ph' pp = pre @ [place s' (left_place_of p as)] @ block s' wk ph' f @ post'"
      "slots p pw wk s' (as @ bs) ph' pp = pre @ [place s' (left_place_of p as)] @ post'"
      unfolding post'_def post [symmetric] pre_def m [symmetric] c [symmetric] using bg(1)
      by (simp_all add: slots_def snoc)
    moreover have "slots p pw wk s (as @ f # bs) ph pp = pre @ [place s (left_place_of p as)] @ block s wk ph f @ post'"
      unfolding post'_def pre_def using bg(2) by (simp add: slots_def snoc)
    ultimately show ?thesis by blast
  qed
qed

subsection \<open>What a section under the lock does\<close>

definition link :: "rt \<Rightarrow> ptr \<Rightarrow> ptr \<times> ptr \<times> ptr \<times> ptr" where
  "link s x = (left_sibling (ffs s x), right_sibling (ffs s x), rightmost_child (ffs s x), parent (ffs s x))"

definition links_same :: "rt \<Rightarrow> rt \<Rightarrow> bool" where
  "links_same s s' \<longleftrightarrow> link s' = link s"

lemma place_cases: "place s l = (case l of Right_of f \<Rightarrow> right_reducer_map (ffs s f) | Children_of f \<Rightarrow> children_reducer_map (ffs s f))"
  by (cases l) (simp_all add: place_def)

definition maps_same :: "rt \<Rightarrow> rt \<Rightarrow> bool" where
  "maps_same s s' \<longleftrightarrow> links_same s s' \<and> (\<forall>l. place s' l = place s l) \<and> (\<forall>v. wmap s' v = wmap s v)"

text \<open>Maps move between the place on the left, the worker, the child's own place and the hand \<open>H\<close>,
  in order.\<close>

definition slide :: "ptr \<Rightarrow> ptr \<Rightarrow> left_place \<Rightarrow> ptr list \<Rightarrow> rt \<Rightarrow> rt \<Rightarrow> bool" where
  "slide w f loc H s s' \<longleftrightarrow> links_same s s' \<and> (\<forall>l. l \<noteq> loc \<longrightarrow> l \<noteq> Right_of f \<longrightarrow> place s' l = place s l) \<and>
     (\<forall>v. v \<noteq> w \<longrightarrow> wmap s' v = wmap s v) \<and>
     nn ([place s' loc] @ H @ [wmap s' w, place s' (Right_of f)]) = nn [place s loc, wmap s w, place s (Right_of f)]"

lemma maps_same_refl: "maps_same s s"
  by (simp add: maps_same_def links_same_def)

lemma maps_same_trans: "maps_same s s1 \<Longrightarrow> maps_same s1 s2 \<Longrightarrow> maps_same s s2"
  by (simp add: maps_same_def links_same_def)

lemma slide_same: "maps_same s s' \<Longrightarrow> slide w f loc [] s s'"
  by (simp add: maps_same_def slide_def)

lemma slide_trans: "slide w f loc [] s s1 \<Longrightarrow> slide w f loc H s1 s2 \<Longrightarrow> slide w f loc H s s2"
  by (simp add: slide_def links_same_def)

lemma set_left_exception_same: "maps_same s (set_left_exception loc e s)"
  by (cases loc) (simp_all add: maps_same_def links_same_def fun_eq_iff link_def place_cases wmap_def split: left_place.split)

lemma pending_same:
  "maps_same s (upd_ff f (ff_pending_exception_update g) s)" "maps_same s (upd_ff f (right_pending_exception_update g) s)"
  "maps_same s (upd_w v (w_pending_exception_update h) s)"
  by (simp_all add: maps_same_def links_same_def fun_eq_iff link_def place_cases wmap_def split: left_place.split)

lemma merge_exceptions_into_same:
  "merge_exceptions_into loc e z = Some z' \<Longrightarrow> maps_same (rs z) (rs z') \<and> rcont z' = rcont z"
  by (auto simp: merge_exceptions_into_def bind_eq_Some_conv upd_rs_def set_left_exception_same)

lemma splice_exceptions_same:
  assumes "splice_exceptions_for_spawn f loc z = Some z'"
  shows "maps_same (rs z) (rs z') \<and> rcont z' = rcont z"
proof -
  from assms obtain z1 z3 where z1: "merge_exceptions_into loc (ff_pending_exception (ffs (rs z) f)) z = Some z1"
    and z3: "merge_exceptions_into loc (right_pending_exception (ffs (rs (upd_rs (upd_ff f (ff_pending_exception_update (\<lambda>_. NULL))) z1)) f))
        (upd_rs (upd_ff f (ff_pending_exception_update (\<lambda>_. NULL))) z1) = Some z3"
    and z': "z' = upd_rs (upd_ff f (right_pending_exception_update (\<lambda>_. NULL))) z3"
    by (auto simp: splice_exceptions_for_spawn_def bind_eq_Some_conv Let_def)
  note a = merge_exceptions_into_same [OF z1] and b = merge_exceptions_into_same [OF z3]
  have "maps_same (rs z1) (rs (upd_rs (upd_ff f (ff_pending_exception_update (\<lambda>_. NULL))) z1))"
    "maps_same (rs z3) (rs z')" by (simp_all add: upd_rs_def z' pending_same)
  then show ?thesis using a b maps_same_trans by (metis (no_types, lifting) upd_rs_def z' red.select_convs(3) red.surjective red.update_convs(1))
qed

lemma set_left_map_effect:
  "link (set_left_map loc m s) = link s" "place (set_left_map loc m s) l = (if l = loc then m else place s l)"
  "wmap (set_left_map loc m s) v = wmap s v"
  by (cases loc; simp add: fun_eq_iff link_def place_cases wmap_def split: left_place.split)+

lemma wmap_upd: "wmap (upd_w v (reducer_map_update (\<lambda>_. m)) s) u = (if u = v then m else wmap s u)"
  "place (upd_w v (reducer_map_update (\<lambda>_. m)) s) l = place s l"
  "link (upd_w v (reducer_map_update (\<lambda>_. m)) s) = link s"
  by (simp_all add: wmap_def place_cases link_def fun_eq_iff split: left_place.split)

lemma right_upd: "place (upd_ff f (right_reducer_map_update (\<lambda>_. m)) s) l = (if l = Right_of f then m else place s l)"
  "wmap (upd_ff f (right_reducer_map_update (\<lambda>_. m)) s) v = wmap s v"
  "link (upd_ff f (right_reducer_map_update (\<lambda>_. m)) s) = link s"
  by (simp_all add: wmap_def place_cases link_def fun_eq_iff split: left_place.split)

lemmas map_moves = set_left_map_effect wmap_upd right_upd links_same_def

lemma slow_section_slide:
  assumes "slow_section w f loc s = (o', s')" and "loc \<noteq> Right_of f"
  shows "slide w f loc (case o' of None \<Rightarrow> [] | Some (l, m, r) \<Rightarrow> [l, m, r]) s s' \<and> wmap s' w = NULL \<and>
    (o' = None \<longrightarrow> place s' (Right_of f) = NULL)"
proof -
  have R: "right_reducer_map (ffs t f) = place t (Right_of f)" "left_map loc t = place t loc" "reducer_map (wks t w) = wmap t w" for t
    by (simp_all add: place_def wmap_def)
  show ?thesis using assms unfolding slow_section_def R Let_def
    by (auto simp: slide_def map_moves split: if_splits)
qed

lemma fast_path_slide:
  assumes "fast_path_reductions_for_spawn_return w f z = Some (o', z')"
    and "loc = compute_left_ptrs_for_spawn_return f (rs z)" and "loc \<noteq> Right_of f"
  shows "slide w f loc [] (rs z) (rs z') \<and> rcont z' = rcont z \<and>
    (case o' of None \<Rightarrow> wmap (rs z') w = NULL \<and> place (rs z') (Right_of f) = NULL | Some l \<Rightarrow> l = loc)"
proof -
  have R: "right_reducer_map (ffs t f) = place t (Right_of f)" "left_map loc t = place t loc" "reducer_map (wks t w) = wmap t w" for t
    by (simp_all add: place_def wmap_def)
  from assms(1,2) obtain z1 where z1: "splice_exceptions_for_spawn f loc z = Some z1"
    and r: "(o', z') = (if wmap (rs z1) w = NULL \<and> place (rs z1) (Right_of f) = NULL then (None, z1)
        else if place (rs z1) loc = NULL \<and> wmap (rs z1) w \<noteq> NULL \<and> place (rs z1) (Right_of f) = NULL then
          (None, upd_rs (\<lambda>s. upd_w w (reducer_map_update (\<lambda>_. NULL)) (set_left_map loc (wmap s w) s)) z1)
        else if place (rs z1) loc = NULL \<and> wmap (rs z1) w = NULL \<and> place (rs z1) (Right_of f) \<noteq> NULL then
          (None, upd_rs (\<lambda>s. upd_ff f (right_reducer_map_update (\<lambda>_. NULL)) (set_left_map loc (place s (Right_of f)) s)) z1)
        else (Some loc, z1))"
    unfolding fast_path_reductions_for_spawn_return_def Let_def R [symmetric] by (auto simp: bind_eq_Some_conv cilk_assert_def split: if_splits)
  note same = splice_exceptions_same [OF z1]
  have "slide w f loc [] (rs z1) (rs z') \<and> rcont z' = rcont z1 \<and>
      (case o' of None \<Rightarrow> wmap (rs z') w = NULL \<and> place (rs z') (Right_of f) = NULL | Some l \<Rightarrow> l = loc)"
    using r assms(3) by (auto simp: slide_def map_moves upd_rs_def split: if_splits)
  then show ?thesis using same slide_trans [OF slide_same] by auto
qed

text \<open>Splicing a child out leaves the maps alone.\<close>

lemma double_link_same:
  "place (double_link l r s) q = place s q" "wmap (double_link l r s) v = wmap s v" "parent (ffs (double_link l r s) x) = parent (ffs s x)"
  by (simp_all add: double_link_def Let_def place_cases wmap_def split: left_place.split)

lemma unlink_child_same:
  assumes "unlink_child p f s = Some s'"
  shows "place s' q = place s q" "wmap s' v = wmap s v" "parent (ffs s' x) = parent (ffs s x)"
  using assms
  by (auto simp: unlink_child_def bind_eq_Some_conv cilk_assert_def Let_def double_link_def place_cases wmap_def split: if_splits left_place.split)

lemma finish_effect:
  assumes "finish_spawn_return_on_user_stack w p f s = Some s'" and "kids s p (as @ f # bs)"
  shows "kids s' p (as @ bs) \<and> (\<forall>q. place s' q = place s q) \<and> (\<forall>v. wmap s' v = wmap s v) \<and>
    (\<forall>x. parent (ffs s' x) = parent (ffs s x))"
proof -
  from assms(1) obtain s1 where s1: "unlink_child p f s1 = Some s'"
    and e: "link s1 = link s" "\<And>q. place s1 q = place s q" "\<And>v. wmap s1 v = wmap s v"
    by (auto simp: finish_spawn_return_on_user_stack_def bind_eq_Some_conv cilk_assert_def link_def fun_eq_iff place_cases wmap_def
        split: if_splits left_place.split)
  have "kids s1 p (as @ f # bs)"
    by (rule kids_cong [OF assms(2)]) (use e(1) in \<open>auto simp: link_def fun_eq_iff\<close>)
  from unlink_child_kids [OF this] s1 have "kids s' p (as @ bs)" by auto
  moreover have "parent (ffs s1 x) = parent (ffs s x)" for x using fun_cong [OF e(1), of x] by (simp add: link_def)
  ultimately show ?thesis using unlink_child_same [OF s1] e by simp
qed

subsection \<open>What a merge does\<close>

definition content :: "(ptr \<Rightarrow> 'a list) \<Rightarrow> ptr list \<Rightarrow> 'a list" where
  "content c ps = concat (map c (nn ps))"

lemma content_simps [simp]: "content c [] = []" "content c (x # xs) = (if x = NULL then [] else c x) @ content c xs"
  "content c (xs @ ys) = content c xs @ content c ys"
  by (simp_all add: content_def)

lemma content_cong: "(\<And>x. x \<in> set (nn ps) \<Longrightarrow> c' x = c x) \<Longrightarrow> content c' ps = content c ps"
  unfolding content_def by (simp cong: map_cong)

lemma merge_maps_effect:
  assumes "merge_maps into_left l r c = (m, c')" and "distinct (nn [l, r])"
  shows "content c' [m] = content c [l, r]" "m \<in> {l, r}" "m = NULL \<longleftrightarrow> l = NULL \<and> r = NULL" "x \<notin> {l, r} - {NULL} \<Longrightarrow> c' x = c x"
  using assms by (auto simp: merge_maps_def split: if_splits)

lemma repeated_merge_effect:
  assumes "repeated_merge_reducer_maps into_left w l r z = Some (m, z')" and "distinct (nn [l, r])" and "wmap (rs z) w = NULL"
  shows "content (rcont z') [m] = content (rcont z) [l, r]" "m \<in> {l, r}" "m = NULL \<longleftrightarrow> l = NULL \<and> r = NULL"
    "x \<notin> {l, r} - {NULL} \<Longrightarrow> rcont z' x = rcont z x"
    "link (rs z') = link (rs z)" "place (rs z') q = place (rs z) q" "wmap (rs z') v = wmap (rs z) v"
    "ffs (rs z') = ffs (rs z)"
proof -
  obtain m' c where mm: "merge_maps into_left l r (rcont z) = (m', c)" by (cases "merge_maps into_left l r (rcont z)")
  have r0: "reducer_map (wks (rs z) w) = NULL" using assms(3) by (simp add: wmap_def)
  have "m' = m \<and> z' = upd_rs (upd_w w (reducer_map_update (\<lambda>_. NULL))) (z\<lparr>rcont := c\<rparr>)"
    using assms(1) mm r0 by (subst (asm) repeated_merge_reducer_maps.simps) (simp add: Let_def)
  then have m: "m' = m" and z': "z' = upd_rs (upd_w w (reducer_map_update (\<lambda>_. NULL))) (z\<lparr>rcont := c\<rparr>)" by auto
  note e = merge_maps_effect [OF mm assms(2)]
  show "content (rcont z') [m] = content (rcont z) [l, r]" "m \<in> {l, r}" "m = NULL \<longleftrightarrow> l = NULL \<and> r = NULL"
    "x \<notin> {l, r} - {NULL} \<Longrightarrow> rcont z' x = rcont z x"
    using e m z' by (simp_all add: upd_rs_def)
  show "link (rs z') = link (rs z)" "place (rs z') q = place (rs z) q" "wmap (rs z') v = wmap (rs z) v" "ffs (rs z') = ffs (rs z)"
    using z' assms(3) by (simp_all add: upd_rs_def wmap_upd)
qed

lemma slow_merge_effect:
  assumes "slow_merge into_left w f (l, m, r) z = Some z'" and "distinct (nn [l, m, r])" and "wmap (rs z) w = NULL"
  shows "content (rcont z') [wmap (rs z') w] = content (rcont z) [l, m, r]" "wmap (rs z') w \<in> {l, m, r}"
    "x \<notin> {l, m, r} - {NULL} \<Longrightarrow> rcont z' x = rcont z x"
    "link (rs z') = link (rs z)" "place (rs z') q = place (rs z) q" "v \<noteq> w \<Longrightarrow> wmap (rs z') v = wmap (rs z) v"
proof -
  from assms(1) obtain l1 z1 l2 z2 where 1: "repeated_merge_reducer_maps into_left w l m z = Some (l1, z1)"
    and 2: "repeated_merge_reducer_maps into_left w l1 r z1 = Some (l2, z2)"
    and z': "z' = upd_rs (\<lambda>s. upd_w w (w_pending_exception_update (\<lambda>_. NULL))
                  (upd_ff f (ff_pending_exception_update (\<lambda>_. w_pending_exception (wks s w))) s))
                (upd_rs (upd_w w (reducer_map_update (\<lambda>_. l2))) z2)"
    by (auto simp: slow_merge_def bind_eq_Some_conv cilk_assert_def Let_def split: if_splits)
  have d: "distinct (nn [l, m])" using assms(2) by (auto split: if_splits)
  note a = repeated_merge_effect [OF 1 d assms(3)]
  have d1: "distinct (nn [l1, r])" using assms(2) a(2) by (auto split: if_splits)
  have w1: "wmap (rs z1) w = NULL" using a(7) assms(3) by simp
  note b = repeated_merge_effect [OF 2 d1 w1]
  have e: "rcont z' = rcont z2" "link (rs z') = link (rs z2)" "place (rs z') q = place (rs z2) q"
    "wmap (rs z') v = (if v = w then l2 else wmap (rs z2) v)" for q v
    unfolding z' upd_rs_def by (simp_all add: wmap_def place_cases link_def fun_eq_iff split: left_place.split)
  have r1: "r \<noteq> NULL \<Longrightarrow> rcont z1 r = rcont z r"
    using assms(2) by (intro a(4)) (auto split: if_splits)
  show "content (rcont z') [wmap (rs z') w] = content (rcont z) [l, m, r]"
    using a(1) b(1) r1 unfolding e by (auto split: if_splits)
  show "wmap (rs z') w \<in> {l, m, r}" using a(2) b(2) e by auto
  show "rcont z' x = rcont z x" if "x \<notin> {l, m, r} - {NULL}"
    using that a(2,4) b(4) e(1) by (metis (no_types, lifting) Diff_iff insert_iff)
  show "link (rs z') = link (rs z)" "place (rs z') q = place (rs z) q" "v \<noteq> w \<Longrightarrow> wmap (rs z') v = wmap (rs z) v"
    using a b e by simp_all
qed

subsection \<open>The invariant of a family\<close>

definition fam_slots :: "ptr \<Rightarrow> ptr \<Rightarrow> (ptr \<Rightarrow> ptr) \<Rightarrow> 'a family \<Rightarrow> ptr list" where
  "fam_slots p pw wk F = slots p pw wk (rs (fz F)) (fxs F) (fph F) (fpp F)"

text \<open>The updates in serial order.\<close>

definition fam_content :: "ptr \<Rightarrow> ptr \<Rightarrow> (ptr \<Rightarrow> ptr) \<Rightarrow> 'a family \<Rightarrow> 'a list" where
  "fam_content p pw wk F = content (rcont (fz F)) (fam_slots p pw wk F)"

definition fam_frames :: "ptr \<Rightarrow> ptr \<Rightarrow> (ptr \<Rightarrow> ptr) \<Rightarrow> rt \<Rightarrow> ptr list \<Rightarrow> bool" where
  "fam_frames p pw wk s xs \<longleftrightarrow> kids s p xs \<and> (\<forall>f \<in> set xs. parent (ffs s f) = p) \<and> p \<notin> set xs \<and>
     inj_on wk (set xs) \<and> pw \<notin> wk ` set xs"

definition fam_hands :: "ptr \<Rightarrow> (ptr \<Rightarrow> ptr) \<Rightarrow> rt \<Rightarrow> ptr list \<Rightarrow> (ptr \<Rightarrow> phase) \<Rightarrow> parent_phase \<Rightarrow> bool" where
  "fam_hands pw wk s xs ph pp \<longleftrightarrow> (\<forall>f \<in> set xs. hand (ph f) \<noteq> [] \<longrightarrow> wmap s (wk f) = NULL) \<and> (pp \<noteq> PRunning \<longrightarrow> wmap s pw = NULL)"

definition fam_inv :: "ptr \<Rightarrow> ptr \<Rightarrow> (ptr \<Rightarrow> ptr) \<Rightarrow> 'a family \<Rightarrow> bool" where
  "fam_inv p pw wk F \<longleftrightarrow> fam_frames p pw wk (rs (fz F)) (fxs F) \<and>
     fam_hands pw wk (rs (fz F)) (fxs F) (fph F) (fpp F) \<and> distinct (nn (fam_slots p pw wk F))"

lemma kids_links: "kids s p xs \<Longrightarrow> link s' = link s \<Longrightarrow> kids s' p xs"
  by (erule kids_cong) (simp_all add: link_def fun_eq_iff)

lemma frames_links: "fam_frames p pw wk s xs \<Longrightarrow> link s' = link s \<Longrightarrow> fam_frames p pw wk s' xs"
  using kids_links by (auto simp: fam_frames_def link_def fun_eq_iff)

lemma kids_left:
  assumes "kids s p (as @ f # bs)" and "parent (ffs s f) = p"
  shows "compute_left_ptrs_for_spawn_return f s = left_place_of p as" and "left_place_of p as \<noteq> Right_of f"
proof -
  have L: "linked (left_sibling \<circ> ffs s) (rev bs @ f # rev as)" and d: "distinct (as @ f # bs)"
    using assms(1) by (simp_all add: kids_def)
  have "linked (left_sibling \<circ> ffs s) (f # rev as)" using L linked_append by blast
  then have l: "left_sibling (ffs s f) = last0 as" and "linked (left_sibling \<circ> ffs s) (rev as)"
    by (simp_all add: linked_Cons)
  then have "NULL \<notin> set as" using lpath_not_NULL by (fastforce simp: linked_def)
  then have "as \<noteq> [] \<Longrightarrow> last as \<noteq> NULL" using last_in_set by metis
  then show "compute_left_ptrs_for_spawn_return f s = left_place_of p as"
    using l assms(2) by (auto simp: compute_left_ptrs_for_spawn_return_def left_place_of_def last0_def)
  show "left_place_of p as \<noteq> Right_of f" using d by (auto simp: left_place_of_def split: if_splits)
qed

lemma nn_mid:
  assumes "nn ([a] @ H @ [b, c]) = nn [x, y, z]"
  shows "nn (pre @ [a] @ (H @ [b, c]) @ post) = nn (pre @ [x] @ ([] @ [y, z]) @ post)"
proof -
  have "nn (pre @ [a] @ (H @ [b, c]) @ post) = nn pre @ nn ([a] @ H @ [b, c]) @ nn post"
    by (simp only: nn_simps(3) append_assoc)
  also have "\<dots> = nn pre @ nn [x, y, z] @ nn post" by (simp only: assms)
  finally show ?thesis by simp
qed

text \<open>A section under the lock that leaves the child in the family.\<close>

lemma child_section:
  assumes inv: "fam_inv p pw wk F" and xs: "fxs F = as @ f # bs" and h0: "hand (fph F f) = []"
    and sl: "slide (wk f) f (left_place_of p as) (hand ph1) (rs (fz F)) (rs z')" and c: "rcont z' = rcont (fz F)"
    and w0: "hand ph1 \<noteq> [] \<Longrightarrow> wmap (rs z') (wk f) = NULL"
  shows "fam_inv p pw wk (F\<lparr>fz := z', fph := (fph F)(f := ph1)\<rparr>) \<and>
    fam_content p pw wk (F\<lparr>fz := z', fph := (fph F)(f := ph1)\<rparr>) = fam_content p pw wk F"
proof -
  let ?s = "rs (fz F)" and ?s' = "rs z'" and ?ph = "(fph F)(f := ph1)"
  have fr: "fam_frames p pw wk ?s (as @ f # bs)" and hd: "fam_hands pw wk ?s (as @ f # bs) (fph F) (fpp F)"
    and dd: "distinct (nn (fam_slots p pw wk F))" using inv xs by (simp_all add: fam_inv_def)
  have d: "distinct (as @ f # bs)" using fr by (auto simp: fam_frames_def kids_def)
  have sl': "link ?s' = link ?s" "\<And>l. l \<noteq> left_place_of p as \<Longrightarrow> l \<noteq> Right_of f \<Longrightarrow> place ?s' l = place ?s l"
    "\<And>v. v \<noteq> wk f \<Longrightarrow> wmap ?s' v = wmap ?s v" using sl by (auto simp: slide_def links_same_def)
  have wi: "inj_on wk (set (as @ f # bs))" "pw \<notin> wk ` set (as @ f # bs)" using fr unfolding fam_frames_def by blast+
  have "\<And>g. g \<noteq> f \<Longrightarrow> ?ph g = fph F g" by simp
  from slots_at [where p = p and wk = wk and ph = "fph F" and ph' = ?ph and pp = "fpp F", OF d wi sl'(2,3) this] obtain pre post where
    pp: "slots p pw wk ?s (as @ f # bs) (fph F) (fpp F) = pre @ [place ?s (left_place_of p as)] @ block ?s wk (fph F) f @ post"
    "slots p pw wk ?s' (as @ f # bs) ?ph (fpp F) = pre @ [place ?s' (left_place_of p as)] @ block ?s' wk ?ph f @ post" by blast
  have "nn (slots p pw wk ?s' (as @ f # bs) ?ph (fpp F)) = nn (slots p pw wk ?s (as @ f # bs) (fph F) (fpp F))"
    unfolding pp block_def h0 fun_upd_same by (rule nn_mid) (use sl in \<open>simp only: slide_def\<close>)
  then have nneq: "nn (fam_slots p pw wk (F\<lparr>fz := z', fph := ?ph\<rparr>)) = nn (fam_slots p pw wk F)"
    by (simp add: fam_slots_def xs)
  have wf: "wk g \<noteq> wk f" if "g \<in> set (as @ bs)" for g
    using fr d that by (auto simp: fam_frames_def inj_on_def)
  have "wmap ?s' pw = wmap ?s pw" using sl'(3) fr by (auto simp: fam_frames_def)
  then have "fam_hands pw wk ?s' (as @ f # bs) ?ph (fpp F)"
    using hd w0 sl'(3) wf d by (auto simp: fam_hands_def)
  then have "fam_inv p pw wk (F\<lparr>fz := z', fph := ?ph\<rparr>)"
    using frames_links [OF fr sl'(1)] dd nneq by (simp add: fam_inv_def xs)
  moreover have "fam_content p pw wk (F\<lparr>fz := z', fph := ?ph\<rparr>) = fam_content p pw wk F"
    unfolding fam_content_def content_def nneq by (simp add: c)
  ultimately show ?thesis ..
qed

text \<open>A section at whose end the child is spliced out.\<close>

lemma child_finish:
  assumes inv: "fam_inv p pw wk F" and xs: "fxs F = as @ f # bs" and h0: "hand (fph F f) = []"
    and sl: "slide (wk f) f (left_place_of p as) [] (rs (fz F)) (rs z')" and c: "rcont z' = rcont (fz F)"
    and w0: "wmap (rs z') (wk f) = NULL" "place (rs z') (Right_of f) = NULL"
    and fin: "finish_child p wk f z' F = Some F'"
  shows "fam_inv p pw wk F' \<and> fam_content p pw wk F' = fam_content p pw wk F"
proof -
  from fin obtain s2 where s2: "finish_spawn_return_on_user_stack (wk f) p f (rs z') = Some s2"
    and F': "F' = F\<lparr>fz := z'\<lparr>rs := s2\<rparr>, fxs := remove1 f (fxs F)\<rparr>" by (auto simp: finish_child_def bind_eq_Some_conv)
  let ?s = "rs (fz F)" and ?s' = "rs z'"
  have fr: "fam_frames p pw wk ?s (as @ f # bs)" and hd: "fam_hands pw wk ?s (as @ f # bs) (fph F) (fpp F)"
    and dd: "distinct (nn (fam_slots p pw wk F))" using inv xs by (simp_all add: fam_inv_def)
  have d: "distinct (as @ f # bs)" using fr by (auto simp: fam_frames_def kids_def)
  have rm: "remove1 f (fxs F) = as @ bs" using d xs by (simp add: remove1_append)
  have F'_sel: "fz F' = z'\<lparr>rs := s2\<rparr>" "fxs F' = as @ bs" "fph F' = fph F" "fpp F' = fpp F" using F' rm by simp_all
  have sl': "link ?s' = link ?s" "\<And>l. l \<noteq> left_place_of p as \<Longrightarrow> l \<noteq> Right_of f \<Longrightarrow> place ?s' l = place ?s l"
    "\<And>v. v \<noteq> wk f \<Longrightarrow> wmap ?s' v = wmap ?s v" using sl by (auto simp: slide_def links_same_def)
  have fr': "fam_frames p pw wk ?s' (as @ f # bs)" using frames_links [OF fr sl'(1)] .
  then have k: "kids ?s' p (as @ f # bs)" by (simp add: fam_frames_def)
  from finish_effect [OF s2 k] have e: "kids s2 p (as @ bs)" "\<And>q. place s2 q = place ?s' q" "\<And>v. wmap s2 v = wmap ?s' v"
    "\<And>x. parent (ffs s2 x) = parent (ffs ?s' x)" by blast+
  have wi: "inj_on wk (set (as @ f # bs))" "pw \<notin> wk ` set (as @ f # bs)" using fr unfolding fam_frames_def by blast+
  have pl2: "\<And>l. l \<noteq> left_place_of p as \<Longrightarrow> l \<noteq> Right_of f \<Longrightarrow> place s2 l = place ?s l" using sl'(2) e(2) by simp
  have w2: "\<And>v. v \<noteq> wk f \<Longrightarrow> wmap s2 v = wmap ?s v" using sl'(3) e(3) by simp
  from slots_at [where p = p and wk = wk and ph = "fph F" and ph' = "fph F" and pp = "fpp F", OF d wi pl2 w2 refl] obtain pre post where
    pp: "slots p pw wk ?s (as @ f # bs) (fph F) (fpp F) = pre @ [place ?s (left_place_of p as)] @ block ?s wk (fph F) f @ post"
    "slots p pw wk s2 (as @ bs) (fph F) (fpp F) = pre @ [place s2 (left_place_of p as)] @ post" by blast
  have "nn (pre @ [place s2 (left_place_of p as)] @ ([] @ [wmap s2 (wk f), place s2 (Right_of f)]) @ post) =
      nn (pre @ [place ?s (left_place_of p as)] @ ([] @ [wmap ?s (wk f), place ?s (Right_of f)]) @ post)"
    by (rule nn_mid) (use sl e(2,3) in \<open>simp only: slide_def\<close>)
  moreover have "nn (pre @ [place s2 (left_place_of p as)] @ ([] @ [wmap s2 (wk f), place s2 (Right_of f)]) @ post) =
      nn (pre @ [place s2 (left_place_of p as)] @ post)" unfolding e w0 by simp
  ultimately have "nn (slots p pw wk s2 (as @ bs) (fph F) (fpp F)) = nn (slots p pw wk ?s (as @ f # bs) (fph F) (fpp F))"
    unfolding pp block_def h0 by (simp only:)
  then have nneq: "nn (fam_slots p pw wk F') = nn (fam_slots p pw wk F)" by (simp add: fam_slots_def F'_sel xs)
  have "fam_frames p pw wk s2 (as @ bs)" using fr' e by (auto simp: fam_frames_def inj_on_def)
  moreover have "fam_hands pw wk s2 (as @ bs) (fph F) (fpp F)"
  proof -
    have "wk g \<noteq> wk f" if "g \<in> set (as @ bs)" for g using fr d that by (auto simp: fam_frames_def inj_on_def)
    moreover have "pw \<noteq> wk f" using wi by auto
    ultimately show ?thesis using hd w2 by (auto simp: fam_hands_def)
  qed
  ultimately have "fam_inv p pw wk F'" using dd nneq by (simp add: fam_inv_def F'_sel)
  moreover have "fam_content p pw wk F' = fam_content p pw wk F"
    unfolding fam_content_def content_def nneq by (simp add: c F'_sel)
  ultimately show ?thesis ..
qed

lemma slow_child_step:
  assumes inv: "fam_inv p pw wk F" and xs: "fxs F = as @ f # bs" and h0: "hand (fph F f) = []"
    and sl: "slide (wk f) f (left_place_of p as) [] (rs (fz F)) (rs z)" and c: "rcont z = rcont (fz F)"
    and run: "slow_child p wk f (left_place_of p as) z F = Some F'" and loc: "left_place_of p as \<noteq> Right_of f"
  shows "fam_inv p pw wk F' \<and> fam_content p pw wk F' = fam_content p pw wk F"
proof -
  obtain o' s where sec: "slow_section (wk f) f (left_place_of p as) (rs z) = (o', s)"
    by (cases "slow_section (wk f) f (left_place_of p as) (rs z)")
  note e = slow_section_slide [OF sec loc]
  show ?thesis
  proof (cases o')
    case None
    have "slide (wk f) f (left_place_of p as) [] (rs (fz F)) (rs (z\<lparr>rs := s\<rparr>))" using slide_trans [OF sl] e None by simp
    then show ?thesis
      by (rule child_finish [OF inv xs h0]) (use c e None run sec in \<open>simp_all add: slow_child_def\<close>)
  next
    case (Some lmr)
    obtain l m r where lmr: "lmr = (l, m, r)" by (cases lmr)
    have "slide (wk f) f (left_place_of p as) (hand (Merging l m r)) (rs (fz F)) (rs (z\<lparr>rs := s\<rparr>))"
      using slide_trans [OF sl] e Some lmr by simp
    from child_section [OF inv xs h0 this] c e run sec Some lmr show ?thesis by (simp add: slow_child_def)
  qed
qed

text \<open>A merge of a child, without the lock.\<close>

lemma child_merge:
  assumes inv: "fam_inv p pw wk F" and xs: "fxs F = as @ f # bs" and ph: "fph F f = Merging l m r"
    and run: "slow_merge into_left (wk f) f (l, m, r) (fz F) = Some z'"
  shows "fam_inv p pw wk (F\<lparr>fz := z', fph := (fph F)(f := Retry)\<rparr>) \<and>
    fam_content p pw wk (F\<lparr>fz := z', fph := (fph F)(f := Retry)\<rparr>) = fam_content p pw wk F"
proof -
  let ?s = "rs (fz F)" and ?s' = "rs z'" and ?ph = "(fph F)(f := Retry)" and ?c = "rcont (fz F)" and ?c' = "rcont z'"
  have fr: "fam_frames p pw wk ?s (as @ f # bs)" and hd: "fam_hands pw wk ?s (as @ f # bs) (fph F) (fpp F)"
    and dd: "distinct (nn (fam_slots p pw wk F))" using inv xs by (simp_all add: fam_inv_def)
  have d: "distinct (as @ f # bs)" using fr by (auto simp: fam_frames_def kids_def)
  have w0: "wmap ?s (wk f) = NULL" using hd ph by (auto simp: fam_hands_def)
  have wi: "inj_on wk (set (as @ f # bs))" "pw \<notin> wk ` set (as @ f # bs)" using fr unfolding fam_frames_def by blast+
  have b: "block ?s wk (fph F) f = [l, m, r] @ [NULL, place ?s (Right_of f)]" by (simp add: block_def ph w0)
  have "distinct (nn [l, m, r])"
  proof -
    have "block ?s wk (fph F) f \<in> set (map (block ?s wk (fph F)) (fxs F))" by (simp add: xs)
    then obtain u v where "fam_slots p pw wk F = u @ [l, m, r] @ v"
      unfolding fam_slots_def slots_def xs using b by (auto simp: concat_append) (metis append.assoc append_Cons append_Nil)
    then show ?thesis using dd by (metis distinct_append nn_simps(3))
  qed
  note e = slow_merge_effect [OF run this w0]
  have ph': "\<And>g. g \<noteq> f \<Longrightarrow> ?ph g = fph F g" by simp
  have pl: "\<And>q. q \<noteq> left_place_of p as \<Longrightarrow> q \<noteq> Right_of f \<Longrightarrow> place ?s' q = place ?s q" using e(5) by simp
  from slots_at [where p = p and wk = wk and ph = "fph F" and ph' = ?ph and pp = "fpp F", OF d wi pl e(6) ph'] obtain pre post where
    pp: "slots p pw wk ?s (as @ f # bs) (fph F) (fpp F) = pre @ [place ?s (left_place_of p as)] @ block ?s wk (fph F) f @ post"
    "slots p pw wk ?s' (as @ f # bs) ?ph (fpp F) = pre @ [place ?s' (left_place_of p as)] @ block ?s' wk ?ph f @ post" by blast
  define A where "A = pre @ [place ?s (left_place_of p as)]"
  define B where "B = place ?s (Right_of f) # post"
  define n where "n = wmap ?s' (wk f)"
  have S: "nn (fam_slots p pw wk F) = nn A @ nn [l, m, r] @ nn B" unfolding fam_slots_def xs pp b A_def B_def by simp
  have S': "nn (fam_slots p pw wk (F\<lparr>fz := z', fph := ?ph\<rparr>)) = nn A @ nn [n] @ nn B"
    by (simp add: fam_slots_def xs pp A_def B_def n_def block_def e(5))
  have sub: "set (nn [n]) \<subseteq> set (nn [l, m, r])" using e(2) by (auto simp: n_def)
  have dis: "x \<notin> {l, m, r} - {NULL}" if "x \<in> set (nn A) \<union> set (nn B)" for x
  proof -
    have "set (nn A) \<inter> (set (nn [l, m, r]) \<union> set (nn B)) = {}" "set (nn [l, m, r]) \<inter> set (nn B) = {}"
      using dd unfolding S distinct_append set_append by simp_all
    then have "x \<notin> set (nn [l, m, r])" using that by blast
    then show ?thesis unfolding set_nn by simp
  qed
  have "distinct (nn A @ nn [n] @ nn B)" using dd sub unfolding S by auto
  moreover have "fam_frames p pw wk ?s' (as @ f # bs)" using frames_links [OF fr e(4)] .
  moreover have "fam_hands pw wk ?s' (as @ f # bs) ?ph (fpp F)"
  proof -
    have "wk g \<noteq> wk f" if "g \<in> set (as @ bs)" for g using wi(1) d that by (auto simp: inj_on_def)
    moreover have "pw \<noteq> wk f" using wi(2) by auto
    ultimately show ?thesis using hd e(6) d by (auto simp: fam_hands_def)
  qed
  ultimately have "fam_inv p pw wk (F\<lparr>fz := z', fph := ?ph\<rparr>)" unfolding fam_inv_def S' by (simp add: xs)
  moreover have "content ?c' A = content ?c A" "content ?c' B = content ?c B"
    using dis by (intro content_cong e(3); blast)+
  then have "fam_content p pw wk (F\<lparr>fz := z', fph := ?ph\<rparr>) = fam_content p pw wk F"
    using e(1) unfolding fam_content_def content_def S S' by (simp add: n_def)
  ultimately show ?thesis ..
qed

lemma child_step_inv:
  assumes inv: "fam_inv p pw wk F" and f: "f \<in> set (fxs F)" and run: "child_step into_left p wk f F = Some F'"
  shows "fam_inv p pw wk F' \<and> fam_content p pw wk F' = fam_content p pw wk F"
proof -
  from f obtain as bs where xs: "fxs F = as @ f # bs" by (meson split_list)
  have fr: "kids (rs (fz F)) p (as @ f # bs)" "parent (ffs (rs (fz F)) f) = p" using inv xs by (auto simp: fam_inv_def fam_frames_def)
  note loc = kids_left [OF fr]
  show ?thesis
  proof (cases "fph F f")
    case Running
    then have h0: "hand (fph F f) = []" by simp
    from run Running obtain o' z where fp: "fast_path_reductions_for_spawn_return (wk f) f (fz F) = Some (o', z)"
      and r: "(case o' of None \<Rightarrow> finish_child p wk f z F | Some l \<Rightarrow> slow_child p wk f l z F) = Some F'"
      by (auto simp: child_step_def bind_eq_Some_conv)
    note e = fast_path_slide [OF fp loc(1) [symmetric] loc(2)]
    show ?thesis
    proof (cases o')
      case None
      with r have "finish_child p wk f z F = Some F'" by simp
      moreover have "slide (wk f) f (left_place_of p as) [] (rs (fz F)) (rs z)" "rcont z = rcont (fz F)"
        "wmap (rs z) (wk f) = NULL" "place (rs z) (Right_of f) = NULL" using e None by auto
      ultimately show ?thesis using child_finish [OF inv xs h0] by blast
    next
      case (Some l)
      with e r have "slow_child p wk f (left_place_of p as) z F = Some F'" by simp
      then show ?thesis using slow_child_step [OF inv xs h0 _ _ _ loc(2)] e by blast
    qed
  next
    case (Merging l m r)
    then show ?thesis using run child_merge [OF inv xs Merging] by (auto simp: child_step_def bind_eq_Some_conv)
  next
    case Retry
    then have h0: "hand (fph F f) = []" by simp
    from run Retry obtain z where sp: "splice_exceptions_for_spawn f (left_place_of p as) (fz F) = Some z"
      and r: "slow_child p wk f (left_place_of p as) z F = Some F'"
      by (auto simp: child_step_def bind_eq_Some_conv slow_retry_def Let_def loc(1))
    note e = splice_exceptions_same [OF sp]
    show ?thesis using slow_child_step [OF inv xs h0 slide_same _ r loc(2)] e by blast
  qed
qed

text \<open>The parent at its sync.\<close>

definition last_place :: "ptr \<Rightarrow> ptr list \<Rightarrow> left_place" where
  "last_place p xs = (if xs = [] then Children_of p else Right_of (last xs))"

lemma slots_end:
  assumes d: "distinct xs" and pl: "\<And>l. l \<noteq> last_place p xs \<Longrightarrow> place s' l = place s l"
    and w: "\<And>v. v \<noteq> pw \<Longrightarrow> wmap s' v = wmap s v" and pw: "pw \<notin> wk ` set xs"
  shows "\<exists>pre. slots p pw wk s xs ph pp = pre @ [place s (last_place p xs)] @ phand pp @ [wmap s pw] \<and>
    slots p pw wk s' xs ph pp' = pre @ [place s' (last_place p xs)] @ phand pp' @ [wmap s' pw]"
proof (cases xs rule: rev_cases)
  case Nil
  then show ?thesis by (simp add: slots_def last_place_def)
next
  case (snoc as g)
  have wg: "wmap s' (wk x) = wmap s (wk x)" if "x \<in> set xs" for x using pw that by (intro w) auto
  have "block s' wk ph x = block s wk ph x" if "x \<in> set as" for x
  proof -
    have "place s' (Right_of x) = place s (Right_of x)" using d that snoc by (intro pl) (auto simp: last_place_def)
    then show ?thesis using wg [of x] that snoc by (simp add: block_def)
  qed
  then have m: "concat (map (block s' wk ph) as) = concat (map (block s wk ph) as)" by (simp cong: map_cong)
  have c: "place s' (Children_of p) = place s (Children_of p)" by (rule pl) (simp add: last_place_def snoc)
  have lp: "last_place p xs = Right_of g" by (simp add: last_place_def snoc)
  show ?thesis
    by (rule exI [of _ "place s (Children_of p) # concat (map (block s wk ph) as) @ hand (ph g) @ [wmap s (wk g)]"])
      (use m c lp wg [of g] in \<open>simp add: slots_def block_def [of _ _ _ g] snoc\<close>)
qed

lemma kids_last:
  assumes "kids s p xs" and "compute_left_ptrs_for_sync p s = Some loc"
  shows "loc = last_place p xs"
proof -
  have "linked (right_sibling \<circ> ffs s) xs" "rightmost_child (ffs s p) = last0 xs" using assms(1) by (simp_all add: kids_def)
  moreover have "NULL \<notin> set xs" using calculation(1) lpath_not_NULL by (fastforce simp: linked_def)
  then have "xs \<noteq> [] \<Longrightarrow> last xs \<noteq> NULL" using last_in_set by metis
  ultimately show ?thesis using assms(2)
    by (auto simp: compute_left_ptrs_for_sync_def last_place_def last0_def cilk_assert_def split: if_splits)
qed

text \<open>A step of the parent that keeps the maps in order, but for a merge of those in its hand.\<close>

lemma parent_frame:
  assumes inv: "fam_inv p pw wk F" and lk: "link (rs z') = link (rs (fz F))"
    and pl: "\<And>l. l \<noteq> last_place p (fxs F) \<Longrightarrow> place (rs z') l = place (rs (fz F)) l"
    and w: "\<And>v. v \<noteq> pw \<Longrightarrow> wmap (rs z') v = wmap (rs (fz F)) v" and w0: "wmap (rs z') pw = NULL" and pp1: "pp' \<noteq> PRunning"
    and c: "\<And>x. x \<notin> set (phand (fpp F)) - {NULL} \<Longrightarrow> rcont z' x = rcont (fz F) x"
    and sub: "set (nn ([place (rs z') (last_place p (fxs F))] @ phand pp')) \<subseteq>
       set (nn ([place (rs (fz F)) (last_place p (fxs F))] @ phand (fpp F) @ [wmap (rs (fz F)) pw]))"
    and dist: "distinct (nn ([place (rs (fz F)) (last_place p (fxs F))] @ phand (fpp F) @ [wmap (rs (fz F)) pw])) \<Longrightarrow>
       distinct (nn ([place (rs z') (last_place p (fxs F))] @ phand pp')) \<and>
       content (rcont z') ([place (rs z') (last_place p (fxs F))] @ phand pp') =
       content (rcont (fz F)) ([place (rs (fz F)) (last_place p (fxs F))] @ phand (fpp F) @ [wmap (rs (fz F)) pw])"
  shows "fam_inv p pw wk (F\<lparr>fz := z', fpp := pp'\<rparr>) \<and> fam_content p pw wk (F\<lparr>fz := z', fpp := pp'\<rparr>) = fam_content p pw wk F"
proof -
  let ?s = "rs (fz F)" and ?s' = "rs z'" and ?lp = "last_place p (fxs F)"
  have fr: "fam_frames p pw wk ?s (fxs F)" and hd: "fam_hands pw wk ?s (fxs F) (fph F) (fpp F)"
    and dd: "distinct (nn (fam_slots p pw wk F))" using inv by (simp_all add: fam_inv_def)
  have d: "distinct (fxs F)" and pw: "pw \<notin> wk ` set (fxs F)" using fr by (auto simp: fam_frames_def kids_def)
  from slots_end [where wk = wk and ph = "fph F" and pp = "fpp F" and pp' = pp', OF d pl w pw] obtain pre where
    S: "fam_slots p pw wk F = pre @ ([place ?s ?lp] @ phand (fpp F) @ [wmap ?s pw])"
    and S': "slots p pw wk ?s' (fxs F) (fph F) pp' = pre @ [place ?s' ?lp] @ phand pp' @ [wmap ?s' pw]"
    unfolding fam_slots_def by auto
  let ?e = "[place ?s ?lp] @ phand (fpp F) @ [wmap ?s pw]" and ?e' = "[place ?s' ?lp] @ phand pp'"
  have N': "nn (fam_slots p pw wk (F\<lparr>fz := z', fpp := pp'\<rparr>)) = nn pre @ nn ?e'"
    using S' w0 by (simp add: fam_slots_def)
  have N: "nn (fam_slots p pw wk F) = nn pre @ nn ?e" unfolding S by (simp only: nn_simps(3))
  have de: "distinct (nn ?e)" "set (nn pre) \<inter> set (nn ?e) = {}" "distinct (nn pre)" using dd unfolding N distinct_append by blast+
  note dc = dist [OF de(1)]
  have "distinct (nn pre @ nn ?e')" unfolding distinct_append using de dc sub by blast
  moreover have "fam_frames p pw wk ?s' (fxs F)" using frames_links [OF fr lk] .
  moreover have "fam_hands pw wk ?s' (fxs F) (fph F) pp'"
  proof -
    have "wmap ?s' (wk g) = wmap ?s (wk g)" if "g \<in> set (fxs F)" for g using pw that by (intro w) auto
    then show ?thesis using hd w0 by (auto simp: fam_hands_def)
  qed
  ultimately have "fam_inv p pw wk (F\<lparr>fz := z', fpp := pp'\<rparr>)" unfolding fam_inv_def N' by simp
  moreover have "content (rcont z') pre = content (rcont (fz F)) pre"
  proof (intro content_cong c)
    fix x assume x: "x \<in> set (nn pre)"
    have "set (phand (fpp F)) - {NULL} \<subseteq> set (nn ?e)" unfolding set_nn by auto
    then show "x \<notin> set (phand (fpp F)) - {NULL}" using x de(2) by blast
  qed
  then have "fam_content p pw wk (F\<lparr>fz := z', fpp := pp'\<rparr>) = fam_content p pw wk F"
    using conjunct2 [OF dc] unfolding fam_content_def content_def N N' by simp
  ultimately show ?thesis ..
qed

lemma sync_section_effect:
  assumes "sync_section p mid z = Some (lm, z')" and "kids (rs z) p xs"
  shows "link (rs z') = link (rs z)" "rcont z' = rcont z" "wmap (rs z') v = wmap (rs z) v"
    "q \<noteq> last_place p xs \<Longrightarrow> place (rs z') q = place (rs z) q"
    "nn ([place (rs z') (last_place p xs)] @ (case lm of None \<Rightarrow> [] | Some (l, m) \<Rightarrow> [l, m])) =
     nn [place (rs z) (last_place p xs), mid]"
proof -
  from assms(1) obtain loc where loc: "compute_left_ptrs_for_sync p (rs z) = Some loc"
    by (auto simp: sync_section_def bind_eq_Some_conv)
  have lp: "loc = last_place p xs" using kids_last [OF assms(2) loc] .
  let ?z1 = "upd_rs (set_left_map loc NULL) z"
  let ?l0 = "place (rs z) loc"
  from assms(1) loc obtain z2 where z2: "merge_exceptions_into loc (ff_pending_exception (ffs (rs ?z1) p)) ?z1 = Some z2"
    and r: "(lm, z') = (let z3 = upd_rs (upd_ff p (ff_pending_exception_update (\<lambda>_. NULL))) z2;
                            (l, m) = (if ?l0 = NULL then (mid, NULL) else (?l0, mid))
                        in if m = NULL then (None, upd_rs (set_left_map loc l) z3) else (Some (l, m), z3))"
    by (auto simp: sync_section_def bind_eq_Some_conv place_def Let_def split: if_splits)
  define z3 where "z3 = upd_rs (upd_ff p (ff_pending_exception_update (\<lambda>_. NULL))) z2"
  have "maps_same (rs z2) (rs z3)" using pending_same(1) by (simp add: z3_def upd_rs_def)
  then have "maps_same (rs ?z1) (rs z3)" "rcont z3 = rcont ?z1"
    using merge_exceptions_into_same [OF z2] maps_same_trans by (auto simp: z3_def upd_rs_def)
  then have z3: "link (rs z3) = link (rs z)" "rcont z3 = rcont z" "wmap (rs z3) v = wmap (rs z) v"
    "place (rs z3) q = (if q = loc then NULL else place (rs z) q)" for v q
    by (simp_all add: maps_same_def links_same_def upd_rs_def set_left_map_effect)
  consider "?l0 = NULL" "lm = None" "z' = upd_rs (set_left_map loc mid) z3"
    | "?l0 \<noteq> NULL" "mid = NULL" "lm = None" "z' = upd_rs (set_left_map loc ?l0) z3"
    | "?l0 \<noteq> NULL" "mid \<noteq> NULL" "lm = Some (?l0, mid)" "z' = z3"
    using r unfolding z3_def [symmetric] by (auto simp: Let_def split: if_splits)
  note cs = this
  show "link (rs z') = link (rs z)" "rcont z' = rcont z" "wmap (rs z') v = wmap (rs z) v"
    using cs z3 by (cases; simp add: upd_rs_def set_left_map_effect)+
  show "place (rs z') q = place (rs z) q" if "q \<noteq> last_place p xs"
    using cs z3(4) that lp by (cases; simp add: upd_rs_def set_left_map_effect)
  show "nn ([place (rs z') (last_place p xs)] @ (case lm of None \<Rightarrow> [] | Some (l, m) \<Rightarrow> [l, m])) =
     nn [place (rs z) (last_place p xs), mid]"
    using cs z3(4) lp by (cases; simp add: upd_rs_def set_left_map_effect)
qed

lemma sync_merge_effect:
  assumes "sync_merge into_left w p (l, m) z = Some (m', z')" and "distinct (nn [l, m])" and "wmap (rs z) w = NULL"
  shows "content (rcont z') [m'] = content (rcont z) [l, m]" "m' \<in> {l, m}" "x \<notin> {l, m} - {NULL} \<Longrightarrow> rcont z' x = rcont z x"
    "link (rs z') = link (rs z)" "place (rs z') q = place (rs z) q" "wmap (rs z') v = wmap (rs z) v"
proof -
  from assms(1) obtain z1 where z1: "repeated_merge_reducer_maps into_left w l m z = Some (m', z1)"
    and z': "z' = upd_rs (\<lambda>s. upd_w w (w_pending_exception_update (\<lambda>_. NULL))
                  (upd_ff p (ff_pending_exception_update (\<lambda>_. w_pending_exception (wks s w))) s)) z1"
    by (auto simp: sync_merge_def bind_eq_Some_conv)
  note e = repeated_merge_effect [OF z1 assms(2,3)]
  have "rcont z' = rcont z1" "link (rs z') = link (rs z1)" "place (rs z') q = place (rs z1) q" "wmap (rs z') v = wmap (rs z1) v" for q v
    unfolding z' upd_rs_def by (simp_all add: wmap_def place_cases link_def fun_eq_iff split: left_place.split)
  then show "content (rcont z') [m'] = content (rcont z) [l, m]" "m' \<in> {l, m}" "x \<notin> {l, m} - {NULL} \<Longrightarrow> rcont z' x = rcont z x"
    "link (rs z') = link (rs z)" "place (rs z') q = place (rs z) q" "wmap (rs z') v = wmap (rs z) v" using e by simp_all
qed

lemma parent_step_inv:
  assumes inv: "fam_inv p pw wk F" and run: "parent_step into_left p pw F = Some F'"
  shows "fam_inv p pw wk F' \<and> fam_content p pw wk F' = fam_content p pw wk F"
proof (cases "fpp F")
  case PRunning
  then have F': "F' = F\<lparr>fz := upd_rs (upd_w pw (reducer_map_update (\<lambda>_. NULL))) (fz F), fpp := PHand (wmap (rs (fz F)) pw)\<rparr>"
    using run by (simp add: parent_step_def wmap_def)
  show ?thesis unfolding F'
    by (rule parent_frame [OF inv]) (simp_all add: PRunning upd_rs_def wmap_upd)
next
  case (PHand mid)
  have k: "kids (rs (fz F)) p (fxs F)" and w0: "wmap (rs (fz F)) pw = NULL"
    using inv PHand by (auto simp: fam_inv_def fam_frames_def fam_hands_def)
  from run PHand obtain lm z' where s: "sync_section p mid (fz F) = Some (lm, z')"
    and F': "F' = F\<lparr>fz := z', fpp := (case lm of None \<Rightarrow> PDone | Some (l, m') \<Rightarrow> PMerging l m')\<rparr>"
    by (auto simp: parent_step_def bind_eq_Some_conv)
  note e = sync_section_effect [OF s k]
  have h: "phand (case lm of None \<Rightarrow> PDone | Some (l, m') \<Rightarrow> PMerging l m') = (case lm of None \<Rightarrow> [] | Some (l, m) \<Rightarrow> [l, m])"
    by (auto split: option.splits)
  have nneq: "nn ([place (rs z') (last_place p (fxs F))] @ (case lm of None \<Rightarrow> [] | Some (l, m) \<Rightarrow> [l, m])) =
      nn ([place (rs (fz F)) (last_place p (fxs F))] @ phand (fpp F) @ [wmap (rs (fz F)) pw])"
    using e(5) by (simp add: PHand w0)
  show ?thesis unfolding F'
  proof (rule parent_frame [OF inv], unfold h content_def nneq)
    show "link (rs z') = link (rs (fz F))" by (rule e(1))
    show "wmap (rs z') pw = NULL" using e(3) w0 by simp
    show "(case lm of None \<Rightarrow> PDone | Some (l, m') \<Rightarrow> PMerging l m') \<noteq> PRunning" by (auto split: option.splits)
  qed (use e in simp_all)
next
  case (PMerging l m)
  have w0: "wmap (rs (fz F)) pw = NULL" using inv PMerging by (auto simp: fam_inv_def fam_hands_def)
  have fr: "distinct (fxs F)" "pw \<notin> wk ` set (fxs F)" using inv by (auto simp: fam_inv_def fam_frames_def kids_def)
  from run PMerging obtain m' z' where s: "sync_merge into_left pw p (l, m) (fz F) = Some (m', z')"
    and F': "F' = F\<lparr>fz := z', fpp := PHand m'\<rparr>" by (auto simp: parent_step_def bind_eq_Some_conv)
  obtain pre where S: "fam_slots p pw wk F = pre @ ([place (rs (fz F)) (last_place p (fxs F))] @ phand (fpp F) @ [wmap (rs (fz F)) pw])"
    using slots_end [where wk = wk and ph = "fph F" and pp = "fpp F" and pp' = "fpp F", OF fr(1) refl refl fr(2)]
    unfolding fam_slots_def by auto
  have d: "distinct (nn [l, m])"
  proof -
    have "distinct (nn (fam_slots p pw wk F))" using inv by (simp add: fam_inv_def)
    moreover have "fam_slots p pw wk F = (pre @ [place (rs (fz F)) (last_place p (fxs F))]) @ [l, m] @ [wmap (rs (fz F)) pw]"
      unfolding S by (simp add: PMerging)
    ultimately show ?thesis by (metis distinct_append nn_simps(3))
  qed
  note e = sync_merge_effect [OF s d w0]
  show ?thesis unfolding F'
  proof (rule parent_frame [OF inv])
    show "link (rs z') = link (rs (fz F))" by (rule e(4))
    show "wmap (rs z') pw = NULL" using e(6) w0 by simp
    show "\<And>x. x \<notin> set (phand (fpp F)) - {NULL} \<Longrightarrow> rcont z' x = rcont (fz F) x" using e(3) by (simp add: PMerging)
    show "set (nn ([place (rs z') (last_place p (fxs F))] @ phand (PHand m'))) \<subseteq>
       set (nn ([place (rs (fz F)) (last_place p (fxs F))] @ phand (fpp F) @ [wmap (rs (fz F)) pw]))"
      using e(2,5) unfolding set_nn by (auto simp: PMerging)
    assume dd: "distinct (nn ([place (rs (fz F)) (last_place p (fxs F))] @ phand (fpp F) @ [wmap (rs (fz F)) pw]))"
    have pl: "rcont z' (place (rs (fz F)) (last_place p (fxs F))) = rcont (fz F) (place (rs (fz F)) (last_place p (fxs F)))"
      if "place (rs (fz F)) (last_place p (fxs F)) \<noteq> NULL" using dd that by (intro e(3)) (auto simp: PMerging split: if_splits)
    show "distinct (nn ([place (rs z') (last_place p (fxs F))] @ phand (PHand m'))) \<and>
       content (rcont z') ([place (rs z') (last_place p (fxs F))] @ phand (PHand m')) =
       content (rcont (fz F)) ([place (rs (fz F)) (last_place p (fxs F))] @ phand (fpp F) @ [wmap (rs (fz F)) pw])"
      using dd e(1,2,5) pl w0 by (auto simp: PMerging split: if_splits)
  qed (use e in simp_all)
next
  case PDone
  then show ?thesis using run by (simp add: parent_step_def)
qed

subsection \<open>The order of the updates\<close>

text \<open>C5 (reductions_keep_serial_order): while the children of a frame return and the frame stalls at
  its sync, however their sections under the lock and their merges interleave, the updates in the
  maps, read from left to right, remain the same sequence, no map is lost, shared or duplicated,
  and when every child is gone and the frame has synched they are all in its
  \<open>children_reducer_map\<close>.\<close>

theorem reductions_keep_serial_order:
  assumes "fam_inv p pw wk F" and "(family_step into_left p pw wk)\<^sup>*\<^sup>* F F'"
  shows "fam_inv p pw wk F' \<and> fam_content p pw wk F' = fam_content p pw wk F \<and>
    (fxs F' = [] \<and> fpp F' = PDone \<longrightarrow>
       content (rcont (fz F')) [children_reducer_map (ffs (rs (fz F')) p)] = fam_content p pw wk F)"
proof -
  have "fam_inv p pw wk F' \<and> fam_content p pw wk F' = fam_content p pw wk F"
    using assms(2)
  proof (induction rule: rtranclp_induct)
    case base
    then show ?case using assms(1) by simp
  next
    case (step F1 F2)
    from step.hyps(2) show ?case
    proof cases
      case (child f)
      then show ?thesis using child_step_inv [OF conjunct1 [OF step.IH]] step.IH by metis
    next
      case parent
      then show ?thesis using parent_step_inv [OF conjunct1 [OF step.IH]] step.IH by metis
    qed
  qed
  moreover have "content (rcont (fz F')) [children_reducer_map (ffs (rs (fz F')) p)] = fam_content p pw wk F'"
    if "fam_inv p pw wk F'" "fxs F' = []" "fpp F' = PDone"
    using that by (simp add: fam_content_def fam_slots_def slots_def fam_inv_def fam_hands_def place_cases)
  ultimately show ?thesis by simp
qed

definition fam_demo_rt :: rt where
  "fam_demo_rt = ff_demo\<lparr>ffs := (\<lambda>x. (ffs ff_demo x)\<lparr>parent := 1, fiber_self := x + 6\<rparr>),
     wks := (\<lambda>_. worker_zero)(102 := worker_zero\<lparr>reducer_map := 10\<rparr>, 103 := worker_zero\<lparr>reducer_map := 20\<rparr>)\<rparr>"

definition fam_demo :: "nat family" where
  "fam_demo = \<lparr>fz = \<lparr>rs = fam_demo_rt, excs = (\<lambda>_. \<lparr>active = NULL, rethrow = False,
       runtime_state = \<lparr>caughtExceptions = [], uncaughtExceptions = 0\<rparr>\<rparr>), rcont = (\<lambda>_. [])(10 := [1], 20 := [2])\<rparr>,
     fxs = [2, 3, 4], fph = (\<lambda>_. Running), fpp = PRunning\<rparr>"

lemma ff_demo_fields: "right_reducer_map (ffs ff_demo x) = NULL" "children_reducer_map (ffs ff_demo x) = NULL"
  by (simp_all add: ff_demo_def push_child_def double_link_def Let_def zero_defs)

lemma fam_demo_inv: "fam_inv 1 101 (\<lambda>f. f + 100) fam_demo"
proof -
  have "kids ff_demo 1 [2, 3, 4]" using ff_demo_forest unfolding forest_def by (metis fun_upd_same)
  then have "kids fam_demo_rt 1 [2, 3, 4]" by (rule kids_cong) (simp_all add: fam_demo_rt_def)
  then have "fam_frames 1 101 (\<lambda>f. f + 100) fam_demo_rt [2, 3, 4]"
    by (simp add: fam_frames_def fam_demo_rt_def inj_on_def)
  then show ?thesis
    by (simp add: fam_inv_def fam_demo_def fam_hands_def fam_slots_def slots_def block_def place_cases wmap_def fam_demo_rt_def
        ff_demo_fields worker_zero_def)
qed

theorem reductions_keep_serial_order_witness:
  "fam_content 1 101 (\<lambda>f. f + 100) (the (child_step (\<lambda>_ _. True) 1 (\<lambda>f. f + 100) 3 fam_demo)) = [1, 2] \<and>
   fxs (the (child_step (\<lambda>_ _. True) 1 (\<lambda>f. f + 100) 3 fam_demo)) = [2, 4]"
proof -
  have s: "child_step (\<lambda>_ _. True) 1 (\<lambda>f. f + 100) 3 fam_demo \<noteq> None \<and>
      fxs (the (child_step (\<lambda>_ _. True) 1 (\<lambda>f. f + 100) 3 fam_demo)) = [2, 4]" by code_simp
  then obtain F' where F': "child_step (\<lambda>_ _. True) 1 (\<lambda>f. f + 100) 3 fam_demo = Some F'" by blast
  have "family_step (\<lambda>_ _. True) 1 101 (\<lambda>f. f + 100) fam_demo F'"
    by (rule family_step.child [OF _ F']) (simp add: fam_demo_def)
  then have "(family_step (\<lambda>_ _. True) 1 101 (\<lambda>f. f + 100))\<^sup>*\<^sup>* fam_demo F'" by blast
  from reductions_keep_serial_order [OF fam_demo_inv this]
  have "fam_content 1 101 (\<lambda>f. f + 100) F' = fam_content 1 101 (\<lambda>f. f + 100) fam_demo" by simp
  also have "\<dots> = [1, 2]"
    by (simp add: fam_content_def fam_demo_def fam_slots_def slots_def block_def place_cases wmap_def fam_demo_rt_def
        ff_demo_fields worker_zero_def)
  finally show ?thesis using s F' by simp
qed

end
