(* ===== verification/Steal.thy ===== *)
theory Steal
  imports Frame_Promotion Ready_List Issue_Race
begin

text \<open>
  Stealing (runtime/scheduler.c): the choice of a victim, the quick tests, taking the oldest frame
  of its deque (\<open>detach_for_steal\<close>) or a task of its ready list (\<open>steal_from_ready_list\<close>), and the
  two attempts a worker without work makes. Everything here runs under the victim's lock but the
  tests before it; the deque is raced for in theory THE_Protocol, the issue word in Issue_Race.

  Arguments stand for what other parts hand in: \<open>fiber\<close> is the fiber from the worker's pool
  (\<open>NULL\<close> when there is none), \<open>fsf\<close> the stack frame at the top of its stack, \<open>news\<close> the blocks the
  allocator gives for new full frames, \<open>issue fn tags\<close> what the compiled issue function \<open>fn\<close> does to
  the store, \<open>rec n\<close> and \<open>rmatch\<close> the answers of the replay log (\<open>n\<close> and true without a log). Theory
  Scheduling_Loop takes the fiber from the pool, gives it back after a failure and runs it.
\<close>

subsection \<open>Choosing a victim\<close>

definition RNGMOD :: nat where "RNGMOD = 4294967291"
definition RNGMUL :: nat where "RNGMUL = 69070"

text \<open>The product is computed in 64 bits and does not wrap.\<close>

definition rng_next :: "32 word \<Rightarrow> 32 word" where
  "rng_next st = of_nat (unat (of_nat RNGMUL * ucast st :: 64 word) mod RNGMOD)"

definition myrand :: "ptr \<Rightarrow> rt \<Rightarrow> 32 word \<times> rt" where
  "myrand w s = (let st = rng_next (rand_seed (wks s w)) in (st, upd_w w (rand_seed_update (\<lambda>_. st)) s))"

definition mysrand :: "ptr \<Rightarrow> 32 word \<Rightarrow> rt \<Rightarrow> rt" where
  "mysrand w seed s =
     (let seed1 = seed mod of_nat RNGMOD
      in upd_w w (rand_seed_update (\<lambda>_. seed1 + (if seed1 = 0 then 1 else 0))) s)"

definition choose_victim :: "ptr \<Rightarrow> rt \<Rightarrow> int \<times> rt" where
  "choose_victim w s =
     (let (r, s1) = myrand w s;
          n = sint (r mod of_int (total_workers (glob s) - 1))
      in (if n \<ge> self (wks s w) then n + 1 else n, s1))"

subsection \<open>Tests\<close>

definition match_numa_sf :: "ptr \<Rightarrow> ptr \<Rightarrow> rt \<Rightarrow> bool" where
  "match_numa_sf w sf s =
     (if flags (sfs s sf) AND CILK_FRAME_NUMA \<noteq> 0
      then match_numa_range w (sint (numa_low (sfs s sf))) (sint (numa_high (sfs s sf))) s else True)"

definition can_steal_from_rl_only :: "ptr \<Rightarrow> rt \<Rightarrow> bool" where
  "can_steal_from_rl_only victim s \<longleftrightarrow> rl_head (ready_list (wks s victim)) s \<noteq> NULL"

definition can_steal_from_rl :: "ptr \<Rightarrow> rt \<Rightarrow> bool" where
  "can_steal_from_rl victim s \<longleftrightarrow>
     whead (wks s victim) < wtail (wks s victim) \<and> whead (wks s victim) < protected_tail (wks s victim) \<or>
     rl_head (ready_list (wks s victim)) s \<noteq> NULL"

subsection \<open>Taking the oldest frame of the deque\<close>

text \<open>The issue of a child announced by the stolen frame, with no owner racing for it.\<close>

definition issue_child :: "(ptr \<Rightarrow> ptr \<Rightarrow> rt \<Rightarrow> rt) \<Rightarrow> ptr \<Rightarrow> rt \<Rightarrow> rt" where
  "issue_child issue sf s =
     (if df_issue_child (sfs s sf) \<noteq> NULL then
        let (to_issue, v) = fetch_or_one (df_issue_child (sfs s sf));
            s1 = upd_sf sf (df_issue_child_update (\<lambda>_. v)) s;
            dfic_one = to_issue OR 1
        in if to_issue \<noteq> NULL then
             let s2 = upd_sf to_issue (\<lambda>x. x\<lparr>flags := flags x OR CILK_FRAME_DATAFLOW_ISSUED\<rparr>) s1;
                 s3 = issue (df_issue_fn (sfs s2 to_issue)) (args_tags (sfs s2 to_issue)) s2
             in upd_sf sf (df_issue_child_update (\<lambda>_. snd (compare_and_swap (df_issue_child (sfs s3 sf)) dfic_one NULL))) s3
           else s1
      else s)"

definition detach_for_steal ::
  "(ptr \<Rightarrow> ptr \<Rightarrow> rt \<Rightarrow> rt) \<Rightarrow> ptr \<Rightarrow> ptr \<Rightarrow> ptr \<Rightarrow> ptr list \<Rightarrow> rt \<Rightarrow> rt option" where
  "detach_for_steal issue w victim fiber news s =
     do { let s1 = upd_w w (team_update (\<lambda>_. team (wks s victim))) s;
          cilk_assert (w_frame_ff (wks s1 w) = NULL \<or> w = victim);
          (sf, d) \<leftarrow> Work_Deque.take_head (wks s1 victim);
          let s2 = upd_w victim (\<lambda>_. d) s1;
          let parent_ff = w_frame_ff (wks s2 victim);
          s3 \<leftarrow> frame_lock w parent_ff s2;
          (_, s4) \<leftarrow> decjoin parent_ff s3;
          (loot_ff, news', s5) \<leftarrow> unroll_call_stack w parent_ff sf news s4;
          let s6 = (if wtype (wks s5 victim) = WORKER_USER \<and> last_full_frame (wks s5 victim) = NULL
                    then set_sync_master victim loot_ff s5 else s5);
          s7 \<leftarrow> (if w = victim
                 then Some (upd_ff loot_ff (simulated_stolen_update (\<lambda>_. True))
                        (upd_sf (call_stack (ffs s6 loot_ff)) (\<lambda>x. x\<lparr>flags := flags x OR CILK_FRAME_UNSYNCHED\<rparr>) s6))
                 else push_next_frame w loot_ff s6);
          let s8 = issue_child issue sf s7;
          (child_ff, news'') \<leftarrow> (case news' of [] \<Rightarrow> None | c # cs \<Rightarrow> Some (c, cs));
          s9 \<leftarrow> make_child loot_ff child_ff NULL fiber s8;
          s10 \<leftarrow> frame_lock w child_ff s9;
          let s11 = make_runnable victim child_ff (incjoin child_ff s10);
          s12 \<leftarrow> frame_unlock w child_ff s11;
          frame_unlock w parent_ff s12 }"

subsection \<open>Taking a task of the ready list\<close>

text \<open>The address of the pedigree node embedded in a stack frame.\<close>

definition spawn_helper_pedigree :: "ptr \<Rightarrow> ptr" where "spawn_helper_pedigree sf = sf + 80"

definition make_child_from_pending :: "ptr \<Rightarrow> ptr \<Rightarrow> ptr \<Rightarrow> ptr \<Rightarrow> rt \<Rightarrow> (ptr \<times> rt) option" where
  "make_child_from_pending w child_pf fiber fsf s =
     do { let child_ff = frame_ff (pfs s child_pf);
          cilk_assert (call_stack (ffs s child_ff) = NULL);
          let fiber' = (if fiber = PLACEHOLDER_FIBER then NULL else fiber);
          let s1 = upd_ff child_ff (fiber_self_update (\<lambda>_. fiber')) s;
          let s2 = upd_sf fsf (\<lambda>x. x\<lparr>flags := CILK_FRAME_DATAFLOW OR CILK_FRAME_DATAFLOW_ISSUED OR CILK_FRAME_STOLEN OR
                                        push_bit 24 1,
                                      sf_mxcsr := 0x1f80, call_parent := NULL, sf_worker := w, sf_reserved := 0\<rparr>) s1;
          let s3 = upd_w w (current_stack_frame_update (\<lambda>_. fsf)) s2;
          let s4 = upd_sf fsf (\<lambda>x. x\<lparr>args_tags := pf_args_tags (pfs s3 child_pf), df_issue_fn := 0xdeadbeef,
                                      df_issue_child := NULL, df_issue_me_ptr := NULL\<rparr>) s3;
          let s5 = upd_pf child_pf (pf_args_tags_update (\<lambda>_. NULL)) s4;
          let s6 = upd_w w (w_pedigree_update (\<lambda>_. \<lparr>rank = 0, parent_node = spawn_helper_pedigree fsf\<rparr>)) s5;
          let s7 = upd_sf fsf (\<lambda>x. x\<lparr>flags := flags x OR CILK_FRAME_DETACHED\<rparr>) s6;
          Some (child_ff, upd_ff child_ff (call_stack_update (\<lambda>_. fsf)) s7) }"

definition steal_from_ready_list :: "ptr \<Rightarrow> ptr \<Rightarrow> ptr \<Rightarrow> ptr \<Rightarrow> rt \<Rightarrow> (bool \<times> rt) option" where
  "steal_from_ready_list w victim fiber fsf s =
     do { cilk_assert (w_frame_ff (wks s w) = NULL \<or> w = victim);
          (ready_pf, s1) \<leftarrow> take_from_ready_list w victim s;
          if ready_pf = NULL then Some (False, s1)
          else do { let s2 = upd_w w (team_update (\<lambda>_. pf_team (pfs s1 ready_pf))) s1;
                    (loot_ff, s3) \<leftarrow> make_child_from_pending w ready_pf fiber fsf s2;
                    s4 \<leftarrow> frame_lock w loot_ff s3;
                    let s5 = (if wtype (wks s4 victim) = WORKER_USER \<and> last_full_frame (wks s4 victim) = NULL
                              then set_sync_master victim loot_ff s4 else s4);
                    s6 \<leftarrow> push_next_frame w loot_ff s5;
                    s7 \<leftarrow> frame_unlock w loot_ff s6;
                    Some (True, s7) } }"

subsection \<open>The attempts of a worker without work\<close>

definition own_ready_list_steal :: "ptr \<Rightarrow> ptr \<Rightarrow> ptr \<Rightarrow> rt \<Rightarrow> (bool \<times> rt) option" where
  "own_ready_list_steal fiber fsf w s =
     (let s0 = upd_w w (work_stolen_update (\<lambda>_. False)) s
      in if stealing_disabled (glob s0) then Some (False, s0)
         else do { cilk_assert (wtype (wks s0 w) = WORKER_SYSTEM \<or> team (wks s0 w) = w);
                   cilk_assert (total_workers (glob s0) > 1);
                   if fiber = NULL \<or> \<not> can_steal_from_rl_only w s0 then Some (False, s0)
                   else do { s1 \<leftarrow> lock_w w s0;
                             (success, s2) \<leftarrow>
                               (if rl_head (ready_list (wks s1 w)) s1 \<noteq> NULL then steal_from_ready_list w w fiber fsf s1
                                else Some (False, s1));
                             s3 \<leftarrow> unlock_w w s2;
                             Some (success, upd_w w (work_stolen_update (\<lambda>_. success)) s3) } })"

text \<open>The branch of \<open>random_steal\<close> that goes for the deque.\<close>

definition steal_from_deque ::
  "(ptr \<Rightarrow> ptr \<Rightarrow> rt \<Rightarrow> rt) \<Rightarrow> bool \<Rightarrow> ptr \<Rightarrow> ptr list \<Rightarrow> ptr \<Rightarrow> ptr \<Rightarrow> rt \<Rightarrow> (bool \<times> rt) option" where
  "steal_from_deque issue rmatch fiber news w victim s =
     (case dekker_protocol (wks s victim) of
        (False, d) \<Rightarrow> Some (False, upd_w victim (\<lambda>_. d) s)
      | (True, d) \<Rightarrow>
          let s1 = upd_w victim (\<lambda>_. d) s;
              s2 = (if rmatch then s1 else upd_w victim decrement_E s1);
              numa = match_numa_sf w (ltq (wks s2 victim) (whead (wks s2 victim))) s2;
              s3 = (if numa then s2 else upd_w victim decrement_E s2)
          in if rmatch \<and> numa
             then map_option (Pair True) (detach_for_steal issue w victim fiber news s3)
             else Some (False, s3))"

text \<open>What it does once it has the victim's lock.\<close>

definition steal_locked ::
  "(ptr \<Rightarrow> ptr \<Rightarrow> rt \<Rightarrow> rt) \<Rightarrow> bool \<Rightarrow> ptr \<Rightarrow> ptr \<Rightarrow> ptr list \<Rightarrow> ptr \<Rightarrow> ptr \<Rightarrow> rt \<Rightarrow> (bool \<times> rt) option" where
  "steal_locked issue rmatch fiber fsf news w victim s =
     (if wtype (wks s w) = WORKER_USER \<and> team (wks s victim) \<noteq> w then Some (False, s)
      else if rl_head (ready_list (wks s victim)) s \<noteq> NULL then steal_from_ready_list w victim fiber fsf s
      else if w_frame_ff (wks s victim) \<noteq> NULL then steal_from_deque issue rmatch fiber news w victim s
      else Some (False, s))"

definition random_steal ::
  "(ptr \<Rightarrow> ptr \<Rightarrow> rt \<Rightarrow> rt) \<Rightarrow> (int \<Rightarrow> int) \<Rightarrow> bool \<Rightarrow> ptr \<Rightarrow> ptr \<Rightarrow> ptr list \<Rightarrow> ptr \<Rightarrow> rt \<Rightarrow> rt option" where
  "random_steal issue rec rmatch fiber fsf news w s =
     (let s0 = upd_w w (work_stolen_update (\<lambda>_. False)) s
      in if stealing_disabled (glob s0) then Some s0
         else do { cilk_assert (wtype (wks s0 w) = WORKER_SYSTEM \<or> team (wks s0 w) = w);
                   cilk_assert (total_workers (glob s0) > 1);
                   let (n0, s1) = choose_victim w s0;
                   let n = rec n0;
                   if n = - 1 then Some s1
                   else do { let victim = workers (glob s1) n;
                             if fiber = NULL then Some s1
                             else do { cilk_assert (victim \<noteq> w);
                                       if \<not> can_steal_from_rl victim s1 then Some s1
                                       else do { (got, l) \<leftarrow> worker_trylock_other w (wks s1 victim);
                                                 let s2 = upd_w victim (\<lambda>_. l) s1;
                                                 (success, s3) \<leftarrow>
                                                   (if got then do { (r, s') \<leftarrow> steal_locked issue rmatch fiber fsf news w victim s2;
                                                                     l' \<leftarrow> worker_unlock_other w (wks s' victim);
                                                                     Some (r, upd_w victim (\<lambda>_. l') s') }
                                                    else Some (False, s2));
                                                 Some (upd_w w (work_stolen_update (\<lambda>_. success)) s3) } } } })"

end
