(* ===== verification/Steal_Proofs.thy ===== *)
theory Steal_Proofs
  imports Steal
begin

text \<open>
  Properties of stealing: the victim is always another worker, a steal hands the thief the oldest
  frame of the victim's deque with the right join counters, and a failed one leaves the victim as it
  was.
\<close>

subsection \<open>The victim\<close>

lemma RNGMOD_word: "unat (of_nat RNGMOD :: 32 word) = RNGMOD"
  by (simp add: RNGMOD_def)

lemma rng_next_nat: "unat (rng_next st) = (RNGMUL * unat st) mod RNGMOD"
proof -
  have b: "unat st < 2 ^ 32" using unsigned_less [of st] by simp
  then have "RNGMUL * unat st < 2 ^ 64" by (simp add: RNGMUL_def)
  moreover have "unat (ucast st :: 64 word) = unat st" using b by (simp add: unsigned_ucast_eq take_bit_nat_eq_self_iff)
  ultimately have "unat (of_nat RNGMUL * ucast st :: 64 word) = RNGMUL * unat st"
    by (simp add: unat_word_ariths RNGMUL_def)
  moreover have "(RNGMUL * unat st) mod RNGMOD < RNGMOD" by (simp add: RNGMOD_def)
  then have "unat (of_nat ((RNGMUL * unat st) mod RNGMOD) :: 32 word) = (RNGMUL * unat st) mod RNGMOD"
    by (simp add: RNGMOD_def unsigned_of_nat take_bit_nat_eq_self_iff)
  ultimately show ?thesis by (simp add: rng_next_def)
qed

lemma rng_next_group:
  assumes "0 < unat st" and "unat st < RNGMOD"
  shows "0 < unat (rng_next st) \<and> unat (rng_next st) < RNGMOD"
proof -
  have "coprime RNGMOD RNGMUL" by (simp add: RNGMOD_def RNGMUL_def coprime_iff_gcd_eq_1 gcd_non_0_nat)
  then have "\<not> RNGMOD dvd RNGMUL * unat st"
    using assms nat_dvd_not_less [of "unat st" RNGMOD] by (simp add: coprime_dvd_mult_right_iff)
  then show ?thesis by (simp add: rng_next_nat mod_greater_zero_iff_not_dvd) (simp add: RNGMOD_def)
qed

lemma victim_number:
  assumes "0 < T" and "T < 2 ^ 31"
  shows "sint ((r :: 32 word) mod of_int T) = uint r mod T"
proof -
  have "uint (of_int T :: 32 word) = T" using assms by (simp add: unsigned_of_int take_bit_int_eq_self_iff)
  then have u: "uint (r mod of_int T) = uint r mod T" by (simp add: uint_mod_distrib)
  then have "uint (r mod of_int T) < 2 ^ 31" "0 \<le> uint (r mod of_int T)" using pos_mod_bound [OF assms(1), of "uint r"] pos_mod_sign [OF assms(1), of "uint r"] assms(2) by auto
  then show ?thesis using u by (simp add: sint_uint signed_take_bit_int_eq_self)
qed

text \<open>the number drawn for a random steal is that of another worker of
  the system, the seed of the generator stays in its multiplicative group, so it never gets stuck at
  zero, and it is the number drawn modulo the other workers, skipping the thief itself.\<close>

theorem victim_is_another_worker:
  assumes "choose_victim w s = (n, s')" and "0 \<le> self (wks s w)" and "self (wks s w) < total_workers (glob s)"
    and "1 < total_workers (glob s)" and "total_workers (glob s) \<le> 2 ^ 31"
    and "0 < unat (rand_seed (wks s w))" and "unat (rand_seed (wks s w)) < RNGMOD"
  shows "0 \<le> n \<and> n < total_workers (glob s) \<and> n \<noteq> self (wks s w) \<and>
    0 < unat (rand_seed (wks s' w)) \<and> unat (rand_seed (wks s' w)) < RNGMOD \<and>
    int (unat (rand_seed (wks s' w))) mod (total_workers (glob s) - 1) = (if n < self (wks s w) then n else n - 1)"
proof -
  let ?T = "total_workers (glob s) - 1" and ?r = "rng_next (rand_seed (wks s w))"
  have T: "0 < ?T" "?T < 2 ^ 31" using assms(4,5) by simp_all
  have n: "n = (if uint ?r mod ?T \<ge> self (wks s w) then uint ?r mod ?T + 1 else uint ?r mod ?T)"
    and s': "rand_seed (wks s' w) = ?r"
    using assms(1) victim_number [OF T] by (auto simp: choose_victim_def myrand_def Let_def)
  obtain u where u: "uint ?r mod ?T = u" "0 \<le> u" "u < ?T"
    using pos_mod_bound [OF T(1)] pos_mod_sign [OF T(1)] by blast
  have i: "int (unat ?r) mod ?T = u" using u(1) by (simp only: uint_nat)
  have "0 \<le> n \<and> n < total_workers (glob s) \<and> n \<noteq> self (wks s w) \<and> u = (if n < self (wks s w) then n else n - 1)"
    using n u(2,3) assms(2,3) unfolding u(1) by (auto split: if_splits)
  then show ?thesis using rng_next_group [OF assms(6,7)] unfolding s' i by blast
qed

theorem victim_is_another_worker_witness:
  "0 \<le> fst (choose_victim 5 (upd_w 5 (\<lambda>x. x\<lparr>self := 2, rand_seed := 7\<rparr>) (rt_zero\<lparr>glob := (glob rt_zero)\<lparr>total_workers := 4\<rparr>\<rparr>))) \<and>
   fst (choose_victim 5 (upd_w 5 (\<lambda>x. x\<lparr>self := 2, rand_seed := 7\<rparr>) (rt_zero\<lparr>glob := (glob rt_zero)\<lparr>total_workers := 4\<rparr>\<rparr>))) \<noteq> 2"
  using victim_is_another_worker [of 5 "upd_w 5 (\<lambda>x. x\<lparr>self := 2, rand_seed := 7\<rparr>) (rt_zero\<lparr>glob := (glob rt_zero)\<lparr>total_workers := 4\<rparr>\<rparr>)", OF surjective_pairing]
  by (simp add: RNGMOD_def)

subsection \<open>A failed attempt on the deque\<close>

lemma raise_lower: "decrement_E (increment_E d) = d"
  by (cases "exc d") (simp_all add: increment_E_def decrement_E_def)

text \<open>an attempt on the victim's deque that takes nothing leaves the whole
  store as it was. The exception is a replayed run in which neither the recorded pedigree nor the
  NUMA range of the frame fits: the victim's exception pointer is then lowered twice for the one
  time it was raised.\<close>

theorem failed_steal_restores:
  assumes "steal_from_deque issue rmatch fiber news w victim s = Some (False, s')"
  shows "s' = (if can_steal_from (increment_E (wks s victim)) \<and> \<not> rmatch \<and>
                 \<not> match_numa_sf w (ltq (wks s victim) (whead (wks s victim))) s
               then upd_w victim decrement_E s else s)"
proof -
  have id: "upd_w victim (\<lambda>_. wks s victim) s = s" by (simp add: upd_w_def)
  have dq: "ltq (increment_E d) = ltq d" "whead (increment_E d) = whead d" for d :: worker
    by (cases "exc d"; simp add: increment_E_def)+
  have n: "numa_node (increment_E d) = numa_node d" for d :: worker by (cases "exc d"; simp add: increment_E_def)
  have m: "match_numa_sf w x (upd_w victim (\<lambda>_. increment_E (wks s victim)) s) = match_numa_sf w x s"
    "match_numa_sf w x (upd_w victim (\<lambda>_. wks s victim) s) = match_numa_sf w x s" for x
    by (simp_all add: match_numa_sf_def match_numa_range_def get_worker_numa_def n)
  have two: "upd_w victim f (upd_w victim (\<lambda>_. d) s) = upd_w victim (\<lambda>_. f d) s" for f d by (simp add: upd_w_def)
  have dec: "upd_w victim decrement_E s = upd_w victim (\<lambda>_. decrement_E (wks s victim)) s" by (simp add: upd_w_def)
  show ?thesis using assms
    by (auto simp: steal_from_deque_def dekker_protocol_def Let_def two dec raise_lower id m dq split: if_splits)
qed

theorem failed_steal_restores_witness:
  "exc (wks (upd_w 7 decrement_E (upd_w 7 (\<lambda>x. x\<lparr>wtail := 1, protected_tail := 9\<rparr>)
      (upd_sf NULL (\<lambda>x. x\<lparr>flags := CILK_FRAME_NUMA, numa_low := 1, numa_high := 2\<rparr>) rt_zero))) 7) = Some (- 1) \<and>
   steal_from_deque (\<lambda>_ _ s. s) False 0 [] 5 7 (upd_w 7 (\<lambda>x. x\<lparr>wtail := 1, protected_tail := 9\<rparr>)
      (upd_sf NULL (\<lambda>x. x\<lparr>flags := CILK_FRAME_NUMA, numa_low := 1, numa_high := 2\<rparr>) rt_zero)) =
     Some (False, upd_w 7 decrement_E (upd_w 7 (\<lambda>x. x\<lparr>wtail := 1, protected_tail := 9\<rparr>)
      (upd_sf NULL (\<lambda>x. x\<lparr>flags := CILK_FRAME_NUMA, numa_low := 1, numa_high := 2\<rparr>) rt_zero)))"
proof -
  let ?s = "upd_w 7 (\<lambda>x. x\<lparr>wtail := 1, protected_tail := 9\<rparr>)
      (upd_sf NULL (\<lambda>x. x\<lparr>flags := CILK_FRAME_NUMA, numa_low := 1, numa_high := 2\<rparr>) rt_zero)"
  have n: "\<not> match_numa_sf 5 (ltq (wks ?s 7) (whead (wks ?s 7))) ?s" "can_steal_from (increment_E (wks ?s 7))"
    by (simp_all add: match_numa_sf_def match_numa_range_def get_worker_numa_def CILK_FRAME_NUMA_def zero_defs increment_E_def can_steal_from_def)
  obtain s' where s': "steal_from_deque (\<lambda>_ _ s. s) False 0 [] 5 7 ?s = Some (False, s')"
    using n(2) by (simp add: steal_from_deque_def dekker_protocol_def Let_def)
  from failed_steal_restores [OF this] n have "s' = upd_w 7 decrement_E ?s" by simp
  then show ?thesis using s' by (simp add: decrement_E_def zero_defs)
qed

subsection \<open>A successful steal\<close>

lemma chain_last_frame:
  "chain s f fs y zs \<Longrightarrow> length fs = length zs \<and> call_stack (ffs s (last (f # fs))) = last (y # zs) \<and>
     suspended_sf s (last (y # zs)) \<and> (fs \<noteq> [] \<longrightarrow> join_counter (ffs s (last (f # fs))) = 0)"
  by (induction s f fs y zs rule: chain.induct) (auto split: if_splits)

lemma make_unrunnable_lock: "ff_lock (ffs (make_unrunnable f y b s) x) = ff_lock (ffs s x)"
  by (simp add: make_unrunnable_def make_unrunnable_sysdep_def Let_def put_stack_def)

lemma make_unrunnable_rightmost: "rightmost_child (ffs (make_unrunnable f y b s) x) = rightmost_child (ffs s x)"
  by (simp add: make_unrunnable_def make_unrunnable_sysdep_def Let_def put_stack_def)

text \<open>A promotion leaves the locks of the old frames alone, and the loot's last child, if any, is not one
  of the blocks still to be used.\<close>

lemma promote_frames_extra:
  assumes "promote_frames loot f y news s = Some (f', y', news', s')" and "distinct (f # news)" and "NULL \<notin> set news"
    and "rightmost_child (ffs s f) \<notin> set news" and "x \<notin> set news"
  shows "ff_lock (ffs s' x) = ff_lock (ffs s x) \<and> rightmost_child (ffs s' f') \<notin> set news'"
  using assms
proof (induction news arbitrary: f y s)
  case Nil
  then show ?case
    by (subst (asm) promote_frames.simps) (auto simp: advance_frame_def Let_def split: if_splits)
next
  case (Cons g news)
  show ?case
  proof (cases "call_parent (sfs s y) = NULL")
    case True
    then show ?thesis using Cons.prems
      by (subst (asm) promote_frames.simps) (auto simp: advance_frame_def Let_def split: if_splits)
  next
    case False
    define z where "z = call_parent (sfs s y)"
    define s1 where "s1 = upd_sf y (call_parent_update (\<lambda>_. NULL)) s"
    from False Cons.prems(1) obtain s2 where s2: "make_child f g z NULL s1 = Some s2"
      and r: "promote_frames loot g z news (make_unrunnable g z (z = loot) s2) = Some (f', y', news', s')"
      by (subst (asm) promote_frames.simps) (auto simp: advance_frame_def Let_def bind_eq_Some_conv z_def s1_def)
    have "g \<noteq> f" "x \<noteq> g" using Cons.prems(2,5) by auto
    then have 2: "ff_lock (ffs s2 x) = ff_lock (ffs s x)" "rightmost_child (ffs s2 g) = NULL"
      using s2 Cons.prems(3,4) unfolding s1_def
      by (auto simp: make_child_def make_full_frame_def push_child_def double_link_def incjoin_def Let_def bind_eq_Some_conv)
    have "ff_lock (ffs s' x) = ff_lock (ffs (make_unrunnable g z (z = loot) s2) x) \<and> rightmost_child (ffs s' f') \<notin> set news'"
      by (rule Cons.IH [OF r]) (use Cons.prems 2 in \<open>auto simp: make_unrunnable_rightmost\<close>)
    then show ?thesis using 2 by (simp add: make_unrunnable_lock)
  qed
qed

lemma reverse_call_stack_ffs:
  assumes "reverse_call_stack sf rv s = Some r"
  shows "ffs (snd r) = ffs s"
proof (rule reverse_call_stack.raw_induct [where P = "\<lambda>sf rv s r. ffs (snd r) = ffs s", OF _ assms])
  fix f sf rv s r
  assume IH: "\<And>sf rv s r. f sf rv s = Some r \<Longrightarrow> ffs (snd r) = ffs s"
    and eq: "(let t_sf = (if flags (sfs s sf) AND stop_flags \<noteq> 0 then NULL else call_parent (sfs s sf));
          s1 = upd_sf sf (call_parent_update (\<lambda>_. rv)) s
      in if t_sf \<noteq> NULL then f t_sf sf s1 else Some (sf, s1)) = Some r"
  have "ffs (snd r) = ffs (upd_sf sf (call_parent_update (\<lambda>_. rv)) s)"
    using eq IH [of _ sf "upd_sf sf (call_parent_update (\<lambda>_. rv)) s" r] by (auto simp: Let_def split: if_splits)
  then show "ffs (snd r) = ffs s" by simp
qed

lemma unroll_call_stack_extra:
  assumes "unroll_call_stack w f loot news s = Some (f', news', s')" and "distinct (f # news)" and "NULL \<notin> set news"
    and "rightmost_child (ffs s f) \<notin> set news" and "x \<notin> set news"
  shows "ff_lock (ffs s' x) = ff_lock (ffs s x) \<and> rightmost_child (ffs s' f') \<notin> set news'"
proof -
  let ?s1 = "if sf_worker (sfs s loot) \<noteq> w
     then upd_sf loot (\<lambda>x. x\<lparr>flags := flags x OR CILK_FRAME_UNSYNCHED\<rparr>) s else s"
  from assms(1) obtain sf s2 y where r: "reverse_call_stack loot NULL ?s1 = Some (sf, s2)"
    and p: "promote_frames loot f sf news (make_unrunnable f sf (sf = loot) s2) = Some (f', y, news', s')"
    by (auto simp: unroll_call_stack_def Let_def bind_eq_Some_conv)
  have "ffs s2 = ffs s" using reverse_call_stack_ffs [OF r] by simp
  with promote_frames_extra [OF p assms(2,3) _ assms(5)] assms(4) show ?thesis
    by (simp add: make_unrunnable_lock make_unrunnable_rightmost)
qed

lemma make_spawn_child_effect:
  assumes "f \<noteq> NULL" and "g \<noteq> f" and "g \<noteq> NULL" and "rightmost_child (ffs s f) \<noteq> g" and "call_stack (ffs s f) \<noteq> NULL"
    and "fiber \<noteq> NULL"
  shows "\<exists>s'. make_child f g z fiber s = Some s' \<and> wks s' = wks s \<and> sfs s' = sfs s \<and>
    full_frame_magic_0 (ffs s' g) = FULL_FRAME_MAGIC_0 \<and> full_frame_magic_1 (ffs s' g) = FULL_FRAME_MAGIC_1 \<and>
    mutex_ok (ff_lock (ffs s' g)) \<and> mutex_owner (ff_lock (ffs s' g)) = NULL \<and>
    parent (ffs s' g) = f \<and> \<not> is_call_child (ffs s' g) \<and> join_counter (ffs s' g) = 0 \<and>
    rightmost_child (ffs s' f) = g \<and> call_stack (ffs s' f) = call_stack (ffs s f) \<and>
    (\<forall>x. x \<noteq> g \<longrightarrow> ff_lock (ffs s' x) = ff_lock (ffs s x)) \<and>
    (\<forall>x. x \<noteq> g \<longrightarrow> join_counter (ffs s' x) = join_counter (ffs s x) + (if x = f then 1 else 0))"
  using assms
  by (auto simp: make_child_def make_full_frame_def push_child_def double_link_def incjoin_def Let_def mutex_init_def mutex_ok_def)

lemma frame_lock_ok:
  assumes "validate_full_frame f s = Some ()" and "mutex_ok (ff_lock (ffs s f))" and "mutex_owner (ff_lock (ffs s f)) = NULL"
  shows "frame_lock w f s = Some (upd_ff f (ff_lock_update (\<lambda>m. m\<lparr>mutex_lock_word := 1, mutex_owner := w\<rparr>)) s)"
  using assms by (cases "ffs s f") (simp add: frame_lock_def mutex_lock_total upd_ff_def)

lemma frame_unlock_ok:
  assumes "mutex_owner (ff_lock (ffs s f)) = w"
  shows "frame_unlock w f s = Some (upd_ff f (ff_lock_update (\<lambda>m. m\<lparr>mutex_lock_word := 0, mutex_owner := NULL\<rparr>)) s)"
  using assms by (cases "ffs s f"; cases "ff_lock (ffs s f)") (simp add: frame_unlock_def mutex_unlock_def upd_ff_def)

text \<open>The issue function, compiled from the program, works on dataflow objects and pending frames.\<close>

definition issue_ok :: "(ptr \<Rightarrow> ptr \<Rightarrow> rt \<Rightarrow> rt) \<Rightarrow> bool" where
  "issue_ok issue \<longleftrightarrow> (\<forall>fn tags s. wks (issue fn tags s) = wks s \<and> ffs (issue fn tags s) = ffs s \<and> sfs (issue fn tags s) = sfs s)"

lemma issue_child_effect:
  assumes "issue_ok issue" and "suspended_sf s y"
  shows "wks (issue_child issue sf s) = wks s" and "ffs (issue_child issue sf s) = ffs s"
    and "suspended_sf (issue_child issue sf s) y"
  using assms
  by (auto simp: issue_child_def issue_ok_def Let_def fetch_or_one_def suspended_sf_def bit.conj_disj_distrib2)

text \<open>\<open>can_detach w v y zs news s\<close>: the frame at the head of the deque of the victim \<open>v\<close> is the
  youngest of a call stack of stack frames, oldest first \<open>y # zs\<close>; the victim's full frame is valid,
  unlocked and referenced; \<open>news\<close> are enough unused blocks; and the thief \<open>w\<close> has nothing to run.\<close>

definition can_detach :: "ptr \<Rightarrow> ptr \<Rightarrow> ptr \<Rightarrow> ptr list \<Rightarrow> ptr list \<Rightarrow> rt \<Rightarrow> bool" where
  "can_detach w v y zs news s \<longleftrightarrow>
     (let f = w_frame_ff (wks s v)
      in w \<noteq> v \<and> w_frame_ff (wks s w) = NULL \<and> next_frame_ff (wks s w) = NULL \<and>
         cstack s (ltq (wks s v) (whead (wks s v))) (rev (y # zs)) \<and> distinct (y # zs) \<and>
         length zs < length news \<and> distinct (f # news) \<and> NULL \<notin> set (f # news) \<and>
         rightmost_child (ffs s f) \<notin> set (f # news) \<and> validate_full_frame f s = Some () \<and>
         mutex_ok (ff_lock (ffs s f)) \<and> mutex_owner (ff_lock (ffs s f)) = NULL \<and> 0 < join_counter (ffs s f))"

text \<open>C8 (steal_hands_over_oldest): a steal succeeds and advances the head of the victim's deque by one.
  The thief will run the loot: the full frame of the stolen stack frame, which waits for one thing
  more, the new spawn child under it. The victim's full frame is now that child, and the victim is
  its only reference; a chain of full frames stands for the callers, with the victim's old full frame
  on top, unlocked again and with the join counter it had (unless it is the loot itself).\<close>

theorem steal_hands_over_oldest:
  assumes "can_detach w v y zs news s" and "fiber \<noteq> NULL" and "issue_ok issue"
  shows "\<exists>s'. detach_for_steal issue w v fiber news s = Some s' \<and>
    (let f = w_frame_ff (wks s v); loot = last (f # take (length zs) news); child = news ! length zs
     in next_frame_ff (wks s' w) = loot \<and> team (wks s' w) = team (wks s v) \<and>
        w_frame_ff (wks s' v) = child \<and> whead (wks s' v) = whead (wks s v) + 1 \<and>
        call_stack (ffs s' loot) = ltq (wks s v) (whead (wks s v)) \<and> suspended_sf s' (call_stack (ffs s' loot)) \<and>
        rightmost_child (ffs s' loot) = child \<and> parent (ffs s' child) = loot \<and> \<not> is_call_child (ffs s' child) \<and>
        call_stack (ffs s' child) = NULL \<and> join_counter (ffs s' child) = 1 \<and>
        join_counter (ffs s' loot) = (if zs = [] then join_counter (ffs s f) + 1 else 2) \<and>
        (zs = [] \<or> join_counter (ffs s' f) = join_counter (ffs s f)) \<and>
        mutex_owner (ff_lock (ffs s' f)) = NULL \<and> mutex_owner (ff_lock (ffs s' child)) = NULL)"
proof -
  define f where "f = w_frame_ff (wks s v)"
  define x where "x = ltq (wks s v) (whead (wks s v))"
  have a: "w \<noteq> v" "w_frame_ff (wks s w) = NULL" "next_frame_ff (wks s w) = NULL" "cstack s x (rev (y # zs))"
    "distinct (y # zs)" "length zs < length news" "distinct (f # news)" "NULL \<notin> set (f # news)"
    "rightmost_child (ffs s f) \<notin> set (f # news)" "validate_full_frame f s = Some ()"
    "mutex_ok (ff_lock (ffs s f))" "mutex_owner (ff_lock (ffs s f)) = NULL" "0 < join_counter (ffs s f)"
    using assms(1) unfolding can_detach_def Let_def f_def [symmetric] x_def [symmetric] by simp_all
  have hd: "hd (rev (y # zs)) = x" "x \<noteq> NULL" using cstack_hd [OF a(4)] by auto
  have lx: "last (y # zs) = x" using hd(1) by (simp add: hd_rev del: rev.simps)
  define s1 where "s1 = upd_w w (team_update (\<lambda>_. team (wks s v))) s"
  define s2 where "s2 = upd_w v (\<lambda>d. d\<lparr>whead := whead d + 1\<rparr>) s1"
  define s3 where "s3 = upd_ff f (ff_lock_update (\<lambda>m. m\<lparr>mutex_lock_word := 1, mutex_owner := w\<rparr>)) s2"
  define s4 where "s4 = upd_ff f (\<lambda>g. g\<lparr>join_counter := join_counter g - 1\<rparr>) s3"
  have t: "Work_Deque.take_head (wks s1 v) = Some (x, wks s2 v)" "upd_w v (\<lambda>_. wks s2 v) s1 = s2" "w_frame_ff (wks s2 v) = f"
    using a(1) hd(2) by (simp_all add: s1_def s2_def Work_Deque.take_head_def x_def f_def upd_w_def)
  have w1: "w_frame_ff (wks s1 w) = NULL" using a(2) by (simp add: s1_def)
  have l: "frame_lock w f s2 = Some s3" unfolding s3_def
    by (rule frame_lock_ok) (use a(10-12) in \<open>simp_all add: s1_def s2_def validate_full_frame_def\<close>)
  have d: "decjoin f s3 = Some (join_counter (ffs s f) - 1, s4)"
    using a(13) by (simp add: decjoin_def s4_def s3_def s2_def s1_def Let_def)
  have f4: "sfs s4 = sfs s" "rightmost_child (ffs s4 f) = rightmost_child (ffs s f)"
    "join_counter (ffs s4 f) = join_counter (ffs s f) - 1" "mutex_owner (ff_lock (ffs s4 f)) = w"
    by (simp_all add: s4_def s3_def s2_def s1_def)
  have "cstack s4 x (rev (y # zs))" using a(4) by (rule cstack_cong) (simp add: f4)
  note c4 = this
  have n4: "length zs \<le> length news" "rightmost_child (ffs s4 f) \<notin> set (f # news)" using a(6,9) f4(2) by auto
  obtain lo ch where lo: "last (f # take (length zs) news) = lo" and ch: "news ! length zs = ch" by blast
  from unroll_call_stack_chain [OF c4 a(5) n4(1) a(7,8) n4(2), of w, unfolded lo] obtain s5 where
    u: "unroll_call_stack w f x news s4 = Some (lo, drop (length zs) news, s5)" "chain s5 f (take (length zs) news) y zs"
      "touched_only (insert f (insert (rightmost_child (ffs s4 f)) (set (take (length zs) news))) - {NULL}) (set (y # zs)) s4 s5"
      "join_counter (ffs s5 f) = join_counter (ffs s4 f) + (if zs = [] then 0 else 1)"
    by (elim exE conjE) (rule that; assumption)
  have w5: "wks s5 = wks s4" using u(3) by (simp add: touched_only_def)
  have drop: "drop (length zs) news = ch # drop (Suc (length zs)) news" using Cons_nth_drop_Suc [OF a(6)] ch by simp
  have nn: "NULL \<notin> set news" using a(8) by simp
  have rm: "rightmost_child (ffs s4 f) \<notin> set news" using n4(2) by simp
  have fn: "f \<notin> set news" "f \<noteq> NULL" using a(7,8) by auto
  note ex = unroll_call_stack_extra [OF u(1) a(7) nn rm]
  have e5: "mutex_owner (ff_lock (ffs s5 f)) = w" "rightmost_child (ffs s5 lo) \<noteq> ch"
    using ex [OF fn(1)] f4(4) unfolding drop by auto
  have cl: "call_stack (ffs s5 lo) = x" "suspended_sf s5 x" "zs \<noteq> [] \<Longrightarrow> join_counter (ffs s5 lo) = 0"
    using chain_last_frame [OF u(2), unfolded lo] lx a(6) by auto
  have ln: "lo \<noteq> NULL" "ch \<noteq> lo" "ch \<noteq> NULL" "ch \<noteq> f" "zs \<noteq> [] \<Longrightarrow> lo \<noteq> f"
  proof -
    have "lo \<in> insert f (set (take (length zs) news))" unfolding lo [symmetric] by (cases "take (length zs) news") auto
    moreover have cn: "ch \<in> set (drop (length zs) news)" unfolding drop by simp
    moreover have "set (take (length zs) news) \<inter> set (drop (length zs) news) = {}"
      using a(7) set_take_disj_set_drop_if_distinct [of news "length zs" "length zs"] by simp
    ultimately show "lo \<noteq> NULL" "ch \<noteq> lo" "ch \<noteq> NULL" "ch \<noteq> f"
      using fn nn by (auto dest: in_set_takeD in_set_dropD)
    assume "zs \<noteq> []"
    then have "take (length zs) news \<noteq> []" using a(6) by auto
    then show "lo \<noteq> f" using fn(1) unfolding lo [symmetric] by (metis last_ConsR last_in_set in_set_takeD)
  qed
  define s6 where "s6 = (if wtype (wks s5 v) = WORKER_USER \<and> last_full_frame (wks s5 v) = NULL then set_sync_master v lo s5 else s5)"
  define s7 where "s7 = upd_w w (next_frame_ff_update (\<lambda>_. lo)) (incjoin lo s6)"
  have f6: "sfs s6 = sfs s5" "call_stack (ffs s6 z) = call_stack (ffs s5 z)" "join_counter (ffs s6 z) = join_counter (ffs s5 z)"
    "rightmost_child (ffs s6 z) = rightmost_child (ffs s5 z)" "ff_lock (ffs s6 z) = ff_lock (ffs s5 z)"
    "next_frame_ff (wks s6 w) = NULL" "team (wks s6 w) = team (wks s v)" "whead (wks s6 v) = whead (wks s v) + 1" for z
    using a(1,3) by (simp_all add: s6_def set_sync_master_def w5 s4_def s3_def s2_def s1_def)
  have p: "push_next_frame w lo s6 = Some s7" using ln(1) f6(6) by (simp add: push_next_frame_def s7_def)
  have f7: "sfs s7 = sfs s5" "call_stack (ffs s7 z) = call_stack (ffs s5 z)"
    "join_counter (ffs s7 z) = join_counter (ffs s5 z) + (if z = lo then 1 else 0)"
    "rightmost_child (ffs s7 z) = rightmost_child (ffs s5 z)" "ff_lock (ffs s7 z) = ff_lock (ffs s5 z)" for z
    by (simp_all add: s7_def incjoin_def f6)
  have sus7: "suspended_sf s7 x" using cl(2) by (simp add: suspended_sf_def f7(1))
  define s8 where "s8 = issue_child issue x s7"
  note i8 = issue_child_effect [OF assms(3) sus7, of x, folded s8_def]
  have m: "rightmost_child (ffs s8 lo) \<noteq> ch" "call_stack (ffs s8 lo) \<noteq> NULL" using e5(2) cl(1) hd(2) by (simp_all add: i8(2) f7)
  from make_spawn_child_effect [OF ln(1-3) m assms(2), of NULL] obtain s9 where
    s9: "make_child lo ch NULL fiber s8 = Some s9" "wks s9 = wks s8" "sfs s9 = sfs s8"
      "full_frame_magic_0 (ffs s9 ch) = FULL_FRAME_MAGIC_0" "full_frame_magic_1 (ffs s9 ch) = FULL_FRAME_MAGIC_1"
      "mutex_ok (ff_lock (ffs s9 ch))" "mutex_owner (ff_lock (ffs s9 ch)) = NULL"
      "parent (ffs s9 ch) = lo" "\<not> is_call_child (ffs s9 ch)" "join_counter (ffs s9 ch) = 0"
      "rightmost_child (ffs s9 lo) = ch" "call_stack (ffs s9 lo) = call_stack (ffs s8 lo)"
      "\<And>z. z \<noteq> ch \<Longrightarrow> ff_lock (ffs s9 z) = ff_lock (ffs s8 z)"
      "\<And>z. z \<noteq> ch \<Longrightarrow> join_counter (ffs s9 z) = join_counter (ffs s8 z) + (if z = lo then 1 else 0)"
    by (elim exE conjE) (rule that; blast)
  define s10 where "s10 = upd_ff ch (ff_lock_update (\<lambda>m. m\<lparr>mutex_lock_word := 1, mutex_owner := w\<rparr>)) s9"
  define s11 where "s11 = make_runnable v ch (incjoin ch s10)"
  define s12 where "s12 = upd_ff ch (ff_lock_update (\<lambda>m. m\<lparr>mutex_lock_word := 0, mutex_owner := NULL\<rparr>)) s11"
  define s13 where "s13 = upd_ff f (ff_lock_update (\<lambda>m. m\<lparr>mutex_lock_word := 0, mutex_owner := NULL\<rparr>)) s12"
  have l10: "frame_lock w ch s9 = Some s10" unfolding s10_def
    by (rule frame_lock_ok) (use s9(4-7) in \<open>simp_all add: validate_full_frame_def\<close>)
  have l12: "frame_unlock w ch s11 = Some s12" unfolding s12_def
    by (rule frame_unlock_ok) (simp add: s11_def s10_def make_runnable_def incjoin_def)
  have l13: "frame_unlock w f s12 = Some s13" unfolding s13_def
    by (rule frame_unlock_ok)
      (use ln(4) in \<open>simp add: s12_def s11_def s10_def make_runnable_def incjoin_def s9(13) i8(2) f7 e5(1)\<close>)
  have "detach_for_steal issue w v fiber news s = Some s13"
    using a(1)
    by (simp only: detach_for_steal_def Let_def s1_def [symmetric] w1 simp_thms cilk_assert_def if_True if_False Option.bind.simps
        prod.case list.case t l d u(1) s6_def [symmetric] p s8_def [symmetric] drop s9(1) l10 s11_def [symmetric] l12 l13)
  moreover have f13: "call_stack (ffs s13 z) = (if z = ch then NULL else call_stack (ffs s9 z))"
    "join_counter (ffs s13 z) = join_counter (ffs s9 z) + (if z = ch then 1 else 0)"
    "rightmost_child (ffs s13 z) = rightmost_child (ffs s9 z)" "parent (ffs s13 z) = parent (ffs s9 z)"
    "is_call_child (ffs s13 z) = is_call_child (ffs s9 z)" "sfs s13 = sfs s9" for z
    by (simp_all add: s13_def s12_def s11_def s10_def make_runnable_def incjoin_def)
  have w13: "next_frame_ff (wks s13 w) = lo" "team (wks s13 w) = team (wks s v)" "w_frame_ff (wks s13 v) = ch"
    "whead (wks s13 v) = whead (wks s v) + 1"
    using a(1) by (simp_all add: s13_def s12_def s11_def s10_def make_runnable_def incjoin_def s9(2) i8(1) s7_def f6)
  have jl: "join_counter (ffs s13 lo) = join_counter (ffs s5 lo) + 2"
    using ln(2) by (simp add: f13(2) s9(14) i8(2) f7(3))
  have jf: "zs \<noteq> [] \<Longrightarrow> join_counter (ffs s13 f) = join_counter (ffs s5 f)"
    using ln(4,5) by (simp add: f13(2) s9(14) i8(2) f7(3))
  have cs: "call_stack (ffs s13 lo) = x" using ln(2) by (simp add: f13(1) s9(12) i8(2) f7(2) cl(1))
  have sus: "suspended_sf s13 x" using i8(3) by (simp add: suspended_sf_def f13(6) s9(3))
  have lk: "mutex_owner (ff_lock (ffs s13 f)) = NULL" "mutex_owner (ff_lock (ffs s13 ch)) = NULL"
    using ln(4) by (simp_all add: s13_def s12_def)
  have jl': "join_counter (ffs s13 lo) = (if zs = [] then join_counter (ffs s f) + 1 else 2)"
    using jl u(4) f4(3) cl(3) lo by (cases "zs = []") auto
  have jf': "zs = [] \<or> join_counter (ffs s13 f) = join_counter (ffs s f)"
    using jf u(4) f4(3) by auto
  ultimately show ?thesis
    unfolding Let_def f_def [symmetric] x_def [symmetric] lo ch
    by (intro exI [of _ s13] conjI) (use w13 cs sus lk jl' jf' ln(2) s9(8-11) in \<open>simp_all add: f13\<close>)
qed

definition steal_demo :: rt where
  "steal_demo = upd_w 7 (\<lambda>d. d\<lparr>w_frame_ff := 1, team := 7, wtail := 1, ltq := (\<lambda>_. NULL)(0 := 11)\<rparr>)
     (upd_ff 1 (\<lambda>f. f\<lparr>full_frame_magic_0 := FULL_FRAME_MAGIC_0, full_frame_magic_1 := FULL_FRAME_MAGIC_1, join_counter := 1\<rparr>)
       unroll_demo)"

theorem steal_hands_over_oldest_witness:
  "\<exists>s'. detach_for_steal (\<lambda>_ _ s. s) 5 7 90 [2, 3, 4] steal_demo = Some s' \<and> next_frame_ff (wks s' 5) = 3 \<and>
     w_frame_ff (wks s' 7) = 4 \<and> parent (ffs s' 4) = 3 \<and> call_stack (ffs s' 3) = 11 \<and>
     join_counter (ffs s' 3) = 2 \<and> join_counter (ffs s' 1) = 1"
proof -
  have "can_detach 5 7 13 [12, 11] [2, 3, 4] steal_demo"
    by (simp add: can_detach_def steal_demo_def unroll_demo_def zero_defs stop_flags_def frame_flag_defs
        validate_full_frame_def mutex_ok_def)
  from steal_hands_over_oldest [OF this, of 90 "\<lambda>_ _ s. s"] show ?thesis
    by (simp add: issue_ok_def steal_demo_def unroll_demo_def zero_defs) blast
qed

end
