(* ===== verification/Scheduling.thy ===== *)
theory Scheduling
  imports Steal Reductions
begin

text \<open>
  Who runs a frame next (runtime/scheduler.c): the frame at a sync is resumed by the last to
  arrive (\<open>provably_good_steal\<close>), a called frame by its caller (\<open>unconditional_steal\<close>), and a
  worker takes a frame up with \<open>setup_for_execution\<close>. The store is that of theory Reductions; the
  C++ runtime's exception globals of the thread are handed through. There is no replay log, so the
  loops that wait for the recorded order do not run; \<open>provably_good_steal\<close> keeps its test.
\<close>

datatype provably_good_steal_t = ABANDON_EXECUTION | CONTINUE_EXECUTION | WAIT_FOR_CONTINUE

definition rs_do :: "(rt \<Rightarrow> rt option) \<Rightarrow> 'a red \<Rightarrow> 'a red option" where
  "rs_do f z = map_option (\<lambda>s. z\<lparr>rs := s\<rparr>) (f (rs z))"

subsection \<open>The last one at a sync\<close>

definition provably_good_steal_exceptions :: "ptr \<Rightarrow> 'a red \<Rightarrow> 'a red option" where
  "provably_good_steal_exceptions ff z =
     do { (p, h) \<leftarrow> merge_pending_exceptions (child_pending_exception (ffs (rs z) ff)) (ff_pending_exception (ffs (rs z) ff)) (excs z);
          Some (upd_rs (upd_ff ff (\<lambda>f. f\<lparr>ff_pending_exception := p, child_pending_exception := NULL\<rparr>)) z\<lparr>excs := h\<rparr>) }"

definition provably_good_steal_stacks :: "ptr \<Rightarrow> rt \<Rightarrow> rt option" where
  "provably_good_steal_stacks ff s =
     do { cilk_assert (fiber_self (ffs s ff) = NULL);
          Some (upd_ff ff (\<lambda>f. f\<lparr>fiber_self := fiber_child f, fiber_child := NULL\<rparr>) s) }"

definition mark_synched :: "ptr \<Rightarrow> rt \<Rightarrow> rt" where
  "mark_synched ff s =
     upd_ff ff (simulated_stolen_update (\<lambda>_. False))
       (upd_sf (call_stack (ffs s ff)) (\<lambda>x. x\<lparr>flags := flags x AND NOT CILK_FRAME_UNSYNCHED\<rparr>) s)"

text \<open>\<open>match_found\<close> is the answer of the replay log, false without one.\<close>

definition provably_good_steal :: "bool \<Rightarrow> ptr \<Rightarrow> ptr \<Rightarrow> 'a red \<Rightarrow> (provably_good_steal_t \<times> 'a red) option" where
  "provably_good_steal match_found w ff z =
     do { wait \<leftarrow> (if match_found then map_option (\<lambda>n. n \<noteq> 0) (simulate_decjoin ff (rs z)) else Some False);
          if wait then Some (WAIT_FOR_CONTINUE, z)
          else do { (n, s1) \<leftarrow> decjoin ff (rs z);
                    let z1 = z\<lparr>rs := s1\<rparr>;
                    if n = 0
                    then do { z2 \<leftarrow> provably_good_steal_exceptions ff z1;
                              z3 \<leftarrow> rs_do (provably_good_steal_stacks ff) z2;
                              let z4 = upd_rs (mark_synched ff) z3;
                              if sync_master (ffs (rs z4) ff) \<noteq> NULL
                              then do { let t = team (wks (rs z4) w);
                                        z5 \<leftarrow> rs_do (unset_sync_master t ff) z4;
                                        z6 \<leftarrow> rs_do (push_next_frame t ff) z5;
                                        Some (if w = t then CONTINUE_EXECUTION else ABANDON_EXECUTION, z6) }
                              else do { z5 \<leftarrow> rs_do (push_next_frame w ff) z4; Some (CONTINUE_EXECUTION, z5) } }
                    else Some (ABANDON_EXECUTION, z1) } }"

definition unconditional_steal :: "ptr \<Rightarrow> ptr \<Rightarrow> rt \<Rightarrow> rt option" where
  "unconditional_steal w ff s = do { (_, s1) \<leftarrow> decjoin ff s; push_next_frame w ff s1 }"

subsection \<open>Return to a caller\<close>

definition splice_exceptions_for_call :: "ptr \<Rightarrow> ptr \<Rightarrow> rt \<Rightarrow> rt option" where
  "splice_exceptions_for_call parent_ff child_ff s =
     do { cilk_assert (is_call_child (ffs s child_ff));
          cilk_assert (right_pending_exception (ffs s child_ff) = NULL);
          cilk_assert (ff_pending_exception (ffs s parent_ff) = NULL);
          Some (upd_ff child_ff (ff_pending_exception_update (\<lambda>_. NULL))
                 (upd_ff parent_ff (ff_pending_exception_update (\<lambda>_. ff_pending_exception (ffs s child_ff))) s)) }"

definition splice_stacks_for_call :: "ptr \<Rightarrow> ptr \<Rightarrow> rt \<Rightarrow> rt option" where
  "splice_stacks_for_call parent_ff child_ff s =
     do { cilk_assert (fiber_child (ffs s child_ff) = NULL);
          cilk_assert (is_call_child (ffs s child_ff));
          cilk_assert (fiber_self (ffs s parent_ff) = NULL);
          Some (upd_ff child_ff (fiber_self_update (\<lambda>_. NULL))
                 (upd_ff parent_ff (fiber_self_update (\<lambda>_. fiber_self (ffs s child_ff))) s)) }"

definition finalize_child_for_call :: "ptr \<Rightarrow> ptr \<Rightarrow> ptr \<Rightarrow> rt \<Rightarrow> rt option" where
  "finalize_child_for_call w parent_ff child_ff s =
     do { cilk_assert (is_call_child (ffs s child_ff));
          cilk_assert (join_counter (ffs s child_ff) = 0);
          cilk_assert (rightmost_child (ffs s child_ff) = NULL);
          cilk_assert (child_ff = rightmost_child (ffs s parent_ff));
          cilk_assert (children_reducer_map (ffs s child_ff) = NULL);
          cilk_assert (right_reducer_map (ffs s child_ff) = NULL);
          s1 \<leftarrow> splice_exceptions_for_call parent_ff child_ff s;
          s2 \<leftarrow> splice_stacks_for_call parent_ff child_ff s1;
          s3 \<leftarrow> unlink_child parent_ff child_ff s2;
          s4 \<leftarrow> unconditional_steal w parent_ff s3;
          _ \<leftarrow> destroy_full_frame child_ff s4;
          Some s4 }"

definition disown :: "ptr \<Rightarrow> ptr \<Rightarrow> ptr \<Rightarrow> rt \<Rightarrow> (ptr \<times> rt) option" where
  "disown w ff sf s =
     do { cilk_assert (ff \<noteq> NULL);
          let s1 = upd_w w (w_frame_ff_update (\<lambda>_. NULL)) (make_unrunnable ff sf (sf \<noteq> NULL) s);
          Some (parent (ffs s1 ff), s1) }"

subsection \<open>Taking a frame up\<close>

definition setup_for_execution_reducers :: "ptr \<Rightarrow> ptr \<Rightarrow> rt \<Rightarrow> rt option" where
  "setup_for_execution_reducers w ff s =
     (if flags (sfs s (call_stack (ffs s ff))) AND CILK_FRAME_UNSYNCHED = 0
      then do { cilk_assert (rightmost_child (ffs s ff) = NULL);
                if children_reducer_map (ffs s ff) \<noteq> NULL
                then do { cilk_assert (reducer_map (wks s w) = NULL);
                          Some (upd_ff ff (children_reducer_map_update (\<lambda>_. NULL))
                                 (upd_w w (reducer_map_update (\<lambda>_. children_reducer_map (ffs s ff))) s)) }
                else Some s }
      else Some s)"

definition setup_for_execution_exceptions :: "ptr \<Rightarrow> ptr \<Rightarrow> rt \<Rightarrow> rt option" where
  "setup_for_execution_exceptions w ff s =
     do { cilk_assert (w_pending_exception (wks s w) = NULL);
          Some (upd_ff ff (ff_pending_exception_update (\<lambda>_. NULL))
                 (upd_w w (w_pending_exception_update (\<lambda>_. ff_pending_exception (ffs s ff))) s)) }"

definition setup_for_execution_pedigree :: "ptr \<Rightarrow> rt \<Rightarrow> rt option" where
  "setup_for_execution_pedigree w s =
     (let sf = current_stack_frame (wks s w)
      in do { cilk_assert (sf \<noteq> NULL);
              if CILK_FRAME_VERSION_VALUE (flags (sfs s sf)) = 0 then Some s
              else do { let pedigree_unsynched = (flags (sfs s sf) AND CILK_FRAME_SF_PEDIGREE_UNSYNCHED \<noteq> 0);
                        let s1 = upd_sf sf (\<lambda>x. x\<lparr>flags := flags x AND NOT CILK_FRAME_SF_PEDIGREE_UNSYNCHED\<rparr>) s;
                        let s2 = (if work_stolen (wks s1 w) \<or> pedigree_unsynched
                                  then upd_w w (\<lambda>v. v\<lparr>w_pedigree := (w_pedigree v)\<lparr>rank :=
                                         (if work_stolen v then rank (sf_pedigree (sfs s1 sf)) + 1
                                          else rank (sf_pedigree (sfs s1 sf)))\<rparr>\<rparr>) s1
                                  else s1);
                        Some (upd_w w (\<lambda>v. v\<lparr>w_pedigree := (w_pedigree v)\<lparr>parent_node := parent_node (sf_pedigree (sfs s1 sf))\<rparr>,
                                             work_stolen := False\<rparr>) s2) } })"

text \<open>The exceptions saved with the frame become the thread's, runtime/except-gcc.cpp.\<close>

definition setup_for_execution_sysdep :: "ptr \<Rightarrow> ptr \<Rightarrow> eh_globals \<Rightarrow> 'a red \<Rightarrow> (eh_globals \<times> 'a red) option" where
  "setup_for_execution_sysdep w ff state z =
     (let info = w_pending_exception (wks (rs z) w)
      in if info = NULL then Some (state, z)
         else do { let z1 = upd_rs (upd_w w (w_pending_exception_update (\<lambda>_. NULL))) z;
                   cilk_assert (\<not> (uncaughtExceptions state \<noteq> 0 \<or> caughtExceptions state \<noteq> []));
                   let e = excs z info;
                   let e1 = e\<lparr>runtime_state := \<lparr>caughtExceptions = [], uncaughtExceptions = 0\<rparr>\<rparr>;
                   let cs = call_stack (ffs (rs z1) ff);
                   let z2 = (if rethrow e1
                             then upd_rs (upd_sf cs (\<lambda>x. x\<lparr>flags := flags x OR CILK_FRAME_EXCEPTING\<rparr>)) z1 else z1);
                   let e2 = e1\<lparr>rethrow := False\<rparr>;
                   let z3 = (if active e2 \<noteq> NULL
                             then upd_rs (upd_sf cs (\<lambda>x. x\<lparr>flags := flags x OR CILK_FRAME_EXCEPTING, except_data := active e2\<rparr>)) z2
                             else z2);
                   let e3 = e2\<lparr>active := NULL\<rparr>;
                   Some (runtime_state e, z3\<lparr>excs := (excs z3)(info := (if exc_empty e3 then exc_destruct e3 else e3))\<rparr>) })"

definition setup_for_execution :: "ptr \<Rightarrow> ptr \<Rightarrow> bool \<Rightarrow> eh_globals \<Rightarrow> 'a red \<Rightarrow> (eh_globals \<times> 'a red) option" where
  "setup_for_execution w ff is_return_from_call state z =
     do { z1 \<leftarrow> rs_do (setup_for_execution_reducers w ff) z;
          z2 \<leftarrow> rs_do (setup_for_execution_exceptions w ff) z1;
          let sf = call_stack (ffs (rs z2) ff);
          let z3 = upd_rs (\<lambda>s. upd_w w (current_stack_frame_update (\<lambda>_. sf)) (upd_sf sf (sf_worker_update (\<lambda>_. w)) s)) z2;
          z4 \<leftarrow> (if is_return_from_call then Some z3 else rs_do (setup_for_execution_pedigree w) z3);
          (state', z5) \<leftarrow> setup_for_execution_sysdep w ff state z4;
          let z6 = upd_rs (upd_w w (\<lambda>v. reset_THE_exception (v\<lparr>wtail := 0, whead := 0\<rparr>))) z5;
          Some (state', upd_rs (make_runnable w ff) z6) }"

definition prepare_to_resume :: "ptr \<Rightarrow> ptr \<Rightarrow> rt \<Rightarrow> rt" where
  "prepare_to_resume w sf s =
     upd_sf sf (sf_worker_update (\<lambda>_. w)) (upd_w w (current_stack_frame_update (\<lambda>_. sf)) s)"

definition cilkrts_resume :: "ptr \<Rightarrow> ptr \<Rightarrow> rt \<Rightarrow> 64 word \<times> rt" where
  "cilkrts_resume sf ff s =
     (let sp = sync_sp (ffs s ff)
      in (sp, upd_sf sf (\<lambda>x. x\<lparr>flags := flags x AND NOT CILK_FRAME_SUSPENDED\<rparr>) (take_stack ff sp s)))"

subsection \<open>The scheduling functions\<close>

definition do_sync :: "ptr \<Rightarrow> ptr \<Rightarrow> ptr \<Rightarrow> 'a red \<Rightarrow> (provably_good_steal_t \<times> 'a red) option" where
  "do_sync w ff sf z =
     do { z1 \<leftarrow> rs_do (lock_w w) z;
          cilk_assert (ff \<noteq> NULL);
          z2 \<leftarrow> rs_do (frame_lock w ff) z1;
          cilk_assert (call_parent (sfs (rs z2) sf) = NULL);
          cilk_assert (flags (sfs (rs z2) sf) AND CILK_FRAME_UNSYNCHED \<noteq> 0);
          cilk_assert (fiber_self (ffs (rs z2) ff) = NULL);
          let z3 = (if CILK_FRAME_VERSION_VALUE (flags (sfs (rs z2) sf)) \<ge> 1
                    then upd_rs (\<lambda>s. upd_sf sf (\<lambda>x. x\<lparr>sf_pedigree := w_pedigree (wks s w),
                                                     flags := flags x OR CILK_FRAME_SF_PEDIGREE_UNSYNCHED\<rparr>) s) z2
                    else z2);
          (r, z4) \<leftarrow> provably_good_steal False w ff z3;
          z5 \<leftarrow> rs_do (frame_unlock w ff) z4;
          let z6 = (if r \<noteq> WAIT_FOR_CONTINUE then upd_rs (upd_w w (w_frame_ff_update (\<lambda>_. NULL))) z5 else z5);
          z7 \<leftarrow> rs_do (unlock_w w) z6;
          Some (r, z7) }"

definition do_return_from_spawn :: "ptr \<Rightarrow> ptr \<Rightarrow> ptr \<Rightarrow> 'a red \<Rightarrow> (provably_good_steal_t \<times> 'a red) option" where
  "do_return_from_spawn w ff sf z =
     do { z1 \<leftarrow> rs_do (lock_w w) z;
          cilk_assert (ff \<noteq> NULL);
          cilk_assert (\<not> is_call_child (ffs (rs z1) ff));
          cilk_assert (sf = NULL);
          let parent_ff = parent (ffs (rs z1) ff);
          z2 \<leftarrow> rs_do (frame_lock w ff) z1;
          (_, s3) \<leftarrow> decjoin ff (rs z2);
          z4 \<leftarrow> rs_do (frame_unlock w ff) (z2\<lparr>rs := s3\<rparr>);
          z5 \<leftarrow> rs_do (frame_lock w parent_ff) z4;
          (r, z6) \<leftarrow> (if simulated_stolen (ffs (rs z5) parent_ff)
                      then do { z' \<leftarrow> rs_do (unconditional_steal w parent_ff) z5; Some (ABANDON_EXECUTION, z') }
                      else provably_good_steal False w parent_ff z5);
          z7 \<leftarrow> rs_do (frame_unlock w parent_ff) z6;
          z8 \<leftarrow> rs_do (unlock_w w) z7;
          _ \<leftarrow> destroy_full_frame ff (rs z8);
          Some (r, z8) }"

definition cilkrts_return :: "ptr \<Rightarrow> eh_globals \<Rightarrow> 'a red \<Rightarrow> (eh_globals \<times> 'a red) option" where
  "cilkrts_return w state z =
     do { z1 \<leftarrow> rs_do (lock_w w) z;
          let ff = w_frame_ff (wks (rs z1) w);
          cilk_assert (ff \<noteq> NULL);
          cilk_assert (join_counter (ffs (rs z1) ff) = 1);
          cilk_assert (is_call_child (ffs (rs z1) ff));
          z2 \<leftarrow> rs_do (frame_lock w ff) z1;
          (parent_ff, s3) \<leftarrow> disown w ff NULL (rs z2);
          (_, s4) \<leftarrow> decjoin ff s3;
          cilk_assert (ff_pending_exception (ffs s4 ff) = NULL);
          let s5 = upd_w w (w_pending_exception_update (\<lambda>_. NULL))
                     (upd_ff ff (ff_pending_exception_update (\<lambda>_. w_pending_exception (wks s4 w))) s4);
          s6 \<leftarrow> frame_unlock w ff s5;
          cilk_assert (parent_ff \<noteq> NULL);
          s7 \<leftarrow> frame_lock w parent_ff s6;
          s8 \<leftarrow> finalize_child_for_call w parent_ff ff s7;
          s9 \<leftarrow> frame_unlock w parent_ff s8;
          let (nf, s10) = pop_next_frame w s9;
          cilk_assert (w_frame_ff (wks s10 w) = NULL);
          (state', z11) \<leftarrow>
            (if nf \<noteq> NULL
             then do { s11 \<leftarrow> frame_lock w nf s10;
                       cilk_assert (call_stack (ffs s11 nf) \<noteq> NULL \<and> call_parent (sfs s11 (call_stack (ffs s11 nf))) = NULL);
                       (st, z12) \<leftarrow> setup_for_execution w nf True state (z2\<lparr>rs := s11\<rparr>);
                       z13 \<leftarrow> rs_do (frame_unlock w nf) z12;
                       Some (st, z13) }
             else Some (state, z2\<lparr>rs := s10\<rparr>));
          z14 \<leftarrow> rs_do (unlock_w w) z11;
          Some (state', z14) }"

text \<open>The entry to the runtime from a sync that has to wait.\<close>

definition c_sync :: "(ptr \<Rightarrow> ptr \<Rightarrow> bool) \<Rightarrow> ptr \<Rightarrow> ptr \<Rightarrow> 'a red \<Rightarrow> 'a red option" where
  "c_sync into_left w sf_at_sync z =
     do { let ff = w_frame_ff (wks (rs z) w);
          cilk_assert (ff_pending_exception (ffs (rs z) ff) = NULL);
          let z1 = upd_rs (\<lambda>s. upd_w w (w_pending_exception_update (\<lambda>_. NULL))
                     (upd_ff ff (ff_pending_exception_update (\<lambda>_. w_pending_exception (wks s w))) s)) z;
          execute_reductions_for_sync into_left w ff sf_at_sync z1 }"

definition exception_from_spawn :: "(ptr \<Rightarrow> ptr \<Rightarrow> bool) \<Rightarrow> ptr \<Rightarrow> ptr \<Rightarrow> 'a red \<Rightarrow> 'a red option" where
  "exception_from_spawn into_left w returning_sf z =
     do { cilk_assert (whead (wks (rs z) w) = wtail (wks (rs z) w));
          execute_reductions_for_spawn_return into_left w (w_frame_ff (wks (rs z) w)) returning_sf z }"

end
