(* ===== verification/Scheduling_Proofs.thy ===== *)
theory Scheduling_Proofs
  imports Scheduling Steal_Proofs
begin

text \<open>
  A frame at a sync is resumed exactly once, by the last to arrive: its own worker at the sync or the
  worker of the child that returns last; every other worker goes looking for work.
\<close>

lemma lock_w_ok:
  assumes "worker_free w s"
  shows "lock_w w s = Some (upd_w w (\<lambda>v. v\<lparr>do_not_steal := 1, lock := \<lparr>mutex_lock_word = 1, mutex_owner = w\<rparr>\<rparr>) s)"
  using assms
  by (cases "lock (wks s w)")
    (simp add: worker_free_def lock_w_def worker_lock_def worker_locks_ok_def validate_worker_def mutex_lock_total upd_w_def Let_def)

lemma unlock_w_ok:
  assumes "mutex_owner (lock (wks s w)) = w" and "do_not_steal (wks s w) = 1"
  shows "unlock_w w s = Some (upd_w w (\<lambda>v. v\<lparr>lock := \<lparr>mutex_lock_word = 0, mutex_owner = NULL\<rparr>, do_not_steal := 0\<rparr>) s)"
  using assms
  by (cases "lock (wks s w)") (simp add: unlock_w_def worker_unlock_def mutex_unlock_def upd_w_def Let_def)

definition frame_ok :: "ptr \<Rightarrow> rt \<Rightarrow> bool" where
  "frame_ok f s \<longleftrightarrow> full_frame_magic_0 (ffs s f) = FULL_FRAME_MAGIC_0 \<and> full_frame_magic_1 (ffs s f) = FULL_FRAME_MAGIC_1 \<and>
     ff_lock (ffs s f) = mutex_zero"

lemma frame_lock_ok':
  assumes "frame_ok f s"
  shows "frame_lock w f s = Some (upd_ff f (ff_lock_update (\<lambda>_. \<lparr>mutex_lock_word = 1, mutex_owner = w\<rparr>)) s)"
  using assms
  by (simp add: frame_ok_def frame_lock_def validate_full_frame_def mutex_lock_total mutex_zero_def mutex_ok_def)

lemma frame_unlock_ok':
  assumes "mutex_owner (ff_lock (ffs s f)) = w"
  shows "frame_unlock w f s = Some (upd_ff f (ff_lock_update (\<lambda>_. mutex_zero)) s)"
  using assms by (cases "ff_lock (ffs s f)") (simp add: frame_unlock_def mutex_unlock_def mutex_zero_def)

text \<open>What a child needs when it returns: no reducer maps and no exceptions are left, they were merged
  before (theory Reductions).\<close>

definition ready_to_return :: "ptr \<Rightarrow> ptr \<Rightarrow> rt \<Rightarrow> bool" where
  "ready_to_return p c s \<longleftrightarrow> c \<noteq> NULL \<and> c \<noteq> p \<and> frame_ok c s \<and> parent (ffs s c) = p \<and> \<not> is_call_child (ffs s c) \<and>
     0 < join_counter (ffs s c) \<and> children_reducer_map (ffs s c) = NULL \<and> right_reducer_map (ffs s c) = NULL \<and>
     ff_pending_exception (ffs s c) = NULL \<and> child_pending_exception (ffs s c) = NULL \<and> right_pending_exception (ffs s c) = NULL"

definition at_sync :: "ptr \<Rightarrow> rt \<Rightarrow> bool" where
  "at_sync p s \<longleftrightarrow> p \<noteq> NULL \<and> frame_ok p s \<and> \<not> simulated_stolen (ffs s p) \<and> sync_master (ffs s p) = NULL \<and>
     (child_pending_exception (ffs s p) = NULL \<or> ff_pending_exception (ffs s p) = NULL)"

definition idle_worker :: "ptr \<Rightarrow> rt \<Rightarrow> bool" where
  "idle_worker w s \<longleftrightarrow> w \<noteq> NULL \<and> worker_free w s \<and> next_frame_ff (wks s w) = NULL"

lemma frame_ok_relock:
  "frame_ok f s \<Longrightarrow> (ffs s f)\<lparr>join_counter := j, ff_lock := mutex_zero\<rparr> = (ffs s f)\<lparr>join_counter := j\<rparr>"
  by (cases "ffs s f") (simp add: frame_ok_def)

lemma worker_free_relock:
  "worker_free w s \<Longrightarrow> (wks s w)\<lparr>lock := \<lparr>mutex_lock_word = 0, mutex_owner = NULL\<rparr>, do_not_steal := 0\<rparr> = wks s w"
  by (cases "wks s w"; cases "lock (wks s w)") (simp add: worker_free_def worker_locks_ok_def mutex_ok_def)

lemma worker_free_lock: "worker_free w s \<Longrightarrow> lock (wks s w) = \<lparr>mutex_lock_word = 0, mutex_owner = NULL\<rparr> \<and> do_not_steal (wks s w) = 0"
  by (cases "lock (wks s w)") (simp add: worker_free_def worker_locks_ok_def mutex_ok_def)

lemma merge_one: "x = NULL \<or> y = NULL \<Longrightarrow> merge_pending_exceptions x y h = Some (if x = NULL then y else x, h)"
  by (auto simp: merge_pending_exceptions_def)

lemmas locking = rs_do_def lock_w_ok unlock_w_ok frame_lock_ok' frame_unlock_ok' frame_ok_def Let_def

lemma upd_ff_twice: "upd_ff f g (upd_ff f h s) = upd_ff f (g \<circ> h) s"
  by (simp add: upd_ff_def)

lemma upd_ff_sf: "upd_ff f g (upd_sf x h s) = upd_sf x h (upd_ff f g s)"
  by (simp add: upd_ff_def upd_sf_def)

text \<open>What the last arrival does to the frame.\<close>

definition synched_frame :: "full_frame \<Rightarrow> full_frame" where
  "synched_frame f = f\<lparr>ff_pending_exception :=
       (if child_pending_exception f = NULL then ff_pending_exception f else child_pending_exception f),
     child_pending_exception := NULL, fiber_self := fiber_child f, fiber_child := NULL, simulated_stolen := False, join_counter := 1\<rparr>"

lemma synched_frame_sel [simp]:
  "ff_lock (synched_frame f) = ff_lock f" "join_counter (synched_frame f) = 1" "call_stack (synched_frame f) = call_stack f"
  "full_frame_magic_0 (synched_frame f) = full_frame_magic_0 f" "full_frame_magic_1 (synched_frame f) = full_frame_magic_1 f"
  "fiber_self (synched_frame f) = fiber_child f"
  by (simp_all add: synched_frame_def)

lemma steal_early:
  assumes "1 < join_counter (ffs (rs z) ff)"
  shows "provably_good_steal False w ff z =
    Some (ABANDON_EXECUTION, upd_rs (upd_ff ff (\<lambda>f. f\<lparr>join_counter := join_counter f - 1\<rparr>)) z)"
  using assms by (simp add: provably_good_steal_def decjoin_def Let_def upd_rs_def)

lemma steal_last:
  assumes "join_counter (ffs (rs z) ff) = 1" and "sync_master (ffs (rs z) ff) = NULL" and "fiber_self (ffs (rs z) ff) = NULL"
    and "next_frame_ff (wks (rs z) w) = NULL" and "ff \<noteq> NULL"
    and "child_pending_exception (ffs (rs z) ff) = NULL \<or> ff_pending_exception (ffs (rs z) ff) = NULL"
  shows "provably_good_steal False w ff z = Some (CONTINUE_EXECUTION,
    upd_rs (\<lambda>s. upd_w w (next_frame_ff_update (\<lambda>_. ff)) (upd_ff ff synched_frame
      (upd_sf (call_stack (ffs s ff)) (\<lambda>x. x\<lparr>flags := flags x AND NOT CILK_FRAME_UNSYNCHED\<rparr>) s))) z)"
  using assms
  by (simp add: provably_good_steal_def decjoin_def Let_def rs_do_def upd_rs_def provably_good_steal_exceptions_def
      provably_good_steal_stacks_def mark_synched_def push_next_frame_def incjoin_def merge_one)
    (simp add: upd_ff_def upd_sf_def upd_w_def synched_frame_def)

lemma returning_child:
  assumes "ready_to_return p c s" and "at_sync p s"
  shows "c \<noteq> NULL" "c \<noteq> p" "p \<noteq> c" "frame_ok c s" "parent (ffs s c) = p" "\<not> is_call_child (ffs s c)"
     "0 < join_counter (ffs s c)" "children_reducer_map (ffs s c) = NULL" "right_reducer_map (ffs s c) = NULL"
     "ff_pending_exception (ffs s c) = NULL" "child_pending_exception (ffs s c) = NULL" "right_pending_exception (ffs s c) = NULL"
     "p \<noteq> NULL" "frame_ok p s" "\<not> simulated_stolen (ffs s p)" "sync_master (ffs s p) = NULL"
     "child_pending_exception (ffs s p) = NULL \<or> ff_pending_exception (ffs s p) = NULL"
  using assms by (auto simp: ready_to_return_def at_sync_def)

lemma child_returns_early:
  assumes "ready_to_return p c (rs z)" and "at_sync p (rs z)" and "worker_free w (rs z)" and "1 < join_counter (ffs (rs z) p)"
  shows "\<exists>z'. do_return_from_spawn w c NULL z = Some (ABANDON_EXECUTION, z') \<and>
    ffs (rs z') = (ffs (rs z))(c := ffs (rs z) c\<lparr>join_counter := join_counter (ffs (rs z) c) - 1\<rparr>,
       p := ffs (rs z) p\<lparr>join_counter := join_counter (ffs (rs z) p) - 1\<rparr>) \<and>
    sfs (rs z') = sfs (rs z) \<and> wks (rs z') = wks (rs z)"
  using assms(3,4) returning_child [OF assms(1,2)]
  by (simp add: do_return_from_spawn_def locking steal_early upd_rs_def decjoin_def destroy_full_frame_def validate_full_frame_def
      frame_ok_relock [unfolded frame_ok_def] worker_free_relock)

text \<open>What the last arrival leaves: the frame synched and in the hands of the worker \<open>w\<close>.\<close>

definition resumed_by :: "ptr \<Rightarrow> ptr \<Rightarrow> ptr \<Rightarrow> rt \<Rightarrow> rt \<Rightarrow> bool" where
  "resumed_by w p sf s s' \<longleftrightarrow> next_frame_ff (wks s' w) = p \<and> (\<forall>v. v \<noteq> w \<longrightarrow> wks s' v = wks s v) \<and> worker_free w s' \<and>
     join_counter (ffs s' p) = 1 \<and> call_stack (ffs s' p) = sf \<and> frame_ok p s' \<and>
     flags (sfs s' sf) AND CILK_FRAME_UNSYNCHED = 0 \<and> fiber_self (ffs s' p) = fiber_child (ffs s p)"

lemma unsynched_cleared: "(f AND NOT CILK_FRAME_UNSYNCHED) AND CILK_FRAME_UNSYNCHED = 0"
  by (simp add: word_bw_assocs)

lemma child_returns_last:
  assumes "ready_to_return p c (rs z)" and "at_sync p (rs z)" and "idle_worker w (rs z)" and "join_counter (ffs (rs z) p) = 1"
    and "call_stack (ffs (rs z) p) = sf" and "fiber_self (ffs (rs z) p) = NULL"
  shows "\<exists>z'. do_return_from_spawn w c NULL z = Some (CONTINUE_EXECUTION, z') \<and> resumed_by w p sf (rs z) (rs z')"
proof -
  have w: "worker_free w (rs z)" "next_frame_ff (wks (rs z) w) = NULL" "worker_locks_ok (wks (rs z) w)"
    using assms(3) by (simp_all add: idle_worker_def worker_free_def)
  show ?thesis
    using assms(4-6) w returning_child [OF assms(1,2)]
    by (simp add: do_return_from_spawn_def locking steal_last upd_rs_def decjoin_def destroy_full_frame_def validate_full_frame_def)
      (simp add: resumed_by_def unsynched_cleared worker_free_def worker_locks_ok_def mutex_ok_def synched_frame_def frame_ok_def)
qed

subsection \<open>The worker at the sync\<close>

text \<open>What \<open>execute_reductions_for_sync\<close> has done with the frame before \<open>do_sync\<close> runs.\<close>

definition sync_prepared :: "ptr \<Rightarrow> ptr \<Rightarrow> rt \<Rightarrow> rt" where
  "sync_prepared p sf = upd_ff p (\<lambda>f. f\<lparr>call_stack := sf, fiber_self := NULL\<rparr>)"

definition stalled_sf :: "ptr \<Rightarrow> rt \<Rightarrow> bool" where
  "stalled_sf sf s \<longleftrightarrow> call_parent (sfs s sf) = NULL \<and> flags (sfs s sf) AND CILK_FRAME_UNSYNCHED \<noteq> 0"

lemma syncing_parent:
  assumes "at_sync p s" and "stalled_sf sf s"
  shows "p \<noteq> NULL" "frame_ok p s" "\<not> simulated_stolen (ffs s p)" "sync_master (ffs s p) = NULL"
     "child_pending_exception (ffs s p) = NULL \<or> ff_pending_exception (ffs s p) = NULL"
     "call_parent (sfs s sf) = NULL" "flags (sfs s sf) AND CILK_FRAME_UNSYNCHED \<noteq> 0"
  using assms by (auto simp: at_sync_def stalled_sf_def)

lemma parent_syncs_early:
  assumes "at_sync p (rs z)" and "stalled_sf sf (rs z)" and "worker_free w (rs z)" and "1 < join_counter (ffs (rs z) p)"
  shows "\<exists>z'. do_sync w p sf (upd_rs (sync_prepared p sf) z) = Some (ABANDON_EXECUTION, z') \<and>
    ffs (rs z') = (ffs (rs z))(p := ffs (rs z) p\<lparr>call_stack := sf, fiber_self := NULL, join_counter := join_counter (ffs (rs z) p) - 1\<rparr>) \<and>
    wks (rs z') = (wks (rs z))(w := wks (rs z) w\<lparr>w_frame_ff := NULL\<rparr>)"
proof -
  have f: "(ffs (rs z) p)\<lparr>call_stack := sf, fiber_self := NULL, join_counter := j, ff_lock := mutex_zero\<rparr> =
      (ffs (rs z) p)\<lparr>call_stack := sf, fiber_self := NULL, join_counter := j\<rparr>" for j
    using syncing_parent(2) [OF assms(1,2)] by (cases "ffs (rs z) p") (simp add: frame_ok_def)
  have v: "(wks (rs z) w)\<lparr>w_frame_ff := NULL, lock := \<lparr>mutex_lock_word = 0, mutex_owner = NULL\<rparr>, do_not_steal := 0\<rparr> =
      (wks (rs z) w)\<lparr>w_frame_ff := NULL\<rparr>"
    using assms(3)
    by (cases "wks (rs z) w"; cases "lock (wks (rs z) w)") (simp add: worker_free_def worker_locks_ok_def mutex_ok_def)
  have free: "worker_free w (upd_ff p g (rs z))" for g using assms(3) by (simp add: worker_free_def)
  show ?thesis using assms(4) free syncing_parent [OF assms(1,2)]
    by (simp add: do_sync_def locking steal_early upd_rs_def sync_prepared_def f v)
qed

lemma parent_syncs_last:
  assumes "at_sync p (rs z)" and "stalled_sf sf (rs z)" and "idle_worker w (rs z)" and "join_counter (ffs (rs z) p) = 1"
  shows "\<exists>z'. do_sync w p sf (upd_rs (sync_prepared p sf) z) = Some (CONTINUE_EXECUTION, z') \<and> resumed_by w p sf (rs z) (rs z')"
proof -
  have free: "worker_free w (upd_ff p g (rs z))" for g using assms(3) by (simp add: worker_free_def idle_worker_def)
  have w: "next_frame_ff (wks (rs z) w) = NULL" "worker_locks_ok (wks (rs z) w)"
    using assms(3) by (simp_all add: idle_worker_def worker_free_def)
  show ?thesis
    using assms(4) free w syncing_parent [OF assms(1,2)]
    by (simp add: do_sync_def locking steal_last upd_rs_def sync_prepared_def)
      (simp add: resumed_by_def unsynched_cleared worker_free_def worker_locks_ok_def mutex_ok_def synched_frame_def frame_ok_def)
qed

subsection \<open>Arrivals in any order\<close>

datatype arrival = At_sync | Returns ptr

fun arriver :: "ptr \<Rightarrow> (ptr \<Rightarrow> ptr) \<Rightarrow> arrival \<Rightarrow> ptr" where
  "arriver pw wk At_sync = pw"
| "arriver pw wk (Returns c) = wk c"

fun arrive :: "ptr \<Rightarrow> ptr \<Rightarrow> ptr \<Rightarrow> (ptr \<Rightarrow> ptr) \<Rightarrow> arrival \<Rightarrow> 'a red \<Rightarrow> (provably_good_steal_t \<times> 'a red) option" where
  "arrive p pw sf wk At_sync z = do_sync pw p sf (upd_rs (sync_prepared p sf) z)"
| "arrive p pw sf wk (Returns c) z = do_return_from_spawn (wk c) c NULL z"

fun arrive_all ::
  "ptr \<Rightarrow> ptr \<Rightarrow> ptr \<Rightarrow> (ptr \<Rightarrow> ptr) \<Rightarrow> arrival list \<Rightarrow> 'a red \<Rightarrow> (provably_good_steal_t list \<times> 'a red) option" where
  "arrive_all p pw sf wk [] z = Some ([], z)"
| "arrive_all p pw sf wk (a # as) z =
     do { (r, z1) \<leftarrow> arrive p pw sf wk a z; (rs', z2) \<leftarrow> arrive_all p pw sf wk as z1; Some (r # rs', z2) }"

text \<open>The frame \<open>p\<close> still waits for the arrivals \<open>as\<close>: that many references are left, and each arriver is
  fit to arrive. Once its own worker has come to the sync its call stack is put away.\<close>

definition awaits :: "ptr \<Rightarrow> ptr \<Rightarrow> ptr \<Rightarrow> (ptr \<Rightarrow> ptr) \<Rightarrow> arrival list \<Rightarrow> rt \<Rightarrow> bool" where
  "awaits p pw sf wk as s \<longleftrightarrow>
     at_sync p s \<and> join_counter (ffs s p) = int (length as) \<and> distinct as \<and> distinct (map (arriver pw wk) as) \<and>
     (\<forall>a \<in> set as. idle_worker (arriver pw wk a) s) \<and> (\<forall>c. Returns c \<in> set as \<longrightarrow> ready_to_return p c s) \<and>
     (if At_sync \<in> set as then stalled_sf sf s else call_stack (ffs s p) = sf \<and> fiber_self (ffs s p) = NULL)"

lemma idle_worker_cong: "wks s' w = wks s w \<Longrightarrow> idle_worker w s' = idle_worker w s"
  by (simp add: idle_worker_def worker_free_def)

lemma at_sync_cong:
  assumes "at_sync p s" and "ffs s' p = (ffs s p)\<lparr>join_counter := j\<rparr> \<or> ffs s' p = (ffs s p)\<lparr>call_stack := x, fiber_self := NULL, join_counter := j\<rparr>"
  shows "at_sync p s'"
  using assms by (auto simp: at_sync_def frame_ok_def)

lemma ready_to_return_cong: "ready_to_return p c s \<Longrightarrow> ffs s' c = ffs s c \<Longrightarrow> ready_to_return p c s'"
  by (simp add: ready_to_return_def frame_ok_def)

lemma arrive_early:
  assumes aw: "awaits p pw sf wk (a # as) (rs z)" and "as \<noteq> []"
  shows "\<exists>z'. arrive p pw sf wk a z = Some (ABANDON_EXECUTION, z') \<and> awaits p pw sf wk as (rs z') \<and>
    (\<forall>v. next_frame_ff (wks (rs z') v) = next_frame_ff (wks (rs z) v))"
proof -
  have p: "at_sync p (rs z)" and j: "join_counter (ffs (rs z) p) = int (length as) + 1" and j1: "1 < join_counter (ffs (rs z) p)"
    and idle: "idle_worker (arriver pw wk a) (rs z)" "\<forall>b \<in> set as. idle_worker (arriver pw wk b) (rs z)"
    and d: "distinct as" "a \<notin> set as" "distinct (map (arriver pw wk) as)" "arriver pw wk a \<notin> arriver pw wk ` set as"
    and rt: "\<And>c. Returns c \<in> set (a # as) \<Longrightarrow> ready_to_return p c (rs z)"
    using aw assms(2) by (auto simp: awaits_def neq_Nil_conv)
  show ?thesis
  proof (cases a)
    case At_sync
    then have "stalled_sf sf (rs z)" "worker_free pw (rs z)" "At_sync \<notin> set as" using aw d(2) idle(1) by (auto simp: awaits_def idle_worker_def)
    note s = this
    from parent_syncs_early [OF p s(1,2) j1] obtain z' where
      z': "do_sync pw p sf (upd_rs (sync_prepared p sf) z) = Some (ABANDON_EXECUTION, z')"
        "ffs (rs z') = (ffs (rs z))(p := ffs (rs z) p\<lparr>call_stack := sf, fiber_self := NULL, join_counter := join_counter (ffs (rs z) p) - 1\<rparr>)"
        "wks (rs z') = (wks (rs z))(pw := wks (rs z) pw\<lparr>w_frame_ff := NULL\<rparr>)" by blast
    have "at_sync p (rs z')" by (rule at_sync_cong [OF p, OF disjI2]) (simp add: z'(2))
    moreover have "ready_to_return p c (rs z')" if "Returns c \<in> set as" for c
    proof -
      have "ready_to_return p c (rs z)" using rt that by simp
      moreover from this have "ffs (rs z') c = ffs (rs z) c" using z'(2) by (simp add: ready_to_return_def)
      ultimately show ?thesis by (rule ready_to_return_cong)
    qed
    moreover have "idle_worker (arriver pw wk b) (rs z')" if "b \<in> set as" for b
    proof -
      have "arriver pw wk b \<noteq> pw" using d(4) that At_sync by (metis arriver.simps(1) image_eqI)
      then show ?thesis using idle(2) that z'(3) idle_worker_cong [of "rs z'" "arriver pw wk b" "rs z"] by simp
    qed
    ultimately have "awaits p pw sf wk as (rs z')" using d j s(3) z'(2) by (simp add: awaits_def)
    then show ?thesis using z'(1,3) At_sync by auto
  next
    case (Returns c)
    then have "ready_to_return p c (rs z)" "worker_free (wk c) (rs z)" using rt idle(1) by (auto simp: idle_worker_def)
    note s = this
    from child_returns_early [OF s(1) p s(2) j1] obtain z' where
      z': "do_return_from_spawn (wk c) c NULL z = Some (ABANDON_EXECUTION, z')"
        "ffs (rs z') = (ffs (rs z))(c := ffs (rs z) c\<lparr>join_counter := join_counter (ffs (rs z) c) - 1\<rparr>,
            p := ffs (rs z) p\<lparr>join_counter := join_counter (ffs (rs z) p) - 1\<rparr>)"
        "sfs (rs z') = sfs (rs z)" "wks (rs z') = wks (rs z)" by blast
    have "at_sync p (rs z')" by (rule at_sync_cong [OF p, OF disjI1]) (simp add: z'(2))
    moreover have "ready_to_return p c' (rs z')" if "Returns c' \<in> set as" for c'
    proof -
      have "ready_to_return p c' (rs z)" "c' \<noteq> c" using rt that d(2) Returns by auto
      moreover from this have "ffs (rs z') c' = ffs (rs z) c'" using z'(2) by (simp add: ready_to_return_def)
      ultimately show ?thesis using ready_to_return_cong by blast
    qed
    moreover have "idle_worker (arriver pw wk b) (rs z')" if "b \<in> set as" for b
      using idle(2) that z'(4) idle_worker_cong [of "rs z'" "arriver pw wk b" "rs z"] by simp
    moreover have "if At_sync \<in> set as then stalled_sf sf (rs z')
        else call_stack (ffs (rs z') p) = sf \<and> fiber_self (ffs (rs z') p) = NULL"
      using aw Returns z'(2,3) by (auto simp: awaits_def stalled_sf_def)
    ultimately have "awaits p pw sf wk as (rs z')" using d j z'(2) by (simp add: awaits_def)
    then show ?thesis using z'(1,4) Returns by auto
  qed
qed

lemma arrive_last:
  assumes aw: "awaits p pw sf wk [a] (rs z)"
  shows "\<exists>z'. arrive p pw sf wk a z = Some (CONTINUE_EXECUTION, z') \<and> resumed_by (arriver pw wk a) p sf (rs z) (rs z')"
  using aw by (cases a) (auto simp: awaits_def intro!: parent_syncs_last child_returns_last)


definition sync_demo :: "nat red" where
  "sync_demo = \<lparr>rs = upd_sf 50 (\<lambda>x. x\<lparr>flags := CILK_FRAME_UNSYNCHED\<rparr>)
      (upd_ff 1 (\<lambda>f. f\<lparr>full_frame_magic_0 := FULL_FRAME_MAGIC_0, full_frame_magic_1 := FULL_FRAME_MAGIC_1, join_counter := 2\<rparr>)
      (upd_ff 2 (\<lambda>f. f\<lparr>full_frame_magic_0 := FULL_FRAME_MAGIC_0, full_frame_magic_1 := FULL_FRAME_MAGIC_1, join_counter := 1, parent := 1\<rparr>)
      (upd_w 101 (\<lambda>v. v\<lparr>worker_magic_0 := WORKER_MAGIC_0, worker_magic_1 := WORKER_MAGIC_1\<rparr>)
      (upd_w 102 (\<lambda>v. v\<lparr>worker_magic_0 := WORKER_MAGIC_0, worker_magic_1 := WORKER_MAGIC_1\<rparr>) rt_zero)))),
    excs = (\<lambda>_. \<lparr>active = NULL, rethrow = False, runtime_state = \<lparr>caughtExceptions = [], uncaughtExceptions = 0\<rparr>\<rparr>), rcont = (\<lambda>_. [])\<rparr>"


end
