(* ===== verification/Cilk_For.thy ===== *)
theory Cilk_For
  imports Full_Frame
begin

text \<open>
  Divide and conquer of \<open>cilk_for\<close> loops (runtime/cilk-abi-cilk-for.cpp and
  runtime/cilk-abi-cilk-for-numa.cpp). The C++ templates are polymorphic in the loop count type, here
  the word of width \<open>'w\<close>, which the entry points fix to 32 and 64 bits. The loops are run in their
  serial order, a spawned call before its continuation; a run that does not return is \<open>None\<close>.

  The worker's pedigree is the list of its ranks, the leaf first; the nodes of the chain above the
  leaf are not changed while they are linked. The loop body is a parameter: it is handed the bounds
  and the pedigree it starts with and leaves a rank in the worker and its data.
\<close>

subsection \<open>The grain size\<close>

text \<open>\<open>count + Px8 - 1\<close> is computed in the count type and wraps.\<close>

definition grainsize :: "int \<Rightarrow> 'w::len word \<Rightarrow> global_state \<Rightarrow> int" where
  "grainsize req count g =
     (if 0 < req then req
      else if count < 1 then 1
      else if under_ptool g then 1
      else let Px8 = of_int (P g * 8); n = (count + Px8 - 1) div Px8
           in if n > 2048 then 2048 else uint n)"

subsection \<open>Running the body\<close>

type_synonym chain = "64 word list"
type_synonym ('w, 'd) loop_body = "'w word \<Rightarrow> 'w word \<Rightarrow> chain \<Rightarrow> 'd \<Rightarrow> 64 word \<times> 'd"

definition call_cilk_for_loop_body ::
  "'w::len word \<Rightarrow> 'w word \<Rightarrow> ('w, 'd) loop_body \<Rightarrow> chain \<Rightarrow> chain \<times> 'd \<Rightarrow> chain \<times> 'd" where
  "call_cilk_for_loop_body low high body root z =
     (let saved_next_pedigree_node = tl (fst z);
          (r, d) = body low high (0 # ucast low # root) (snd z)
      in (r # saved_next_pedigree_node, d))"

subsection \<open>Dynamic loops\<close>

text \<open>A spawn helper links its own node below the worker's and on its return restores the chain with
  the rank one higher.\<close>

fun bump_rank :: "64 word \<Rightarrow> chain \<Rightarrow> chain" where
  "bump_rank n [] = []"
| "bump_rank n (r # q) = (r + n) # q"

partial_function (option) cilk_for_recursive ::
  "'w::len word \<Rightarrow> 'w word \<Rightarrow> ('w, 'd) loop_body \<Rightarrow> int \<Rightarrow> chain \<Rightarrow> chain \<times> 'd \<Rightarrow> (chain \<times> 'd) option" where
  "cilk_for_recursive low high body grain root z =
     (let count = high - low
      in if count > of_int grain
         then let mid = low + count div 2
              in Option.bind (cilk_for_recursive low mid body grain root (0 # fst z, snd z))
                   (\<lambda>y. cilk_for_recursive mid high body grain root (bump_rank 1 (fst z), snd y))
         else Some (call_cilk_for_loop_body low high body root z))"

text \<open>The spawn of \<open>noop\<close> bumps the rank, which the next statement undoes.\<close>

definition cilk_for_root ::
  "('w::len, 'd) loop_body \<Rightarrow> 'w word \<Rightarrow> int \<Rightarrow> global_state \<Rightarrow> chain \<times> 'd \<Rightarrow> (chain \<times> 'd) option" where
  "cilk_for_root body count grain g z =
     (let loop_root_pedigree = bump_rank (- 1) (bump_rank 1 (fst z));
          gs = grainsize grain count g
      in do { y \<leftarrow> cilk_for_recursive 0 count body gs loop_root_pedigree (loop_root_pedigree, snd z);
              Some (bump_rank 1 loop_root_pedigree, snd y) })"

definition cilk_for_32 :: "(32, 'd) loop_body \<Rightarrow> 32 word \<Rightarrow> int \<Rightarrow> global_state \<Rightarrow> chain \<times> 'd \<Rightarrow> (chain \<times> 'd) option" where
  "cilk_for_32 body count grain g z = (if count > 0 then cilk_for_root body count grain g z else Some z)"

definition cilk_for_64 :: "(64, 'd) loop_body \<Rightarrow> 64 word \<Rightarrow> int \<Rightarrow> global_state \<Rightarrow> chain \<times> 'd \<Rightarrow> (chain \<times> 'd) option" where
  "cilk_for_64 body count grain g z = (if count > 0 then cilk_for_root body count grain g z else Some z)"

subsection \<open>NUMA-aware loops\<close>

text \<open>The loop over the NUMA nodes gives a worker the half that holds its own node and spawns the
  other one. \<open>numa low high\<close> is the node of the worker that runs the frame when \<open>[low, high)\<close> is left;
  \<open>gcc\<close> selects the preprocessor branch for that compiler. The result lists the calls of the body with
  the frame, whose NUMA range thieves respect.\<close>

definition set_numa_range :: "'w::len word \<Rightarrow> 'w word \<Rightarrow> stack_frame \<Rightarrow> stack_frame" where
  "set_numa_range low high sf =
     sf\<lparr>flags := flags sf OR CILK_FRAME_NUMA, numa_low := ucast low, numa_high := ucast high\<rparr>"

partial_function (option) cilk_for_numa_loop ::
  "bool \<Rightarrow> ('w::len word \<Rightarrow> 'w word \<Rightarrow> 'w word) \<Rightarrow> int \<Rightarrow> 'w word \<Rightarrow> 'w word \<Rightarrow> stack_frame \<Rightarrow>
   ('w word \<times> 'w word \<times> stack_frame) list option" where
  "cilk_for_numa_loop gcc numa grain low high cc_sf =
     (let count = high - low
      in if count > of_int grain
         then let mid = low + count div 2;
                  numa_w = numa low high;
                  (l, h) = (if gcc \<or> numa_w < mid then (low, mid) else (mid, high));
                  cc_sf1 = (if gcc then cc_sf else if numa_w < mid then cc_sf\<lparr>numa_low := ucast mid\<rparr>
                            else cc_sf\<lparr>numa_high := ucast mid\<rparr>)
              in Option.bind (cilk_for_numa_loop gcc numa grain l h (set_numa_range l h stack_frame_zero))
                   (\<lambda>xs. Option.bind
                           (if numa_w < mid then cilk_for_numa_loop gcc numa grain mid high cc_sf1
                            else cilk_for_numa_loop gcc numa grain low mid cc_sf1)
                           (\<lambda>ys. Some (xs @ ys)))
         else Some [(low, high, cc_sf)])"

definition cilk_for_numa_recursive ::
  "bool \<Rightarrow> ('w::len word \<Rightarrow> 'w word \<Rightarrow> 'w word) \<Rightarrow> int \<Rightarrow> 'w word \<Rightarrow> 'w word \<Rightarrow>
   ('w word \<times> 'w word \<times> stack_frame) list option" where
  "cilk_for_numa_recursive gcc numa grain low high =
     cilk_for_numa_loop gcc numa grain low high (set_numa_range low high stack_frame_zero)"

definition cilk_for_numa_root_recursive ::
  "bool \<Rightarrow> ('w::len word \<Rightarrow> 'w word \<Rightarrow> 'w word) \<Rightarrow> 'w word \<Rightarrow> int \<Rightarrow> global_state \<Rightarrow>
   ('w word \<times> 'w word \<times> stack_frame) list option" where
  "cilk_for_numa_root_recursive gcc numa count grain g = cilk_for_numa_recursive gcc numa (grainsize grain count g) 0 count"

text \<open>The entry points for 32 and 64 bit counts.\<close>

definition cilk_for_numa ::
  "bool \<Rightarrow> ('w::len word \<Rightarrow> 'w word \<Rightarrow> 'w word) \<Rightarrow> 'w word \<Rightarrow> int \<Rightarrow> global_state \<Rightarrow>
   ('w word \<times> 'w word \<times> stack_frame) list option" where
  "cilk_for_numa gcc numa count grain g =
     (if count > 0 then cilk_for_numa_root_recursive gcc numa count grain g else Some [])"

end
