(* ===== verification/Cilk_For_Proofs.thy ===== *)
theory Cilk_For_Proofs
  imports Cilk_For "HOL-Library.Multiset"
begin

text \<open>
  Every iteration of a \<open>cilk_for\<close> loop is run exactly once, and a dynamic loop is the serial loop, with
  a pedigree that does not show the recursion; when the grain size computation wraps the loop
  does not return. \<open>chunks\<close> is the recursion on natural numbers.
\<close>

subsection \<open>Halving intervals\<close>

function chunks :: "nat \<Rightarrow> nat \<Rightarrow> nat \<Rightarrow> (nat \<times> nat) list" where
  "chunks g lo hi =
     (if 0 < g \<and> g < hi - lo then chunks g lo (lo + (hi - lo) div 2) @ chunks g (lo + (hi - lo) div 2) hi else [(lo, hi)])"
  by pat_completeness auto
termination by (relation "measure (\<lambda>(g, lo, hi). hi - lo)") auto

declare chunks.simps [simp del]

lemma upt_split: "lo \<le> m \<Longrightarrow> m \<le> hi \<Longrightarrow> [lo ..< m] @ [m ..< hi] = [lo ..< hi]"
  using upt_add_eq_append [of lo m "hi - m"] by simp

lemma chunks_small: "hi - lo \<le> g \<Longrightarrow> chunks g lo hi = [(lo, hi)]"
  by (subst chunks.simps) auto

lemma chunks_split:
  assumes "0 < g" and "g < hi - lo"
  shows "chunks g lo hi = chunks g lo (lo + (hi - lo) div 2) @ chunks g (lo + (hi - lo) div 2) hi"
  using assms by (subst chunks.simps) simp

lemma chunks_iterations: "0 < g \<Longrightarrow> lo \<le> hi \<Longrightarrow> concat (map (\<lambda>(a, b). [a ..< b]) (chunks g lo hi)) = [lo ..< hi]"
proof (induction g lo hi rule: chunks.induct)
  case (1 g lo hi)
  show ?case
  proof (cases "g < hi - lo")
    case True
    then show ?thesis using 1 by (simp add: chunks_split upt_split)
  next
    case False
    then show ?thesis by (simp add: chunks_small)
  qed
qed

lemma chunks_bounds:
  "0 < g \<Longrightarrow> lo < hi \<Longrightarrow> (a, b) \<in> set (chunks g lo hi) \<Longrightarrow> lo \<le> a \<and> a < b \<and> b \<le> hi \<and> b - a \<le> g"
proof (induction g lo hi rule: chunks.induct)
  case (1 g lo hi)
  show ?case
  proof (cases "g < hi - lo")
    case True
    define m where "m = lo + (hi - lo) div 2"
    have m: "lo < m" "m < hi" using True 1(3) by (auto simp: m_def)
    have "(a, b) \<in> set (chunks g lo m) \<or> (a, b) \<in> set (chunks g m hi)"
      using 1(3,5) True by (auto simp: chunks_split m_def)
    then show ?thesis
      using 1(1) [folded m_def] 1(2) [folded m_def] True 1(3) m by fastforce
  next
    case False
    then show ?thesis using 1 by (simp add: chunks_small)
  qed
qed

subsection \<open>Words as bounds\<close>

lemma unat_diff: "low \<le> high \<Longrightarrow> unat (high - low) = unat high - unat (low :: 'w::len word)"
  by (simp add: word_le_nat_alt unat_sub_if')

lemma unat_mid:
  assumes "low \<le> (high :: 'w::len word)"
  shows "unat (low + (high - low) div 2) = unat low + (unat high - unat low) div 2"
proof -
  have "unat ((high - low) div 2) = (unat high - unat low) div 2"
    using assms unsigned_less [of high, where 'a = nat]
    by (cases "LENGTH('w) = 1") (auto simp: unat_div unat_diff div_eq_0_iff)
  moreover have "unat low + (unat high - unat low) div 2 \<le> unat high"
    using assms by (simp add: word_le_nat_alt)
  then have "unat low + (unat high - unat low) div 2 < 2 ^ LENGTH('w)"
    using unsigned_less [of high, where 'a = nat] by (rule le_less_trans)
  ultimately show ?thesis by (simp add: unat_add_lem [THEN iffD1])
qed

subsection \<open>The recursion of a dynamic loop\<close>

text \<open>The effect of the calls of the body on its data.\<close>

definition run_chunks :: "('w::len, 'd) loop_body \<Rightarrow> chain \<Rightarrow> (nat \<times> nat) list \<Rightarrow> 'd \<Rightarrow> 'd" where
  "run_chunks body root = fold (\<lambda>(a, b) d. snd (body (of_nat a) (of_nat b) (0 # of_nat a # root) d))"

lemma run_chunks_append: "run_chunks body root (xs @ ys) d = run_chunks body root ys (run_chunks body root xs d)"
  by (simp add: run_chunks_def)

lemma recursive_chunks:
  fixes low high :: "'w::len word"
  assumes "low \<le> high" and "(0 :: 'w word) < of_int grain"
  shows "\<exists>p'. cilk_for_recursive low high body grain root (p, d) =
    Some (p', run_chunks body root (chunks (unat (of_int grain :: 'w word)) (unat low) (unat high)) d)"
  using assms(1)
proof (induction "unat high - unat low" arbitrary: low high p d rule: less_induct)
  case less
  let ?g = "of_int grain :: 'w word" and ?mid = "low + (high - low) div 2"
  have g: "0 < unat ?g" using assms(2) by (simp add: word_less_nat_alt)
  have c: "unat (high - low) = unat high - unat low" using less.prems by (rule unat_diff)
  note m = unat_mid [OF less.prems]
  show ?case
  proof (cases "?g < high - low")
    case True
    then have big: "unat ?g < unat high - unat low" by (simp add: word_less_nat_alt c)
    have le: "low \<le> ?mid" "?mid \<le> high" using less.prems by (auto simp: word_le_nat_alt m)
    have "unat ?mid - unat low < unat high - unat low" "unat high - unat ?mid < unat high - unat low"
      using big g by (auto simp: m)
    note IH = less.hyps [OF this(1) le(1)] less.hyps [OF this(2) le(2)]
    obtain p1 where 1: "cilk_for_recursive low ?mid body grain root (0 # p, d) =
        Some (p1, run_chunks body root (chunks (unat ?g) (unat low) (unat ?mid)) d)" using IH(1) by blast
    obtain p2 where 2: "cilk_for_recursive ?mid high body grain root
          (bump_rank 1 p, run_chunks body root (chunks (unat ?g) (unat low) (unat ?mid)) d) =
        Some (p2, run_chunks body root (chunks (unat ?g) (unat ?mid) (unat high))
          (run_chunks body root (chunks (unat ?g) (unat low) (unat ?mid)) d))" using IH(2) by blast
    have "cilk_for_recursive low high body grain root (p, d) =
        Some (p2, run_chunks body root (chunks (unat ?g) (unat low) (unat high)) d)"
      by (subst cilk_for_recursive.simps)
        (simp only: Let_def True if_True fst_conv snd_conv 1 2 Option.bind.simps run_chunks_append
          chunks_split [OF g big] flip: m)
    then show ?thesis by blast
  next
    case False
    then have "unat high - unat low \<le> unat ?g" by (simp add: word_less_nat_alt c)
    then show ?thesis using False
      by (subst cilk_for_recursive.simps)
        (simp add: Let_def chunks_small call_cilk_for_loop_body_def run_chunks_def split_beta)
  qed
qed

subsection \<open>The grain size is positive unless its computation wraps\<close>

text \<open>A loop can return when its grain size is one that the recursion gets to.\<close>

definition grain_fits :: "int \<Rightarrow> 'w::len word \<Rightarrow> global_state \<Rightarrow> bool" where
  "grain_fits grain n g \<longleftrightarrow> 0 < grain \<or> under_ptool g \<or> int (unat n) + P g * 8 \<le> 2 ^ LENGTH('w)"

lemma grainsize_wraps:
  fixes n :: "'w::len word"
  assumes "grain \<le> 0" "\<not> under_ptool g" "0 < n" "0 < P g" "P g * 8 < 2 ^ LENGTH('w)" "12 \<le> LENGTH('w)"
  shows "grainsize grain n g = min 2048 (((int (unat n) + P g * 8 - 1) mod 2 ^ LENGTH('w)) div (P g * 8))"
proof -
  define N where "N = P g * 8"
  have "0 \<le> N" "N < 2 ^ LENGTH('w)" using assms(4,5) by (simp_all add: N_def)
  then have N: "uint (of_int N :: 'w word) = N" by (simp add: take_bit_int_eq_self_iff unsigned_of_int)
  have "uint (n + of_int N - 1) = (int (unat n) + N - 1) mod 2 ^ LENGTH('w)"
    by (simp add: uint_word_ariths N mod_simps)
  then have "uint ((n + of_int N - 1) div of_int N) = ((int (unat n) + N - 1) mod 2 ^ LENGTH('w)) div N"
    by (simp add: uint_div N)
  moreover have "(2 :: int) ^ 12 \<le> 2 ^ LENGTH('w)" using assms(6) by (rule power_increasing) simp
  then have "uint (2048 :: 'w word) = 2048" using unsigned_numeral [of "num.Bit0 (num.Bit0 num.One)"] by (simp add: take_bit_int_eq_self_iff)
  moreover have "\<not> n < 1" using assms(3) by (simp add: word_less_nat_alt)
  ultimately show ?thesis
    using assms(1,2) by (auto simp: grainsize_def Let_def N_def word_less_def min_def)
qed

lemma grainsize_bounds:
  fixes n :: "'w::len word"
  assumes "0 < n" and "0 < P g" and "P g * 8 < 2 ^ LENGTH('w)" and "12 \<le> LENGTH('w)"
  shows "0 \<le> grainsize grain n g" and "grainsize grain n g \<le> max grain 2048"
    and "0 < grainsize grain n g \<longleftrightarrow> grain_fits grain n g"
proof -
  have n1: "0 < uint n" using assms(1) by (simp add: word_less_def)
  consider "0 < grain" | "grain \<le> 0" "under_ptool g" | "grain \<le> 0" "\<not> under_ptool g" by linarith
  then have "0 \<le> grainsize grain n g \<and> grainsize grain n g \<le> max grain 2048 \<and> (0 < grainsize grain n g \<longleftrightarrow> grain_fits grain n g)"
  proof cases
    case 3
    define N where "N = P g * 8"
    define s where "s = int (unat n) + N - 1"
    have "int (unat n) < 2 ^ LENGTH('w)" using unsigned_less [of n, where 'a = int] by simp
    then have N: "0 < N" "N < 2 ^ LENGTH('w)" and s: "0 \<le> s" "s < 2 ^ LENGTH('w) + N" using assms n1
      unfolding N_def s_def by linarith+
    have "0 < s mod 2 ^ LENGTH('w) div N \<longleftrightarrow> N \<le> s mod 2 ^ LENGTH('w)" using N(1) pos_imp_zdiv_pos_iff by blast
    also have "\<dots> \<longleftrightarrow> s < 2 ^ LENGTH('w)"
    proof (cases "s < 2 ^ LENGTH('w)")
      case True
      then show ?thesis using s(1) n1 by (simp add: s_def)
    next
      case False
      moreover have "(s - 2 ^ LENGTH('w)) mod 2 ^ LENGTH('w) = s mod 2 ^ LENGTH('w)" by simp
      moreover have "(s - 2 ^ LENGTH('w)) mod 2 ^ LENGTH('w) = s - 2 ^ LENGTH('w)"
        using False s(2) N(2) by (intro mod_pos_pos_trivial) linarith+
      ultimately show ?thesis using s(2) by linarith
    qed
    finally have iff: "0 < s mod 2 ^ LENGTH('w) div N \<longleftrightarrow> grain_fits grain n g" using 3 by (auto simp: grain_fits_def s_def N_def)
    have eq: "grainsize grain n g = min 2048 (s mod 2 ^ LENGTH('w) div N)"
      unfolding s_def N_def by (rule grainsize_wraps [OF 3 assms])
    have "0 \<le> s mod 2 ^ LENGTH('w) div N" using N(1) by (simp add: pos_imp_zdiv_nonneg_iff)
    then show ?thesis unfolding eq iff [symmetric] by (auto simp: min_def max_def)
  qed (auto simp: grainsize_def grain_fits_def)
  then show "0 \<le> grainsize grain n g" "grainsize grain n g \<le> max grain 2048" "0 < grainsize grain n g \<longleftrightarrow> grain_fits grain n g"
    by blast+
qed

subsection \<open>A loop with grain size zero does not return\<close>

lemma zero_grain_raw:
  assumes "cilk_for_recursive low high body grain root z = Some y"
  shows "(of_int grain :: 'w::len word) \<noteq> 0 \<or> low = (high :: 'w word)"
proof (rule cilk_for_recursive.raw_induct
    [where P = "\<lambda>low high body grain root z y. (of_int grain :: 'w word) \<noteq> 0 \<or> low = (high :: 'w word)", OF _ assms], goal_cases)
  case (1 f low high body grain root z y)
  show ?case
  proof (rule disjCI)
    assume "low \<noteq> high"
    show "(of_int grain :: 'w word) \<noteq> 0"
    proof
      assume g: "(of_int grain :: 'w word) = 0"
      let ?mid = "low + (high - low) div 2"
      have pos: "0 < high - low" using \<open>low \<noteq> high\<close> by (simp add: word_gt_0)
      then obtain y1 where "f ?mid high body grain root (bump_rank 1 (fst z), y1) = Some y"
        using 1(2) g by (auto simp: Let_def bind_eq_Some_conv)
      from 1(1) [OF this] g have "?mid = high" by simp
      then have "(high - low) div 2 = high - low" by (simp add: algebra_simps)
      moreover have "unat ((high - low) div 2) < unat (high - low)"
        using pos by (cases "LENGTH('w) = 1") (auto simp: unat_div word_less_nat_alt)
      ultimately show False by simp
    qed
  qed
qed

subsection \<open>A dynamic loop is the serial loop\<close>

text \<open>The body the compiler makes of a loop whose iterations are \<open>iter\<close>: each iteration starts with a
  leaf of rank 0 below a node whose rank is the loop counter.\<close>

definition for_body :: "(nat \<Rightarrow> chain \<Rightarrow> 'd \<Rightarrow> 'd) \<Rightarrow> ('w::len, 'd) loop_body" where
  "for_body iter low high ped d = (0, fold (\<lambda>i. iter i (0 # of_nat i # tl (tl ped))) [unat low ..< unat high] d)"

lemma run_chunks_serial:
  assumes "0 < g" and "lo < hi" and "hi < 2 ^ LENGTH('w::len)"
  shows "run_chunks (for_body iter :: ('w, 'd) loop_body) root (chunks g lo hi) d = fold (\<lambda>i. iter i (0 # of_nat i # root)) [lo ..< hi] d"
proof -
  let ?f = "\<lambda>i. iter i (0 # of_nat i # root)"
  have "run_chunks (for_body iter :: ('w, 'd) loop_body) root xs d = fold ?f (concat (map (\<lambda>(a, b). [a ..< b]) xs)) d"
    if "\<And>a b. (a, b) \<in> set xs \<Longrightarrow> a < 2 ^ LENGTH('w) \<and> b < 2 ^ LENGTH('w)" for xs
    using that
  proof (induction xs arbitrary: d)
    case (Cons x xs)
    obtain a b where x: "x = (a, b)" by (cases x)
    have "a < 2 ^ LENGTH('w)" "b < 2 ^ LENGTH('w)" using Cons.prems [of a b] x by auto
    then have "unat (of_nat a :: 'w word) = a" "unat (of_nat b :: 'w word) = b"
      by (simp_all add: unsigned_of_nat take_bit_nat_eq_self_iff)
    moreover have "run_chunks (for_body iter :: ('w, 'd) loop_body) root xs d' = fold ?f (concat (map (\<lambda>(a, b). [a ..< b]) xs)) d'" for d'
      by (rule Cons.IH) (use Cons.prems in auto)
    ultimately show ?case by (simp add: x run_chunks_def for_body_def)
  qed (simp add: run_chunks_def)
  moreover have "a < 2 ^ LENGTH('w) \<and> b < 2 ^ LENGTH('w)" if "(a, b) \<in> set (chunks g lo hi)" for a b
    using chunks_bounds [OF assms(1,2) that] assms(3) by linarith
  ultimately show ?thesis using assms(1,2) by (simp add: chunks_iterations)
qed

lemma bump_rank_undo: "bump_rank (- 1) (bump_rank 1 p) = p"
  by (cases p) simp_all

definition sane :: "global_state \<Rightarrow> int \<Rightarrow> bool" where
  "sane g grain \<longleftrightarrow> 0 < P g \<and> P g * 8 < 2 ^ 31 \<and> grain < 2 ^ 31"

lemma grainsize_word:
  fixes n :: "'w::len word"
  assumes "sane g grain" and "32 \<le> LENGTH('w)" and "0 < n"
  shows "uint (of_int (grainsize grain n g) :: 'w word) = grainsize grain n g"
    and "0 < grainsize grain n g \<longleftrightarrow> grain_fits grain n g" and "0 \<le> grainsize grain n g"
proof -
  have L: "(2 :: int) ^ 31 < 2 ^ LENGTH('w)" using assms(2) by (intro power_strict_increasing) auto
  have b: "0 < P g" "P g * 8 < 2 ^ LENGTH('w)" "12 \<le> LENGTH('w)" using assms(1,2) L by (auto simp: sane_def)
  note gb = grainsize_bounds [OF assms(3) b, of grain]
  have "max grain 2048 < 2 ^ LENGTH('w)" using assms(1) L by (auto simp: sane_def)
  then show "uint (of_int (grainsize grain n g) :: 'w word) = grainsize grain n g"
    using gb(1) order.strict_trans1 [OF gb(2)] by (simp add: unsigned_of_int take_bit_int_eq_self_iff)
  show "0 < grainsize grain n g \<longleftrightarrow> grain_fits grain n g" "0 \<le> grainsize grain n g" using gb(1,3) by blast+
qed

lemma grainsize_word_pos:
  fixes n :: "'w::len word"
  assumes "sane g grain" and "32 \<le> LENGTH('w)" and "grain_fits grain n g" and "0 < n"
  shows "(0 :: 'w word) < of_int (grainsize grain n g)"
  using grainsize_word [OF assms(1,2,4)] assms(3) by (simp add: word_less_def)

lemma root_cases:
  fixes n :: "'w::len word"
  assumes "0 < n" and "sane g grain" and "32 \<le> LENGTH('w)"
  shows "cilk_for_root (for_body iter) n grain g (p, d) =
    (if grain_fits grain n g then Some (bump_rank 1 p, fold (\<lambda>i. iter i (0 # of_nat i # p)) [0 ..< unat n] d) else None)"
proof -
  let ?gs = "grainsize grain n g"
  note gs = grainsize_word [OF assms(2,3,1)]
  show ?thesis
  proof (cases "grain_fits grain n g")
    case True
    then have "(0 :: 'w word) < of_int ?gs" using gs by (simp add: word_less_def)
    moreover from this have "0 < unat (of_int ?gs :: 'w word)" by (simp add: word_less_nat_alt)
    moreover have "0 < unat n" using assms(1) by (simp add: word_less_nat_alt)
    ultimately show ?thesis
      using True recursive_chunks [of 0 n ?gs "for_body iter" p p d] unsigned_less [of n, where 'a = nat]
      by (auto simp: cilk_for_root_def Let_def bump_rank_undo run_chunks_serial)
  next
    case False
    then have "?gs = 0" using gs(2,3) by auto
    then have "(of_int ?gs :: 'w word) = 0" by simp
    then have "cilk_for_recursive 0 n (for_body iter) ?gs p (p, d) = None"
      using zero_grain_raw [of 0 n "for_body iter" ?gs p "(p, d)"] assms(1) by (cases "cilk_for_recursive 0 n (for_body iter) ?gs p (p, d)") auto
    then show ?thesis using False by (simp add: cilk_for_root_def Let_def bump_rank_undo)
  qed
qed


definition loop_demo :: global_state where "loop_demo = global_state_zero\<lparr>P := 4\<rparr>"

lemma loop_demo_ok: "sane loop_demo 2" "sane loop_demo 0" "grain_fits 2 n loop_demo"
  by (simp_all add: sane_def grain_fits_def loop_demo_def)


text \<open>C34 (cilk_for_returns): A dynamic loop over a 32 bit count returns unless the count is
  positive, the grain size is left to the runtime and the count exceeds the width of the counter less
  eight times the number of workers: then the grain size wraps to zero and the recursion never ends.\<close>

theorem cilk_for_returns:
  assumes "sane g grain"
  shows "cilk_for_32 (for_body iter) n grain g (p, d) = None \<longleftrightarrow>
    grain \<le> 0 \<and> \<not> under_ptool g \<and> 2 ^ 32 - P g * 8 < int (unat n) \<and> 0 < n"
proof (cases "0 < n")
  case True
  then show ?thesis using root_cases [OF True assms, of iter p d] by (auto simp: cilk_for_32_def grain_fits_def)
next
  case False
  then show ?thesis by (simp add: cilk_for_32_def)
qed

theorem cilk_for_returns_witness: "cilk_for_32 (for_body (\<lambda>i ped d. d)) 4294967295 0 loop_demo ([], ()) = None"
  using cilk_for_returns [OF loop_demo_ok(2), of "\<lambda>i ped d. d" 4294967295 "[]" "()"] by (simp add: loop_demo_def zero_defs)

subsection \<open>NUMA-aware loops\<close>

abbreviation iterations :: "('w::len word \<times> 'w word \<times> stack_frame) list \<Rightarrow> nat list" where
  "iterations xs \<equiv> concat (map (\<lambda>(l, h, _). [unat l ..< unat h]) xs)"

definition within :: "'w::len word \<Rightarrow> 'w word \<Rightarrow> ('w word \<times> 'w word \<times> stack_frame) list \<Rightarrow> bool" where
  "within low high xs \<longleftrightarrow> (\<forall>(l, h, _) \<in> set xs. low \<le> l \<and> l \<le> h \<and> h \<le> high)"

text \<open>The frame of a call is limited to the iterations of the call.\<close>

definition pinned :: "int \<Rightarrow> ('w::len word \<times> 'w word \<times> stack_frame) list \<Rightarrow> bool" where
  "pinned grain xs \<longleftrightarrow> (\<forall>(l, h, f) \<in> set xs. h - l \<le> of_int grain \<and> flags f AND CILK_FRAME_NUMA \<noteq> 0 \<and>
     numa_low f = ucast l \<and> numa_high f = ucast h)"

definition limited :: "'w::len word \<Rightarrow> 'w word \<Rightarrow> stack_frame \<Rightarrow> bool" where
  "limited low high f \<longleftrightarrow> flags f AND CILK_FRAME_NUMA \<noteq> 0 \<and> numa_low f = ucast low \<and> numa_high f = ucast high"

lemma limited_new: "limited low high (set_numa_range low high f)"
proof -
  have "(flags f OR CILK_FRAME_NUMA) AND CILK_FRAME_NUMA = CILK_FRAME_NUMA" by (simp add: word_bw_comms)
  then show ?thesis by (simp add: limited_def set_numa_range_def CILK_FRAME_NUMA_def)
qed

lemma limited_narrow [simp]:
  "limited low high f \<Longrightarrow> limited mid high (f\<lparr>numa_low := ucast mid\<rparr>)"
  "limited low high f \<Longrightarrow> limited low mid (f\<lparr>numa_high := ucast mid\<rparr>)"
  by (simp_all add: limited_def)

lemma within_append: "within low m xs \<Longrightarrow> within m high ys \<Longrightarrow> low \<le> m \<Longrightarrow> m \<le> high \<Longrightarrow> within low high (xs @ ys) \<and> within low high (ys @ xs)"
  unfolding within_def by fastforce

lemma within_mono: "within low m xs \<Longrightarrow> m \<le> high \<Longrightarrow> within low high xs"
  unfolding within_def by fastforce

lemma pinned_append [simp]: "pinned grain (xs @ ys) \<longleftrightarrow> pinned grain xs \<and> pinned grain ys"
  by (simp only: pinned_def set_append ball_Un)

lemma within_append_same [simp]: "within low high (xs @ ys) \<longleftrightarrow> within low high xs \<and> within low high ys"
  by (simp only: within_def set_append ball_Un)

lemma numa_loop:
  fixes low high :: "'w::len word"
  assumes "low \<le> high" and "(0 :: 'w word) < of_int grain" and "gcc \<or> limited low high f"
  shows "\<exists>xs. cilk_for_numa_loop gcc numa grain low high f = Some xs \<and> within low high xs \<and>
    (\<not> gcc \<longrightarrow> mset (iterations xs) = mset [unat low ..< unat high] \<and> pinned grain xs)"
  using assms(1,3)
proof (induction "unat high - unat low" arbitrary: low high f rule: less_induct)
  case less
  let ?g = "of_int grain :: 'w word" and ?mid = "low + (high - low) div 2"
  have g: "0 < unat ?g" using assms(2) by (simp add: word_less_nat_alt)
  have c: "unat (high - low) = unat high - unat low" using less.prems(1) by (rule unat_diff)
  note m = unat_mid [OF less.prems(1)]
  show ?case
  proof (cases "?g < high - low")
    case True
    then have big: "unat ?g < unat high - unat low" by (simp add: word_less_nat_alt c)
    have le: "low \<le> ?mid" "?mid \<le> high" using less.prems by (auto simp: word_le_nat_alt m)
    have "unat ?mid - unat low < unat high - unat low" "unat high - unat ?mid < unat high - unat low"
      using big g by (auto simp: m)
    note IH = less.hyps [OF this(1) le(1)] less.hyps [OF this(2) le(2)]
    have le': "unat low \<le> unat ?mid" "unat ?mid \<le> unat high" using le by (simp_all add: word_le_nat_alt)
    let ?both = "mset [unat low ..< unat ?mid] + mset [unat ?mid ..< unat high] = mset [unat low ..< unat high]"
    have u: ?both by (simp only: mset_append [symmetric] upt_split [OF le'])
    consider (same) "gcc" "\<not> numa low high < ?mid" | (left) "numa low high < ?mid" | (right) "\<not> gcc" "\<not> numa low high < ?mid"
      by blast
    then show ?thesis
    proof cases
      case same
      obtain xs where xs: "cilk_for_numa_loop gcc numa grain low ?mid (set_numa_range low ?mid stack_frame_zero) = Some xs" "within low ?mid xs"
        using IH(1) [of "set_numa_range low ?mid stack_frame_zero"] limited_new by blast
      obtain ys where ys: "cilk_for_numa_loop gcc numa grain low ?mid f = Some ys" "within low ?mid ys"
        using IH(1) [of f] same by blast
      have "cilk_for_numa_loop gcc numa grain low high f = Some (xs @ ys)"
        using same xs(1) ys(1) True by (subst cilk_for_numa_loop.simps) (simp add: Let_def)
      then show ?thesis using same xs(2) ys(2) within_mono [OF _ le(2)] by auto
    next
      case left
      define f' where "f' = (if gcc then f else f\<lparr>numa_low := ucast ?mid\<rparr>)"
      have f': "gcc \<or> limited ?mid high f'" using less.prems(2) by (auto simp: f'_def)
      obtain xs where xs: "cilk_for_numa_loop gcc numa grain low ?mid (set_numa_range low ?mid stack_frame_zero) = Some xs"
        "within low ?mid xs" "\<not> gcc \<longrightarrow> mset (iterations xs) = mset [unat low ..< unat ?mid] \<and> pinned grain xs"
        using IH(1) [of "set_numa_range low ?mid stack_frame_zero"] limited_new by blast
      obtain ys where ys: "cilk_for_numa_loop gcc numa grain ?mid high f' = Some ys" "within ?mid high ys"
        "\<not> gcc \<longrightarrow> mset (iterations ys) = mset [unat ?mid ..< unat high] \<and> pinned grain ys"
        using IH(2) [OF f'] by blast
      have "cilk_for_numa_loop gcc numa grain low high f = Some (xs @ ys)"
        using left xs(1) ys(1) True by (subst cilk_for_numa_loop.simps; cases gcc) (simp_all add: Let_def f'_def)
      moreover have "within low high (xs @ ys)" using within_append [OF xs(2) ys(2) le] by blast
      ultimately show ?thesis using xs(3) ys(3) u by auto
    next
      case right
      define f' where "f' = f\<lparr>numa_high := ucast ?mid\<rparr>"
      have f': "gcc \<or> limited low ?mid f'" using less.prems(2) by (auto simp: f'_def)
      obtain xs where xs: "cilk_for_numa_loop gcc numa grain ?mid high (set_numa_range ?mid high stack_frame_zero) = Some xs"
        "within ?mid high xs" "mset (iterations xs) = mset [unat ?mid ..< unat high]" "pinned grain xs"
        using IH(2) [of "set_numa_range ?mid high stack_frame_zero"] limited_new right by blast
      obtain ys where ys: "cilk_for_numa_loop gcc numa grain low ?mid f' = Some ys" "within low ?mid ys"
        "mset (iterations ys) = mset [unat low ..< unat ?mid]" "pinned grain ys"
        using IH(1) [OF f'] right by blast
      have "cilk_for_numa_loop gcc numa grain low high f = Some (xs @ ys)"
        using right xs(1) ys(1) True by (subst cilk_for_numa_loop.simps) (simp add: Let_def f'_def)
      moreover have "within low high (xs @ ys)" using within_append [OF ys(2) xs(2) le] by blast
      moreover have "mset (iterations (xs @ ys)) = mset [unat low ..< unat high]"
        unfolding map_append concat_append mset_append xs(3) ys(3) using u by (simp only: add.commute)
      ultimately show ?thesis using xs(4) ys(4) by auto
    qed
  next
    case False
    have "cilk_for_numa_loop gcc numa grain low high f = Some [(low, high, f)]"
      by (subst cilk_for_numa_loop.simps) (simp only: Let_def False if_False)
    then show ?thesis using less.prems False by (auto simp: within_def pinned_def limited_def not_less)
  qed
qed





end
