(* ===== verification/Cilk_For_Static.thy ===== *)
theory Cilk_For_Static
  imports Cilk_For
begin

text \<open>
  Statically scheduled \<open>cilk_for\<close> loops (runtime/cilk-abi-cilk-for-static.cpp): the master claims NUMA
  nodes, cuts the iterations into one chunk per thread, and wakes the threads through a tree of flags
  (\<open>pp_exec_c\<close>), one slot per system worker; each thread wakes its own part of the tree, runs its
  chunk, waits for the threads it woke and clears its slot. The steps of the master and of the threads
  interleave freely; the entry points skip a loop whose count is zero. A slot holds the address of the loop's state or null, here a truth value.

  \<open>won n\<close> is the outcome of the compare-and-swap on the allocation flag of node \<open>n\<close>, \<open>garbage\<close> the
  uninitialised content of the master's array of work indices. The wake-up of sleeping workers
  (\<open>notify_children_run\<close>) and the reducer views, which are not compiled in, are left out.
\<close>

subsection \<open>Threads of a NUMA node\<close>

text \<open>Registration of a system worker on a node, runtime/scheduler.c.\<close>

definition numa_register :: "nat \<Rightarrow> global_state \<Rightarrow> nat \<times> global_state" where
  "numa_register node g =
     (numa_node_threads g node,
      g\<lparr>numa_node_threads := (numa_node_threads g)(node := numa_node_threads g node + 1),
        numa_node_cum_threads := (\<lambda>i. if node + 1 \<le> i \<and> i < numa_nodes g then numa_node_cum_threads g i + 1
                                      else numa_node_cum_threads g i),
        numa_P_init := numa_P_init g + 1\<rparr>)"

fun count_bits :: "nat \<Rightarrow> nat" where
  "count_bits n = (if n = 0 then 0 else Suc (count_bits (n div 2)))"

declare count_bits.simps [simp del]

definition log_threads :: "nat \<Rightarrow> nat" where "log_threads num_threads = count_bits (num_threads - 1)"

text \<open>The threads that the thread \<open>my_idx\<close> of \<open>num_threads\<close> ones wakes, in order.\<close>

definition fork_targets :: "nat \<Rightarrow> nat \<Rightarrow> nat list" where
  "fork_targets num_threads my_idx =
     filter (\<lambda>dst_idx. dst_idx < num_threads)
       (map (\<lambda>p. my_idx OR push_bit (p - 1) 1)
         (filter (\<lambda>p. my_idx AND mask p = 0) (rev [1 ..< Suc (log_threads num_threads)])))"

subsection \<open>Chunks\<close>

definition chunk_delta :: "'w::len word \<Rightarrow> nat \<Rightarrow> 'w word" where
  "chunk_delta count num_threads = (count + of_nat num_threads - 1) div of_nat num_threads"

definition chunk_bounds :: "'w::len word \<Rightarrow> 'w word \<Rightarrow> nat \<Rightarrow> nat \<times> nat" where
  "chunk_bounds count delta work =
     (unat (min (delta * of_nat work) count), unat (min (delta * (of_nat work + 1)) count))"

subsection \<open>The master's preparation\<close>

record static_loop =
  is32f :: bool
  count32 :: "32 word"
  delta32 :: "32 word"
  count64 :: "64 word"
  delta64 :: "64 word"
  sl_nodes :: "nat list"
  sl_work :: "nat \<Rightarrow> nat"
  sl_num_threads :: nat
  sl_node_threads :: "nat \<Rightarrow> nat"
  sl_cum_threads :: "nat \<Rightarrow> nat"
  sl_user :: bool
  sl_node :: nat
  sl_self :: nat
  sl_rewire :: int

type_synonym claim = "nat list \<times> (nat \<Rightarrow> nat) \<times> nat"

fun claim_nodes :: "global_state \<Rightarrow> (nat \<Rightarrow> bool) \<Rightarrow> bool \<Rightarrow> nat \<Rightarrow> int \<Rightarrow> nat list \<Rightarrow> claim \<Rightarrow> claim" where
  "claim_nodes g won user node req [] c = c"
| "claim_nodes g won user node req (i # is) (nds, work, num) =
     (if numa_allocate g i \<or> numa_node_threads g i = 0 then claim_nodes g won user node req is (nds, work, num)
      else let (nds1, work1, num1) =
                 (if won i then (nds @ [i], work(i := num), num + numa_node_threads g i) else (nds, work, num));
               num2 = (if user \<and> node = i then num1 + 1 else num1)
           in if int num2 \<ge> req then (nds1, work1, num2)
              else claim_nodes g won user node req is (nds1, work1, num2))"

definition claim_own_node :: "global_state \<Rightarrow> (nat \<Rightarrow> bool) \<Rightarrow> bool \<Rightarrow> nat \<Rightarrow> (nat \<Rightarrow> nat) \<Rightarrow> claim" where
  "claim_own_node g won user node garbage =
     (let (nds, num) = (if \<not> numa_allocate g node \<and> won node then ([node], numa_node_threads g node) else ([], 0))
      in (nds, garbage(node := 0), if user then num + 1 else num))"

text \<open>The loop a master on node \<open>node\<close> with local index \<open>local_self\<close> starts; \<open>Inl\<close> when it runs the loop
  alone. Dividing by zero threads ends the process.\<close>

definition static_setup ::
  "global_state \<Rightarrow> (nat \<Rightarrow> bool) \<Rightarrow> (nat \<Rightarrow> nat) \<Rightarrow> bool \<Rightarrow> bool \<Rightarrow> nat \<Rightarrow> nat \<Rightarrow> 'w::len word \<Rightarrow> int \<Rightarrow>
   (nat \<times> nat + static_loop) option" where
  "static_setup g won garbage system_wide user node local_self count grain0 =
     (let grain = (if grain0 = 0 then 1 else grain0);
          req_threads = sint (ucast ((count + of_int grain - 1) div of_int grain) :: 32 word)
      in if P g = 1 \<or> req_threads < int (numa_node_threads g node) then Some (Inl (0, unat count))
         else let (nds, work, num) =
                    (if system_wide then claim_nodes g won user node req_threads [0 ..< numa_nodes g] ([], garbage, 0)
                     else claim_own_node g won user node garbage)
              in if num = 0 then None
                 else Some (Inr \<lparr>is32f = (LENGTH('w) = 32), count32 = ucast count, delta32 = ucast (chunk_delta count num),
                        count64 = ucast count, delta64 = ucast (chunk_delta count num), sl_nodes = nds, sl_work = work,
                        sl_num_threads = num, sl_node_threads = numa_node_threads g,
                        sl_cum_threads = numa_node_cum_threads g, sl_user = user, sl_node = node, sl_self = local_self,
                        sl_rewire = (if user then - 1 else int local_self)\<rparr>))"

subsection \<open>The steps of the master and of the threads\<close>

datatype party = Master | Thread nat nat

datatype phase = Idle | Fork "party list" | Join "party list" | Finished

record static_state =
  xid :: "nat \<Rightarrow> bool"
  phases :: "party \<Rightarrow> phase"
  ran :: "party list"
  allocated :: "nat \<Rightarrow> bool"

fun party_slot :: "static_loop \<Rightarrow> party \<Rightarrow> nat" where
  "party_slot L Master = 0"
| "party_slot L (Thread n i) = sl_cum_threads L n + i"

fun targets :: "static_loop \<Rightarrow> party \<Rightarrow> party list" where
  "targets L Master =
     (if sl_user L then map (\<lambda>n. Thread n 0) (sl_nodes L)
      else (if sl_self L \<noteq> 0 then [Thread (sl_node L) 0] else []) @
           map (Thread (sl_node L)) (fork_targets (sl_num_threads L) (sl_self L)))"
| "targets L (Thread n i) = map (Thread n) (filter (\<lambda>d. int d \<noteq> sl_rewire L) (fork_targets (sl_node_threads L n) i))"

text \<open>The order in which a party waits: a system worker that is the master waits for the thread 0 last.\<close>

fun join_targets :: "static_loop \<Rightarrow> party \<Rightarrow> party list" where
  "join_targets L Master =
     (if sl_user L then map (\<lambda>n. Thread n 0) (sl_nodes L)
      else map (Thread (sl_node L)) (fork_targets (sl_num_threads L) (sl_self L)) @
           (if sl_self L \<noteq> 0 then [Thread (sl_node L) 0] else []))"
| "join_targets L (Thread n i) = map (Thread n) (filter (\<lambda>d. int d \<noteq> sl_rewire L) (fork_targets (sl_node_threads L n) i))"

fun work_of :: "static_loop \<Rightarrow> party \<Rightarrow> nat" where
  "work_of L Master =
     sl_work L (sl_node L) + (if sl_user L then (if sl_num_threads L = 1 then 0 else sl_node_threads L (sl_node L)) else sl_self L)"
| "work_of L (Thread n i) = sl_work L n + i"

definition static_execute_capture :: "static_loop \<Rightarrow> nat \<Rightarrow> nat \<times> nat" where
  "static_execute_capture c work =
     (if is32f c then chunk_bounds (count32 c) (delta32 c) work else chunk_bounds (count64 c) (delta64 c) work)"

definition goto :: "party \<Rightarrow> phase \<Rightarrow> static_state \<Rightarrow> static_state" where
  "goto p ph s = s\<lparr>phases := (phases s)(p := ph)\<rparr>"

fun starts :: "party \<Rightarrow> static_loop \<Rightarrow> static_state \<Rightarrow> bool" where
  "starts Master L s = False"
| "starts (Thread n i) L s = (allocated s n \<and> xid s (party_slot L (Thread n i)))"

fun completes :: "party \<Rightarrow> static_loop \<Rightarrow> static_state \<Rightarrow> static_state" where
  "completes Master L s = goto Master Finished (s\<lparr>allocated := (\<lambda>n. allocated s n \<and> n \<notin> set (sl_nodes L))\<rparr>)"
| "completes (Thread n i) L s = goto (Thread n i) Idle (s\<lparr>xid := (xid s)(party_slot L (Thread n i) := False)\<rparr>)"

text \<open>One step of a party; \<open>None\<close> while it has to wait.\<close>

definition static_step :: "static_loop \<Rightarrow> party \<Rightarrow> static_state \<Rightarrow> static_state option" where
  "static_step L p s =
     (case phases s p of
        Idle \<Rightarrow> if starts p L s then Some (goto p (Fork (targets L p)) s) else None
      | Fork (c # cs) \<Rightarrow> Some (goto p (Fork cs) (s\<lparr>xid := (xid s)(party_slot L c := True)\<rparr>))
      | Fork [] \<Rightarrow> Some (goto p (Join (join_targets L p)) (s\<lparr>ran := ran s @ [p]\<rparr>))
      | Join (c # cs) \<Rightarrow> if xid s (party_slot L c) then None else Some (goto p (Join cs) s)
      | Join [] \<Rightarrow> Some (completes p L s)
      | Finished \<Rightarrow> None)"

definition static_init :: "static_loop \<Rightarrow> static_state" where
  "static_init L = \<lparr>xid = (\<lambda>_. False), phases = (\<lambda>_. Idle)(Master := Fork (targets L Master)), ran = [],
     allocated = (\<lambda>n. n \<in> set (sl_nodes L))\<rparr>"

text \<open>The parties of a loop: its master and the threads of its nodes, without the one that is the master.\<close>

definition parties :: "static_loop \<Rightarrow> party set" where
  "parties L = insert Master {Thread n i | n i. n \<in> set (sl_nodes L) \<and> i < sl_node_threads L n \<and> int i \<noteq> sl_rewire L}"

inductive static_reachable :: "static_loop \<Rightarrow> static_state \<Rightarrow> bool" for L where
  init: "static_reachable L (static_init L)"
| step: "static_reachable L s \<Longrightarrow> p \<in> parties L \<Longrightarrow> static_step L p s = Some s' \<Longrightarrow> static_reachable L s'"

end
