(* ===== verification/Cilk_For_Static_Proofs.thy ===== *)
theory Cilk_For_Static_Proofs
  imports Cilk_For_Static "HOL-Library.Multiset"
begin

text \<open>
  A statically scheduled loop runs every chunk once: the tree of flags reaches every thread once,
  the master returns only when all threads have run, and the chunks partition the iterations.
\<close>

subsection \<open>The binary tree of threads\<close>

lemma count_bits_less: "n < 2 ^ count_bits n"
proof (induction n rule: count_bits.induct)
  case (1 n)
  show ?case
  proof (cases "n = 0")
    case False
    then have "n div 2 < 2 ^ count_bits (n div 2)" using 1 by simp
    then have "n < 2 * 2 ^ count_bits (n div 2)" by linarith
    then show ?thesis using False by (subst count_bits.simps) simp
  qed simp
qed

lemma power_le_count_bits: "2 ^ k \<le> n \<Longrightarrow> k < count_bits n"
  using count_bits_less [of n] by (metis leD le_less_trans nat_le_linear not_le power_increasing_iff one_less_numeral_iff semiring_norm(76))

lemma or_power: "2 ^ Suc k dvd i \<Longrightarrow> i OR push_bit k 1 = i + (2 :: nat) ^ k"
proof -
  assume d: "2 ^ Suc k dvd i"
  have "i AND push_bit k 1 = 0"
  proof (rule bit_eqI)
    fix m
    have "\<not> bit i k" using d by (auto simp: bit_iff_odd dvd_def)
    then show "bit (i AND push_bit k 1) m = bit (0 :: nat) m" by (auto simp: bit_simps)
  qed
  then show ?thesis by (metis disjunctive_add_eq_or push_bit_of_1)
qed

lemma and_mask: "i AND mask p = 0 \<longleftrightarrow> 2 ^ p dvd (i :: nat)"
  by (simp add: take_bit_eq_mask [symmetric] take_bit_eq_mod dvd_eq_mod_eq_0)

lemma fork_targets_iff:
  "d \<in> set (fork_targets n i) \<longleftrightarrow> d < n \<and> (\<exists>k < log_threads n. 2 ^ Suc k dvd i \<and> d = i + 2 ^ k)"
proof -
  have "d \<in> set (fork_targets n i) \<longleftrightarrow>
      d < n \<and> (\<exists>p. 1 \<le> p \<and> p < Suc (log_threads n) \<and> 2 ^ p dvd i \<and> d = i OR push_bit (p - 1) 1)"
    by (auto simp: fork_targets_def and_mask)
  also have "\<dots> \<longleftrightarrow> d < n \<and> (\<exists>k < log_threads n. 2 ^ Suc k dvd i \<and> d = i OR push_bit k 1)"
    by (metis Suc_le_eq Suc_pred' diff_Suc_1 less_Suc_eq_le not_less_eq zero_less_Suc One_nat_def)
  finally show ?thesis using or_power by metis
qed

lemma fork_targets_distinct: "distinct (fork_targets n i)"
proof -
  have "inj_on (\<lambda>p. i OR push_bit (p - 1) 1) {p. 1 \<le> p \<and> 2 ^ p dvd i}"
  proof (rule inj_onI)
    fix p q
    assume "p \<in> {p. 1 \<le> p \<and> 2 ^ p dvd i}" "q \<in> {p. 1 \<le> p \<and> 2 ^ p dvd i}" and eq: "i OR push_bit (p - 1) 1 = i OR push_bit (q - 1) 1"
    then obtain k l where "p = Suc k" "q = Suc l" "2 ^ Suc k dvd i" "2 ^ Suc l dvd i" by (auto simp: Suc_le_eq gr0_conv_Suc)
    moreover have "i + 2 ^ k = i + 2 ^ l"
      using eq or_power [OF calculation(3)] or_power [OF calculation(4)] by (simp add: calculation(1,2))
    ultimately show "p = q" by simp
  qed
  moreover have "set (filter (\<lambda>p. i AND mask p = 0) (rev [1 ..< Suc (log_threads n)])) \<subseteq> {p. 1 \<le> p \<and> 2 ^ p dvd i}"
    by (auto simp: and_mask)
  ultimately show ?thesis
    unfolding fork_targets_def by (intro distinct_filter) (simp add: distinct_map inj_on_subset)
qed

lemma fork_targets_larger: "d \<in> set (fork_targets n i) \<Longrightarrow> i < d"
  by (auto simp: fork_targets_iff)

lemma one_waker:
  assumes "d \<in> set (fork_targets n i)" and "d \<in> set (fork_targets n j)"
  shows "i = j"
proof -
  have less: False if "2 ^ Suc k dvd i" "2 ^ Suc l dvd j" "i + 2 ^ k = j + 2 ^ l" "k < l" for i j k l :: nat
  proof -
    have "2 ^ Suc k dvd (2 :: nat) ^ l" using that(4) by (intro le_imp_power_dvd) simp
    moreover have "2 ^ Suc k dvd j" using that(2,4) by (meson dvd_trans le_imp_power_dvd less_imp_le Suc_le_mono)
    ultimately have "2 ^ Suc k dvd i + 2 ^ k" using that(3) by simp
    then have "2 ^ Suc k dvd (2 :: nat) ^ k" using that(1) by (simp add: dvd_add_right_iff)
    then show False by (simp add: power_dvd_imp_le)
  qed
  from assms obtain k l where "2 ^ Suc k dvd i" "d = i + 2 ^ k" "2 ^ Suc l dvd j" "d = j + 2 ^ l" by (auto simp: fork_targets_iff)
  note kl = this
  have "k = l"
  proof (rule ccontr)
    assume "k \<noteq> l"
    then consider "k < l" | "l < k" by linarith
    then show False
    proof cases
      case 1
      then show False using less [of k i l j] kl by simp
    next
      case 2
      then show False using less [of l j k i] kl by simp
    qed
  qed
  then show ?thesis using kl by simp
qed

lemma odd_part: "0 < (d :: nat) \<Longrightarrow> \<exists>k m. d = 2 ^ k * m \<and> odd m"
proof (induction d rule: less_induct)
  case (less d)
  show ?case
  proof (cases "even d")
    case True
    then obtain e where e: "d = 2 * e" by blast
    then have "e < d" "0 < e" using less.prems by auto
    from less.IH [OF this] obtain k m where "e = 2 ^ k * m" "odd m" by blast
    then show ?thesis using e by (intro exI [of _ "Suc k"] exI [of _ m]) simp
  next
    case False
    then show ?thesis by (intro exI [of _ 0] exI [of _ d]) simp
  qed
qed

lemma some_waker:
  assumes "0 < d" and "d < n"
  obtains i where "d \<in> set (fork_targets n i)" and "i < d"
proof -
  obtain k m where d: "d = 2 ^ k * m" "odd m" using odd_part [OF assms(1)] by blast
  define i where "i = d - 2 ^ k"
  have "2 ^ k \<le> d" using d assms(1) by (cases m) auto
  then have i: "d = i + 2 ^ k" by (simp add: i_def)
  have "2 ^ Suc k dvd i"
  proof -
    obtain m' where "m = 2 * m' + 1" using d(2) by (rule oddE)
    then have "i = 2 ^ Suc k * m'" using d(1) by (simp add: i_def algebra_simps)
    then show ?thesis by simp
  qed
  moreover have "k < log_threads n" using \<open>2 ^ k \<le> d\<close> assms(2) by (simp add: log_threads_def power_le_count_bits)
  ultimately show thesis using that [of i] i assms(2) by (auto simp: fork_targets_iff)
qed

subsection \<open>Fork and join over a tree\<close>

text \<open>The parties form a tree below the master, whose slots do not overlap.\<close>

definition fork_tree :: "static_loop \<Rightarrow> bool" where
  "fork_tree L \<longleftrightarrow>
     (\<forall>p \<in> parties L. set (targets L p) \<subseteq> parties L - {Master, p} \<and> distinct (targets L p)) \<and>
     (\<forall>p \<in> parties L. \<forall>q \<in> parties L. \<forall>c. c \<in> set (targets L p) \<longrightarrow> c \<in> set (targets L q) \<longrightarrow> p = q) \<and>
     (\<forall>c \<in> parties L. c \<noteq> Master \<longrightarrow> (\<exists>p \<in> parties L. c \<in> set (targets L p))) \<and>
     inj_on (party_slot L) (parties L - {Master})"

definition fresh :: "static_loop \<Rightarrow> static_state \<Rightarrow> party \<Rightarrow> bool" where
  "fresh L s c \<longleftrightarrow> phases s c = Idle \<and> \<not> xid s (party_slot L c) \<and> c \<notin> set (ran s)"

definition finished :: "static_loop \<Rightarrow> static_state \<Rightarrow> party \<Rightarrow> bool" where
  "finished L s c \<longleftrightarrow> phases s c = Idle \<and> \<not> xid s (party_slot L c) \<and> c \<in> set (ran s)"

definition woken :: "static_loop \<Rightarrow> static_state \<Rightarrow> party \<Rightarrow> bool" where
  "woken L s c \<longleftrightarrow> xid s (party_slot L c) \<or> finished L s c"

definition at_phase :: "static_loop \<Rightarrow> static_state \<Rightarrow> party \<Rightarrow> phase \<Rightarrow> bool" where
  "at_phase L s p ph =
     (case ph of
        Idle \<Rightarrow> p \<noteq> Master \<and> (if p \<in> set (ran s) then \<not> xid s (party_slot L p) \<and> (\<forall>c \<in> set (targets L p). finished L s c)
                                 else \<forall>c \<in> set (targets L p). fresh L s c)
      | Fork cs \<Rightarrow> p \<notin> set (ran s) \<and> (p \<noteq> Master \<longrightarrow> xid s (party_slot L p)) \<and>
          (\<exists>pre. targets L p = pre @ cs \<and> (\<forall>c \<in> set pre. woken L s c)) \<and> (\<forall>c \<in> set cs. fresh L s c)
      | Join cs \<Rightarrow> p \<in> set (ran s) \<and> (p \<noteq> Master \<longrightarrow> xid s (party_slot L p)) \<and>
          (\<exists>pre. join_targets L p = pre @ cs \<and> (\<forall>c \<in> set pre. finished L s c)) \<and> (\<forall>c \<in> set cs. woken L s c)
      | Finished \<Rightarrow> p = Master \<and> p \<in> set (ran s) \<and> (\<forall>c \<in> set (targets L p). finished L s c))"

definition static_inv :: "static_loop \<Rightarrow> static_state \<Rightarrow> bool" where
  "static_inv L s \<longleftrightarrow> (\<forall>p \<in> parties L. at_phase L s p (phases s p)) \<and> distinct (ran s) \<and> set (ran s) \<subseteq> parties L \<and>
     (phases s Master \<noteq> Finished \<longrightarrow> (\<forall>n \<in> set (sl_nodes L). allocated s n))"

lemma join_targets_set: "set (join_targets L p) = set (targets L p)"
  by (cases p) auto

text \<open>A party's phase depends on its own slot, on whether it has run, and on the state of its targets.\<close>

lemma at_phase_cong:
  assumes "at_phase L s p ph" and "p \<in> set (ran s') \<longleftrightarrow> p \<in> set (ran s)"
    and "p \<noteq> Master \<Longrightarrow> ph \<noteq> Idle \<or> p \<in> set (ran s) \<Longrightarrow> xid s' (party_slot L p) \<longleftrightarrow> xid s (party_slot L p)"
    and "\<And>c. c \<in> set (targets L p) \<Longrightarrow> (fresh L s c \<longrightarrow> fresh L s' c) \<and> (woken L s c \<longrightarrow> woken L s' c) \<and> (finished L s c \<longrightarrow> finished L s' c)"
  shows "at_phase L s' p ph"
proof (cases ph)
  case Idle
  then show ?thesis using assms by (auto simp: at_phase_def split: if_splits)
next
  case (Fork cs)
  then obtain pre where pre: "targets L p = pre @ cs" "\<forall>c \<in> set pre. woken L s c" "\<forall>c \<in> set cs. fresh L s c"
    and p: "p \<notin> set (ran s)" "p \<noteq> Master \<longrightarrow> xid s (party_slot L p)" using assms(1) by (auto simp: at_phase_def)
  have "\<forall>c \<in> set pre. woken L s' c" "\<forall>c \<in> set cs. fresh L s' c" using pre assms(4) by auto
  then show ?thesis using Fork pre(1) p assms(2,3) by (auto simp: at_phase_def)
next
  case (Join cs)
  then obtain pre where pre: "join_targets L p = pre @ cs" "\<forall>c \<in> set pre. finished L s c" "\<forall>c \<in> set cs. woken L s c"
    and p: "p \<in> set (ran s)" "p \<noteq> Master \<longrightarrow> xid s (party_slot L p)" using assms(1) by (auto simp: at_phase_def)
  have "set pre \<union> set cs = set (targets L p)" using pre(1) join_targets_set [of L p] by simp
  then have "\<forall>c \<in> set pre. finished L s' c" "\<forall>c \<in> set cs. woken L s' c" using pre assms(4) by blast+
  then show ?thesis using Join pre(1) p assms(2,3) by (auto simp: at_phase_def)
next
  case Finished
  then show ?thesis using assms by (auto simp: at_phase_def)
qed

text \<open>The four kinds of step.\<close>

lemma static_step_cases:
  assumes "static_step L p s = Some s'"
  obtains (start) n i where "p = Thread n i" "phases s p = Idle" "xid s (party_slot L p)" "s' = goto p (Fork (targets L p)) s"
  | (wake) c cs where "phases s p = Fork (c # cs)" "s' = goto p (Fork cs) (s\<lparr>xid := (xid s)(party_slot L c := True)\<rparr>)"
  | (execute) "phases s p = Fork []" "s' = goto p (Join (join_targets L p)) (s\<lparr>ran := ran s @ [p]\<rparr>)"
  | (wait) c cs where "phases s p = Join (c # cs)" "\<not> xid s (party_slot L c)" "s' = goto p (Join cs) s"
  | (complete) "phases s p = Join []" "s' = completes p L s"
  using assms by (cases p) (auto simp: static_step_def split: phase.splits list.splits if_splits)

lemma static_inv_init:
  assumes "fork_tree L"
  shows "static_inv L (static_init L)"
  using assms by (auto simp: static_inv_def static_init_def at_phase_def fresh_def fork_tree_def)

lemma fork_treeD:
  assumes "fork_tree L"
  shows "p \<in> parties L \<Longrightarrow> c \<in> set (targets L p) \<Longrightarrow> c \<in> parties L \<and> c \<noteq> Master \<and> c \<noteq> p"
    and "p \<in> parties L \<Longrightarrow> q \<in> parties L \<Longrightarrow> c \<in> set (targets L p) \<Longrightarrow> c \<in> set (targets L q) \<Longrightarrow> p = q"
    and "c \<in> parties L \<Longrightarrow> c \<noteq> Master \<Longrightarrow> \<exists>p \<in> parties L. c \<in> set (targets L p)"
    and "p \<in> parties L \<Longrightarrow> q \<in> parties L \<Longrightarrow> p \<noteq> Master \<Longrightarrow> q \<noteq> Master \<Longrightarrow> party_slot L p = party_slot L q \<Longrightarrow> p = q"
    and "p \<in> parties L \<Longrightarrow> distinct (targets L p)"
  using assms unfolding fork_tree_def inj_on_def by blast+

abbreviation as_before :: "static_loop \<Rightarrow> static_state \<Rightarrow> static_state \<Rightarrow> party \<Rightarrow> bool" where
  "as_before L s s' c \<equiv> phases s' c = phases s c \<and> (c \<in> set (ran s') \<longleftrightarrow> c \<in> set (ran s)) \<and>
     (xid s' (party_slot L c) \<longleftrightarrow> xid s (party_slot L c))"

lemma status_before:
  assumes "as_before L s s' c"
  shows "fresh L s' c \<longleftrightarrow> fresh L s c" and "woken L s' c \<longleftrightarrow> woken L s c" and "finished L s' c \<longleftrightarrow> finished L s c"
  using assms by (simp_all add: fresh_def woken_def finished_def)

text \<open>The step of \<open>p\<close> leaves the phases of the others: it can be seen by them only as the end of \<open>p\<close>.\<close>

lemma others_phase:
  assumes tree: "fork_tree L" and p: "p \<in> parties L" and q: "q \<in> parties L" "q \<noteq> p"
    and ph: "at_phase L s q (phases s q)"
    and same: "\<And>k. k \<in> parties L \<Longrightarrow> k \<noteq> Master \<Longrightarrow> k \<noteq> p \<Longrightarrow> k \<notin> K \<Longrightarrow> as_before L s s' k"
    and K: "K \<subseteq> set (targets L p)" and fr: "\<And>k. k \<in> K \<Longrightarrow> phases s' k = phases s k \<and> fresh L s k \<and> k \<notin> set (ran s')"
    and mp: "p \<noteq> Master \<Longrightarrow> \<not> fresh L s p \<and> \<not> finished L s p \<and> (woken L s p \<longrightarrow> woken L s' p)"
    and master: "q = Master \<Longrightarrow> phases s' q = phases s q \<and> (q \<in> set (ran s') \<longleftrightarrow> q \<in> set (ran s))"
  shows "at_phase L s' q (phases s' q)"
proof -
  have own: "phases s' q = phases s q \<and> (q \<in> set (ran s') \<longleftrightarrow> q \<in> set (ran s))"
    using same [of q] fr [of q] master q by (cases "q = Master"; cases "q \<in> K") (auto simp: fresh_def)
  have "at_phase L s' q (phases s q)"
  proof (rule at_phase_cong [OF ph])
    show "q \<in> set (ran s') \<longleftrightarrow> q \<in> set (ran s)" using own by blast
  next
    assume a: "q \<noteq> Master" "phases s q \<noteq> Idle \<or> q \<in> set (ran s)"
    then have "q \<notin> K" using fr [of q] own by (auto simp: fresh_def)
    then show "xid s' (party_slot L q) \<longleftrightarrow> xid s (party_slot L q)" using same [of q] q a(1) by blast
  next
    fix c
    assume c: "c \<in> set (targets L q)"
    then have cp: "c \<in> parties L" "c \<noteq> Master" using fork_treeD(1) [OF tree q(1)] by blast+
    have "c \<notin> K" using K fork_treeD(2) [OF tree p q(1) _ c] q(2) by blast
    then show "(fresh L s c \<longrightarrow> fresh L s' c) \<and> (woken L s c \<longrightarrow> woken L s' c) \<and> (finished L s c \<longrightarrow> finished L s' c)"
      using mp cp status_before [OF same [OF cp]] by (cases "c = p") blast+
  qed
  then show ?thesis using own by simp
qed

lemma static_invI:
  assumes "static_inv L s" and "\<And>q. q \<in> parties L \<Longrightarrow> q \<noteq> p \<Longrightarrow> at_phase L s' q (phases s' q)" and "at_phase L s' p (phases s' p)"
    and "distinct (ran s')" and "set (ran s') \<subseteq> parties L"
    and "phases s' Master \<noteq> Finished \<Longrightarrow> phases s Master \<noteq> Finished \<and> allocated s' = allocated s"
  shows "static_inv L s'"
proof -
  have "at_phase L s' q (phases s' q)" if "q \<in> parties L" for q using assms(2,3) that by (cases "q = p") blast+
  then show ?thesis using assms(1,4-6) unfolding static_inv_def by metis
qed

declare targets.simps [simp del] join_targets.simps [simp del]

lemma static_step_inv:
  assumes tree: "fork_tree L" and inv: "static_inv L s" and p: "p \<in> parties L" and step: "static_step L p s = Some s'"
  shows "static_inv L s'"
proof -
  have ph: "\<And>q. q \<in> parties L \<Longrightarrow> at_phase L s q (phases s q)" and dis: "distinct (ran s)" and sub: "set (ran s) \<subseteq> parties L"
    using inv by (simp_all add: static_inv_def)
  note slot = fork_treeD(4) [OF tree] note kid = fork_treeD(1) [OF tree p]
  note others = others_phase [OF tree p _ _ ph]
  from step show ?thesis
  proof (cases rule: static_step_cases)
    case (start n i)
    have x: "p \<notin> set (ran s)" "\<forall>c \<in> set (targets L p). fresh L s c" "p \<noteq> Master"
      using ph [OF p] start by (auto simp: at_phase_def split: if_splits)
    have same: "as_before L s s' k" if "k \<noteq> p" for k using that start by (simp add: goto_def)
    have "\<forall>c \<in> set (targets L p). fresh L s' c" using x(2) kid status_before(1) [OF same] by blast
    then have "at_phase L s' p (phases s' p)" using start x by (auto simp: at_phase_def goto_def)
    moreover have "at_phase L s' q (phases s' q)" if "q \<in> parties L" "q \<noteq> p" for q
      by (rule others [OF that that(1), where K = "{}"]) (use same start that in \<open>auto simp: fresh_def finished_def woken_def goto_def\<close>)
    ultimately show ?thesis by (intro static_invI [OF inv, of p]) (use start x dis sub in \<open>auto simp: goto_def\<close>)
  next
    case (wake c cs)
    obtain pre where x: "p \<notin> set (ran s)" "targets L p = pre @ c # cs" "\<forall>c \<in> set pre. woken L s c" "fresh L s c" "\<forall>c \<in> set cs. fresh L s c"
      and own: "p \<noteq> Master \<longrightarrow> xid s (party_slot L p)"
      using ph [OF p] wake(1) by (auto simp: at_phase_def)
    have c: "c \<in> parties L" "c \<noteq> Master" "c \<noteq> p" using kid [of c] x(2) by auto
    have xs: "xid s' (party_slot L k) \<longleftrightarrow> k = c \<or> xid s (party_slot L k)" if "k \<in> parties L" "k \<noteq> Master" for k
      using slot [OF that(1) c(1) that(2) c(2)] wake(2) by (auto simp: goto_def)
    have same: "as_before L s s' k" if "k \<in> parties L" "k \<noteq> Master" "k \<noteq> p" "k \<noteq> c" for k
      using that xs [OF that(1,2)] wake(2) by (simp add: goto_def)
    have cs: "d \<in> parties L \<and> d \<noteq> Master \<and> d \<noteq> p \<and> d \<noteq> c" if "d \<in> set pre \<union> set cs" for d
      using that kid [of d] fork_treeD(5) [OF tree p] x(2) by auto
    have "\<forall>d \<in> set (pre @ [c]). woken L s' d" "\<forall>d \<in> set cs. fresh L s' d"
      using x(3,5) cs status_before [OF same] xs [OF c(1,2)] by (auto simp: woken_def)
    then have "at_phase L s' p (phases s' p)"
      using x(1,2) own xs [OF p] wake(2) by (auto simp: at_phase_def goto_def intro!: exI [of _ "pre @ [c]"])
    moreover have "at_phase L s' q (phases s' q)" if "q \<in> parties L" "q \<noteq> p" for q
      by (rule others [OF that that(1), where K = "{c}"])
        (use same wake x own xs [OF p] that in \<open>auto simp: fresh_def finished_def woken_def goto_def\<close>)
    ultimately show ?thesis by (intro static_invI [OF inv, of p]) (use wake dis sub in \<open>auto simp: goto_def split: if_splits\<close>)
  next
    case execute
    have x: "p \<notin> set (ran s)" "\<forall>c \<in> set (targets L p). woken L s c" and own: "p \<noteq> Master \<longrightarrow> xid s (party_slot L p)"
      using ph [OF p] execute by (auto simp: at_phase_def)
    have same: "as_before L s s' k" if "k \<noteq> p" for k using that execute by (simp add: goto_def)
    have "\<forall>c \<in> set (targets L p). woken L s' c" using x(2) kid status_before(2) [OF same] by blast
    then have "at_phase L s' p (phases s' p)" using execute own by (auto simp: at_phase_def goto_def join_targets_set)
    moreover have "at_phase L s' q (phases s' q)" if "q \<in> parties L" "q \<noteq> p" for q
      by (rule others [OF that that(1), where K = "{}"]) (use same execute own that in \<open>auto simp: fresh_def finished_def woken_def goto_def\<close>)
    ultimately show ?thesis by (intro static_invI [OF inv, of p]) (use execute x dis sub p in \<open>auto simp: goto_def split: if_splits\<close>)
  next
    case (wait c cs)
    obtain pre where x: "p \<in> set (ran s)" "join_targets L p = pre @ c # cs" "\<forall>c \<in> set pre. finished L s c" "woken L s c" "\<forall>c \<in> set cs. woken L s c"
      and own: "p \<noteq> Master \<longrightarrow> xid s (party_slot L p)"
      using ph [OF p] wait(1) by (auto simp: at_phase_def)
    have same: "as_before L s s' k" if "k \<noteq> p" for k using that wait by (simp add: goto_def)
    have "d \<noteq> p" if "d \<in> set (join_targets L p)" for d using that kid by (simp add: join_targets_set)
    then have "\<forall>d \<in> set (pre @ [c]). finished L s' d" "\<forall>d \<in> set cs. woken L s' d"
      using x wait(2) status_before [OF same] by (auto simp: woken_def)
    then have "at_phase L s' p (phases s' p)"
      using x(1,2) own wait(3) by (auto simp: at_phase_def goto_def intro!: exI [of _ "pre @ [c]"])
    moreover have "at_phase L s' q (phases s' q)" if "q \<in> parties L" "q \<noteq> p" for q
      by (rule others [OF that that(1), where K = "{}"]) (use same wait own that in \<open>auto simp: fresh_def finished_def woken_def goto_def\<close>)
    ultimately show ?thesis by (intro static_invI [OF inv, of p]) (use wait dis sub in \<open>auto simp: goto_def split: if_splits\<close>)
  next
    case complete
    have x: "p \<in> set (ran s)" "\<forall>c \<in> set (targets L p). finished L s c" and own: "p \<noteq> Master \<longrightarrow> xid s (party_slot L p)"
      using ph [OF p] complete by (auto simp: at_phase_def join_targets_set [symmetric])
    have r: "ran s' = ran s" "phases s' = (phases s)(p := if p = Master then Finished else Idle)"
      "xid s' = (if p = Master then xid s else (xid s)(party_slot L p := False))"
      "p \<noteq> Master \<Longrightarrow> allocated s' = allocated s"
      using complete(2) by (cases p; simp add: goto_def)+
    have same: "as_before L s s' k" if "k \<in> parties L" "k \<noteq> Master" "k \<noteq> p" for k
      using that slot [OF that(1) p that(2)] by (auto simp: r)
    have "\<forall>c \<in> set (targets L p). finished L s' c" using x(2) kid status_before(3) [OF same] by blast
    then have "at_phase L s' p (phases s' p)" using x by (auto simp: at_phase_def r)
    moreover have "at_phase L s' q (phases s' q)" if "q \<in> parties L" "q \<noteq> p" for q
      by (rule others [OF that that(1), where K = "{}"])
        (use same x own complete(1) that in \<open>auto simp: fresh_def finished_def woken_def r\<close>)
    ultimately show ?thesis by (intro static_invI [OF inv, of p]) (use r dis sub complete(1) in \<open>auto split: if_splits\<close>)
  qed
qed

lemma static_reachable_inv: "fork_tree L \<Longrightarrow> static_reachable L s \<Longrightarrow> static_inv L s"
  by (rotate_tac, induction rule: static_reachable.induct) (blast intro: static_inv_init static_step_inv)+

subsection \<open>The master returns when everyone has run, and someone can always go on\<close>

text \<open>Threads are woken by threads with a lower index, and by the master.\<close>

fun level :: "party \<Rightarrow> nat" where
  "level Master = 0"
| "level (Thread n i) = Suc i"

lemma targets_level: "c \<in> set (targets L p) \<Longrightarrow> level p < level c"
  by (cases p) (auto simp: targets.simps dest: fork_targets_larger split: if_splits)

lemma all_ran:
  assumes tree: "fork_tree L" and inv: "static_inv L s" and "phases s Master = Finished"
  shows "set (ran s) = parties L" and "\<And>c. c \<in> parties L \<Longrightarrow> c \<noteq> Master \<Longrightarrow> finished L s c"
proof -
  have ph: "\<And>q. q \<in> parties L \<Longrightarrow> at_phase L s q (phases s q)" using inv by (simp add: static_inv_def)
  have M: "Master \<in> parties L" by (simp add: parties_def)
  have m: "Master \<in> set (ran s)" "\<forall>c \<in> set (targets L Master). finished L s c" using ph [OF M] assms(3) by (auto simp: at_phase_def)
  have f: "finished L s c" if "c \<in> parties L" "c \<noteq> Master" for c
    using that
  proof (induction "level c" arbitrary: c rule: less_induct)
    case less
    obtain p where p: "p \<in> parties L" "c \<in> set (targets L p)" using fork_treeD(3) [OF tree less.prems] by blast
    show ?case
    proof (cases "p = Master")
      case False
      have "finished L s p" using less.hyps [OF targets_level [OF p(2)] p(1) False] .
      then show ?thesis using ph [OF p(1)] p(2) by (auto simp: finished_def at_phase_def)
    qed (use m p in blast)
  qed
  then show "\<And>c. c \<in> parties L \<Longrightarrow> c \<noteq> Master \<Longrightarrow> finished L s c" .
  have "c \<in> set (ran s)" if "c \<in> parties L" for c using f [OF that] m(1) by (cases "c = Master") (auto simp: finished_def)
  then show "set (ran s) = parties L" using inv by (auto simp: static_inv_def)
qed

lemma finite_parties: "finite (parties L)"
proof -
  have "parties L \<subseteq> insert Master (\<Union>n \<in> set (sl_nodes L). Thread n ` {..< sl_node_threads L n})" by (auto simp: parties_def)
  then show ?thesis by (rule finite_subset) simp
qed

lemma someone_steps:
  assumes tree: "fork_tree L" and inv: "static_inv L s" and "phases s Master \<noteq> Finished"
    and "p \<in> parties L" and "p = Master \<or> xid s (party_slot L p)"
  shows "\<exists>q \<in> parties L. static_step L q s \<noteq> None"
  using assms(4,5)
proof (induction "Max (level ` parties L) - level p" arbitrary: p rule: less_induct)
  case less
  have ph: "at_phase L s p (phases s p)" and al: "\<forall>n \<in> set (sl_nodes L). allocated s n"
    using inv less.prems(1) assms(3) by (auto simp: static_inv_def)
  show ?case
  proof (cases "phases s p")
    case Idle
    then obtain n i where p: "p = Thread n i" using ph by (cases p) (auto simp: at_phase_def)
    then have "n \<in> set (sl_nodes L)" using less.prems(1) by (auto simp: parties_def)
    then have "static_step L p s \<noteq> None" using Idle p less.prems(2) al by (simp add: static_step_def)
    then show ?thesis using less.prems(1) by blast
  next
    case (Fork cs)
    then have "static_step L p s \<noteq> None" by (cases cs) (auto simp: static_step_def)
    then show ?thesis using less.prems(1) by blast
  next
    case (Join cs)
    show ?thesis
    proof (cases "cs \<noteq> [] \<and> xid s (party_slot L (hd cs))")
      case True
      then have c: "hd cs \<in> set (targets L p)" using ph Join by (auto simp: at_phase_def join_targets_set [symmetric])
      then have cp: "hd cs \<in> parties L" using fork_treeD(1) [OF tree less.prems(1)] by blast
      then have "level (hd cs) \<le> Max (level ` parties L)" using finite_parties by simp
      then have "Max (level ` parties L) - level (hd cs) < Max (level ` parties L) - level p"
        using targets_level [OF c] by linarith
      from less.hyps [OF this cp] True show ?thesis by blast
    next
      case False
      then have "static_step L p s \<noteq> None" using Join by (cases cs) (auto simp: static_step_def)
      then show ?thesis using less.prems(1) by blast
    qed
  next
    case Finished
    then show ?thesis using ph assms(3) by (simp add: at_phase_def)
  qed
qed

subsection \<open>Chunks partition the iterations\<close>

lemma chunks_upto:
  "concat (map (\<lambda>w. [min (d * w) c ..< min (d * (w + 1)) c]) [0 ..< k]) = [0 ..< min (d * k) (c :: nat)]"
proof (induction k)
  case (Suc k)
  have "min (d * k) c \<le> min (d * (k + 1)) c" by (simp add: min_le_iff_disj)
  then have "[0 ..< min (d * k) c] @ [min (d * k) c ..< min (d * (k + 1)) c] = [0 ..< min (d * (k + 1)) c]"
    using upt_add_eq_append [of 0 "min (d * k) c" "min (d * (k + 1)) c - min (d * k) c"] by simp
  then show ?case using Suc by simp
qed simp

lemma unat_small: "v < 2 ^ LENGTH('w) \<Longrightarrow> unat (of_nat v :: 'w::len word) = v"
  by (simp add: unsigned_of_nat take_bit_nat_eq_self_iff)

lemma chunk_delta_unat:
  fixes n :: "'w::len word"
  assumes "0 < k" and "unat n + k \<le> 2 ^ LENGTH('w)" and "0 < n"
  shows "unat (chunk_delta n k) = (unat n + k - 1) div k" and "k < 2 ^ LENGTH('w)"
proof -
  have n: "0 < unat n" using assms(3) by (simp add: word_less_nat_alt)
  then show k: "k < 2 ^ LENGTH('w)" using assms(2) by linarith
  have "n + of_nat k - 1 = of_nat (unat n + k - 1)" using assms(1) n by (simp add: of_nat_diff)
  moreover have "unat (of_nat (unat n + k - 1) :: 'w word) = unat n + k - 1" "unat (of_nat k :: 'w word) = k"
    using assms(1,2) k by (intro unat_small; linarith)+
  ultimately show "unat (chunk_delta n k) = (unat n + k - 1) div k" by (simp add: chunk_delta_def unat_div)
qed

lemma chunk_bounds_unat:
  fixes n :: "'w::len word"
  assumes "unat n + k \<le> 2 ^ LENGTH('w)" and "0 < n" and "w < k"
  shows "chunk_bounds n (chunk_delta n k) w =
    (min ((unat n + k - 1) div k * w) (unat n), min ((unat n + k - 1) div k * (w + 1)) (unat n))"
proof -
  define d where "d = (unat n + k - 1) div k"
  have k: "0 < k" using assms(3) by simp
  note delta = chunk_delta_unat [OF k assms(1,2)]
  have "d * k \<le> unat n + k - 1" by (simp add: d_def)
  moreover have "d * (w + 1) \<le> d * k" using assms(3) by (intro mult_left_mono) auto
  ultimately have dw: "d * (w + 1) < 2 ^ LENGTH('w)" using assms(1) k by linarith
  have u: "unat (chunk_delta n k * of_nat v) = d * v" if "v \<le> w + 1" for v
  proof -
    have "d * v \<le> d * (w + 1)" using that by (intro mult_left_mono) auto
    then have "d * v < 2 ^ LENGTH('w)" using dw by linarith
    moreover have "chunk_delta n k = of_nat (unat (chunk_delta n k))" by simp
    then have "chunk_delta n k * of_nat v = of_nat (d * v)" by (simp only: delta(1) d_def of_nat_mult)
    ultimately show ?thesis by (simp only: unat_small)
  qed
  have "unat (chunk_delta n k * (of_nat w + 1)) = d * (w + 1)" using u [of "w + 1"] by (simp add: algebra_simps)
  moreover have "unat (min x y) = min (unat x) (unat y)" for x y :: "'w word" by (simp add: min_def word_le_nat_alt)
  ultimately show ?thesis using u [of w] unfolding chunk_bounds_def d_def [symmetric] by simp
qed

lemma chunks_cover:
  fixes n :: "'w::len word"
  assumes "0 < k" and "unat n + k \<le> 2 ^ LENGTH('w)" and "0 < n"
  shows "concat (map (\<lambda>w. case chunk_bounds n (chunk_delta n k) w of (lo, hi) \<Rightarrow> [lo ..< hi]) [0 ..< k]) = [0 ..< unat n]"
proof -
  define d where "d = (unat n + k - 1) div k"
  have "unat n \<le> d * k"
  proof -
    have "unat n + k - 1 = d * k + (unat n + k - 1) mod k" by (simp add: d_def)
    moreover have "(unat n + k - 1) mod k < k" using assms(1) by simp
    ultimately show ?thesis using assms(1) by linarith
  qed
  then have "[0 ..< unat n] = [0 ..< min (d * k) (unat n)]" by simp
  also have "\<dots> = concat (map (\<lambda>w. [min (d * w) (unat n) ..< min (d * (w + 1)) (unat n)]) [0 ..< k])" by (simp only: chunks_upto)
  also have "\<dots> = concat (map (\<lambda>w. case chunk_bounds n (chunk_delta n k) w of (lo, hi) \<Rightarrow> [lo ..< hi]) [0 ..< k])"
    using chunk_bounds_unat [OF assms(2,3)] by (intro arg_cong [where f = concat] map_cong) (auto simp: d_def)
  finally show ?thesis by simp
qed

subsection \<open>The loops the master sets up\<close>

definition numa_ok :: "global_state \<Rightarrow> bool" where
  "numa_ok g \<longleftrightarrow> (\<forall>i j. i < j \<longrightarrow> j < numa_nodes g \<longrightarrow> numa_node_cum_threads g i + numa_node_threads g i \<le> numa_node_cum_threads g j)"

lemma numa_register_ok:
  assumes "numa_ok g" and "m < numa_nodes g"
  shows "numa_ok (snd (numa_register m g))"
proof -
  have "numa_node_cum_threads g i + numa_node_threads g i \<le> numa_node_cum_threads g j" if "i < j" "j < numa_nodes g" for i j
    using assms(1) that by (simp add: numa_ok_def)
  note le = this
  show ?thesis
    unfolding numa_ok_def
  proof (intro allI impI)
    fix i j
    assume "i < j" "j < numa_nodes (snd (numa_register m g))"
    then show "numa_node_cum_threads (snd (numa_register m g)) i + numa_node_threads (snd (numa_register m g)) i
        \<le> numa_node_cum_threads (snd (numa_register m g)) j"
      using le [of i j] by (auto simp: numa_register_def)
  qed
qed

definition loop_ok :: "static_loop \<Rightarrow> bool" where
  "loop_ok L \<longleftrightarrow> distinct (sl_nodes L) \<and> (\<forall>n \<in> set (sl_nodes L). 0 < sl_node_threads L n) \<and>
     (\<forall>m \<in> set (sl_nodes L). \<forall>n \<in> set (sl_nodes L). m < n \<longrightarrow> sl_cum_threads L m + sl_node_threads L m \<le> sl_cum_threads L n) \<and>
     (if sl_user L then sl_rewire L = - 1
      else sl_nodes L = [sl_node L] \<and> sl_num_threads L = sl_node_threads L (sl_node L) \<and>
        sl_self L < sl_node_threads L (sl_node L) \<and> sl_rewire L = int (sl_self L))"

lemma target_of_thread:
  "c \<in> set (targets L (Thread n i)) \<longleftrightarrow> (\<exists>d. c = Thread n d \<and> int d \<noteq> sl_rewire L \<and> d \<in> set (fork_targets (sl_node_threads L n) i))"
  by (auto simp: targets.simps)

lemma target_of_master:
  assumes "loop_ok L"
  shows "c \<in> set (targets L Master) \<longleftrightarrow>
    (if sl_user L then \<exists>n \<in> set (sl_nodes L). c = Thread n 0
     else \<exists>d. c = Thread (sl_node L) d \<and> (d = 0 \<and> sl_self L \<noteq> 0 \<or> d \<in> set (fork_targets (sl_node_threads L (sl_node L)) (sl_self L))))"
  using assms by (auto simp: targets.simps loop_ok_def)

lemma thread_party:
  "Thread n i \<in> parties L \<longleftrightarrow> n \<in> set (sl_nodes L) \<and> i < sl_node_threads L n \<and> int i \<noteq> sl_rewire L"
  by (auto simp: parties_def)

lemma fork_targets_bound: "d \<in> set (fork_targets n i) \<Longrightarrow> 0 < d \<and> d < n"
  by (auto simp: fork_targets_iff)

lemma loop_ok_tree:
  assumes ok: "loop_ok L"
  shows "fork_tree L"
proof -
  have user: "sl_rewire L = - 1" if "sl_user L" using ok that by (simp add: loop_ok_def)
  have sys: "sl_nodes L = [sl_node L]" "sl_self L < sl_node_threads L (sl_node L)" "sl_rewire L = int (sl_self L)" if "\<not> sl_user L"
    using ok that by (simp_all add: loop_ok_def)
  have thr: "\<And>n. n \<in> set (sl_nodes L) \<Longrightarrow> 0 < sl_node_threads L n" using ok by (simp add: loop_ok_def)
  have sub: "c \<in> parties L \<and> c \<noteq> Master \<and> c \<noteq> p" if "p \<in> parties L" "c \<in> set (targets L p)" for p c
  proof (cases p)
    case Master
    show ?thesis
    proof (cases "sl_user L")
      case True
      then show ?thesis using that Master user thr by (auto simp: target_of_master [OF ok] thread_party)
    next
      case False
      then show ?thesis using that Master sys thr
        by (auto simp: target_of_master [OF ok] thread_party dest: fork_targets_bound fork_targets_larger)
    qed
  next
    case (Thread n i)
    then show ?thesis using that by (auto simp: target_of_thread thread_party dest: fork_targets_bound fork_targets_larger)
  qed
  have one: "p = q" if "p \<in> parties L" "q \<in> parties L" "c \<in> set (targets L p)" "c \<in> set (targets L q)" for p q c
  proof -
    have mt: False if "c \<in> set (targets L Master)" "Thread n i \<in> parties L" "c \<in> set (targets L (Thread n i))" for n i
    proof (cases "sl_user L")
      case True
      then show False using that by (auto simp: target_of_master [OF ok] target_of_thread dest: fork_targets_bound)
    next
      case False
      then show False using that sys
        by (auto simp: target_of_master [OF ok] target_of_thread thread_party dest: fork_targets_bound one_waker)
    qed
    show ?thesis
    proof (cases p)
      case Master
      then show ?thesis using mt that by (cases q) auto
    next
      case (Thread n i)
      then show ?thesis using mt that by (cases q) (auto simp: target_of_thread dest: one_waker)
    qed
  qed
  have some: "\<exists>p \<in> parties L. c \<in> set (targets L p)" if "c \<in> parties L" "c \<noteq> Master" for c
  proof -
    have M: "Master \<in> parties L" by (simp add: parties_def)
    note cp = that
    obtain n d where c: "c = Thread n d" using cp(2) by (cases c) auto
    then have nd: "n \<in> set (sl_nodes L)" "d < sl_node_threads L n" "int d \<noteq> sl_rewire L" using cp(1) by (simp_all add: thread_party)
    show ?thesis
    proof (cases "d = 0")
      case True
      then have "c \<in> set (targets L Master)" using c nd sys by (cases "sl_user L") (auto simp: target_of_master [OF ok])
      then show ?thesis using M by blast
    next
      case False
      then obtain i where i: "d \<in> set (fork_targets (sl_node_threads L n) i)" "i < d" using some_waker nd(2) by blast
      show ?thesis
      proof (cases "int i = sl_rewire L")
        case True
        then have "\<not> sl_user L" using user by auto
        then have "c \<in> set (targets L Master)" using c nd i(1) True sys by (auto simp: target_of_master [OF ok])
        then show ?thesis using M by blast
      next
        case False
        then have "Thread n i \<in> parties L" using nd i(2) by (simp add: thread_party)
        moreover have "c \<in> set (targets L (Thread n i))" using c nd(3) i(1) by (simp add: target_of_thread)
        ultimately show ?thesis by blast
      qed
    qed
  qed
  have dis: "distinct (targets L p)" for p
  proof (cases p)
    case Master
    then show ?thesis using ok by (auto simp: targets.simps loop_ok_def distinct_map inj_on_def fork_targets_distinct dest: fork_targets_bound)
  next
    case (Thread n i)
    then show ?thesis by (simp add: targets.simps distinct_map inj_on_def fork_targets_distinct)
  qed
  have "inj_on (party_slot L) (parties L - {Master})"
  proof (rule inj_onI)
    fix p q
    assume p: "p \<in> parties L - {Master}" and q: "q \<in> parties L - {Master}" and eq: "party_slot L p = party_slot L q"
    obtain n i where n: "p = Thread n i" using p by (cases p) auto
    obtain m j where m: "q = Thread m j" using q by (cases q) auto
    have s: "sl_cum_threads L a + sl_node_threads L a \<le> sl_cum_threads L b" if "a < b" "a \<in> set (sl_nodes L)" "b \<in> set (sl_nodes L)" for a b
      using ok that by (simp add: loop_ok_def)
    have "n = m"
    proof (rule ccontr)
      assume "n \<noteq> m"
      then show False using s [of n m] s [of m n] p q eq by (auto simp: n m thread_party neq_iff)
    qed
    then show "p = q" using eq by (simp add: n m)
  qed
  then show ?thesis unfolding fork_tree_def using sub one some dis by blast
qed

subsection \<open>Claiming nodes\<close>

text \<open>The chunk numbers handed out so far: one for each thread of a claimed node, and one for the master
  behind those of its own node.\<close>

definition handed_out :: "global_state \<Rightarrow> bool \<Rightarrow> nat \<Rightarrow> claim \<Rightarrow> nat list" where
  "handed_out g user node c =
     (case c of (nds, work, num) \<Rightarrow>
        concat (map (\<lambda>n. [work n ..< work n + numa_node_threads g n]) nds) @
        (if user \<and> node \<in> set nds then [work node + numa_node_threads g node] else []))"

definition claim_ok :: "global_state \<Rightarrow> bool \<Rightarrow> nat \<Rightarrow> claim \<Rightarrow> bool" where
  "claim_ok g user node c \<longleftrightarrow> distinct (fst c) \<and> (\<forall>n \<in> set (fst c). 0 < numa_node_threads g n) \<and>
     mset (handed_out g user node c) = mset [0 ..< snd (snd c)]"

lemma claim_one:
  assumes "claim_ok g user node (nds, work, num)" and "i \<notin> set nds" and "0 < numa_node_threads g i"
  shows "claim_ok g user node (nds @ [i], work(i := num),
    if user \<and> node = i then num + numa_node_threads g i + 1 else num + numa_node_threads g i)"
proof -
  have old: "concat (map (\<lambda>n. [(work(i := num)) n ..< (work(i := num)) n + numa_node_threads g n]) nds) =
      concat (map (\<lambda>n. [work n ..< work n + numa_node_threads g n]) nds)"
    using assms(2) by (intro arg_cong [where f = concat] map_cong) auto
  have up: "mset [0 ..< num + k] = mset [0 ..< num] + mset [num ..< num + k]" for k
    using upt_add_eq_append [of 0 num k] by simp
  have up1: "mset [0 ..< k + 1] = mset [0 ..< k] + {#k#}" for k
    using arg_cong [of "[0 ..< k + 1]" "[0 ..< k] @ [k]" mset] by simp
  have ho: "mset (handed_out g user node (nds, work, num)) = mset [0 ..< num]" using assms(1) by (simp add: claim_ok_def)
  have "mset (handed_out g user node (nds @ [i], work(i := num), m)) =
      mset (handed_out g user node (nds, work, num)) + mset [num ..< num + numa_node_threads g i] +
      (if user \<and> node = i then {#num + numa_node_threads g i#} else {#})" for m
    using assms(2) old [unfolded fun_upd_apply] unfolding handed_out_def by auto
  then have "mset (handed_out g user node (nds @ [i], work(i := num), m)) =
      mset [0 ..< if user \<and> node = i then num + numa_node_threads g i + 1 else num + numa_node_threads g i]" for m
    unfolding ho up [symmetric] using up1 [of "num + numa_node_threads g i"] by (simp only: split: if_split) simp
  then show ?thesis using assms by (auto simp: claim_ok_def)
qed

lemma claim_nodes_ok:
  assumes "won node" and "claim_ok g user node c" and "distinct is" and "set is \<inter> set (fst c) = {}"
  shows "claim_ok g user node (claim_nodes g won user node req is c) \<and>
    set (fst (claim_nodes g won user node req is c)) \<subseteq> set (fst c) \<union> set is"
  using assms(2-4)
proof (induction "is" arbitrary: c)
  case (Cons i "is")
  obtain nds work num where c: "c = (nds, work, num)" by (cases c) auto
  show ?case
  proof (cases "numa_allocate g i \<or> numa_node_threads g i = 0")
    case True
    then show ?thesis using Cons.IH [OF Cons.prems(1)] Cons.prems(2,3) by (auto simp: c)
  next
    case False
    define c' where "c' = (if won i then (nds @ [i], work(i := num),
        if user \<and> node = i then num + numa_node_threads g i + 1 else num + numa_node_threads g i) else c)"
    have ok: "claim_ok g user node c'"
      using Cons.prems False claim_one [of g user node nds work num i] by (simp add: c'_def c)
    have sub: "set (fst c') \<subseteq> insert i (set (fst c))" by (auto simp: c'_def c)
    have "claim_nodes g won user node req (i # is) c = c' \<or>
        claim_nodes g won user node req (i # is) c = claim_nodes g won user node req is c'"
      using False assms(1) by (auto simp: c c'_def Let_def)
    moreover have "set is \<inter> set (fst c') = {}" using Cons.prems(2,3) sub by auto
    ultimately show ?thesis using Cons.IH [OF ok] Cons.prems(2) ok sub by auto
  qed
qed simp

subsection \<open>The parties and their chunks\<close>

definition party_list :: "static_loop \<Rightarrow> party list" where
  "party_list L = Master # concat (map (\<lambda>n. map (Thread n) (filter (\<lambda>i. int i \<noteq> sl_rewire L) [0 ..< sl_node_threads L n])) (sl_nodes L))"

lemma party_list_set: "set (party_list L) = parties L"
  by (auto simp: party_list_def parties_def)

lemma party_list_distinct: "distinct (sl_nodes L) \<Longrightarrow> distinct (party_list L)"
proof -
  have "distinct (concat (map (\<lambda>n. map (Thread n) (f n)) ns))" if "distinct ns" "\<And>n. distinct (f n)" for f and ns :: "nat list"
    using that by (induction ns) (auto simp: distinct_map inj_on_def)
  then show "distinct (sl_nodes L) \<Longrightarrow> distinct (party_list L)" by (auto simp: party_list_def)
qed

definition covered :: "static_loop \<Rightarrow> bool" where
  "covered L \<longleftrightarrow> 0 < sl_num_threads L \<and> mset (map (work_of L) (party_list L)) = mset [0 ..< sl_num_threads L]"

lemma mset_concat_map: "mset xs = mset ys \<Longrightarrow> mset (concat (map f xs)) = mset (concat (map f ys))"
proof -
  have "mset (concat (map f zs)) = sum_mset (image_mset (\<lambda>x. mset (f x)) (mset zs))" for zs by (induction zs) simp_all
  then show "mset xs = mset ys \<Longrightarrow> mset (concat (map f xs)) = mset (concat (map f ys))" by simp
qed

definition chunk_iterations :: "static_loop \<Rightarrow> nat \<Rightarrow> nat list" where
  "chunk_iterations L w = (case static_execute_capture L w of (lo, hi) \<Rightarrow> [lo ..< hi])"

lemma capture_cover:
  fixes n :: "'w::len word"
  assumes "LENGTH('w) = 32 \<or> LENGTH('w) = 64" and "0 < n" and "0 < sl_num_threads L" and "unat n + sl_num_threads L \<le> 2 ^ LENGTH('w)"
    and "is32f L = (LENGTH('w) = 32)" "count32 L = ucast n" "delta32 L = ucast (chunk_delta n (sl_num_threads L))"
      "count64 L = ucast n" "delta64 L = ucast (chunk_delta n (sl_num_threads L))"
  shows "concat (map (chunk_iterations L) [0 ..< sl_num_threads L]) = [0 ..< unat n]"
proof -
  let ?k = "sl_num_threads L"
  have conv: "(ucast (chunk_delta n ?k) :: 'v::len word) = chunk_delta (ucast n) ?k \<and> unat (ucast n :: 'v word) = unat n \<and> (0 :: 'v word) < ucast n"
    if "LENGTH('v) = LENGTH('w)"
  proof -
    have u: "unat (ucast x :: 'v word) = unat x" for x :: "'w word"
      using that unsigned_less [of x, where 'a = nat] by (simp add: unsigned_ucast_eq take_bit_nat_eq_self_iff)
    have z: "(0 :: 'v word) < ucast n" using assms(2) u [of n] by (simp add: word_less_nat_alt)
    have "unat (ucast (chunk_delta n ?k) :: 'v word) = unat (chunk_delta (ucast n :: 'v word) ?k)"
      using chunk_delta_unat(1) [OF assms(3,4,2)] chunk_delta_unat(1) [of ?k "ucast n :: 'v word"] assms(3,4) z by (simp add: u that)
    then show ?thesis using z u by (simp add: word_unat_eq_iff)
  qed
  show ?thesis
  proof (cases "LENGTH('w) = 32")
    case True
    then have "LENGTH(32) = LENGTH('w)" by simp
    note c = conv [OF this]
    have "chunk_iterations L = (\<lambda>w. case chunk_bounds (ucast n :: 32 word) (chunk_delta (ucast n) ?k) w of (lo, hi) \<Rightarrow> [lo ..< hi])"
      using c assms(5-7) True by (intro ext) (simp add: chunk_iterations_def static_execute_capture_def)
    then show ?thesis using chunks_cover [of ?k "ucast n :: 32 word"] c assms(1,3,4) True by simp
  next
    case False
    then have "LENGTH(64) = LENGTH('w)" using assms(1) by simp
    note c = conv [OF this]
    have "chunk_iterations L = (\<lambda>w. case chunk_bounds (ucast n :: 64 word) (chunk_delta (ucast n) ?k) w of (lo, hi) \<Rightarrow> [lo ..< hi])"
      using c assms(5,8,9) False by (intro ext) (simp add: chunk_iterations_def static_execute_capture_def)
    then show ?thesis using chunks_cover [of ?k "ucast n :: 64 word"] c assms(1,3,4) False by simp
  qed
qed

subsection \<open>Every loop the master sets up is covered\<close>

text \<open>What the master needs: a user thread finds its own node among those it claims (or limits itself to
  that node), a system worker limits itself to its own free node.\<close>

definition master_fits :: "global_state \<Rightarrow> bool \<Rightarrow> bool \<Rightarrow> nat \<Rightarrow> nat \<Rightarrow> nat list \<Rightarrow> bool" where
  "master_fits g system_wide user node local_self nds \<longleftrightarrow> 0 < numa_node_threads g node \<and>
     (if user then system_wide \<longrightarrow> node \<in> set nds
      else \<not> system_wide \<and> \<not> numa_allocate g node \<and> local_self < numa_node_threads g node)"

lemma map_plus_upt: "map (\<lambda>i. a + i) [0 ..< k] = [a ..< a + k]"
  by (induction k) simp_all

lemma covered_user:
  assumes "claim_ok g True (sl_node L) (sl_nodes L, sl_work L, sl_num_threads L)" and "sl_node L \<in> set (sl_nodes L)"
    and "sl_user L" "sl_rewire L = - 1" "sl_node_threads L = numa_node_threads g"
  shows "covered L"
proof -
  let ?w = "sl_work L (sl_node L) + numa_node_threads g (sl_node L)"
  have ho: "mset (handed_out g True (sl_node L) (sl_nodes L, sl_work L, sl_num_threads L)) = mset [0 ..< sl_num_threads L]"
    and t: "0 < numa_node_threads g (sl_node L)" using assms(1,2) by (auto simp: claim_ok_def)
  have "?w \<in> set (handed_out g True (sl_node L) (sl_nodes L, sl_work L, sl_num_threads L))" using assms(2) by (simp add: handed_out_def)
  then have "?w < sl_num_threads L" using mset_eq_setD [OF ho] by simp
  then have n: "0 < sl_num_threads L" "sl_num_threads L \<noteq> 1" using t by auto
  have "map (work_of L) (party_list L) =
      ?w # concat (map (\<lambda>n. [sl_work L n ..< sl_work L n + numa_node_threads g n]) (sl_nodes L))"
    using n(2) assms(3-5) by (simp add: party_list_def map_concat comp_def map_plus_upt)
  then show ?thesis using ho n(1) assms(2) by (simp add: covered_def handed_out_def)
qed

lemma setup_covered:
  fixes n :: "'w::len word"
  assumes "static_setup g won garbage system_wide user node local_self n grain = Some (Inr L)"
    and "numa_ok g" and "node < numa_nodes g" and "won node"
    and "master_fits g system_wide user node local_self (sl_nodes L)"
  shows "loop_ok L" and "covered L" and "is32f L = (LENGTH('w) = 32)" "count32 L = ucast n" "delta32 L = ucast (chunk_delta n (sl_num_threads L))"
      "count64 L = ucast n" "delta64 L = ucast (chunk_delta n (sl_num_threads L))"
proof -
  obtain nds work num where
    c: "(if system_wide then claim_nodes g won user node (sint (ucast ((n + of_int (if grain = 0 then 1 else grain) - 1)
          div of_int (if grain = 0 then 1 else grain)) :: 32 word)) [0 ..< numa_nodes g] ([], garbage, 0)
        else claim_own_node g won user node garbage) = (nds, work, num)" (is "?c = _") by (cases ?c) auto
  with assms(1) have num: "0 < num"
    and L: "L = \<lparr>is32f = (LENGTH('w) = 32), count32 = ucast n, delta32 = ucast (chunk_delta n num),
        count64 = ucast n, delta64 = ucast (chunk_delta n num), sl_nodes = nds, sl_work = work,
        sl_num_threads = num, sl_node_threads = numa_node_threads g,
        sl_cum_threads = numa_node_cum_threads g, sl_user = user, sl_node = node, sl_self = local_self,
        sl_rewire = (if user then - 1 else int local_self)\<rparr>"
    by (auto simp: static_setup_def Let_def split: if_splits prod.splits)
  show "is32f L = (LENGTH('w) = 32)" "count32 L = ucast n" "delta32 L = ucast (chunk_delta n (sl_num_threads L))"
      "count64 L = ucast n" "delta64 L = ucast (chunk_delta n (sl_num_threads L))" by (simp_all add: L)
  have fits: "0 < numa_node_threads g node" "user \<Longrightarrow> system_wide \<Longrightarrow> node \<in> set nds"
      "\<not> user \<Longrightarrow> \<not> system_wide \<and> \<not> numa_allocate g node \<and> local_self < numa_node_threads g node"
    using assms(5) by (auto simp: master_fits_def L)
  have own: "nds = (if numa_allocate g node then [] else [node])" "work = garbage(node := 0)"
      "num = (if numa_allocate g node then 0 else numa_node_threads g node) + (if user then 1 else 0)" if "\<not> system_wide"
    using c that assms(4) by (auto simp: claim_own_node_def Let_def split: if_splits)
  have "claim_ok g user node ([], garbage, 0)" by (simp add: claim_ok_def handed_out_def)
  then have gen: "claim_ok g user node (claim_nodes g won user node req [0 ..< numa_nodes g] ([], garbage, 0)) \<and>
      set (fst (claim_nodes g won user node req [0 ..< numa_nodes g] ([], garbage, 0))) \<subseteq> {0 ..< numa_nodes g}" for req
    using claim_nodes_ok [of won node g user "([], garbage, 0)" "[0 ..< numa_nodes g]" req] assms(4) by simp
  have wide: "claim_ok g user node (nds, work, num)" "set nds \<subseteq> {0 ..< numa_nodes g}" if "system_wide"
  proof -
    from c that obtain req where "claim_nodes g won user node req [0 ..< numa_nodes g] ([], garbage, 0) = (nds, work, num)" by auto
    then show "claim_ok g user node (nds, work, num)" "set nds \<subseteq> {0 ..< numa_nodes g}" using gen [of req] by simp_all
  qed
  have nd: "distinct nds" "\<forall>m \<in> set nds. 0 < numa_node_threads g m" "set nds \<subseteq> {0 ..< numa_nodes g}"
    using wide own fits(1) assms(3) by (cases system_wide; auto simp: claim_ok_def)+
  then show "loop_ok L"
    using assms(2) own fits by (auto simp: loop_ok_def L numa_ok_def)
  show "covered L"
  proof (cases user)
    case True
    show ?thesis
    proof (cases "nds = []")
      case True
      then have sw: "\<not> system_wide" using fits(2) \<open>user\<close> by auto
      then have "numa_allocate g node" using own(1) True by (auto split: if_splits)
      then have "\<not> system_wide" "num = 1" using own(3) sw \<open>user\<close> by simp_all
      then show ?thesis using True \<open>user\<close> own(2) by (simp add: covered_def party_list_def L)
    next
      case False
      have ok: "claim_ok g True node (nds, work, num)" "node \<in> set nds"
        using wide own fits \<open>user\<close> False map_plus_upt [of 0]
        by (cases system_wide; auto simp: claim_ok_def handed_out_def split: if_splits)+
      show ?thesis using ok \<open>user\<close> by (intro covered_user [of g]) (simp_all add: L)
    qed
  next
    case False
    then have sw: "nds = [node]" "work node = 0" "num = numa_node_threads g node" "local_self < num" using own fits by auto
    have "mset (local_self # filter (\<lambda>i. int i \<noteq> int local_self) [0 ..< num]) = mset [0 ..< num]"
      using sw(4) by (subst set_eq_iff_mset_eq_distinct [symmetric]) auto
    then show ?thesis using sw False num by (simp add: covered_def party_list_def L comp_def)
  qed
qed



definition static_demo :: global_state where
  "static_demo = global_state_zero\<lparr>P := 4, numa_nodes := 2, numa_node_threads := (\<lambda>n. if n = 0 then 3 else 0),
     numa_node_cum_threads := (\<lambda>n. if n = 0 then 0 else 3)\<rparr>"

definition static_demo_loop :: static_loop where
  "static_demo_loop = \<lparr>is32f = True, count32 = 10, delta32 = 3, count64 = 10, delta64 = 3, sl_nodes = [0], sl_work = (\<lambda>_. 0)(0 := 0),
     sl_num_threads = 4, sl_node_threads = (\<lambda>n. if n = 0 then 3 else 0), sl_cum_threads = (\<lambda>n. if n = 0 then 0 else 3),
     sl_user = True, sl_node = 0, sl_self = 0, sl_rewire = - 1\<rparr>"

lemma static_demo_setup:
  "static_setup static_demo (\<lambda>_. True) (\<lambda>_. 0) True True 0 0 (10 :: 32 word) 1 = Some (Inr static_demo_loop)"
  "numa_ok static_demo" "0 < numa_nodes static_demo" "master_fits static_demo True True 0 0 (sl_nodes static_demo_loop)"
  by (simp_all add: static_setup_def static_demo_def static_demo_loop_def global_state_zero_def numa_ok_def master_fits_def
      chunk_delta_def Let_def upt_rec)

text \<open>A run of the loop above by its master and three threads.\<close>

primrec static_run :: "static_loop \<Rightarrow> party list \<Rightarrow> static_state \<Rightarrow> static_state option" where
  "static_run L [] s = Some s"
| "static_run L (p # ps) s = Option.bind (static_step L p s) (static_run L ps)"

lemma static_run_reachable:
  "static_reachable L s \<Longrightarrow> set ps \<subseteq> parties L \<Longrightarrow> static_run L ps s = Some s' \<Longrightarrow> static_reachable L s'"
  by (induction ps arbitrary: s) (auto simp: bind_eq_Some_conv intro: static_reachable.step)

definition static_demo_steps :: "party list" where
  "static_demo_steps = [Master, Master] @ replicate 4 (Thread 0 0) @ replicate 3 (Thread 0 2) @ replicate 3 (Thread 0 1) @
     replicate 3 (Thread 0 0) @ [Master, Master]"

lemma static_demo_run: "map_option (\<lambda>s. phases s Master) (static_run static_demo_loop static_demo_steps (static_init static_demo_loop)) = Some Finished"
  by code_simp

lemma static_demo_reached: "\<exists>s. static_reachable static_demo_loop s \<and> phases s Master = Finished"
proof -
  obtain s where s: "static_run static_demo_loop static_demo_steps (static_init static_demo_loop) = Some s" "phases s Master = Finished"
    using static_demo_run by (auto simp del: static_run.simps)
  have "set static_demo_steps \<subseteq> parties static_demo_loop" by (auto simp: static_demo_steps_def parties_def static_demo_loop_def)
  from static_run_reachable [OF static_reachable.init this s(1)] s(2) show ?thesis by blast
qed



end
