(* ===== verification/Global_State.thy ===== *)
theory Global_State
  imports Runtime_State "HOL-Library.Signed_Division"
begin

text \<open>
  The global state and its settings (runtime/global_state.cpp): the values a user sets with
  \<open>__cilkrts_set_param\<close> or with environment variables, the parsing of these, and what the start of the
  runtime derives from them. The machine and its environment are a record: the variables that are set, the
  number of processors, the answers of a tool that watches the program. A C string is a list of
  characters without the terminating null. The 16 bit fields for the debugger are left out.
\<close>

record os_env =
  os_getenv :: "string \<Rightarrow> string option"
  hardware_cpu_count :: int
  sequential_ptool :: bool
  tool_forces_reduce :: bool
  numa_configured_nodes :: nat

record config =
  singleton :: global_state
  user_values_initialized :: bool
  singleton_published :: bool

datatype set_param_status = SET_PARAM_SUCCESS | SET_PARAM_UNIMP | SET_PARAM_XRANGE | SET_PARAM_INVALID | SET_PARAM_LATE

definition config_start :: config where
  "config_start = \<lparr>singleton = global_state_zero, user_values_initialized = False, singleton_published = False\<rparr>"

definition upd_g :: "(global_state \<Rightarrow> global_state) \<Rightarrow> config \<Rightarrow> config" where
  "upd_g f c = c\<lparr>singleton := f (singleton c)\<rparr>"

subsection \<open>Parsing\<close>

definition INT_MAX :: int where "INT_MAX = 2 ^ 31 - 1"
definition LONG_MAX :: int where "LONG_MAX = 2 ^ 63 - 1"
definition LONG_MIN :: int where "LONG_MIN = - (2 ^ 63)"

definition is_space :: "char \<Rightarrow> bool" where
  "is_space c \<longleftrightarrow> c = CHR '' '' \<or> (9 \<le> (of_char c :: nat) \<and> (of_char c :: nat) \<le> 13)"

definition is_digit :: "char \<Rightarrow> bool" where
  "is_digit c \<longleftrightarrow> 48 \<le> (of_char c :: nat) \<and> (of_char c :: nat) \<le> 57"

text \<open>\<open>strtol(s, \<dots>, 10)\<close> of the C library: the value, and whether \<open>errno\<close> was set to \<open>ERANGE\<close>. A
  string without a number is 0, which the C library on Linux does not report.\<close>

definition strtol_digits :: "string \<Rightarrow> int" where
  "strtol_digits s = foldl (\<lambda>n c. 10 * n + (of_char c - 48)) 0 (takeWhile is_digit s)"

definition strtol_signed :: "string \<Rightarrow> int" where
  "strtol_signed s = (case s of [] \<Rightarrow> 0
     | c # r \<Rightarrow> if c = CHR ''-'' then - strtol_digits r else if c = CHR ''+'' then strtol_digits r else strtol_digits s)"

definition to_long :: "string \<Rightarrow> int \<times> bool" where
  "to_long s = (let v = strtol_signed (dropWhile is_space s)
                in if LONG_MAX < v then (LONG_MAX, True) else if v < LONG_MIN then (LONG_MIN, True) else (v, False))"

definition store_bool :: "int \<Rightarrow> string option \<Rightarrow> set_param_status \<times> int" where
  "store_bool out v = (case v of None \<Rightarrow> (SET_PARAM_INVALID, out)
     | Some s \<Rightarrow> if s = ''false'' \<or> s = ''0'' then (SET_PARAM_SUCCESS, 0)
                 else if s = ''true'' \<or> s = ''1'' then (SET_PARAM_SUCCESS, 1)
                 else (SET_PARAM_INVALID, out))"

definition store_int :: "int \<Rightarrow> string \<Rightarrow> int \<Rightarrow> int \<Rightarrow> set_param_status \<times> int" where
  "store_int out s lo hi =
     (let (val, errno_set) = to_long s
      in if val = 0 \<and> errno_set then (SET_PARAM_INVALID, out)
         else if val < lo \<or> val = LONG_MIN then (SET_PARAM_XRANGE, out)
         else if val > hi \<or> val = LONG_MAX then (SET_PARAM_XRANGE, out)
         else (SET_PARAM_SUCCESS, val))"

text \<open>\<open>buf\<close> is the contents of the caller's buffer of \<open>vallen\<close> bytes: a value that does not fit is not copied.\<close>

definition cilkos_getenv :: "os_env \<Rightarrow> string \<Rightarrow> nat \<Rightarrow> string \<Rightarrow> nat \<times> string" where
  "cilkos_getenv env buf vallen varname =
     (case os_getenv env varname of None \<Rightarrow> (0, [])
      | Some s \<Rightarrow> if 0 < vallen \<and> vallen - 1 < length s then (length s + 1, buf)
                  else (length s, if vallen = 0 then buf else s))"

subsection \<open>Parameters\<close>

definition CILK_PAGE :: nat where "CILK_PAGE = 4096"
definition CILK_MIN_STACK_SIZE :: nat where "CILK_MIN_STACK_SIZE = 4 * CILK_PAGE"
definition CILK_DEFAULT_STACK_SIZE :: "64 word" where "CILK_DEFAULT_STACK_SIZE = 0x100000"

definition cilkos_validate_stack_size :: "64 word \<Rightarrow> 64 word" where
  "cilkos_validate_stack_size n =
     (if n = 0 then CILK_DEFAULT_STACK_SIZE
      else if n \<le> of_nat CILK_MIN_STACK_SIZE then of_nat CILK_MIN_STACK_SIZE
      else if 0 < n mod of_nat CILK_PAGE then of_nat CILK_PAGE * (1 + n div of_nat CILK_PAGE)
      else n)"

definition set_nworkers :: "os_env \<Rightarrow> string \<Rightarrow> global_state \<Rightarrow> (set_param_status \<times> global_state) option" where
  "set_nworkers env v g =
     do { cilk_assert (0 < hardware_cpu_count env);
          let cpus = (if sequential_ptool env then 1 else hardware_cpu_count env);
          let max_cpus = (if sequential_ptool env then 1 else 16 * hardware_cpu_count env);
          let (ret, p) = store_int (P g) v 0 max_cpus;
          Some (ret, g\<lparr>P := if p = 0 then cpus else p\<rparr>) }"

definition set_stack_size :: "string \<Rightarrow> global_state \<Rightarrow> set_param_status \<times> global_state" where
  "set_stack_size v g =
     (let (ret, n) = store_int (uint (stack_size g)) v 0 INT_MAX
      in (ret, g\<lparr>stack_size := cilkos_validate_stack_size (of_int n)\<rparr>))"

definition set_param_imp ::
  "os_env \<Rightarrow> string option \<Rightarrow> string option \<Rightarrow> config \<Rightarrow> (set_param_status \<times> config) option" where
  "set_param_imp env param val c =
     (case (param, val) of
        (Some p, Some v) \<Rightarrow>
          (let g = singleton c in
           if p = ''force reduce''
           then (if tool_forces_reduce env then Some (SET_PARAM_LATE, c)
                 else let (ret, b) = store_bool (force_reduce g) (Some v)
                      in Some (ret, c\<lparr>singleton := g\<lparr>force_reduce := b\<rparr>\<rparr>))
           else if p = ''nworkers''
           then (if singleton_published c then Some (SET_PARAM_LATE, c)
                 else map_option (\<lambda>(ret, g'). (ret, c\<lparr>singleton := g'\<rparr>)) (set_nworkers env v g))
           else if p = ''max user workers''
           then do { cilk_assert (0 < hardware_cpu_count env);
                     let (ret, n) = store_int (max_user_workers g) v 1 (16 * hardware_cpu_count env);
                     Some (ret, c\<lparr>singleton := g\<lparr>max_user_workers := n\<rparr>\<rparr>) }
           else if p = ''local stacks''
           then (let (ret, n) = store_int (fiber_pool_size g) v 0 42
                 in Some (ret, c\<lparr>singleton := g\<lparr>fiber_pool_size := n\<rparr>\<rparr>))
           else if p = ''shared stacks''
           then (let (ret, n) = store_int (global_fiber_pool_size g) v 0 42
                 in Some (ret, c\<lparr>singleton := g\<lparr>global_fiber_pool_size := n\<rparr>\<rparr>))
           else if p = ''nstacks''
           then (if singleton_published c then Some (SET_PARAM_LATE, c)
                 else let (ret, n) = store_int (uint (max_stacks g)) v 0 INT_MAX
                      in Some (ret, c\<lparr>singleton := g\<lparr>max_stacks := of_int n\<rparr>\<rparr>))
           else if p = ''stack size''
           then (if singleton_published c then Some (SET_PARAM_LATE, c)
                 else let (ret, g') = set_stack_size v g in Some (ret, c\<lparr>singleton := g'\<rparr>))
           else Some (SET_PARAM_UNIMP, c))
      | _ \<Rightarrow> Some (SET_PARAM_INVALID, c))"

subsection \<open>Initial values\<close>

definition calc_max_user_workers :: "global_state \<Rightarrow> int" where
  "calc_max_user_workers g = (if 0 < max_user_workers g then max_user_workers g else max 3 (P g * 2))"

definition calc_total_workers :: "global_state \<Rightarrow> int" where
  "calc_total_workers g = P g + calc_max_user_workers g - 1"

definition default_settings :: "os_env \<Rightarrow> global_state \<Rightarrow> global_state" where
  "default_settings env g =
     (let cpus = (if sequential_ptool env then 1 else hardware_cpu_count env)
      in global_state_zero\<lparr>stealing_disabled := stealing_disabled g, under_ptool := sequential_ptool env,
           force_reduce := 0, P := cpus, max_user_workers := 0, fiber_pool_size := 7,
           global_fiber_pool_size := 3 * 3 * cpus, max_stacks := 2400, max_steal_failures := 128, stack_size := 0,
           record_replay_file_name := None, record_or_replay := RECORD_REPLAY_NONE\<rparr>)"

text \<open>The variables are read one after the other into the same buffer \<open>envstr\<close> of 24 bytes.\<close>

definition env_force_reduce :: "os_env \<Rightarrow> string \<times> global_state \<Rightarrow> string \<times> global_state" where
  "env_force_reduce env = (\<lambda>(envstr, g).
     if tool_forces_reduce env then (envstr, g\<lparr>force_reduce := 1\<rparr>)
     else let (n, envstr) = cilkos_getenv env envstr 24 ''CILK_FORCE_REDUCE''
          in (envstr, if n = 0 then g else g\<lparr>force_reduce := snd (store_bool (force_reduce g) (Some envstr))\<rparr>))"

definition env_nworkers :: "os_env \<Rightarrow> string \<times> global_state \<Rightarrow> string \<times> global_state" where
  "env_nworkers env = (\<lambda>(envstr, g).
     if sequential_ptool env then (envstr, g\<lparr>P := 1\<rparr>)
     else let (n, envstr) = cilkos_getenv env envstr 24 ''CILK_NWORKERS''
          in (envstr, if n = 0 then g else g\<lparr>P := snd (store_int (P g) envstr 1 (16 * hardware_cpu_count env))\<rparr>))"

definition env_max_user_workers :: "os_env \<Rightarrow> string \<times> global_state \<Rightarrow> string \<times> global_state" where
  "env_max_user_workers env = (\<lambda>(envstr, g).
     let (n, envstr) = cilkos_getenv env envstr 24 ''CILK_MAX_USER_WORKERS'';
         cpus = (if sequential_ptool env then 1 else hardware_cpu_count env)
     in (envstr, if n = 0 then g else g\<lparr>max_user_workers := snd (store_int (max_user_workers g) envstr 1 (16 * cpus))\<rparr>))"

definition env_steal_failures :: "os_env \<Rightarrow> string \<times> global_state \<Rightarrow> string \<times> global_state" where
  "env_steal_failures env = (\<lambda>(envstr, g).
     let (n, envstr) = cilkos_getenv env envstr 24 ''CILK_STEAL_FAILURES''
     in (envstr, if n = 0 then g
                 else g\<lparr>max_steal_failures := of_int (snd (store_int (uint (max_steal_failures g)) envstr 1 INT_MAX))\<rparr>))"

text \<open>\<open>buf\<close> is the contents of the block the file name is copied to.\<close>

definition env_record_replay :: "os_env \<Rightarrow> string \<Rightarrow> string \<times> global_state \<Rightarrow> string \<times> global_state" where
  "env_record_replay env buf = (\<lambda>(envstr, g).
     let (len, envstr) = cilkos_getenv env envstr 0 ''CILK_REPLAY_LOG'';
         g1 = (if 0 < len
               then g\<lparr>record_or_replay := REPLAY_LOG,
                      record_replay_file_name := Some (snd (cilkos_getenv env buf (len + 1) ''CILK_REPLAY_LOG''))\<rparr>
               else g);
         (len, envstr) = cilkos_getenv env envstr 0 ''CILK_RECORD_LOG''
     in (envstr,
         if 0 < len \<and> record_or_replay g1 = RECORD_REPLAY_NONE
         then g1\<lparr>record_or_replay := RECORD_LOG,
                 record_replay_file_name := Some (snd (cilkos_getenv env buf (len + 1) ''CILK_RECORD_LOG''))\<rparr>
         else g1))"

definition cilkg_get_user_settable_values :: "os_env \<Rightarrow> string \<Rightarrow> config \<Rightarrow> config option" where
  "cilkg_get_user_settable_values env envstr c =
     (if user_values_initialized c then Some c
      else do { cilk_assert (0 < hardware_cpu_count env);
                let es = env_steal_failures env (env_max_user_workers env (env_nworkers env
                           (env_force_reduce env (envstr, default_settings env (singleton c)))));
                let es = (fst es, (snd es)\<lparr>total_workers := calc_total_workers (snd es)\<rparr>);
                let es = env_record_replay env [] es;
                Some (c\<lparr>singleton := snd es, user_values_initialized := True\<rparr>) })"

definition cilkg_calc_total_workers :: "os_env \<Rightarrow> string \<Rightarrow> config \<Rightarrow> (int \<times> config) option" where
  "cilkg_calc_total_workers env envstr c =
     do { c \<leftarrow> cilkg_get_user_settable_values env envstr c; Some (calc_total_workers (singleton c), c) }"

definition cilkg_set_param ::
  "os_env \<Rightarrow> string \<Rightarrow> string option \<Rightarrow> string option \<Rightarrow> config \<Rightarrow> (set_param_status \<times> config) option" where
  "cilkg_set_param env envstr param val c =
     do { c \<leftarrow> cilkg_get_user_settable_values env envstr c; set_param_imp env param val c }"

subsection \<open>Start of the runtime\<close>

text \<open>\<open>(int)g->max_stacks / g->P\<close> and the comparisons around it are signed.\<close>

definition limit_stacks :: "global_state \<Rightarrow> global_state" where
  "limit_stacks g =
     (if 0 < max_stacks g
      then let n = sint (max_stacks g);
               g = (if n sdiv P g < fiber_pool_size g then g\<lparr>fiber_pool_size := sint (max_stacks g div of_int (P g))\<rparr> else g);
               g = (if fiber_pool_size g \<le> 0 then g\<lparr>fiber_pool_size := 1\<rparr> else g);
               g = (if n < P g then g\<lparr>max_stacks := of_int (P g)\<rparr> else g)
           in g\<lparr>global_fiber_pool_size := P g * (fiber_pool_size g + 1)\<rparr>
      else g)"

definition cilkg_init_global_state :: "os_env \<Rightarrow> string \<Rightarrow> config \<Rightarrow> config option" where
  "cilkg_init_global_state env envstr c =
     (if singleton_published c then Some c
      else do { c \<leftarrow> cilkg_get_user_settable_values env envstr c;
                let g = limit_stacks (singleton c);
                let g = g\<lparr>Q := 0\<rparr>;
                let g = g\<lparr>total_workers := calc_total_workers g, system_workers := P g - 1, work_done := False,
                          workers_running := False, ltqsize := 1024,
                          stack_size := cilkos_validate_stack_size (stack_size g), failure_to_allocate_stack := False,
                          numa_nodes := numa_configured_nodes env, numa_node_threads := (\<lambda>_. 0),
                          numa_node_cum_threads := (\<lambda>_. 0), numa_allocate := (\<lambda>_. False), numa_P_init := 0\<rparr>;
                Some (c\<lparr>singleton := g\<rparr>) })"

definition cilkg_publish_global_state :: "config \<Rightarrow> config" where
  "cilkg_publish_global_state c = c\<lparr>singleton_published := True\<rparr>"

definition cilkg_deinit_global_state :: "config \<Rightarrow> config" where
  "cilkg_deinit_global_state c = c\<lparr>singleton_published := False\<rparr>"

text \<open>The calls of the API on the global state. The runtime is started and stopped under a lock, so that
  no other call comes between the initialisation and the publication.\<close>

datatype api_call = Set_param "string option" "string option" | Get_total_workers | Start_runtime | Stop_runtime

fun api_step :: "os_env \<Rightarrow> string \<Rightarrow> api_call \<Rightarrow> config \<Rightarrow> config option" where
  "api_step env envstr (Set_param p v) c = map_option snd (cilkg_set_param env envstr p v c)"
| "api_step env envstr Get_total_workers c = map_option snd (cilkg_calc_total_workers env envstr c)"
| "api_step env envstr Start_runtime c =
     (if singleton_published c then Some c
      else map_option cilkg_publish_global_state (cilkg_init_global_state env envstr c))"
| "api_step env envstr Stop_runtime c = Some (if singleton_published c then cilkg_deinit_global_state c else c)"

fun api_run :: "os_env \<Rightarrow> (api_call \<times> string) list \<Rightarrow> config \<Rightarrow> config option" where
  "api_run env [] c = Some c"
| "api_run env ((a, envstr) # as) c = do { c \<leftarrow> api_step env envstr a c; api_run env as c }"

end
