(* ===== verification/Global_State_Proofs.thy ===== *)
theory Global_State_Proofs
  imports Global_State
begin

text \<open>
  The settings stay well formed whatever the user and the environment say, what the runtime derives
  from them fits the types of the code, and a number that is printed and set is the number used.
\<close>

subsection \<open>Storing a number\<close>

lemma store_int_cases:
  "(\<exists>v. store_int out s lo hi = (SET_PARAM_SUCCESS, v) \<and> lo \<le> v \<and> v \<le> hi \<and> v = fst (to_long s)) \<or>
   store_int out s lo hi = (SET_PARAM_XRANGE, out)"
proof -
  obtain v e where ve: "to_long s = (v, e)" by (cases "to_long s")
  then have "\<not> (v = 0 \<and> e)"
    by (auto simp: to_long_def Let_def LONG_MAX_def LONG_MIN_def split: if_splits)
  then show ?thesis by (auto simp: store_int_def ve)
qed

lemma store_int_range:
  assumes "store_int out s lo hi = (st, v)"
  shows "v = out \<or> (lo \<le> v \<and> v \<le> hi)"
  using store_int_cases [of out s lo hi] assms by auto

lemma store_bool_range: "store_bool out v = (st, b) \<Longrightarrow> b = out \<or> b = 0 \<or> b = 1"
  by (auto simp: store_bool_def split: option.splits if_splits)

subsection \<open>Stack sizes\<close>

definition stack_size_ok :: "64 word \<Rightarrow> bool" where
  "stack_size_ok n \<longleftrightarrow> CILK_MIN_STACK_SIZE \<le> unat n \<and> unat n mod CILK_PAGE = 0 \<and> unat n \<le> 2 ^ 31"

lemma round_up_div: "(m + 4095) div 4096 = (if m mod 4096 = 0 then m div 4096 else 1 + m div 4096)" for m :: nat
proof -
  have r: "m mod 4096 < 4096" by simp
  have "(m mod 4096 + 4095) div 4096 = (if m mod 4096 = 0 then 0 else 1)"
    using r by (auto intro!: div_nat_eqI)
  then show ?thesis by (simp add: div_add1_eq [of m 4095 4096])
qed

lemma validate_unat:
  assumes "unat n \<le> 2 ^ 31"
  shows "unat (cilkos_validate_stack_size n) =
    (if n = 0 then 0x100000 else if unat n \<le> 16384 then 16384 else (unat n + 4095) div 4096 * 4096)"
proof -
  have c: "(of_nat CILK_MIN_STACK_SIZE :: 64 word) = 0x4000" "(of_nat CILK_PAGE :: 64 word) = 4096"
    by (simp_all add: CILK_MIN_STACK_SIZE_def CILK_PAGE_def)
  have le: "n \<le> 0x4000 \<longleftrightarrow> unat n \<le> 16384" by (simp add: word_le_nat_alt)
  have md: "unat (n mod 4096) = unat n mod 4096" by (simp add: unat_mod)
  have pos: "0 < n mod 4096 \<longleftrightarrow> 0 < unat n mod 4096"
    using md by (metis unat_0 unat_gt_0 word_gt_0)
  have q: "unat (n div 4096) = unat n div 4096" by (simp add: unat_div)
  have qs: "unat n div 4096 \<le> 2 ^ 19" using assms by (auto dest: div_le_mono [where k = 4096])
  have q1: "unat (1 + n div 4096) = 1 + unat n div 4096"
    using qs by (simp add: unat_plus_if' q)
  have pq: "unat (4096 * (1 + n div 4096)) = 4096 * (1 + unat n div 4096)"
  proof -
    define k where "k = unat n div 4096"
    have "k \<le> 524288" using qs unfolding k_def by simp
    then have less: "4096 * (1 + k) < 2 ^ LENGTH(64)" by simp
    have "of_nat (4096 * (1 + k)) = 4096 * (1 + n div 4096)"
      unfolding k_def by (simp add: q [symmetric])
    from of_nat_inverse [OF this less] show ?thesis unfolding k_def .
  qed
  have "unat n mod 4096 \<noteq> 0 \<Longrightarrow> (unat n + 4095) div 4096 = 1 + unat n div 4096"
    by (simp add: round_up_div)
  moreover have "unat n mod 4096 = 0 \<Longrightarrow> (unat n + 4095) div 4096 * 4096 = unat n"
    by (auto simp: round_up_div dvd_eq_mod_eq_0 [symmetric])
  ultimately have up: "unat n mod 4096 \<noteq> 0 \<Longrightarrow> unat (4096 * (1 + n div 4096)) = (unat n + 4095) div 4096 * 4096"
    and keep: "unat n mod 4096 = 0 \<Longrightarrow> unat n = (unat n + 4095) div 4096 * 4096"
    using pq by simp_all
  show ?thesis
  proof (cases "n = 0 \<or> unat n \<le> 16384")
    case True
    then show ?thesis unfolding cilkos_validate_stack_size_def CILK_DEFAULT_STACK_SIZE_def c le by auto
  next
    case False
    then show ?thesis unfolding cilkos_validate_stack_size_def c le pos
      using up keep by (cases "unat n mod 4096 = 0") simp_all
  qed
qed

lemma validate_ok:
  assumes "unat n \<le> 2 ^ 31"
  shows "stack_size_ok (cilkos_validate_stack_size n)"
proof -
  define m where "m = unat n"
  have "m + 4095 \<le> 2 ^ 31 + 4095" using assms unfolding m_def by simp
  then have up: "(m + 4095) div 4096 * 4096 \<le> 2 ^ 31" by (auto dest!: div_le_mono [where k = 4096])
  have dn: "16384 \<le> (m + 4095) div 4096 * 4096" if "\<not> m \<le> 16384"
  proof -
    have "16384 \<le> m + 4095" using that by simp
    then show ?thesis by (auto dest!: div_le_mono [where k = 4096])
  qed
  define r where "r = (m + 4095) div 4096 * 4096"
  have r: "r mod 4096 = 0" by (simp add: r_def)
  have "unat (cilkos_validate_stack_size n) = (if n = 0 then 0x100000 else if m \<le> 16384 then 16384 else r)"
    unfolding m_def r_def by (rule validate_unat [OF assms])
  then show ?thesis using up dn r
    unfolding stack_size_ok_def CILK_MIN_STACK_SIZE_def CILK_PAGE_def r_def [symmetric]
    by (cases "n = 0"; cases "m \<le> 16384") (simp_all only: if_True if_False, simp_all)
qed

lemma validate_id: "stack_size_ok n \<Longrightarrow> cilkos_validate_stack_size n = n"
  using validate_unat [of n]
  by (intro word_unat_eq_iff [THEN iffD2])
     (auto simp: stack_size_ok_def CILK_MIN_STACK_SIZE_def CILK_PAGE_def)

subsection \<open>Well-formed settings\<close>

text \<open>The machine has at least one processor and so few that 16 times as many workers fit an \<open>int\<close>.\<close>

definition machine_ok :: "os_env \<Rightarrow> bool" where
  "machine_ok env \<longleftrightarrow> 0 < hardware_cpu_count env \<and> hardware_cpu_count env \<le> 2 ^ 20"

definition settings_ok :: "os_env \<Rightarrow> global_state \<Rightarrow> bool" where
  "settings_ok env g \<longleftrightarrow>
     1 \<le> P g \<and> P g \<le> 16 * hardware_cpu_count env \<and>
     0 \<le> max_user_workers g \<and> max_user_workers g \<le> 16 * hardware_cpu_count env \<and>
     force_reduce g \<in> {0, 1} \<and> 0 \<le> fiber_pool_size g \<and> fiber_pool_size g \<le> 42 \<and>
     0 \<le> global_fiber_pool_size g \<and> global_fiber_pool_size g \<le> INT_MAX \<and>
     uint (max_stacks g) \<le> INT_MAX \<and> 1 \<le> uint (max_steal_failures g) \<and> uint (max_steal_failures g) \<le> INT_MAX \<and>
     (stack_size g = 0 \<or> stack_size_ok (stack_size g)) \<and>
     (record_or_replay g = RECORD_REPLAY_NONE \<longleftrightarrow> record_replay_file_name g = None)"

text \<open>While the runtime is published, there is a worker for every system thread and at least one for a user thread.\<close>

definition started_ok :: "global_state \<Rightarrow> bool" where
  "started_ok g \<longleftrightarrow> system_workers g = P g - 1 \<and> P g \<le> total_workers g \<and> total_workers g \<le> INT_MAX \<and>
     stack_size_ok (stack_size g) \<and>
     (0 < max_stacks g \<longrightarrow> P g \<le> uint (max_stacks g))"

definition config_ok :: "os_env \<Rightarrow> config \<Rightarrow> bool" where
  "config_ok env c \<longleftrightarrow> (user_values_initialized c \<longrightarrow> settings_ok env (singleton c)) \<and>
     (singleton_published c \<longrightarrow> user_values_initialized c \<and> started_ok (singleton c))"

lemma settings_ok_total:
  assumes "machine_ok env" and "settings_ok env g"
  shows "P g \<le> calc_total_workers g" and "calc_total_workers g \<le> INT_MAX"
  using assms by (auto simp: machine_ok_def settings_ok_def calc_total_workers_def calc_max_user_workers_def INT_MAX_def)

lemma uint_of_int32: "0 \<le> n \<Longrightarrow> n \<le> INT_MAX \<Longrightarrow> uint (of_int n :: 32 word) = n"
  by (simp add: unsigned_of_int take_bit_int_eq_self_iff INT_MAX_def)

lemma unat_of_int64: "0 \<le> n \<Longrightarrow> n \<le> INT_MAX \<Longrightarrow> unat (of_int n :: 64 word) \<le> 2 ^ 31"
  by (simp add: unat_eq_nat_uint unsigned_of_int take_bit_int_eq_self INT_MAX_def)

lemma settings_ok_fields:
  assumes "settings_ok env g"
  shows "b \<in> {0, 1} \<Longrightarrow> settings_ok env (g\<lparr>force_reduce := b\<rparr>)"
    and "1 \<le> n \<Longrightarrow> n \<le> 16 * hardware_cpu_count env \<Longrightarrow> settings_ok env (g\<lparr>P := n\<rparr>)"
    and "0 \<le> n \<Longrightarrow> n \<le> 16 * hardware_cpu_count env \<Longrightarrow> settings_ok env (g\<lparr>max_user_workers := n\<rparr>)"
    and "0 \<le> n \<Longrightarrow> n \<le> 42 \<Longrightarrow> settings_ok env (g\<lparr>fiber_pool_size := n\<rparr>)"
    and "0 \<le> n \<Longrightarrow> n \<le> INT_MAX \<Longrightarrow> settings_ok env (g\<lparr>global_fiber_pool_size := n\<rparr>)"
    and "0 \<le> n \<Longrightarrow> n \<le> INT_MAX \<Longrightarrow> settings_ok env (g\<lparr>max_stacks := of_int n\<rparr>)"
    and "1 \<le> n \<Longrightarrow> n \<le> INT_MAX \<Longrightarrow> settings_ok env (g\<lparr>max_steal_failures := of_int n\<rparr>)"
    and "stack_size_ok sz \<Longrightarrow> settings_ok env (g\<lparr>stack_size := sz\<rparr>)"
  using assms by (auto simp: settings_ok_def uint_of_int32)


subsection \<open>Every call keeps the settings well formed\<close>

lemma set_nworkers_ok:
  assumes "machine_ok env" and "settings_ok env g"
  shows "\<exists>st g'. set_nworkers env v g = Some (st, g') \<and> settings_ok env g'"
proof -
  obtain st p where s: "store_int (P g) v 0 (if sequential_ptool env then 1 else 16 * hardware_cpu_count env) = (st, p)"
    by fastforce
  define cpus where "cpus = (if sequential_ptool env then 1 else hardware_cpu_count env)"
  have "1 \<le> (if p = 0 then cpus else p)" and "(if p = 0 then cpus else p) \<le> 16 * hardware_cpu_count env"
    using store_int_range [OF s] assms by (auto simp: machine_ok_def settings_ok_def cpus_def split: if_splits)
  from settings_ok_fields(2) [OF assms(2) this] show ?thesis
    using assms(1) s by (auto simp: set_nworkers_def cilk_assert_def machine_ok_def cpus_def Let_def)
qed

lemma set_stack_size_ok:
  assumes "settings_ok env g"
  shows "settings_ok env (snd (set_stack_size v g))" and "stack_size_ok (stack_size (snd (set_stack_size v g)))"
proof -
  obtain st n where s: "store_int (uint (stack_size g)) v 0 INT_MAX = (st, n)" by fastforce
  have le: "unat (stack_size g) \<le> 2 ^ 31" using assms by (auto simp: settings_ok_def stack_size_ok_def)
  have "unat (of_int n :: 64 word) \<le> 2 ^ 31"
    using store_int_range [OF s]
  proof
    assume "n = uint (stack_size g)"
    then show ?thesis using le by simp
  next
    assume "0 \<le> n \<and> n \<le> INT_MAX"
    then show ?thesis using unat_of_int64 [of n] by simp
  qed
  from validate_ok [OF this] have v: "stack_size_ok (stack_size (snd (set_stack_size v g)))"
    by (simp add: set_stack_size_def s)
  then show "stack_size_ok (stack_size (snd (set_stack_size v g)))" .
  show "settings_ok env (snd (set_stack_size v g))"
    using settings_ok_fields(8) [OF assms v] by (simp add: set_stack_size_def s)
qed

lemma config_ok_set:
  assumes "config_ok env c" and "settings_ok env g" and "started_ok (singleton c) \<Longrightarrow> started_ok g"
  shows "config_ok env (c\<lparr>singleton := g\<rparr>)"
  using assms by (auto simp: config_ok_def)

lemma seven_cases:
  obtains "q = a1" | "q = a2" | "q = a3" | "q = a4" | "q = a5" | "q = a6" | "q = a7" | "q \<notin> {a1, a2, a3, a4, a5, a6, a7}"
  by blast

lemma set_param_imp_ok:
  assumes m: "machine_ok env" and c: "config_ok env c" and init: "user_values_initialized c"
  shows "\<exists>st c'. set_param_imp env p v c = Some (st, c') \<and> config_ok env c' \<and> user_values_initialized c'"
proof (cases "p = None \<or> v = None")
  case True
  then show ?thesis using c init by (auto simp: set_param_imp_def split: option.splits)
next
  case False
  then obtain q w where pv: "p = Some q" "v = Some w" by auto
  let ?g = "singleton c"
  have g: "settings_ok env ?g" using c init by (simp add: config_ok_def)
  note G = settings_ok_fields [OF g] and S = config_ok_set [OF c]
  consider "q = ''force reduce''" | "q = ''nworkers''" | "q = ''max user workers''" | "q = ''local stacks''"
    | "q = ''shared stacks''" | "q = ''nstacks''" | "q = ''stack size''"
    | "q \<notin> {''force reduce'', ''nworkers'', ''max user workers'', ''local stacks'', ''shared stacks'', ''nstacks'', ''stack size''}"
    by (rule seven_cases)
  then show ?thesis
  proof cases
    case 1
    obtain st b where s: "store_bool (force_reduce ?g) (Some w) = (st, b)" by fastforce
    have "b \<in> {0, 1}" using store_bool_range [OF s] g by (auto simp: settings_ok_def)
    from S [OF G(1) [OF this]] show ?thesis
      using 1 s pv c init by (auto simp: set_param_imp_def started_ok_def Let_def)
  next
    case 2
    obtain st g' where s: "set_nworkers env w ?g = Some (st, g')" and g': "settings_ok env g'"
      using set_nworkers_ok [OF m g] by blast
    show ?thesis using 2 s g' pv c init by (auto simp: set_param_imp_def config_ok_def Let_def)
  next
    case 3
    obtain st n where s: "store_int (max_user_workers ?g) w 1 (16 * hardware_cpu_count env) = (st, n)" by fastforce
    have "0 \<le> n" "n \<le> 16 * hardware_cpu_count env" using store_int_range [OF s] g by (auto simp: settings_ok_def)
    from S [OF G(3) [OF this]] show ?thesis
      using 3 s pv init m by (auto simp: set_param_imp_def started_ok_def cilk_assert_def machine_ok_def Let_def)
  next
    case 4
    obtain st n where s: "store_int (fiber_pool_size ?g) w 0 42 = (st, n)" by fastforce
    have "0 \<le> n" "n \<le> 42" using store_int_range [OF s] g by (auto simp: settings_ok_def)
    from S [OF G(4) [OF this]] show ?thesis
      using 4 s pv init by (auto simp: set_param_imp_def started_ok_def Let_def)
  next
    case 5
    obtain st n where s: "store_int (global_fiber_pool_size ?g) w 0 42 = (st, n)" by fastforce
    have "0 \<le> n" "n \<le> INT_MAX" using store_int_range [OF s] g by (auto simp: settings_ok_def INT_MAX_def)
    from S [OF G(5) [OF this]] show ?thesis
      using 5 s pv init by (auto simp: set_param_imp_def started_ok_def Let_def)
  next
    case 6
    obtain st n where s: "store_int (uint (max_stacks ?g)) w 0 INT_MAX = (st, n)" by fastforce
    have "0 \<le> n" "n \<le> INT_MAX" using store_int_range [OF s] g by (auto simp: settings_ok_def)
    from G(6) [OF this] show ?thesis
      using 6 s pv c init by (auto simp: set_param_imp_def config_ok_def Let_def)
  next
    case 7
    obtain st g' where s: "set_stack_size w ?g = (st, g')" by fastforce
    have "settings_ok env g'" using set_stack_size_ok(1) [OF g, of w] s by simp
    then show ?thesis using 7 s pv c init by (auto simp: set_param_imp_def config_ok_def Let_def)
  next
    case 8
    then show ?thesis using pv c init by (auto simp: set_param_imp_def)
  qed
qed

subsection \<open>Initial values\<close>

lemma default_settings_ok: "machine_ok env \<Longrightarrow> settings_ok env (default_settings env g)"
  by (auto simp: settings_ok_def default_settings_def machine_ok_def global_state_zero_def INT_MAX_def Let_def)

lemma env_steps_ok:
  assumes m: "machine_ok env" and g: "settings_ok env (snd es)"
  shows "settings_ok env (snd (env_force_reduce env es))"
    and "settings_ok env (snd (env_nworkers env es))"
    and "settings_ok env (snd (env_max_user_workers env es))"
    and "settings_ok env (snd (env_steal_failures env es))"
    and "settings_ok env (snd (env_record_replay env buf es))"
proof -
  obtain e h where es: "es = (e, h)" by (cases es)
  have h: "settings_ok env h" using g es by simp
  note H = settings_ok_fields [OF h]
  show "settings_ok env (snd (env_force_reduce env es))"
  proof -
    have b: "snd (store_bool (force_reduce h) v) \<in> {0, 1}" for v
      using store_bool_range [of "force_reduce h" v] h by (cases "store_bool (force_reduce h) v") (auto simp: settings_ok_def)
    show ?thesis using H(1) [OF b] H(1) [of 1] h
      by (auto simp: env_force_reduce_def es split: prod.splits)
  qed
  show "settings_ok env (snd (env_nworkers env es))"
  proof -
    have b: "1 \<le> snd (store_int (P h) v 1 (16 * hardware_cpu_count env))"
      "snd (store_int (P h) v 1 (16 * hardware_cpu_count env)) \<le> 16 * hardware_cpu_count env" for v
      using store_int_cases [of "P h" v 1 "16 * hardware_cpu_count env"] h by (auto simp: settings_ok_def)
    show ?thesis using H(2) [OF b] H(2) [of 1] h m
      by (auto simp: env_nworkers_def es machine_ok_def split: prod.splits)
  qed
  show "settings_ok env (snd (env_max_user_workers env es))"
  proof -
    have hw: "16 * (if b then 1 else hardware_cpu_count env) \<le> 16 * hardware_cpu_count env" for b
      using m by (simp add: machine_ok_def)
    have b: "0 \<le> snd (store_int (max_user_workers h) v 1 (16 * (if b then 1 else hardware_cpu_count env)))"
      "snd (store_int (max_user_workers h) v 1 (16 * (if b then 1 else hardware_cpu_count env))) \<le> 16 * hardware_cpu_count env" for v b
    proof -
      obtain st n where s: "store_int (max_user_workers h) v 1 (16 * (if b then 1 else hardware_cpu_count env)) = (st, n)" by fastforce
      have u: "0 \<le> max_user_workers h" "max_user_workers h \<le> 16 * hardware_cpu_count env" using h by (simp_all add: settings_ok_def)
      have "0 \<le> n \<and> n \<le> 16 * hardware_cpu_count env" using store_int_range [OF s] u hw [of b] by linarith
      then show "0 \<le> snd (store_int (max_user_workers h) v 1 (16 * (if b then 1 else hardware_cpu_count env)))"
        and "snd (store_int (max_user_workers h) v 1 (16 * (if b then 1 else hardware_cpu_count env))) \<le> 16 * hardware_cpu_count env"
        by (simp_all only: s snd_conv)
    qed
    show ?thesis using H(3) [OF b [where b = True]] H(3) [OF b [where b = False]] h
      by (simp add: env_max_user_workers_def es Let_def split: prod.splits)
  qed
  show "settings_ok env (snd (env_steal_failures env es))"
  proof -
    have b: "1 \<le> snd (store_int (uint (max_steal_failures h)) v 1 INT_MAX)"
      "snd (store_int (uint (max_steal_failures h)) v 1 INT_MAX) \<le> INT_MAX" for v
      using store_int_cases [of "uint (max_steal_failures h)" v 1 INT_MAX] h by (auto simp: settings_ok_def)
    show ?thesis using H(7) [OF b] h
      by (auto simp: env_steal_failures_def es split: prod.splits)
  qed
  show "settings_ok env (snd (env_record_replay env buf es))"
    using h by (auto simp: env_record_replay_def es settings_ok_def Let_def split: prod.splits)
qed

lemma user_settable_values_ok:
  assumes m: "machine_ok env" and c: "config_ok env c"
  shows "\<exists>c'. cilkg_get_user_settable_values env envstr c = Some c' \<and> config_ok env c' \<and>
    user_values_initialized c' \<and> singleton_published c' = singleton_published c"
proof (cases "user_values_initialized c")
  case True
  then show ?thesis using c by (simp add: cilkg_get_user_settable_values_def)
next
  case False
  define es where "es = env_steal_failures env (env_max_user_workers env (env_nworkers env
                           (env_force_reduce env (envstr, default_settings env (singleton c)))))"
  have "settings_ok env (snd es)"
    unfolding es_def using default_settings_ok [OF m] by (intro env_steps_ok [OF m]) simp
  then have "settings_ok env (snd (fst es, (snd es)\<lparr>total_workers := calc_total_workers (snd es)\<rparr>))"
    by (simp add: settings_ok_def)
  from env_steps_ok(5) [OF m this, of "[]"] show ?thesis
    using False m c
    by (auto simp: cilkg_get_user_settable_values_def es_def [symmetric] cilk_assert_def machine_ok_def config_ok_def Let_def)
qed

lemma sint_small: "uint n \<le> INT_MAX \<Longrightarrow> sint n = uint n" for n :: "32 word"
  unfolding sint_uint
  by (rule signed_take_bit_int_eq_self) (auto simp: INT_MAX_def intro: order_trans [OF _ uint_nonnegative])

lemma limit_stacks_ok:
  assumes m: "machine_ok env" and g: "settings_ok env g"
  shows "settings_ok env (limit_stacks g)" and "P (limit_stacks g) = P g"
    and "0 < max_stacks (limit_stacks g) \<Longrightarrow> P g \<le> uint (max_stacks (limit_stacks g))"
    and "stack_size (limit_stacks g) = stack_size g"
proof -
  have "settings_ok env (limit_stacks g) \<and> P (limit_stacks g) = P g \<and>
     (0 < max_stacks (limit_stacks g) \<longrightarrow> P g \<le> uint (max_stacks (limit_stacks g))) \<and>
     stack_size (limit_stacks g) = stack_size g"
  proof (cases "0 < max_stacks g")
    case False
    then show ?thesis using g by (simp add: limit_stacks_def)
  next
    case True
    have P1: "1 \<le> P g" and P2: "P g \<le> 2 ^ 24" and F: "0 \<le> fiber_pool_size g" "fiber_pool_size g \<le> 42"
      and M: "uint (max_stacks g) \<le> INT_MAX"
      using m g by (auto simp: settings_ok_def machine_ok_def)
    have s: "sint (max_stacks g) = uint (max_stacks g)"
      by (rule sint_small [OF M])
    have P3: "uint (of_int (P g) :: 32 word) = P g" using P1 P2 by (intro uint_of_int32) (auto simp: INT_MAX_def)
    have q: "uint (max_stacks g div of_int (P g)) = uint (max_stacks g) div P g"
      using P3 by (simp add: uint_div)
    have qle: "uint (max_stacks g) div P g \<le> INT_MAX"
      using M P1 div_le_dividend [of "nat (uint (max_stacks g))" "nat (P g)"]
      by (smt (verit) div_by_1 uint_nonnegative zdiv_mono2)
    have sq: "sint (max_stacks g div of_int (P g)) = uint (max_stacks g) div P g"
      using qle q sint_small [of "max_stacks g div of_int (P g)"] by simp
    have sd: "uint (max_stacks g) sdiv P g = uint (max_stacks g) div P g"
      using P1 s True by (simp add: signed_divide_int_def word_gt_0)
    define n where "n = uint (max_stacks g)"
    define f where "f = (let f1 = (if n div P g < fiber_pool_size g then n div P g else fiber_pool_size g) in if f1 \<le> 0 then 1 else f1)"
    define k where "k = (if n < P g then P g else n)"
    have lim: "limit_stacks g = g\<lparr>fiber_pool_size := f, max_stacks := of_int k, global_fiber_pool_size := P g * (f + 1)\<rparr>"
      using True M by (intro global_state.equality)
        (simp_all add: limit_stacks_def s sq sd f_def k_def n_def Let_def)
    have f: "0 \<le> f" "f \<le> 42" using F by (auto simp: f_def Let_def)
    have k: "0 \<le> k" "k \<le> INT_MAX" "P g \<le> k" using M P1 P2 by (auto simp: k_def n_def INT_MAX_def)
    have "P g * (f + 1) \<le> 2 ^ 24 * 43" using f P1 P2 by (intro mult_mono) auto
    then have pf: "0 \<le> P g * (f + 1)" "P g * (f + 1) \<le> INT_MAX" using f P1 by (auto simp: INT_MAX_def)
    have "settings_ok env (limit_stacks g)"
      unfolding lim using settings_ok_fields(5) [OF settings_ok_fields(6) [OF settings_ok_fields(4) [OF g f] k(1,2)] pf]
      by simp
    then show ?thesis using k by (simp add: lim uint_of_int32)
  qed
  then show "settings_ok env (limit_stacks g)" and "P (limit_stacks g) = P g"
    and "0 < max_stacks (limit_stacks g) \<Longrightarrow> P g \<le> uint (max_stacks (limit_stacks g))"
    and "stack_size (limit_stacks g) = stack_size g" by blast+
qed

lemma init_global_state_ok:
  assumes m: "machine_ok env" and c: "config_ok env c" and np: "\<not> singleton_published c"
  shows "\<exists>c'. cilkg_init_global_state env envstr c = Some c' \<and> config_ok env c' \<and>
    user_values_initialized c' \<and> \<not> singleton_published c' \<and> started_ok (singleton c')"
proof -
  obtain c1 where c1: "cilkg_get_user_settable_values env envstr c = Some c1" "config_ok env c1"
    "user_values_initialized c1" "\<not> singleton_published c1"
    using user_settable_values_ok [OF m c, of envstr] np by auto
  define g where "g = limit_stacks (singleton c1)"
  have s: "settings_ok env (singleton c1)" using c1 by (simp add: config_ok_def)
  note L = limit_stacks_ok [OF m s, folded g_def]
  have sz: "stack_size_ok (cilkos_validate_stack_size (stack_size g))"
    using s L(4) validate_id validate_ok [of "0"] by (auto simp: settings_ok_def)
  have tot: "P g \<le> calc_total_workers g" "calc_total_workers g \<le> INT_MAX"
    using settings_ok_total [OF m L(1)] by auto
  have q: "calc_total_workers (g\<lparr>Q := 0\<rparr>) = calc_total_workers g"
    by (simp add: calc_total_workers_def calc_max_user_workers_def)
  show ?thesis
    using np c1 L sz tot
    by (simp add: cilkg_init_global_state_def g_def [symmetric] config_ok_def settings_ok_def started_ok_def q Let_def)
qed

lemma api_step_ok:
  assumes m: "machine_ok env" and c: "config_ok env c"
  shows "\<exists>c'. api_step env envstr a c = Some c' \<and> config_ok env c'"
proof (cases a)
  case (Set_param p v)
  obtain c1 where c1: "cilkg_get_user_settable_values env envstr c = Some c1" "config_ok env c1" "user_values_initialized c1"
    using user_settable_values_ok [OF m c] by blast
  then show ?thesis using set_param_imp_ok [OF m c1(2,3), of p v] Set_param
    by (auto simp: cilkg_set_param_def)
next
  case Get_total_workers
  then show ?thesis using user_settable_values_ok [OF m c, of envstr] by (auto simp: cilkg_calc_total_workers_def)
next
  case Start_runtime
  show ?thesis
  proof (cases "singleton_published c")
    case True
    then show ?thesis using Start_runtime c by simp
  next
    case False
    then show ?thesis using init_global_state_ok [OF m c False, of envstr] Start_runtime
      by (auto simp: cilkg_publish_global_state_def config_ok_def)
  qed
next
  case Stop_runtime
  then show ?thesis using c by (auto simp: cilkg_deinit_global_state_def config_ok_def)
qed

lemma api_run_ok:
  assumes "machine_ok env" and "config_ok env c"
  shows "\<exists>c'. api_run env as c = Some c' \<and> config_ok env c'"
  using assms(2)
proof (induction "as" arbitrary: c)
  case (Cons a "as")
  obtain k s where "a = (k, s)" by fastforce
  then show ?case using api_step_ok [OF assms(1) Cons.prems, of s k] Cons.IH by auto
qed simp

text \<open>C17 (settings_well_formed): Whatever the environment variables hold and whatever parameters a program
  sets, reads, and whenever it starts and stops the runtime, no assertion fails and the settings keep to the
  ranges the code relies on: between 1 and 16 workers per processor, pools of at most 42 stacks per worker, a stack
  size of whole pages, every count within an \<open>int\<close>; and while the runtime runs, the table of
  workers has a slot for each of the \<open>P - 1\<close> system workers and one for a user thread.\<close>

theorem settings_well_formed:
  assumes "machine_ok env"
  shows "\<exists>c. api_run env as config_start = Some c \<and> config_ok env c"
  by (rule api_run_ok [OF assms]) (simp add: config_ok_def config_start_def)

theorem settings_well_formed_witness:
  "\<exists>c. api_run \<lparr>os_getenv = (\<lambda>v. if v = ''CILK_NWORKERS'' then Some ''4'' else None), hardware_cpu_count = 2,
                 sequential_ptool = False, tool_forces_reduce = False, numa_configured_nodes = 1\<rparr>
         [(Set_param (Some ''nworkers'') (Some ''40''), []), (Start_runtime, []),
          (Set_param (Some ''stack size'') (Some ''20000''), []), (Stop_runtime, [])] config_start = Some c \<and>
       config_ok \<lparr>os_getenv = (\<lambda>v. if v = ''CILK_NWORKERS'' then Some ''4'' else None), hardware_cpu_count = 2,
                 sequential_ptool = False, tool_forces_reduce = False, numa_configured_nodes = 1\<rparr> c"
  by (rule settings_well_formed) (simp add: machine_ok_def)

subsection \<open>Errors\<close>

definition param_names :: "string set" where
  "param_names = {''force reduce'', ''nworkers'', ''max user workers'', ''local stacks'', ''shared stacks'', ''nstacks'', ''stack size''}"

definition bool_words :: "string set" where "bool_words = {''false'', ''0'', ''true'', ''1''}"

lemma store_bool_status:
  "(\<exists>b. store_bool out (Some s) = (SET_PARAM_SUCCESS, b) \<and> s \<in> bool_words) \<or>
   store_bool out (Some s) = (SET_PARAM_INVALID, out) \<and> s \<notin> bool_words"
  unfolding store_bool_def bool_words_def by (simp del: One_nat_def)

text \<open>A call that stores a number either stores it or answers that it is out of range.\<close>

lemma store_int_status:
  "(\<exists>v. store_int out s lo hi = (SET_PARAM_SUCCESS, v)) \<or> store_int out s lo hi = (SET_PARAM_XRANGE, out)"
  using store_int_cases [of out s lo hi] by blast

lemma set_param_equations:
  shows "set_param_imp env (Some ''force reduce'') (Some w) c =
      (if tool_forces_reduce env then Some (SET_PARAM_LATE, c)
       else case store_bool (force_reduce (singleton c)) (Some w) of
              (ret, b) \<Rightarrow> Some (ret, c\<lparr>singleton := (singleton c)\<lparr>force_reduce := b\<rparr>\<rparr>))"
    and "set_param_imp env (Some ''nworkers'') (Some w) c =
      (if singleton_published c then Some (SET_PARAM_LATE, c)
       else map_option (\<lambda>(ret, g'). (ret, c\<lparr>singleton := g'\<rparr>)) (set_nworkers env w (singleton c)))"
    and "set_param_imp env (Some ''max user workers'') (Some w) c =
      (if 0 < hardware_cpu_count env
       then case store_int (max_user_workers (singleton c)) w 1 (16 * hardware_cpu_count env) of
              (ret, n) \<Rightarrow> Some (ret, c\<lparr>singleton := (singleton c)\<lparr>max_user_workers := n\<rparr>\<rparr>)
       else None)"
    and "set_param_imp env (Some ''local stacks'') (Some w) c =
      (case store_int (fiber_pool_size (singleton c)) w 0 42 of
         (ret, n) \<Rightarrow> Some (ret, c\<lparr>singleton := (singleton c)\<lparr>fiber_pool_size := n\<rparr>\<rparr>))"
    and "set_param_imp env (Some ''shared stacks'') (Some w) c =
      (case store_int (global_fiber_pool_size (singleton c)) w 0 42 of
         (ret, n) \<Rightarrow> Some (ret, c\<lparr>singleton := (singleton c)\<lparr>global_fiber_pool_size := n\<rparr>\<rparr>))"
    and "set_param_imp env (Some ''nstacks'') (Some w) c =
      (if singleton_published c then Some (SET_PARAM_LATE, c)
       else case store_int (uint (max_stacks (singleton c))) w 0 INT_MAX of
              (ret, n) \<Rightarrow> Some (ret, c\<lparr>singleton := (singleton c)\<lparr>max_stacks := of_int n\<rparr>\<rparr>))"
    and "set_param_imp env (Some ''stack size'') (Some w) c =
      (if singleton_published c then Some (SET_PARAM_LATE, c)
       else case set_stack_size w (singleton c) of (ret, g') \<Rightarrow> Some (ret, c\<lparr>singleton := g'\<rparr>))"
  by (simp_all add: set_param_imp_def cilk_assert_def Let_def)

text \<open>What a call that is neither late nor unknown does when it fails, per parameter.\<close>

definition only_stack_size_rounded :: "config \<Rightarrow> config" where
  "only_stack_size_rounded c = upd_g (\<lambda>g. g\<lparr>stack_size := cilkos_validate_stack_size (stack_size g)\<rparr>) c"

lemma set_number_fails:
  assumes "0 < hardware_cpu_count env" and "P (singleton c) \<noteq> 0" and "\<not> singleton_published c"
  shows "(\<exists>c'. set_param_imp env (Some ''nworkers'') (Some w) c = Some (SET_PARAM_SUCCESS, c')) \<or>
      set_param_imp env (Some ''nworkers'') (Some w) c = Some (SET_PARAM_XRANGE, c)"
    and "(\<exists>c'. set_param_imp env (Some ''nstacks'') (Some w) c = Some (SET_PARAM_SUCCESS, c')) \<or>
      set_param_imp env (Some ''nstacks'') (Some w) c = Some (SET_PARAM_XRANGE, c)"
    and "(\<exists>c'. set_param_imp env (Some ''stack size'') (Some w) c = Some (SET_PARAM_SUCCESS, c')) \<or>
      set_param_imp env (Some ''stack size'') (Some w) c = Some (SET_PARAM_XRANGE, only_stack_size_rounded c)"
proof -
  show "(\<exists>c'. set_param_imp env (Some ''nworkers'') (Some w) c = Some (SET_PARAM_SUCCESS, c')) \<or>
      set_param_imp env (Some ''nworkers'') (Some w) c = Some (SET_PARAM_XRANGE, c)"
    unfolding set_param_equations
    using assms store_int_status [of "P (singleton c)" w 0 "if sequential_ptool env then 1 else 16 * hardware_cpu_count env"]
    by (auto simp: set_nworkers_def cilk_assert_def Let_def)
  show "(\<exists>c'. set_param_imp env (Some ''nstacks'') (Some w) c = Some (SET_PARAM_SUCCESS, c')) \<or>
      set_param_imp env (Some ''nstacks'') (Some w) c = Some (SET_PARAM_XRANGE, c)"
    unfolding set_param_equations
    using assms store_int_status [of "uint (max_stacks (singleton c))" w 0 INT_MAX] by auto
  show "(\<exists>c'. set_param_imp env (Some ''stack size'') (Some w) c = Some (SET_PARAM_SUCCESS, c')) \<or>
      set_param_imp env (Some ''stack size'') (Some w) c = Some (SET_PARAM_XRANGE, only_stack_size_rounded c)"
    unfolding set_param_equations
    using assms store_int_status [of "uint (stack_size (singleton c))" w 0 INT_MAX]
    by (auto simp: set_stack_size_def upd_g_def only_stack_size_rounded_def)
qed

lemma set_pool_fails:
  assumes "0 < hardware_cpu_count env"
  shows "(\<exists>c'. set_param_imp env (Some ''max user workers'') (Some w) c = Some (SET_PARAM_SUCCESS, c')) \<or>
      set_param_imp env (Some ''max user workers'') (Some w) c = Some (SET_PARAM_XRANGE, c)"
    and "(\<exists>c'. set_param_imp env (Some ''local stacks'') (Some w) c = Some (SET_PARAM_SUCCESS, c')) \<or>
      set_param_imp env (Some ''local stacks'') (Some w) c = Some (SET_PARAM_XRANGE, c)"
    and "(\<exists>c'. set_param_imp env (Some ''shared stacks'') (Some w) c = Some (SET_PARAM_SUCCESS, c')) \<or>
      set_param_imp env (Some ''shared stacks'') (Some w) c = Some (SET_PARAM_XRANGE, c)"
  unfolding set_param_equations
  using assms store_int_status [of "max_user_workers (singleton c)" w 1 "16 * hardware_cpu_count env"]
    store_int_status [of "fiber_pool_size (singleton c)" w 0 42] store_int_status [of "global_fiber_pool_size (singleton c)" w 0 42]
  by auto

lemma set_bool_fails:
  assumes "\<not> tool_forces_reduce env"
  shows "(\<exists>c'. set_param_imp env (Some ''force reduce'') (Some w) c = Some (SET_PARAM_SUCCESS, c')) \<and> w \<in> bool_words \<or>
      set_param_imp env (Some ''force reduce'') (Some w) c = Some (SET_PARAM_INVALID, c) \<and> w \<notin> bool_words"
  unfolding set_param_equations using assms store_bool_status [of "force_reduce (singleton c)" w] by auto

lemma set_unknown: "q \<notin> param_names \<Longrightarrow> set_param_imp env (Some q) (Some w) c = Some (SET_PARAM_UNIMP, c)"
  by (simp add: set_param_imp_def param_names_def)



subsection \<open>A number that is printed is the number that is read\<close>

fun decimal :: "nat \<Rightarrow> string" where
  "decimal n = (if n < 10 then [char_of (48 + n)] else decimal (n div 10) @ [char_of (48 + n mod 10)])"

declare decimal.simps [simp del]

lemma digit_char:
  assumes "d < (10 :: nat)"
  shows "(of_char (char_of (48 + d) :: char) :: nat) = 48 + d" and "(of_char (char_of (48 + d) :: char) :: int) = 48 + int d"
proof -
  show n: "(of_char (char_of (48 + d) :: char) :: nat) = 48 + d" using assms by simp
  then show "(of_char (char_of (48 + d) :: char) :: int) = 48 + int d"
    by (metis of_nat_of_char of_nat_add of_nat_numeral)
qed

lemma decimal_digits: "c \<in> set (decimal n) \<Longrightarrow> is_digit c"
proof (induction n rule: decimal.induct)
  case (1 n)
  show ?case
  proof (cases "n < 10")
    case True
    then show ?thesis using 1(2) digit_char(1) [of n] by (simp add: decimal.simps [of n] is_digit_def)
  next
    case False
    then have "c \<in> set (decimal (n div 10)) \<or> c = char_of (48 + n mod 10)"
      using 1(2) by (auto simp: decimal.simps [of n])
    then show ?thesis using 1(1) [OF False] digit_char(1) [of "n mod 10"] by (auto simp: is_digit_def)
  qed
qed

lemma strtol_digits_decimal: "strtol_digits (decimal n) = int n"
proof -
  have tw: "takeWhile is_digit (decimal n) = decimal n" by (rule takeWhile_eq_all_conv [THEN iffD2]) (auto dest: decimal_digits)
  have "foldl (\<lambda>n c. 10 * n + (of_char c - 48)) 0 (decimal n) = int n"
  proof (induction n rule: decimal.induct)
    case (1 n)
    show ?case
    proof (cases "n < 10")
      case True
      then show ?thesis using digit_char(2) [of n] by (simp add: decimal.simps [of n])
    next
      case False
      then show ?thesis using 1 digit_char(2) [of "n mod 10"]
        by (simp add: decimal.simps [of n]) (metis mult_div_mod_eq of_nat_add of_nat_mult of_nat_numeral)
    qed
  qed
  then show ?thesis by (simp add: strtol_digits_def tw)
qed

lemma decimal_not_Nil: "decimal n \<noteq> []" by (simp add: decimal.simps [of n])

lemma to_long_decimal:
  assumes "int n \<le> LONG_MAX" and "\<And>c. c \<in> set ws \<Longrightarrow> is_space c"
  shows "to_long (ws @ decimal n) = (int n, False)"
proof -
  obtain c cs where d: "decimal n = c # cs" using decimal_not_Nil by (cases "decimal n") auto
  have dig: "is_digit c" using decimal_digits [of c n] d by simp
  then have ns: "\<not> is_space c" "c \<noteq> CHR ''-''" "c \<noteq> CHR ''+''" by (auto simp: is_digit_def is_space_def)
  have "dropWhile is_space (ws @ decimal n) = decimal n"
    using assms(2) ns(1) by (simp add: dropWhile_append2 d)
  moreover have "strtol_signed (decimal n) = int n"
    using ns strtol_digits_decimal [of n] by (simp add: strtol_signed_def d)
  moreover have "\<not> int n < LONG_MIN" by (simp add: LONG_MIN_def)
  ultimately show ?thesis using assms(1) by (simp add: to_long_def)
qed

text \<open>Before the runtime starts, setting \<open>nworkers\<close> to the decimal digits of a number of
  workers the machine allows, with blanks before it or not, succeeds, makes this the number of workers and
  changes nothing else; the runtime then starts with one system worker less and, when the number of user workers
  is left to the default, with room for twice as many user threads but at least three.\<close>

theorem nworkers_round_trip:
  assumes m: "machine_ok env" and tool: "\<not> sequential_ptool env" and np: "\<not> singleton_published c"
    and n: "1 \<le> n" "int n \<le> 16 * hardware_cpu_count env" and ws: "\<And>x. x \<in> set ws \<Longrightarrow> is_space x"
    and init: "user_values_initialized c" and u: "max_user_workers (singleton c) = 0"
  shows "set_param_imp env (Some ''nworkers'') (Some (ws @ decimal n)) c = Some (SET_PARAM_SUCCESS, upd_g (P_update (\<lambda>_. int n)) c) \<and>
    (\<exists>c'. cilkg_init_global_state env envstr (upd_g (P_update (\<lambda>_. int n)) c) = Some c' \<and>
       P (singleton c') = int n \<and> system_workers (singleton c') = int n - 1 \<and>
       total_workers (singleton c') = system_workers (singleton c') + max 3 (2 * int n))"
proof -
  have small: "int n \<le> 2 ^ 24" using m n by (simp add: machine_ok_def)
  then have l: "to_long (ws @ decimal n) = (int n, False)"
    by (intro to_long_decimal) (auto simp: LONG_MAX_def ws)
  have s: "store_int (P (singleton c)) (ws @ decimal n) 0 (16 * hardware_cpu_count env) = (SET_PARAM_SUCCESS, int n)"
    using n small by (simp add: store_int_def l LONG_MAX_def LONG_MIN_def)
  have set: "set_param_imp env (Some ''nworkers'') (Some (ws @ decimal n)) c = Some (SET_PARAM_SUCCESS, upd_g (P_update (\<lambda>_. int n)) c)"
    unfolding set_param_equations(2)
    using m np n s tool by (simp add: set_nworkers_def machine_ok_def cilk_assert_def upd_g_def)
  have lim: "P (limit_stacks g) = P g \<and> max_user_workers (limit_stacks g) = max_user_workers g" for g
    by (simp add: limit_stacks_def Let_def)
  show ?thesis using np init u lim [of "(singleton c)\<lparr>P := int n\<rparr>"]
    by (simp add: set cilkg_init_global_state_def cilkg_get_user_settable_values_def upd_g_def Let_def
        calc_total_workers_def calc_max_user_workers_def)
qed

theorem nworkers_round_trip_witness:
  "set_param_imp \<lparr>os_getenv = (\<lambda>_. None), hardware_cpu_count = 2, sequential_ptool = False, tool_forces_reduce = False,
       numa_configured_nodes = 1\<rparr> (Some ''nworkers'') (Some ('' '' @ decimal 12)) (config_start\<lparr>user_values_initialized := True\<rparr>)
     = Some (SET_PARAM_SUCCESS, upd_g (P_update (\<lambda>_. 12)) (config_start\<lparr>user_values_initialized := True\<rparr>))"
proof -
  have s: "x \<in> set '' '' \<Longrightarrow> is_space x" for x by (simp add: is_space_def)
  show ?thesis
    using nworkers_round_trip [of "\<lparr>os_getenv = (\<lambda>_. None), hardware_cpu_count = 2, sequential_ptool = False,
        tool_forces_reduce = False, numa_configured_nodes = 1\<rparr>" "config_start\<lparr>user_values_initialized := True\<rparr>" 12 "'' ''", OF _ _ _ _ _ s]
    by (simp add: machine_ok_def config_start_def global_state_zero_def)
qed

end
