(* ===== verification/Signal_Tree.thy ===== *)
theory Signal_Tree
  imports Runtime_State
begin

text \<open>
  Putting idle workers to sleep and waking them (runtime/signal_node.c and runtime/scheduler.c). Each system
  worker has a signal node, a flag and a semaphore. The workers form a binary tree by their numbers: a worker
  that goes to sleep tells its children to, and wakes them when it is woken; the root is told by the user threads
  when the first one enters and the last one leaves. The operations come first, as sequential code on the store; then
  the accesses of all workers to the flags and semaphores, one by one and in every interleaving. The
  semaphores of the operating system are counters; interrupted waits are retried and not modelled.
\<close>

subsection \<open>Signal nodes\<close>

definition signal_node_create :: "ptr \<Rightarrow> rt \<Rightarrow> ptr \<times> rt" where
  "signal_node_create p s = (p, upd_sn p (\<lambda>_. \<lparr>run = 0, sem = 0\<rparr>) s)"

definition signal_node_should_wait :: "ptr \<Rightarrow> rt \<Rightarrow> bool option" where
  "signal_node_should_wait n s = do { cilk_assert (n \<noteq> NULL); Some (run (snodes s n) = 0) }"

definition signal_node_msg :: "ptr \<Rightarrow> 32 word \<Rightarrow> rt \<Rightarrow> rt option" where
  "signal_node_msg n msg s =
     do { cilk_assert (n \<noteq> NULL);
          if msg = 0 then Some (upd_sn n (run_update (\<lambda>_. msg)) s)
          else if msg = 1 then Some (upd_sn n (\<lambda>x. x\<lparr>run := msg, sem := sem x + 1\<rparr>) s)
          else None }"

text \<open>Alone, a worker waits for ever when its semaphore is used up before its flag is set.\<close>

partial_function (option) signal_node_wait :: "ptr \<Rightarrow> rt \<Rightarrow> rt option" where
  [code]: "signal_node_wait n s =
     Option.bind (signal_node_should_wait n s)
       (\<lambda>w. if \<not> w then Some s
            else if sem (snodes s n) = 0 then None
            else signal_node_wait n (upd_sn n (\<lambda>x. x\<lparr>sem := sem x - 1\<rparr>) s))"

subsection \<open>The tree\<close>

definition notify_child :: "int \<Rightarrow> 32 word \<Rightarrow> rt \<Rightarrow> rt option" where
  "notify_child child_num msg s =
     (let node = signal_node (wks s (workers (glob s) child_num))
      in do { cilk_assert (node \<noteq> NULL); signal_node_msg node msg s })"

definition notify_children :: "ptr \<Rightarrow> 32 word \<Rightarrow> rt \<Rightarrow> rt option" where
  "notify_children w msg s =
     (let child_num = 2 * self (wks s w) + 1; num_sys_workers = P (glob s) - 1
      in if child_num < num_sys_workers
         then do { s1 \<leftarrow> notify_child child_num msg s;
                   if child_num + 1 < num_sys_workers then notify_child (child_num + 1) msg s1 else Some s1 }
         else Some s)"

definition notify_children_wait :: "ptr \<Rightarrow> rt \<Rightarrow> rt option" where
  "notify_children_wait w s = notify_children w 0 s"

definition notify_children_run :: "ptr \<Rightarrow> rt \<Rightarrow> rt option" where
  "notify_children_run w s = notify_children w 1 s"

definition signal_root :: "32 word \<Rightarrow> rt \<Rightarrow> rt option" where
  "signal_root msg s =
     (if 1 < P (glob s)
      then do { let root = workers (glob s) 0;
                cilk_assert (signal_node (wks s root) \<noteq> NULL);
                signal_node_msg (signal_node (wks s root)) msg s }
      else Some s)"

definition wake_runtime :: "rt \<Rightarrow> rt option" where "wake_runtime s = signal_root 1 s"
definition sleep_runtime :: "rt \<Rightarrow> rt option" where "sleep_runtime s = signal_root 0 s"

definition cilkrts_enter_cilk :: "rt \<Rightarrow> rt option" where
  "cilkrts_enter_cilk s =
     (let s1 = s\<lparr>glob := (glob s)\<lparr>Q := Q (glob s) + 1\<rparr>\<rparr> in if Q (glob s) = 0 then wake_runtime s1 else Some s1)"

definition cilkrts_leave_cilk :: "rt \<Rightarrow> rt option" where
  "cilkrts_leave_cilk s =
     (let s1 = s\<lparr>glob := (glob s)\<lparr>Q := Q (glob s) - 1\<rparr>\<rparr> in if Q (glob s1) = 0 then sleep_runtime s1 else Some s1)"

datatype schedule_t = SCHEDULE_RUN | SCHEDULE_WAIT | SCHEDULE_EXIT

definition worker_runnable :: "ptr \<Rightarrow> rt \<Rightarrow> (schedule_t \<times> rt) option" where
  "worker_runnable w s =
     (if next_frame_ff (wks s w) \<noteq> NULL then Some (SCHEDULE_RUN, s)
      else if work_done (glob s) then Some (SCHEDULE_EXIT, s)
      else if self (wks s w) = 0
      then (if max_steal_failures (glob s) < steal_failure_count (wks s w)
            then do { wait \<leftarrow> signal_node_should_wait (signal_node (wks s w)) s;
                      Some (if wait then (SCHEDULE_WAIT, s)
                            else (SCHEDULE_RUN, upd_w w (steal_failure_count_update (\<lambda>_. 0)) s)) }
            else Some (SCHEDULE_RUN, s))
      else if wtype (wks s w) = WORKER_SYSTEM
      then do { wait \<leftarrow> signal_node_should_wait (signal_node (wks s w)) s;
                Some (if wait then SCHEDULE_WAIT else SCHEDULE_RUN, s) }
      else Some (SCHEDULE_RUN, s))"

subsection \<open>All workers at once\<close>

text \<open>Where a worker is with respect to its signal node: about to test its flag in \<open>signal_node_wait\<close>, blocked on
  its semaphore, telling its children (the message and the children still to be told), about to post the
  semaphore of a child whose flag it has set, in the scheduling loop or in user code, or gone.\<close>

datatype place = Wait_test | Wait_sem | Tell "32 word" "nat list" | Post_child nat "nat list" | Awake | Gone

text \<open>What a user thread that holds the global lock still has to do for the root: set its flag to the message, or
  post its semaphore.\<close>

datatype user_signal = Silent | To_write "32 word" | To_post

record tree_state =
  tr_run :: "nat \<Rightarrow> 32 word"
  tr_sem :: "nat \<Rightarrow> nat"
  place_of :: "nat \<Rightarrow> place"
  users :: nat
  shut_down :: bool
  user_signal :: user_signal

definition tree_start :: tree_state where
  "tree_start = \<lparr>tr_run = (\<lambda>_. 0), tr_sem = (\<lambda>_. 0), place_of = (\<lambda>_. Wait_test), users = 0, shut_down = False,
     user_signal = Silent\<rparr>"

definition tree_children :: "nat \<Rightarrow> nat \<Rightarrow> nat list" where
  "tree_children n i = filter (\<lambda>c. c < n) [2 * i + 1, 2 * i + 2]"

abbreviation move :: "nat \<Rightarrow> place \<Rightarrow> tree_state \<Rightarrow> tree_state" where
  "move i l s \<equiv> s\<lparr>place_of := (place_of s)(i := l)\<rparr>"

text \<open>One access of the system worker \<open>i\<close> out of \<open>n\<close>, \<open>None\<close> when it is blocked or has nothing to do here. The root
  goes to sleep after enough failed steals; how many is left open.\<close>

fun worker_step :: "nat \<Rightarrow> nat \<Rightarrow> place \<Rightarrow> tree_state \<Rightarrow> tree_state option" where
  "worker_step n i Wait_test s =
     Some (if tr_run s i = 0 then move i Wait_sem s else move i (Tell 1 (tree_children n i)) s)"
| "worker_step n i Wait_sem s =
     (if tr_sem s i = 0 then None else Some (move i Wait_test (s\<lparr>tr_sem := (tr_sem s)(i := tr_sem s i - 1)\<rparr>)))"
| "worker_step n i (Tell m (c # cs)) s =
     Some (move i (if m = 1 then Post_child c cs else Tell m cs) (s\<lparr>tr_run := (tr_run s)(c := m)\<rparr>))"
| "worker_step n i (Tell m []) s = Some (move i (if m = 1 then Awake else Wait_test) s)"
| "worker_step n i (Post_child c cs) s = Some (move i (Tell 1 cs) (s\<lparr>tr_sem := (tr_sem s)(c := tr_sem s c + 1)\<rparr>))"
| "worker_step n i Awake s =
     (if shut_down s then Some (move i Gone s)
      else if tr_run s i = 0 then Some (move i (Tell 0 (tree_children n i)) s) else None)"
| "worker_step n i Gone s = None"

definition tree_work :: "nat \<Rightarrow> tree_state \<Rightarrow> tree_state \<Rightarrow> bool" where
  "tree_work n s s' \<longleftrightarrow> (\<exists>i < n. worker_step n i (place_of s i) s = Some s')"

text \<open>User threads enter and leave under the global lock; the runtime is shut down when they are gone. A worker that
  starts a statically scheduled loop wakes its children once more.\<close>

inductive tree_event :: "nat \<Rightarrow> tree_state \<Rightarrow> tree_state \<Rightarrow> bool" for n where
  enter: "user_signal s = Silent \<Longrightarrow> \<not> shut_down s \<Longrightarrow>
     tree_event n s (s\<lparr>users := users s + 1, user_signal := (if users s = 0 then To_write 1 else Silent)\<rparr>)"
| leave: "user_signal s = Silent \<Longrightarrow> users s > 0 \<Longrightarrow>
     tree_event n s (s\<lparr>users := users s - 1, user_signal := (if users s = 1 then To_write 0 else Silent)\<rparr>)"
| stop: "user_signal s = Silent \<Longrightarrow> users s = 0 \<Longrightarrow> tree_event n s (s\<lparr>shut_down := True, user_signal := To_write 1\<rparr>)"
| write_flag: "user_signal s = To_write m \<Longrightarrow>
     tree_event n s (s\<lparr>tr_run := (tr_run s)(0 := m), user_signal := (if m = 1 then To_post else Silent)\<rparr>)"
| post_root: "user_signal s = To_post \<Longrightarrow>
     tree_event n s (s\<lparr>tr_sem := (tr_sem s)(0 := tr_sem s 0 + 1), user_signal := Silent\<rparr>)"
| static_loop_starts: "i < n \<Longrightarrow> place_of s i = Awake \<Longrightarrow> \<not> shut_down s \<Longrightarrow> users s \<noteq> 0 \<Longrightarrow>
     tree_event n s (move i (Tell 1 (tree_children n i)) s)"

inductive tree_reachable :: "nat \<Rightarrow> tree_state \<Rightarrow> bool" for n where
  start: "tree_reachable n tree_start"
| work: "tree_reachable n s \<Longrightarrow> tree_work n s s' \<Longrightarrow> tree_reachable n s'"
| event: "tree_reachable n s \<Longrightarrow> tree_event n s s' \<Longrightarrow> tree_reachable n s'"

end
