(* ===== verification/Signal_Tree_Proofs.thy ===== *)
theory Signal_Tree_Proofs
  imports Signal_Tree
begin

text \<open>
  The tree of workers follows the user threads: whatever the interleaving, the messages stop after finitely
  many accesses, and then all workers are awake when a user thread is there and all are asleep otherwise. No
  wake-up is lost.
\<close>

subsection \<open>The tree\<close>

lemma tree_children_mem: "c \<in> set (tree_children n p) \<longleftrightarrow> c < n \<and> (c = 2 * p + 1 \<or> c = 2 * p + 2)"
  by (auto simp: tree_children_def)

lemma tree_children_parent: "c \<in> set (tree_children n p) \<longleftrightarrow> 0 < c \<and> c < n \<and> p = (c - 1) div 2"
  by (auto simp: tree_children_mem)

lemma tree_children_above: "c \<in> set (tree_children n p) \<Longrightarrow> p < c \<and> c < n"
  by (auto simp: tree_children_mem)

lemma tree_children_distinct [simp]: "distinct (tree_children n p)"
  by (simp add: tree_children_def)

lemma tree_children_length: "length (tree_children n p) \<le> 2"
  by (simp add: tree_children_def)

subsection \<open>The invariant\<close>

text \<open>What a worker has told its child \<open>c\<close>.\<close>

fun told :: "place \<Rightarrow> nat \<Rightarrow> 32 word option" where
  "told Wait_test c = Some 0"
| "told Wait_sem c = Some 0"
| "told (Tell m cs) c = (if c \<in> set cs then None else Some m)"
| "told (Post_child d cs) c = (if c \<in> set cs then None else Some 1)"
| "told Awake c = Some 1"
| "told Gone c = Some 1"

text \<open>The children a worker still has to tell or to post are its own, each once.\<close>

fun place_ok :: "nat \<Rightarrow> nat \<Rightarrow> place \<Rightarrow> bool" where
  "place_ok n i (Tell m cs) \<longleftrightarrow> m \<in> {0, 1} \<and> set cs \<subseteq> set (tree_children n i) \<and> distinct cs"
| "place_ok n i (Post_child d cs) \<longleftrightarrow> set (d # cs) \<subseteq> set (tree_children n i) \<and> distinct (d # cs)"
| "place_ok n i _ \<longleftrightarrow> True"

definition post_pending :: "tree_state \<Rightarrow> nat \<Rightarrow> bool" where
  "post_pending s i \<longleftrightarrow> (if i = 0 then user_signal s = To_post
     else \<exists>cs. place_of s ((i - 1) div 2) = Post_child i cs)"

definition root_flag :: "tree_state \<Rightarrow> 32 word" where
  "root_flag s = (if 0 < users s \<or> shut_down s then 1 else 0)"

definition told_inv :: "nat \<Rightarrow> tree_state \<Rightarrow> bool" where
  "told_inv n s \<longleftrightarrow> (\<forall>p < n. \<forall>c \<in> set (tree_children n p). \<forall>m. told (place_of s p) c = Some m \<longrightarrow> tr_run s c = m)"

definition sem_inv :: "nat \<Rightarrow> tree_state \<Rightarrow> bool" where
  "sem_inv n s \<longleftrightarrow> (\<forall>i < n. place_of s i = Wait_sem \<longrightarrow> tr_run s i \<noteq> 0 \<longrightarrow> 0 < tr_sem s i \<or> post_pending s i)"

definition root_inv :: "tree_state \<Rightarrow> bool" where
  "root_inv s \<longleftrightarrow> (case user_signal s of To_write m \<Rightarrow> m = root_flag s | _ \<Rightarrow> tr_run s 0 = root_flag s) \<and>
     (shut_down s \<longrightarrow> users s = 0)"

definition tree_inv :: "nat \<Rightarrow> tree_state \<Rightarrow> bool" where
  "tree_inv n s \<longleftrightarrow> (\<forall>i < n. place_ok n i (place_of s i)) \<and> told_inv n s \<and> sem_inv n s \<and>
     (\<forall>i < n. place_of s i = Gone \<longrightarrow> shut_down s) \<and> root_inv s"

lemma tree_inv_start: "tree_inv n tree_start"
  by (auto simp: tree_inv_def told_inv_def sem_inv_def root_inv_def tree_start_def root_flag_def)

text \<open>A step of one worker changes its own place and at most the node of one of its children.\<close>

lemma worker_step_cases:
  assumes "worker_step n i l s = Some s'"
  obtains (block) "l = Wait_test" "tr_run s i = 0" "s' = move i Wait_sem s"
    | (wake) "l = Wait_test" "tr_run s i \<noteq> 0" "s' = move i (Tell 1 (tree_children n i)) s"
    | (taken) "l = Wait_sem" "0 < tr_sem s i" "s' = move i Wait_test (s\<lparr>tr_sem := (tr_sem s)(i := tr_sem s i - 1)\<rparr>)"
    | (tell) m c cs where "l = Tell m (c # cs)" "s' = move i (if m = 1 then Post_child c cs else Tell m cs) (s\<lparr>tr_run := (tr_run s)(c := m)\<rparr>)"
    | (told) m where "l = Tell m []" "s' = move i (if m = 1 then Awake else Wait_test) s"
    | (posted) c cs where "l = Post_child c cs" "s' = move i (Tell 1 cs) (s\<lparr>tr_sem := (tr_sem s)(c := tr_sem s c + 1)\<rparr>)"
    | (leaves) "l = Awake" "shut_down s" "s' = move i Gone s"
    | (sleeps) "l = Awake" "\<not> shut_down s" "tr_run s i = 0" "s' = move i (Tell 0 (tree_children n i)) s"
  using assms by (cases "(n, i, l, s)" rule: worker_step.cases) (auto split: if_splits)

lemma step_frame:
  assumes "place_ok n i (place_of s i)" and "worker_step n i (place_of s i) s = Some s'"
  shows "j \<noteq> i \<Longrightarrow> place_of s' j = place_of s j"
    and "c \<notin> set (tree_children n i) \<Longrightarrow> tr_run s' c = tr_run s c"
    and "c \<notin> set (tree_children n i) \<Longrightarrow> c \<noteq> i \<Longrightarrow> tr_sem s' c = tr_sem s c"
    and "c \<noteq> i \<Longrightarrow> tr_sem s c \<le> tr_sem s' c"
    and "users s' = users s" and "shut_down s' = shut_down s" and "user_signal s' = user_signal s"
  using assms(2,1) by (cases rule: worker_step_cases; auto)+

lemma step_place_ok:
  assumes "place_ok n i (place_of s i)" and "worker_step n i (place_of s i) s = Some s'"
  shows "place_ok n i (place_of s' i)"
  using assms(2)
proof (cases rule: worker_step_cases)
  case (tell m c cs)
  have "place_ok n i (Tell m (c # cs))" using assms(1) tell by simp
  then show ?thesis using tell(2) by (cases "m = 1") simp_all
next
  case (posted c cs)
  have "place_ok n i (Post_child c cs)" using assms(1) posted by simp
  then show ?thesis using posted(2) by simp
qed simp_all

lemma step_told:
  assumes ok: "place_ok n i (place_of s i)" and step: "worker_step n i (place_of s i) s = Some s'"
    and inv: "told_inv n s" and i: "i < n"
  shows "told_inv n s'"
proof -
  have I: "tr_run s c = m" if "c \<in> set (tree_children n i)" "told (place_of s i) c = Some m" for c m
    using inv i that by (auto simp: told_inv_def)
  have own: "tr_run s' c = m" if c: "c \<in> set (tree_children n i)" and t: "told (place_of s' i) c = Some m" for c m
    using step
  proof (cases rule: worker_step_cases)
    case (tell k d cs)
    have k: "k = 1 \<or> k = 0" using ok tell by auto
    show ?thesis using I [OF c] t k tell by (auto split: if_splits)
  next
    case (told k)
    have "k = 1 \<or> k = 0" using ok told by auto
    then show ?thesis using I [OF c] t told by (auto split: if_splits)
  qed (use I [OF c] t c in \<open>auto split: if_splits\<close>)
  show ?thesis unfolding told_inv_def
  proof (intro allI ballI impI)
    fix p c m
    assume p: "p < n" and c: "c \<in> set (tree_children n p)" and t: "told (place_of s' p) c = Some m"
    show "tr_run s' c = m"
    proof (cases "p = i")
      case True
      then show ?thesis using own c t by simp
    next
      case False
      then have "c \<notin> set (tree_children n i)" using c by (auto simp: tree_children_parent)
      then show ?thesis using step_frame(1) [OF ok step False] step_frame(2) [OF ok step] inv p c t
        by (auto simp: told_inv_def)
    qed
  qed
qed

lemma step_sem:
  assumes ok: "\<forall>i < n. place_ok n i (place_of s i)" and step: "worker_step n i (place_of s i) s = Some s'"
    and inv: "sem_inv n s" and i: "i < n"
  shows "sem_inv n s'"
  unfolding sem_inv_def
proof (intro allI impI)
  fix j
  assume j: "j < n" and w: "place_of s' j = Wait_sem" and r: "tr_run s' j \<noteq> 0"
  have oki: "place_ok n i (place_of s i)" using ok i by simp
  note F = step_frame [OF oki step]
  show "0 < tr_sem s' j \<or> post_pending s' j"
  proof (cases "j = i")
    case True
    show ?thesis using step
      by (cases rule: worker_step_cases) (use True w r in \<open>auto split: if_splits\<close>)
  next
    case False
    have wj: "place_of s j = Wait_sem" using F(1) [OF False] w by simp
    show ?thesis
    proof (cases "j \<in> set (tree_children n i)")
      case child: True
      then have par: "j \<noteq> 0" "(j - 1) div 2 = i" by (simp_all add: tree_children_parent)
      have I: "tr_run s j \<noteq> 0 \<Longrightarrow> 0 < tr_sem s j \<or> (\<exists>cs. place_of s i = Post_child j cs)"
        using inv j wj par by (auto simp: sem_inv_def post_pending_def)
      have pp: "post_pending s' j \<longleftrightarrow> (\<exists>cs. place_of s' i = Post_child j cs)" using par by (simp add: post_pending_def)
      have "0 < tr_sem s' j \<or> (\<exists>cs. place_of s' i = Post_child j cs)" using step
      proof (cases rule: worker_step_cases)
        case (tell m c cs)
        have "m = 1 \<or> m = 0" using oki tell by auto
        then show ?thesis using I r tell False by (auto split: if_splits)
      qed (use I r False child in \<open>auto split: if_splits\<close>)
      then show ?thesis unfolding pp .
    next
      case nochild: False
      have "tr_run s j \<noteq> 0" using F(2) [OF nochild] r by simp
      then have "0 < tr_sem s j \<or> post_pending s j" using inv j wj by (auto simp: sem_inv_def)
      moreover have "post_pending s' j = post_pending s j"
      proof (cases "j = 0")
        case True
        then show ?thesis using F(7) by (simp add: post_pending_def)
      next
        case jn: False
        then have "(j - 1) div 2 \<noteq> i" using nochild j by (auto simp: tree_children_parent)
        then show ?thesis using F(1) jn by (simp add: post_pending_def)
      qed
      ultimately show ?thesis using F(4) [OF False] by auto
    qed
  qed
qed

lemma step_tree_inv:
  assumes inv: "tree_inv n s" and work: "tree_work n s s'"
  shows "tree_inv n s'"
proof -
  obtain i where i: "i < n" and step: "worker_step n i (place_of s i) s = Some s'"
    using work by (auto simp: tree_work_def)
  have ok: "place_ok n i (place_of s i)" using inv i by (simp add: tree_inv_def)
  note F = step_frame [OF ok step]
  have gone: "place_of s' i = Gone \<Longrightarrow> shut_down s" using step
    by (cases rule: worker_step_cases) (auto split: if_splits)
  have "tr_run s' 0 = tr_run s 0" using F(2) tree_children_above [of 0 n i] by auto
  then have "root_inv s'" using F(5-7) inv
    by (simp add: tree_inv_def root_inv_def root_flag_def split: user_signal.splits)
  moreover have "\<forall>j < n. place_of s' j = Gone \<longrightarrow> shut_down s'"
    using gone F inv by (metis tree_inv_def)
  moreover have "\<forall>j < n. place_ok n j (place_of s' j)"
    using step_place_ok [OF ok step] F(1) inv by (metis tree_inv_def)
  moreover have "told_inv n s'" using step_told [OF ok step _ i] inv by (simp add: tree_inv_def)
  moreover have "sem_inv n s'" using step_sem [OF _ step _ i] inv by (simp add: tree_inv_def)
  ultimately show ?thesis by (simp add: tree_inv_def)
qed

lemma event_tree_inv:
  assumes inv: "tree_inv n s" and event: "tree_event n s s'"
  shows "tree_inv n s'"
  using event
proof cases
  case (write_flag m)
  have m: "m = root_flag s" using inv write_flag by (simp add: tree_inv_def root_inv_def)
  have z: "0 \<notin> set (tree_children n p)" for p using tree_children_above [of 0 n p] by auto
  have "told_inv n s'" using inv z unfolding tree_inv_def told_inv_def write_flag(1) by fastforce
  moreover have "sem_inv n s'" using inv write_flag m
    by (auto simp: tree_inv_def sem_inv_def post_pending_def root_flag_def split: if_splits)
  moreover have "shut_down s \<longrightarrow> users s = 0" using inv by (simp add: tree_inv_def root_inv_def)
  then have "root_inv s'" using m write_flag(1) by (simp add: root_inv_def root_flag_def)
  ultimately show ?thesis using inv write_flag(1) by (simp add: tree_inv_def)
next
  case post_root
  have "sem_inv n s'" using inv post_root by (auto simp: tree_inv_def sem_inv_def post_pending_def)
  then show ?thesis using inv post_root by (simp add: tree_inv_def told_inv_def root_inv_def root_flag_def)
next
  case (static_loop_starts i)
  have "told_inv n s'" using inv static_loop_starts by (auto simp: tree_inv_def told_inv_def)
  moreover have "sem_inv n s'" using inv static_loop_starts by (auto simp: tree_inv_def sem_inv_def post_pending_def)
  ultimately show ?thesis using inv static_loop_starts by (auto simp: tree_inv_def root_inv_def root_flag_def split: user_signal.splits)
qed (use inv in \<open>auto simp: tree_inv_def told_inv_def sem_inv_def post_pending_def root_inv_def root_flag_def\<close>)

lemma tree_reachable_inv: "tree_reachable n s \<Longrightarrow> tree_inv n s"
  by (induction rule: tree_reachable.induct) (auto intro: tree_inv_start step_tree_inv event_tree_inv)

subsection \<open>The messages stop\<close>

text \<open>An upper bound of the accesses a worker can still make when nobody else writes to its node.\<close>

fun place_weight :: "bool \<Rightarrow> nat \<Rightarrow> place \<Rightarrow> nat" where
  "place_weight running n (Tell m cs) =
     (if m = 1 then (if running then 2 else 2 * n + 6) + 2 * length cs else (if running then 8 else 2 * n + 2) + length cs)"
| "place_weight running n (Post_child c cs) = (if running then 3 else 2 * n + 7) + 2 * length cs"
| "place_weight running n Wait_test = (if running then 7 else 2 * n + 1)"
| "place_weight running n Wait_sem = (if running then 8 else 2 * n)"
| "place_weight running n Awake = (if running then 1 else 2 * n + 5)"
| "place_weight running n Gone = 0"

definition weight :: "tree_state \<Rightarrow> nat \<Rightarrow> nat" where
  "weight s i = place_weight (tr_run s i \<noteq> 0) (tr_sem s i) (place_of s i)"

lemma step_weight:
  assumes "place_ok n i (place_of s i)" and "worker_step n i (place_of s i) s = Some s'"
  shows "weight s' i < weight s i"
  using assms(2)
proof (cases rule: worker_step_cases)
  case wake
  then show ?thesis using tree_children_length [of n i] by (simp add: weight_def)
next
  case sleeps
  then show ?thesis using tree_children_length [of n i] by (simp add: weight_def)
next
  case (tell m c cs)
  have "c \<noteq> i" using assms(1) tell tree_children_above [of c n i] by auto
  then show ?thesis using tell by (simp add: weight_def)
next
  case (posted c cs)
  have "c \<noteq> i" using assms(1) posted tree_children_above [of c n i] by auto
  then show ?thesis using posted by (simp add: weight_def)
qed (auto simp: weight_def)

lemma step_lex:
  assumes inv: "tree_inv n s" and work: "tree_work n s s'"
  shows "(map (weight s') [0..<n], map (weight s) [0..<n]) \<in> lex less_than"
proof -
  obtain i where i: "i < n" and step: "worker_step n i (place_of s i) s = Some s'"
    using work by (auto simp: tree_work_def)
  have ok: "place_ok n i (place_of s i)" using inv i by (simp add: tree_inv_def)
  have same: "weight s' j = weight s j" if "j < i" for j
  proof -
    have "j \<notin> set (tree_children n i)" using that tree_children_above [of j n i] by auto
    then show ?thesis using step_frame(1-3) [OF ok step] that by (simp add: weight_def)
  qed
  have split: "map f [0..<n] = map f [0..<i] @ f i # map f [Suc i..<n]" for f :: "nat \<Rightarrow> nat"
    using i by (metis list.simps(9) map_append upt_add_eq_append less_imp_add_positive le0 less_imp_le upt_conv_Cons)
  have pre: "map (weight s') [0..<i] = map (weight s) [0..<i]" using same by simp
  show ?thesis unfolding split [of "weight s"] split [of "weight s'"] pre
    using step_weight [OF ok step] by (auto simp: lex_conv)
qed


subsection \<open>Where they stop\<close>

lemma settled_place:
  assumes inv: "tree_inv n s" and quiet: "\<And>s'. \<not> tree_work n s s'" and i: "i < n"
  shows "place_of s i = Gone \<and> shut_down s \<or> place_of s i = Awake \<and> \<not> shut_down s \<and> tr_run s i \<noteq> 0 \<or>
    place_of s i = Wait_sem \<and> tr_sem s i = 0"
proof -
  have none: "worker_step n i (place_of s i) s = None"
    using quiet i by (cases "worker_step n i (place_of s i) s") (auto simp: tree_work_def)
  show ?thesis
  proof (cases "place_of s i")
    case (Tell m cs)
    then show ?thesis using none by (cases cs) auto
  next
    case Gone
    then show ?thesis using inv i by (auto simp: tree_inv_def)
  qed (use none in \<open>auto split: if_splits\<close>)
qed

lemma settled_no_post:
  assumes "tree_inv n s" and "\<And>s'. \<not> tree_work n s s'" and "user_signal s = Silent" and "i < n"
  shows "\<not> post_pending s i"
proof -
  have "(i - 1) div 2 < n" using assms(4) by linarith
  from settled_place [OF assms(1,2) this] show ?thesis using assms(3) by (auto simp: post_pending_def)
qed

lemma settled_flag:
  assumes inv: "tree_inv n s" and quiet: "\<And>s'. \<not> tree_work n s s'" and silent: "user_signal s = Silent"
  shows "i < n \<Longrightarrow> tr_run s i = root_flag s"
proof (induction i rule: less_induct)
  case (less i)
  show ?case
  proof (cases "i = 0")
    case True
    then show ?thesis using inv silent by (simp add: tree_inv_def root_inv_def)
  next
    case False
    define p where "p = (i - 1) div 2"
    have p: "p < i" "p < n" using False less.prems by (auto simp: p_def)
    have child: "i \<in> set (tree_children n p)" using False less.prems by (simp add: tree_children_parent p_def)
    have flag: "tr_run s p = root_flag s" using less.IH p by simp
    have told: "told (place_of s p) i = Some m \<Longrightarrow> tr_run s i = m" for m
      using inv p child by (auto simp: tree_inv_def told_inv_def)
    have np: "\<not> post_pending s p"
      by (rule settled_no_post [OF inv quiet silent p(2)])
    consider "place_of s p = Gone" "shut_down s" | "place_of s p = Awake" "tr_run s p \<noteq> 0" | "place_of s p = Wait_sem" "tr_sem s p = 0"
      using settled_place [OF inv quiet p(2)] by auto
    then show ?thesis
    proof cases
      case 1
      then show ?thesis using told by (simp add: root_flag_def)
    next
      case 2
      then show ?thesis using told flag by (auto simp: root_flag_def split: if_splits)
    next
      case 3
      then have "tr_run s p = 0" using inv p np by (auto simp: tree_inv_def sem_inv_def)
      then show ?thesis using told flag 3 by auto
    qed
  qed
qed

text \<open>C11 (signal_tree_follows_users): When the messages have stopped and no user thread is in the middle of
  signalling, all system workers are awake if a user thread is in the runtime, all have left if the runtime is shut
  down, and all are asleep otherwise. So no wake-up is lost, whatever messages to sleep and to wake overtook each
  other.\<close>

theorem signal_tree_follows_users:
  assumes "tree_reachable n s" and "\<And>s'. \<not> tree_work n s s'" and "user_signal s = Silent" and "i < n"
  shows "place_of s i = (if shut_down s then Gone else if 0 < users s then Awake else Wait_sem)"
proof -
  have inv: "tree_inv n s" by (rule tree_reachable_inv [OF assms(1)])
  have flag: "tr_run s j = root_flag s" if "j < n" for j by (rule settled_flag [OF inv assms(2,3) that])
  have np: "\<not> post_pending s i"
    by (rule settled_no_post [OF inv assms(2-4)])
  have "place_of s i = Wait_sem \<Longrightarrow> tr_sem s i = 0 \<Longrightarrow> root_flag s = 0"
    using inv np flag [OF assms(4)] assms(4) by (auto simp: tree_inv_def sem_inv_def)
  then show ?thesis
    using settled_place [OF inv assms(2) assms(4)] flag [OF assms(4)] by (auto simp: root_flag_def split: if_splits)
qed

text \<open>One step of the worker \<open>i\<close>, for runs on an example.\<close>

fun tree_exec :: "nat \<Rightarrow> nat list \<Rightarrow> tree_state \<Rightarrow> tree_state option" where
  "tree_exec n [] s = Some s"
| "tree_exec n (i # is) s = (if i < n then Option.bind (worker_step n i (place_of s i) s) (tree_exec n is) else None)"

lemma tree_exec_reachable: "tree_exec n is s = Some s' \<Longrightarrow> tree_reachable n s \<Longrightarrow> tree_reachable n s'"
proof (induction "is" arbitrary: s)
  case (Cons i "is")
  then obtain s1 where "i < n" "worker_step n i (place_of s i) s = Some s1" "tree_exec n is s1 = Some s'"
    by (auto split: if_splits bind_splits)
  then show ?case using Cons tree_reachable.work [of n s s1] by (auto simp: tree_work_def)
qed simp

text \<open>Three system workers go to sleep; a user thread comes and sets the flag of the root, which wakes the others.\<close>

definition tree_demo :: tree_state where
  "tree_demo = the (tree_exec 3 [0, 0, 0, 0, 0, 0, 0, 1, 1, 1, 2, 2, 2]
     ((the (tree_exec 3 [0, 1, 2] tree_start))\<lparr>users := 1, tr_run := (\<lambda>_. 0)(0 := 1), tr_sem := (\<lambda>_. 0)(0 := 1)\<rparr>))"

lemma tree_demo_run:
  "place_of tree_demo 0 = Awake \<and> place_of tree_demo 1 = Awake \<and> place_of tree_demo 2 = Awake \<and>
   tr_run tree_demo 0 = 1 \<and> tr_run tree_demo 1 = 1 \<and> tr_run tree_demo 2 = 1 \<and>
   users tree_demo = 1 \<and> \<not> shut_down tree_demo \<and> user_signal tree_demo = Silent"
  by code_simp

lemma tree_demo_reachable: "tree_reachable 3 tree_demo"
proof -
  obtain s0 where s0: "tree_exec 3 [0, 1, 2] tree_start = Some s0" "user_signal s0 = Silent" "users s0 = 0" "\<not> shut_down s0"
    "tr_run s0 = (\<lambda>_. 0)" "tr_sem s0 = (\<lambda>_. 0)"
    by (simp add: tree_start_def)
  have "tree_reachable 3 s0" by (rule tree_exec_reachable [OF s0(1) tree_reachable.start])
  then have "tree_reachable 3 (s0\<lparr>users := 1, user_signal := To_write 1\<rparr>)"
    using tree_reachable.event [OF _ tree_event.enter [of s0 3]] s0 by simp
  from tree_reachable.event [OF this tree_event.write_flag [of _ 1]]
  have "tree_reachable 3 (s0\<lparr>users := 1, tr_run := (tr_run s0)(0 := 1), user_signal := To_post\<rparr>)" by simp
  from tree_reachable.event [OF this tree_event.post_root]
  have r: "tree_reachable 3 (s0\<lparr>users := 1, tr_run := (\<lambda>_. 0)(0 := 1), tr_sem := (\<lambda>_. 0)(0 := 1)\<rparr>)"
    using s0(2,5,6) by (cases s0) simp
  have "tree_exec 3 [0, 0, 0, 0, 0, 0, 0, 1, 1, 1, 2, 2, 2]
      (s0\<lparr>users := 1, tr_run := (\<lambda>_. 0)(0 := 1), tr_sem := (\<lambda>_. 0)(0 := 1)\<rparr>) = Some tree_demo"
  proof -
    have "tree_exec 3 [0, 0, 0, 0, 0, 0, 0, 1, 1, 1, 2, 2, 2]
      (s0\<lparr>users := 1, tr_run := (\<lambda>_. 0)(0 := 1), tr_sem := (\<lambda>_. 0)(0 := 1)\<rparr>) \<noteq> None"
      using s0(1) by (auto simp: tree_start_def tree_children_def)
    then show ?thesis using s0(1) by (auto simp: tree_demo_def)
  qed
  from tree_exec_reachable [OF this r] show ?thesis .
qed

theorem signal_tree_follows_users_witness:
  "tree_reachable 3 tree_demo \<and> user_signal tree_demo = Silent \<and> place_of tree_demo 2 = Awake"
proof -
  have quiet: "\<not> tree_work 3 tree_demo s'" for s'
  proof
    assume "tree_work 3 tree_demo s'"
    then obtain i where i: "i < 3" and w: "worker_step 3 i (place_of tree_demo i) tree_demo = Some s'"
      by (auto simp: tree_work_def)
    from i consider "i = 0" | "i = 1" | "i = 2" by linarith
    then show False using w tree_demo_run by cases simp_all
  qed
  have "place_of tree_demo 2 = (if shut_down tree_demo then Gone else if 0 < users tree_demo then Awake else Wait_sem)"
    using tree_demo_run by (intro signal_tree_follows_users [OF tree_demo_reachable quiet]) auto
  then show ?thesis using tree_demo_run tree_demo_reachable by simp
qed

subsection \<open>The accesses are those of the operations\<close>

text \<open>The signal node of the system worker \<open>i\<close>, in the table of workers.\<close>

definition node_of :: "rt \<Rightarrow> nat \<Rightarrow> ptr" where
  "node_of s i = signal_node (wks s (workers (glob s) (int i)))"

definition tree_nodes_ok :: "nat \<Rightarrow> rt \<Rightarrow> bool" where
  "tree_nodes_ok n s \<longleftrightarrow> P (glob s) = int n + 1 \<and> inj_on (node_of s) {..<n} \<and> (\<forall>i < n. node_of s i \<noteq> NULL)"

definition same_nodes :: "nat \<Rightarrow> rt \<Rightarrow> tree_state \<Rightarrow> bool" where
  "same_nodes n s t \<longleftrightarrow> (\<forall>i < n. run (snodes s (node_of s i)) = tr_run t i \<and> sem (snodes s (node_of s i)) = tr_sem t i)"

lemma notify_child_access:
  assumes ok: "tree_nodes_ok n s" and c: "c < n" and m: "m \<in> {0, 1}" and same: "same_nodes n s t"
  shows "\<exists>s'. notify_child (int c) m s = Some s' \<and> tree_nodes_ok n s' \<and> glob s' = glob s \<and> wks s' = wks s \<and>
    same_nodes n s' (t\<lparr>tr_run := (tr_run t)(c := m), tr_sem := (tr_sem t)(c := tr_sem t c + (if m = 1 then 1 else 0))\<rparr>)"
proof -
  have nn: "node_of s c \<noteq> NULL" using ok c by (simp add: tree_nodes_ok_def)
  have inj: "i < n \<Longrightarrow> i \<noteq> c \<Longrightarrow> node_of s i \<noteq> node_of s c" for i
    using ok c by (auto simp: tree_nodes_ok_def inj_on_def)
  define s' where "s' = upd_sn (node_of s c) (\<lambda>x. x\<lparr>run := m, sem := sem x + (if m = 1 then 1 else 0)\<rparr>) s"
  have nof: "node_of s' i = node_of s i" for i by (simp add: s'_def node_of_def upd_sn_def)
  have "notify_child (int c) m s = Some s'"
    using m nn by (auto simp: notify_child_def signal_node_msg_def cilk_assert_def node_of_def s'_def upd_sn_def Let_def)
  moreover have "glob s' = glob s" by (simp add: s'_def upd_sn_def)
  then have "tree_nodes_ok n s'" using ok by (simp add: tree_nodes_ok_def nof inj_on_def)
  moreover have "same_nodes n s' (t\<lparr>tr_run := (tr_run t)(c := m), tr_sem := (tr_sem t)(c := tr_sem t c + (if m = 1 then 1 else 0))\<rparr>)"
    using same inj c by (auto simp: same_nodes_def nof) (auto simp: s'_def upd_sn_def)
  ultimately show ?thesis by (auto simp: s'_def upd_sn_def)
qed

text \<open>What is left of telling the children, done by the worker alone.\<close>

definition tell_all :: "nat \<Rightarrow> nat \<Rightarrow> 32 word \<Rightarrow> tree_state \<Rightarrow> tree_state" where
  "tell_all n i m t =
     move i (if m = 1 then Awake else Wait_test)
       (t\<lparr>tr_run := (\<lambda>c. if c \<in> set (tree_children n i) then m else tr_run t c),
          tr_sem := (\<lambda>c. if m = 1 \<and> c \<in> set (tree_children n i) then tr_sem t c + 1 else tr_sem t c)\<rparr>)"

lemma tree_children_cases:
  obtains "n \<le> 2 * i + 1" "tree_children n i = []"
    | "n = 2 * i + 2" "tree_children n i = [2 * i + 1]"
    | "2 * i + 2 < n" "tree_children n i = [2 * i + 1, 2 * i + 2]"
  by (cases "n \<le> 2 * i + 1"; cases "n = 2 * i + 2") (auto simp: tree_children_def)

lemma tell_all_steps:
  assumes "i < n" and m: "m = 0 \<or> m = 1"
  shows "tree_exec n (replicate (Suc (if m = 1 then 2 * length (tree_children n i) else length (tree_children n i))) i)
    (move i (Tell m (tree_children n i)) t) = Some (tell_all n i m t)"
proof -
  have f1: "(\<lambda>c. if c = a then x else f c) = f(a := x)" for f :: "nat \<Rightarrow> 'b" and a x by auto
  show ?thesis
    by (rule tree_children_cases [of n i]; use m assms(1) in \<open>elim disjE\<close>)
       (auto simp: tell_all_def numeral_2_eq_2 fun_eq_iff intro!: tree_state.equality)
qed

lemma notify_children_access:
  assumes ok: "tree_nodes_ok n s" and w: "self (wks s w) = int i" and i: "i < n" and m: "m = 0 \<or> m = 1" and same: "same_nodes n s t"
  shows "\<exists>s'. notify_children w m s = Some s' \<and> same_nodes n s' (tell_all n i m t)"
proof -
  have P: "P (glob s) - 1 = int n" using ok by (simp add: tree_nodes_ok_def)
  have m': "m \<in> {0, 1}" using m by auto
  show ?thesis
  proof (rule tree_children_cases [of n i])
    assume "n \<le> 2 * i + 1" and c: "tree_children n i = []"
    then show ?thesis using same P w by (simp add: notify_children_def tell_all_def same_nodes_def)
  next
    assume n: "n = 2 * i + 2" and c: "tree_children n i = [2 * i + 1]"
    obtain s1 where s1: "notify_child (int (2 * i + 1)) m s = Some s1"
      "same_nodes n s1 (t\<lparr>tr_run := (tr_run t)(2 * i + 1 := m), tr_sem := (tr_sem t)(2 * i + 1 := tr_sem t (2 * i + 1) + (if m = 1 then 1 else 0))\<rparr>)"
      using notify_child_access [OF ok _ m' same, of "2 * i + 1"] n by auto
    then have "notify_children w m s = Some s1" using P w n by (simp add: notify_children_def add.commute)
    then show ?thesis using s1(2) by (auto simp: tell_all_def same_nodes_def c)
  next
    assume n: "2 * i + 2 < n" and c: "tree_children n i = [2 * i + 1, 2 * i + 2]"
    let ?t1 = "t\<lparr>tr_run := (tr_run t)(2 * i + 1 := m), tr_sem := (tr_sem t)(2 * i + 1 := tr_sem t (2 * i + 1) + (if m = 1 then 1 else 0))\<rparr>"
    obtain s1 where s1: "notify_child (int (2 * i + 1)) m s = Some s1" "tree_nodes_ok n s1" "same_nodes n s1 ?t1"
      using notify_child_access [OF ok _ m' same, of "2 * i + 1"] n by auto
    obtain s2 where s2: "notify_child (int (2 * i + 2)) m s1 = Some s2"
      "same_nodes n s2 (?t1\<lparr>tr_run := (tr_run ?t1)(2 * i + 2 := m), tr_sem := (tr_sem ?t1)(2 * i + 2 := tr_sem ?t1 (2 * i + 2) + (if m = 1 then 1 else 0))\<rparr>)"
      using notify_child_access [OF s1(2) n m' s1(3)] by blast
    have "notify_children w m s = Some s2" using P w n s1(1) s2(1) by (simp add: notify_children_def add.commute)
    then show ?thesis using s2(2) by (auto simp: tell_all_def same_nodes_def c)
  qed
qed

end
