(* ===== verification/Fiber_Pool.thy ===== *)
theory Fiber_Pool
  imports Mutexes
begin

text \<open>
  Fibers and the pools they are taken from and put back to (runtime/cilk_fiber.cpp,
  runtime/cilk_fiber-unix.cpp). A pool keeps the fibers that are not in use; a worker's pool has the global
  pool as its parent, which has a lock. On Linux the reference counts are compiled out, so that removing a
  reference always gives the fiber up. The switch from one stack to another is machine code; what surrounds it is modelled.
  The C library's \<open>malloc\<close> and \<open>mmap\<close> are arguments: the address of the block for a new fiber and
  of its stack, null when there is no memory.
\<close>

record cilk_fiber =
  m_start_proc :: ptr
  m_post_switch_proc :: ptr
  m_pending_remove_ref :: ptr
  m_pending_pool :: ptr
  resumable :: bool
  allocated_from_thread :: bool
  fiber_stack_size :: "64 word"
  fiber_owner :: ptr
  resume_sf :: ptr
  stack_op_routine :: ptr
  stack_op_data :: ptr
  m_stack :: ptr
  m_stack_base :: ptr
  m_stack_max :: ptr

text \<open>The array of a pool is the list of its first \<open>size\<close> elements; a pool is used at its end.\<close>

record fiber_pool =
  fp_shared :: bool
  fp_stack_size :: "64 word"
  fp_parent :: ptr
  fp_fibers :: "ptr list"
  fp_max_size :: nat
  fp_total :: int
  fp_high_water :: int
  fp_alloc_max :: int

text \<open>\<open>live_fibers\<close> are the blocks the C library has given out for fibers.\<close>

record fiber_sys =
  pools :: "ptr \<Rightarrow> fiber_pool"
  pool_locks :: "ptr \<Rightarrow> spin_mutex"
  fibers :: "ptr \<Rightarrow> cilk_fiber"
  live_fibers :: "ptr set"

definition upd_pool :: "ptr \<Rightarrow> (fiber_pool \<Rightarrow> fiber_pool) \<Rightarrow> fiber_sys \<Rightarrow> fiber_sys" where
  "upd_pool p f s = s\<lparr>pools := (pools s)(p := f (pools s p))\<rparr>"

definition upd_fiber :: "ptr \<Rightarrow> (cilk_fiber \<Rightarrow> cilk_fiber) \<Rightarrow> fiber_sys \<Rightarrow> fiber_sys" where
  "upd_fiber p f s = s\<lparr>fibers := (fibers s)(p := f (fibers s p))\<rparr>"

abbreviation fp_size :: "fiber_pool \<Rightarrow> nat" where "fp_size q \<equiv> length (fp_fibers q)"

definition lock_pool :: "ptr \<Rightarrow> fiber_sys \<Rightarrow> fiber_sys option" where
  "lock_pool p s =
     (if fp_shared (pools s p)
      then map_option (\<lambda>m. s\<lparr>pool_locks := (pool_locks s)(p := m)\<rparr>) (spin_mutex_lock (pool_locks s p))
      else Some s)"

definition unlock_pool :: "ptr \<Rightarrow> fiber_sys \<Rightarrow> fiber_sys" where
  "unlock_pool p s =
     (if fp_shared (pools s p) then s\<lparr>pool_locks := (pool_locks s)(p := spin_mutex_unlock (pool_locks s p))\<rparr> else s)"

subsection \<open>Stacks\<close>

definition s_page_size :: "64 word" where "s_page_size = 4096"

text \<open>What \<open>mmap\<close> is asked for.\<close>

definition rounded_stack_size :: "64 word \<Rightarrow> 64 word" where
  "rounded_stack_size n =
     (if n < 3 * s_page_size then 3 * s_page_size
      else if n mod s_page_size \<noteq> 0 then n + (s_page_size - n mod s_page_size) else n)"

definition make_stack :: "64 word \<Rightarrow> ptr \<Rightarrow> cilk_fiber \<Rightarrow> cilk_fiber" where
  "make_stack n p f =
     (if p = NULL then f\<lparr>m_stack := NULL, m_stack_base := NULL, m_stack_max := NULL\<rparr>
      else f\<lparr>m_stack := p, m_stack_base := p + rounded_stack_size n - s_page_size\<rparr>)"

text \<open>The number of bytes handed to \<open>munmap\<close>, if it is called.\<close>

definition free_stack :: "cilk_fiber \<Rightarrow> 64 word option" where
  "free_stack f = (if m_stack f \<noteq> NULL then Some (m_stack_max f - m_stack f + s_page_size) else None)"

definition cilk_fiber_new :: cilk_fiber where
  "cilk_fiber_new = \<lparr>m_start_proc = NULL, m_post_switch_proc = NULL, m_pending_remove_ref = NULL, m_pending_pool = NULL,
     resumable = False, allocated_from_thread = False, fiber_stack_size = 0, fiber_owner = NULL, resume_sf = NULL,
     stack_op_routine = NULL, stack_op_data = NULL, m_stack = NULL, m_stack_base = NULL, m_stack_max = NULL\<rparr>"

definition cilk_fiber_sysdep :: "64 word \<Rightarrow> ptr \<Rightarrow> cilk_fiber" where
  "cilk_fiber_sysdep n p =
     (let f = make_stack n p (cilk_fiber_new\<lparr>fiber_stack_size := n\<rparr>);
          f = f\<lparr>m_stack_base := m_stack_base f - (m_stack_base f AND 31)\<rparr>
      in f\<lparr>m_stack_max := m_stack_base f\<rparr>)"

definition cilk_fiber_sysdep_from_thread :: cilk_fiber where
  "cilk_fiber_sysdep_from_thread = cilk_fiber_new\<lparr>allocated_from_thread := True\<rparr>"

text \<open>The size of a stack frame is that of the structure.\<close>

definition allocate_stack_frame :: "64 word \<Rightarrow> cilk_fiber \<Rightarrow> ptr \<times> cilk_fiber" where
  "allocate_stack_frame sizeof_sf f =
     (let b = m_stack_max f - sizeof_sf; b = b - (b AND 31) in (b, f\<lparr>m_stack_base := b\<rparr>))"

subsection \<open>The heap\<close>

text \<open>\<open>mem\<close> is the block and the stack the C library answers. \<open>None\<close> stands for freeing a block that is not
  allocated.\<close>

definition allocate_from_heap :: "ptr \<times> ptr \<Rightarrow> 64 word \<Rightarrow> fiber_sys \<Rightarrow> ptr \<times> fiber_sys" where
  "allocate_from_heap mem n s =
     (if fst mem = NULL then (NULL, s)
      else (fst mem, upd_fiber (fst mem) (\<lambda>_. cilk_fiber_sysdep n (snd mem)) s\<lparr>live_fibers := insert (fst mem) (live_fibers s)\<rparr>))"

definition deallocate_to_heap :: "ptr \<Rightarrow> fiber_sys \<Rightarrow> fiber_sys option" where
  "deallocate_to_heap f s = (if f \<in> live_fibers s then Some (s\<lparr>live_fibers := live_fibers s - {f}\<rparr>) else None)"

fun deallocate_all :: "ptr list \<Rightarrow> fiber_sys \<Rightarrow> fiber_sys option" where
  "deallocate_all [] s = Some s"
| "deallocate_all (f # fs) s = do { s1 \<leftarrow> deallocate_to_heap f s; deallocate_all fs s1 }"

subsection \<open>Pools\<close>

definition increment_pool_total :: "fiber_pool \<Rightarrow> fiber_pool" where
  "increment_pool_total q = q\<lparr>fp_total := fp_total q + 1, fp_high_water := max (fp_high_water q) (fp_total q + 1)\<rparr>"

definition decrement_pool_total :: "nat \<Rightarrow> fiber_pool \<Rightarrow> fiber_pool" where
  "decrement_pool_total n q = q\<lparr>fp_total := fp_total q - int n\<rparr>"

text \<open>Up to ten fibers are taken from the end of the array; then the fiber is put back if there is room.\<close>

definition take_batch :: "nat \<Rightarrow> ptr \<Rightarrow> fiber_pool \<Rightarrow> ((ptr list \<times> bool) \<times> fiber_pool) option" where
  "take_batch num_to_keep fiber_to_return q =
     (let n = min 10 (fp_size q - num_to_keep);
          taken = take n (rev (fp_fibers q));
          q1 = decrement_pool_total n (q\<lparr>fp_fibers := take (fp_size q - n) (fp_fibers q)\<rparr>)
      in if fp_size q1 \<le> num_to_keep
         then (if fiber_to_return \<noteq> NULL
               then do { cilk_assert (fp_size q1 < fp_max_size q1);
                         Some ((taken, True), q1\<lparr>fp_fibers := fp_fibers q1 @ [fiber_to_return]\<rparr>) }
               else Some ((taken, True), q1))
         else Some ((taken, False), q1))"

definition free_section :: "ptr \<Rightarrow> nat \<Rightarrow> ptr \<Rightarrow> fiber_sys \<Rightarrow> ((ptr list \<times> bool) \<times> fiber_sys) option" where
  "free_section p num_to_keep fiber_to_return s =
     do { s1 \<leftarrow> lock_pool p s;
          (r, q) \<leftarrow> take_batch num_to_keep fiber_to_return (pools s1 p);
          Some (r, unlock_pool p (upd_pool p (\<lambda>_. q) s1)) }"

partial_function (option) free_fibers_from_pool :: "ptr \<Rightarrow> nat \<Rightarrow> ptr \<Rightarrow> fiber_sys \<Rightarrow> fiber_sys option" where
  [code]: "free_fibers_from_pool p num_to_keep fiber_to_return s =
     Option.bind (free_section p num_to_keep fiber_to_return s)
       (\<lambda>((to_free, last_fiber_returned), s1).
          Option.bind (deallocate_all to_free s1)
            (\<lambda>s2. if last_fiber_returned then Some s2 else free_fibers_from_pool p num_to_keep fiber_to_return s2))"

definition move_fibers_to_parent_pool :: "ptr \<Rightarrow> nat \<Rightarrow> fiber_sys \<Rightarrow> fiber_sys option" where
  "move_fibers_to_parent_pool p num_to_keep s =
     (let par = fp_parent (pools s p)
      in do { cilk_assert (par \<noteq> NULL);
              if fp_max_size (pools s par) \<le> fp_size (pools s par) then Some s
              else do { s1 \<leftarrow> lock_pool par s;
                        let q = pools s1 p;
                        let n = min (fp_max_size (pools s1 par) - fp_size (pools s1 par)) (fp_size q - num_to_keep);
                        let s2 = upd_pool par (\<lambda>a. a\<lparr>fp_fibers := fp_fibers a @ take n (rev (fp_fibers q))\<rparr>)
                                   (upd_pool p (\<lambda>a. a\<lparr>fp_fibers := take (fp_size a - n) (fp_fibers a)\<rparr>) s1);
                        let s3 = (if fp_total (pools s2 p) < 0
                                  then upd_pool p (\<lambda>a. a\<lparr>fp_total := 0\<rparr>)
                                         (upd_pool par (\<lambda>a. a\<lparr>fp_total := fp_total a + fp_total (pools s2 p)\<rparr>) s2)
                                  else s2);
                        Some (unlock_pool par s3) } })"

text \<open>\<open>arr\<close> is the address of the array.\<close>

definition cilk_fiber_pool_init ::
  "ptr \<Rightarrow> ptr \<Rightarrow> ptr \<Rightarrow> 64 word \<Rightarrow> nat \<Rightarrow> int \<Rightarrow> bool \<Rightarrow> fiber_sys \<Rightarrow> fiber_sys option" where
  "cilk_fiber_pool_init arr p par stacksize buffer_size alloc_max is_shared s =
     (let s1 = upd_pool p (\<lambda>_. \<lparr>fp_shared = is_shared, fp_stack_size = stacksize, fp_parent = par, fp_fibers = [],
                 fp_max_size = buffer_size, fp_total = 0, fp_high_water = 0, fp_alloc_max = alloc_max\<rparr>) s;
          s2 = (if is_shared then s1\<lparr>pool_locks := (pool_locks s1)(p := spin_mutex_init (pool_locks s1 p))\<rparr> else s1)
      in do { cilk_assert (arr \<noteq> NULL); Some s2 })"

definition cilk_fiber_pool_set_fiber_limit :: "ptr \<Rightarrow> int \<Rightarrow> fiber_sys \<Rightarrow> fiber_sys option" where
  "cilk_fiber_pool_set_fiber_limit root n s =
     do { cilk_assert (fp_parent (pools s root) = NULL); Some (upd_pool root (fp_alloc_max_update (\<lambda>_. n)) s) }"

definition cilk_fiber_pool_destroy :: "ptr \<Rightarrow> fiber_sys \<Rightarrow> fiber_sys option" where
  "cilk_fiber_pool_destroy p s =
     do { s1 \<leftarrow> lock_pool p s;
          s2 \<leftarrow> (if fp_parent (pools s1 p) \<noteq> NULL then move_fibers_to_parent_pool p 0 s1 else Some s1);
          free_fibers_from_pool p 0 NULL (unlock_pool p s2) }"

subsection \<open>Allocation\<close>

text \<open>Steps 1 to 4: a fiber of the pool, or null and whether one may be made.\<close>

definition allocate_section :: "ptr \<Rightarrow> fiber_sys \<Rightarrow> ((ptr \<times> bool) \<times> fiber_sys) option" where
  "allocate_section p s =
     do { s1 \<leftarrow> lock_pool p s;
          let q = pools s1 p;
          if fp_fibers q \<noteq> []
          then Some ((last (fp_fibers q), False), unlock_pool p (upd_pool p (fp_fibers_update butlast) s1))
          else if fp_total q < fp_alloc_max q
          then Some ((NULL, True), unlock_pool p (upd_pool p increment_pool_total s1))
          else Some ((NULL, False), unlock_pool p s1) }"

definition allocate_undo :: "ptr \<Rightarrow> fiber_sys \<Rightarrow> fiber_sys option" where
  "allocate_undo p s = map_option (\<lambda>s1. unlock_pool p (upd_pool p (decrement_pool_total 1) s1)) (lock_pool p s)"

definition allocate_new :: "ptr \<times> ptr \<Rightarrow> ptr \<Rightarrow> fiber_sys \<Rightarrow> (ptr \<times> fiber_sys) option" where
  "allocate_new mem p s =
     (let (f, s1) = allocate_from_heap mem (fp_stack_size (pools s p)) s
      in if f \<noteq> NULL then Some (f, s1) else map_option (Pair NULL) (allocate_undo p s1))"

text \<open>\<open>mem\<close> gives the C library's answers for each pool that asks.\<close>

partial_function (option) cilk_fiber_allocate ::
  "(ptr \<Rightarrow> ptr \<times> ptr) \<Rightarrow> ptr \<Rightarrow> fiber_sys \<Rightarrow> (ptr \<times> fiber_sys) option" where
  [code]: "cilk_fiber_allocate mem p s =
     Option.bind (allocate_section p s)
       (\<lambda>((f, can_allocate), s1).
          Option.bind (if can_allocate then allocate_new (mem p) p s1 else Some (f, s1))
            (\<lambda>(f, s2). if f \<noteq> NULL then Some (f, s2)
                       else if fp_parent (pools s2 p) \<noteq> NULL then cilk_fiber_allocate mem (fp_parent (pools s2 p)) s2
                       else Some (NULL, s2)))"

subsection \<open>Giving a fiber back\<close>

text \<open>The first section answers whether the fiber was put back; if not, fibers are freed to make room.\<close>

definition deallocate_section :: "ptr \<Rightarrow> ptr \<Rightarrow> fiber_sys \<Rightarrow> (bool \<times> fiber_sys) option" where
  "deallocate_section f p s =
     do { s1 \<leftarrow> lock_pool p s;
          let q = pools s1 p;
          if fp_size q < fp_max_size q
          then Some (True, unlock_pool p (upd_pool p (\<lambda>a. a\<lparr>fp_fibers := fp_fibers a @ [f]\<rparr>) s1))
          else do { s2 \<leftarrow> (if fp_parent q \<noteq> NULL
                           then move_fibers_to_parent_pool p (fp_max_size q div 2 + fp_max_size q div 4) s1 else Some s1);
                    Some (False, unlock_pool p s2) } }"

text \<open>\<open>pool->max_size - 1\<close> is unsigned.\<close>

definition keep_all_but_one :: "nat \<Rightarrow> nat" where
  "keep_all_but_one n = (if n = 0 then 2 ^ 32 - 1 else n - 1)"

definition deallocate_self :: "ptr \<Rightarrow> ptr \<Rightarrow> fiber_sys \<Rightarrow> fiber_sys option" where
  "deallocate_self f p s =
     (let s0 = upd_fiber f (resumable_update (\<lambda>_. False)) s
      in do { cilk_assert (p \<noteq> NULL);
              cilk_assert (\<not> allocated_from_thread (fibers s0 f));
              (done, s1) \<leftarrow> deallocate_section f p s0;
              if done then Some s1 else free_fibers_from_pool p (keep_all_but_one (fp_max_size (pools s1 p))) f s1 })"

definition cilk_fiber_remove_reference :: "ptr \<Rightarrow> ptr \<Rightarrow> fiber_sys \<Rightarrow> fiber_sys option" where
  "cilk_fiber_remove_reference f p s = (if p \<noteq> NULL then deallocate_self f p s else deallocate_to_heap f s)"

subsection \<open>Threads and switches\<close>

text \<open>\<open>new\<close> is the block for the fiber of a thread, which is not one of the pools' fibers.\<close>

definition allocate_from_thread :: "ptr \<Rightarrow> fiber_sys \<Rightarrow> (ptr \<times> fiber_sys) option" where
  "allocate_from_thread new s =
     do { cilk_assert (new \<noteq> NULL);
          Some (new, upd_fiber new (\<lambda>_. cilk_fiber_sysdep_from_thread) s\<lparr>live_fibers := insert new (live_fibers s)\<rparr>) }"

definition deallocate_from_thread :: "ptr \<Rightarrow> fiber_sys \<Rightarrow> fiber_sys option" where
  "deallocate_from_thread f s =
     do { cilk_assert (allocated_from_thread (fibers s f)); deallocate_to_heap f s }"

definition cilk_fiber_reset_state :: "ptr \<Rightarrow> ptr \<Rightarrow> fiber_sys \<Rightarrow> fiber_sys option" where
  "cilk_fiber_reset_state f start_proc s =
     (let s1 = upd_fiber f (m_start_proc_update (\<lambda>_. start_proc)) s; x = fibers s1 f
      in do { cilk_assert (\<not> resumable x); cilk_assert (m_pending_remove_ref x = NULL);
              cilk_assert (m_pending_pool x = NULL); Some s1 })"

definition cilk_fiber_set_post_switch_proc :: "ptr \<Rightarrow> ptr \<Rightarrow> fiber_sys \<Rightarrow> fiber_sys" where
  "cilk_fiber_set_post_switch_proc f proc s = upd_fiber f (m_post_switch_proc_update (\<lambda>_. proc)) s"

text \<open>How the other fiber goes on: where it was suspended, or with its start procedure.\<close>

datatype entry = Resumed | Started ptr

definition resume_other_sysdep :: "ptr \<Rightarrow> fiber_sys \<Rightarrow> (entry \<times> fiber_sys) option" where
  "resume_other_sysdep other s =
     (let x = fibers s other
      in if resumable x then Some (Resumed, upd_fiber other (resumable_update (\<lambda>_. False)) s)
         else do { cilk_assert (m_start_proc x \<noteq> NULL);
                   cilk_assert (\<not> allocated_from_thread x);
                   Some (Started (m_start_proc x), s) })"

definition pass_owner :: "ptr \<Rightarrow> ptr \<Rightarrow> fiber_sys \<Rightarrow> fiber_sys" where
  "pass_owner f other s =
     upd_fiber f (fiber_owner_update (\<lambda>_. NULL)) (upd_fiber other (fiber_owner_update (\<lambda>_. fiber_owner (fibers s f))) s)"

definition suspend_self_and_resume_other :: "ptr \<Rightarrow> ptr \<Rightarrow> fiber_sys \<Rightarrow> (entry \<times> fiber_sys) option" where
  "suspend_self_and_resume_other f other s =
     (let s1 = pass_owner f other s
      in do { cilk_assert (\<not> resumable (fibers s1 f));
              resume_other_sysdep other (upd_fiber f (resumable_update (\<lambda>_. True)) s1) })"

definition remove_reference_from_self_and_resume_other ::
  "ptr \<Rightarrow> ptr \<Rightarrow> ptr \<Rightarrow> fiber_sys \<Rightarrow> (entry \<times> fiber_sys) option" where
  "remove_reference_from_self_and_resume_other f self_pool other s =
     (let s1 = pass_owner f other (upd_fiber other (\<lambda>x. x\<lparr>m_pending_remove_ref := f, m_pending_pool := self_pool\<rparr>) s)
      in do { cilk_assert (\<not> resumable (fibers s1 f)); resume_other_sysdep other s1 })"

text \<open>On the new stack: the procedure to be called after the switch is forgotten and called, then the
  pending fiber is given up.\<close>

definition take_post_switch_proc :: "ptr \<Rightarrow> fiber_sys \<Rightarrow> ptr \<times> fiber_sys" where
  "take_post_switch_proc f s =
     (let p = m_post_switch_proc (fibers s f)
      in (p, if p \<noteq> NULL then upd_fiber f (m_post_switch_proc_update (\<lambda>_. NULL)) s else s))"

definition give_up_pending :: "ptr \<Rightarrow> fiber_sys \<Rightarrow> fiber_sys option" where
  "give_up_pending f s =
     (let r = m_pending_remove_ref (fibers s f)
      in if r \<noteq> NULL
         then do { s1 \<leftarrow> cilk_fiber_remove_reference r (m_pending_pool (fibers s f)) s;
                   Some (upd_fiber f (\<lambda>x. x\<lparr>m_pending_remove_ref := NULL, m_pending_pool := NULL\<rparr>) s1) }
         else Some s)"

subsection \<open>The stack operations of a foreign library\<close>

text \<open>The routine and its data saved for a thread that is not bound to the runtime.\<close>

type_synonym tbb_tls = "(ptr \<times> ptr) option"

definition cilk_fiber_set_stack_op :: "ptr \<Rightarrow> ptr \<times> ptr \<Rightarrow> fiber_sys \<Rightarrow> fiber_sys" where
  "cilk_fiber_set_stack_op f op s = upd_fiber f (\<lambda>x. x\<lparr>stack_op_routine := fst op, stack_op_data := snd op\<rparr>) s"

definition tbb_interop_save_stack_op_info :: "ptr \<times> ptr \<Rightarrow> tbb_tls \<Rightarrow> tbb_tls" where
  "tbb_interop_save_stack_op_info op tls = Some op"

definition tbb_interop_save_info_from_stack :: "ptr \<Rightarrow> fiber_sys \<Rightarrow> tbb_tls \<Rightarrow> tbb_tls" where
  "tbb_interop_save_info_from_stack f s tls =
     (if f = NULL then tls
      else if stack_op_routine (fibers s f) = NULL then tls
      else Some (stack_op_routine (fibers s f), stack_op_data (fibers s f)))"

definition tbb_interop_use_saved_stack_op_info :: "ptr \<Rightarrow> fiber_sys \<times> tbb_tls \<Rightarrow> (fiber_sys \<times> tbb_tls) option" where
  "tbb_interop_use_saved_stack_op_info f x =
     do { cilk_assert (f \<noteq> NULL);
          Some (case snd x of None \<Rightarrow> x | Some op \<Rightarrow> (cilk_fiber_set_stack_op f op (fst x), None)) }"

definition tbb_interop_free_stack_op_info :: "tbb_tls \<Rightarrow> tbb_tls" where
  "tbb_interop_free_stack_op_info tls = None"

datatype tbb_stack_op = CILK_TBB_STACK_ORPHAN | CILK_TBB_STACK_ADOPT | CILK_TBB_STACK_RELEASE

text \<open>The call that is made, if any, and the fiber after it.\<close>

definition invoke_tbb_stack_op :: "ptr \<Rightarrow> tbb_stack_op \<Rightarrow> fiber_sys \<Rightarrow> (ptr \<times> tbb_stack_op \<times> ptr) option \<times> fiber_sys" where
  "invoke_tbb_stack_op f op s =
     (let x = fibers s f
      in if stack_op_routine x = NULL then (None, s)
         else (Some (stack_op_routine x, op, stack_op_data x),
               if op = CILK_TBB_STACK_RELEASE then cilk_fiber_set_stack_op f (NULL, NULL) s else s))"

end
