(* ===== verification/Fiber_Pool_Proofs.thy ===== *)
theory Fiber_Pool_Proofs
  imports Fiber_Pool "HOL-Library.Multiset"
begin

text \<open>
  Where every fiber is: in one pool, in use, or about to be freed; and how many there can be. The workers' calls
  are cut at the locks: their sections are interleaved in any way. Alone, each call returns, and taking
  a fiber after giving one back gives the same.
\<close>

subsection \<open>One pool among several\<close>

lemma sum_list_upd:
  fixes f :: "'p \<Rightarrow> 'a :: comm_monoid_add"
  assumes "p \<in> set ps" and "distinct ps"
  shows "\<exists>R. \<forall>x. (\<Sum>q\<leftarrow>ps. (f(p := x)) q) = x + R"
  using assms
proof (induction ps)
  case (Cons a ps)
  show ?case
  proof (cases "a = p")
    case True
    then have "(\<Sum>q\<leftarrow>ps. (f(p := x)) q) = (\<Sum>q\<leftarrow>ps. f q)" for x
      using Cons.prems by (intro arg_cong [where f = sum_list] map_cong) auto
    then show ?thesis using True by (intro exI [of _ "\<Sum>q\<leftarrow>ps. f q"]) simp
  next
    case False
    then obtain R where "\<forall>x. (\<Sum>q\<leftarrow>ps. (f(p := x)) q) = x + R" using Cons by auto
    then show ?thesis using False by (intro exI [of _ "f a + R"]) (simp add: ac_simps)
  qed
qed simp

text \<open>\<open>f\<close> is any measure of a pool that adds up over the pools.\<close>

definition over_pools :: "(fiber_pool \<Rightarrow> 'a :: comm_monoid_add) \<Rightarrow> ptr list \<Rightarrow> (ptr \<Rightarrow> fiber_pool) \<Rightarrow> 'a" where
  "over_pools f ps P = (\<Sum>p\<leftarrow>ps. f (P p))"

lemma over_pools_upd:
  assumes "p \<in> set ps" and "distinct ps"
  obtains R where "\<And>q. over_pools f ps (P(p := q)) = f q + R"
proof -
  obtain R where R: "\<forall>x. (\<Sum>q\<leftarrow>ps. ((f \<circ> P)(p := x)) q) = x + R"
    using sum_list_upd [OF assms, of "f \<circ> P"] by blast
  have "over_pools f ps (P(p := q)) = f q + R" for q
  proof -
    have "over_pools f ps (P(p := q)) = (\<Sum>x\<leftarrow>ps. ((f \<circ> P)(p := f q)) x)"
      unfolding over_pools_def by (intro arg_cong [where f = sum_list] map_cong) auto
    then show ?thesis using R by simp
  qed
  then show thesis by (rule that)
qed

lemma over_pools_change:
  assumes "p \<in> set ps" and "distinct ps"
  shows "over_pools f ps (P(p := q)) + f (P p) = over_pools f ps P + f q"
proof -
  obtain R where R: "\<And>q. over_pools f ps (P(p := q)) = f q + R" using over_pools_upd [OF assms] by blast
  have "over_pools f ps P = f (P p) + R" using R [of "P p"] by simp
  then show ?thesis by (simp add: R ac_simps)
qed

abbreviation pool_mset :: "fiber_pool \<Rightarrow> ptr multiset" where "pool_mset q \<equiv> mset (fp_fibers q)"

subsection \<open>Sections\<close>

definition lock_free :: "ptr \<Rightarrow> fiber_sys \<Rightarrow> bool" where
  "lock_free p s \<longleftrightarrow> spin_lock (pool_locks s p) = 0"

lemma lock_pool_free:
  assumes "lock_free p s"
  obtains s1 where "lock_pool p s = Some s1" "pools s1 = pools s" "fibers s1 = fibers s" "live_fibers s1 = live_fibers s"
    "\<And>q. q \<noteq> p \<Longrightarrow> pool_locks s1 q = pool_locks s q"
    "\<And>P. fp_shared (P p) = fp_shared (pools s p) \<Longrightarrow> unlock_pool p (s1\<lparr>pools := P\<rparr>) = s\<lparr>pools := P\<rparr>"
proof (cases "fp_shared (pools s p)")
  case True
  let ?s1 = "s\<lparr>pool_locks := (pool_locks s)(p := (pool_locks s p)\<lparr>spin_lock := 1\<rparr>)\<rparr>"
  have "unlock_pool p (?s1\<lparr>pools := P\<rparr>) = s\<lparr>pools := P\<rparr>" if "fp_shared (P p) = fp_shared (pools s p)" for P
  proof -
    have "(pool_locks s p)\<lparr>spin_lock := 0\<rparr> = pool_locks s p" using assms by (simp add: lock_free_def)
    then have "(pool_locks s)(p := (pool_locks s p)\<lparr>spin_lock := 0\<rparr>) = pool_locks s" by simp
    then show ?thesis using that True by (simp add: unlock_pool_def spin_mutex_unlock_def xchg_lock_def)
  qed
  then show ?thesis using True assms by (intro that [of ?s1]) (auto simp: lock_pool_def lock_free_def)
next
  case False
  then show ?thesis by (intro that [of s]) (auto simp: lock_pool_def unlock_pool_def)
qed

lemma allocate_section_effect:
  assumes "lock_free p s"
  shows "allocate_section p s =
    (let q = pools s p in
     if fp_fibers q \<noteq> [] then Some ((last (fp_fibers q), False), s\<lparr>pools := (pools s)(p := fp_fibers_update butlast q)\<rparr>)
     else if fp_total q < fp_alloc_max q then Some ((NULL, True), s\<lparr>pools := (pools s)(p := increment_pool_total q)\<rparr>)
     else Some ((NULL, False), s))"
proof -
  obtain s1 where s1: "lock_pool p s = Some s1" "pools s1 = pools s"
    and u: "\<And>P. fp_shared (P p) = fp_shared (pools s p) \<Longrightarrow> unlock_pool p (s1\<lparr>pools := P\<rparr>) = s\<lparr>pools := P\<rparr>"
    using lock_pool_free [OF assms] by metis
  have "s1\<lparr>pools := pools s\<rparr> = s1" unfolding s1(2) [symmetric] by simp
  then have u1: "unlock_pool p s1 = s" using u [of "pools s"] by simp
  show ?thesis
    by (simp add: allocate_section_def s1 upd_pool_def u u1 increment_pool_total_def Let_def)
qed

lemma allocate_undo_effect:
  assumes "lock_free p s"
  shows "allocate_undo p s = Some (s\<lparr>pools := (pools s)(p := decrement_pool_total 1 (pools s p))\<rparr>)"
proof -
  obtain s1 where s1: "lock_pool p s = Some s1" "pools s1 = pools s"
    and u: "\<And>P. fp_shared (P p) = fp_shared (pools s p) \<Longrightarrow> unlock_pool p (s1\<lparr>pools := P\<rparr>) = s\<lparr>pools := P\<rparr>"
    using lock_pool_free [OF assms] by metis
  show ?thesis by (simp add: allocate_undo_def s1 upd_pool_def u decrement_pool_total_def)
qed

lemma take_batch_shared: "take_batch k f q = Some (r, q') \<Longrightarrow> fp_shared q' = fp_shared q"
  by (auto simp: take_batch_def decrement_pool_total_def Let_def split: if_splits bind_splits)

lemma free_section_effect:
  assumes "lock_free p s"
  shows "free_section p k f s = map_option (\<lambda>(r, q). (r, s\<lparr>pools := (pools s)(p := q)\<rparr>)) (take_batch k f (pools s p))"
proof -
  obtain s1 where s1: "lock_pool p s = Some s1" "pools s1 = pools s"
    and u: "\<And>P. fp_shared (P p) = fp_shared (pools s p) \<Longrightarrow> unlock_pool p (s1\<lparr>pools := P\<rparr>) = s\<lparr>pools := P\<rparr>"
    using lock_pool_free [OF assms] by metis
  show ?thesis
    by (cases "take_batch k f (pools s p)") (auto simp: free_section_def s1 upd_pool_def u take_batch_shared)
qed

text \<open>What moves to the parent, and both pools after it.\<close>

definition moved :: "nat \<Rightarrow> fiber_pool \<Rightarrow> fiber_pool \<Rightarrow> nat" where
  "moved k q a = min (fp_max_size a - fp_size a) (fp_size q - k)"

definition child_after :: "nat \<Rightarrow> fiber_pool \<Rightarrow> fiber_pool \<Rightarrow> fiber_pool" where
  "child_after k q a = q\<lparr>fp_fibers := take (fp_size q - moved k q a) (fp_fibers q), fp_total := max 0 (fp_total q)\<rparr>"

definition parent_after :: "nat \<Rightarrow> fiber_pool \<Rightarrow> fiber_pool \<Rightarrow> fiber_pool" where
  "parent_after k q a = a\<lparr>fp_fibers := fp_fibers a @ take (moved k q a) (rev (fp_fibers q)), fp_total := fp_total a + min 0 (fp_total q)\<rparr>"

lemma move_effect:
  assumes par: "fp_parent (pools s p) = r" "r \<noteq> NULL" "r \<noteq> p" and l: "lock_free r s"
  shows "move_fibers_to_parent_pool p k s =
    Some (if fp_max_size (pools s r) \<le> fp_size (pools s r) then s
          else s\<lparr>pools := (pools s)(p := child_after k (pools s p) (pools s r), r := parent_after k (pools s p) (pools s r))\<rparr>)"
proof -
  obtain s1 where s1: "lock_pool r s = Some s1" "pools s1 = pools s"
    and u: "\<And>P. fp_shared (P r) = fp_shared (pools s r) \<Longrightarrow> unlock_pool r (s1\<lparr>pools := P\<rparr>) = s\<lparr>pools := P\<rparr>"
    using lock_pool_free [OF l] by metis
  let ?q = "pools s p" and ?a = "pools s r"
  show ?thesis
  proof (cases "fp_max_size ?a \<le> fp_size ?a")
    case True
    then show ?thesis using par by (simp add: move_fibers_to_parent_pool_def)
  next
    case False
    have "(if fp_total ?q < 0 then (pools s)(r := parent_after k ?q ?a, p := child_after k ?q ?a)
           else (pools s)(p := child_after k ?q ?a, r := parent_after k ?q ?a))
         = (pools s)(p := child_after k ?q ?a, r := parent_after k ?q ?a)"
      using par(3) by (auto simp: fun_upd_twist)
    have e: "((pools s)(p := x, r := y))(r := y', p := x') = (pools s)(p := x', r := y')" for x y x' y'
      using par(3) by auto
    show ?thesis using False par s1
      by (simp add: move_fibers_to_parent_pool_def upd_pool_def u child_after_def parent_after_def moved_def Let_def e)
        (auto simp: fun_eq_iff child_after_def parent_after_def moved_def intro!: arg_cong [where f = "\<lambda>P. s\<lparr>pools := P\<rparr>"])
  qed
qed

subsection \<open>The invariant\<close>

text \<open>The first pool of the list is the global one, the others are the workers'. The ghost lists are the fibers in use
  and those taken out of a pool to be freed; \<open>reserved\<close> counts the fibers a pool has accounted for that are being made.\<close>

record fiber_ghost =
  fsys :: fiber_sys
  in_use :: "ptr list"
  condemned :: "ptr list"
  reserved :: "ptr \<Rightarrow> nat"

definition pool_fits :: "fiber_pool \<Rightarrow> bool" where
  "pool_fits q \<longleftrightarrow> 1 \<le> fp_max_size q \<and> fp_size q \<le> fp_max_size q \<and> fp_total q \<le> fp_alloc_max q \<and> 0 \<le> fp_alloc_max q"

definition pools_ok :: "ptr list \<Rightarrow> fiber_sys \<Rightarrow> bool" where
  "pools_ok ps s \<longleftrightarrow> distinct ps \<and> ps \<noteq> [] \<and> NULL \<notin> set ps \<and>
     fp_parent (pools s (hd ps)) = NULL \<and> (\<forall>p \<in> set (tl ps). fp_parent (pools s p) = hd ps) \<and>
     (\<forall>p \<in> set ps. lock_free p s \<and> pool_fits (pools s p))"

definition fiber_inv :: "ptr list \<Rightarrow> fiber_ghost \<Rightarrow> bool" where
  "fiber_inv ps g \<longleftrightarrow> pools_ok ps (fsys g) \<and>
     finite (live_fibers (fsys g)) \<and> NULL \<notin> live_fibers (fsys g) \<and>
     over_pools pool_mset ps (pools (fsys g)) + mset (in_use g) + mset (condemned g) = mset_set (live_fibers (fsys g)) \<and>
     over_pools fp_total ps (pools (fsys g)) =
       int (size (over_pools pool_mset ps (pools (fsys g))) + length (in_use g) + (\<Sum>p\<leftarrow>ps. reserved g p))"

text \<open>The sections of the calls, by any thread in any order.\<close>

inductive fiber_step :: "ptr list \<Rightarrow> fiber_ghost \<Rightarrow> fiber_ghost \<Rightarrow> bool" for ps where
  take_fiber: "p \<in> set ps \<Longrightarrow> allocate_section p (fsys g) = Some ((f, False), s) \<Longrightarrow> f \<noteq> NULL \<Longrightarrow>
     fiber_step ps g (g\<lparr>fsys := s, in_use := f # in_use g\<rparr>)"
| none_left: "p \<in> set ps \<Longrightarrow> allocate_section p (fsys g) = Some ((NULL, False), s) \<Longrightarrow> fiber_step ps g (g\<lparr>fsys := s\<rparr>)"
| reserve: "p \<in> set ps \<Longrightarrow> allocate_section p (fsys g) = Some ((f, True), s) \<Longrightarrow>
     fiber_step ps g (g\<lparr>fsys := s, reserved := (reserved g)(p := reserved g p + 1)\<rparr>)"
| make: "p \<in> set ps \<Longrightarrow> 0 < reserved g p \<Longrightarrow> fst mem \<noteq> NULL \<Longrightarrow> fst mem \<notin> live_fibers (fsys g) \<Longrightarrow>
     allocate_from_heap mem n (fsys g) = (f, s) \<Longrightarrow>
     fiber_step ps g (g\<lparr>fsys := s, in_use := f # in_use g, reserved := (reserved g)(p := reserved g p - 1)\<rparr>)"
| no_memory: "p \<in> set ps \<Longrightarrow> 0 < reserved g p \<Longrightarrow> allocate_undo p (fsys g) = Some s \<Longrightarrow>
     fiber_step ps g (g\<lparr>fsys := s, reserved := (reserved g)(p := reserved g p - 1)\<rparr>)"
| put_back: "p \<in> set ps \<Longrightarrow> f \<in> set (in_use g) \<Longrightarrow> deallocate_section f p (fsys g) = Some (True, s) \<Longrightarrow>
     fiber_step ps g (g\<lparr>fsys := s, in_use := remove1 f (in_use g)\<rparr>)"
| pool_full: "p \<in> set ps \<Longrightarrow> f \<in> set (in_use g) \<Longrightarrow> deallocate_section f p (fsys g) = Some (False, s) \<Longrightarrow>
     fiber_step ps g (g\<lparr>fsys := s\<rparr>)"
| free_some: "p \<in> set ps \<Longrightarrow> f = NULL \<or> f \<in> set (in_use g) \<Longrightarrow> free_section p k f (fsys g) = Some ((fs, done), s) \<Longrightarrow>
     fiber_step ps g (g\<lparr>fsys := s, in_use := (if done then remove1 f (in_use g) else in_use g),
       condemned := fs @ condemned g\<rparr>)"
| free_one: "f \<in> set (condemned g) \<Longrightarrow> deallocate_to_heap f (fsys g) = Some s \<Longrightarrow>
     fiber_step ps g (g\<lparr>fsys := s, condemned := remove1 f (condemned g)\<rparr>)"

inductive fiber_reachable :: "ptr list \<Rightarrow> fiber_sys \<Rightarrow> fiber_ghost \<Rightarrow> bool" for ps s0 where
  start: "fiber_reachable ps s0 \<lparr>fsys = s0, in_use = [], condemned = [], reserved = (\<lambda>_. 0)\<rparr>"
| step: "fiber_reachable ps s0 g \<Longrightarrow> fiber_step ps g g' \<Longrightarrow> fiber_reachable ps s0 g'"

text \<open>A pool that keeps its place in the tree and stays within its limits.\<close>

definition good_update :: "fiber_pool \<Rightarrow> fiber_pool \<Rightarrow> bool" where
  "good_update q q' \<longleftrightarrow> fp_parent q' = fp_parent q \<and> fp_max_size q' = fp_max_size q \<and> fp_alloc_max q' = fp_alloc_max q \<and>
     fp_size q' \<le> fp_max_size q' \<and> fp_total q' \<le> fp_alloc_max q'"

lemma pools_ok_upd:
  assumes "pools_ok ps s" and "p \<in> set ps" and "good_update (pools s p) q"
  shows "pools_ok ps (s\<lparr>pools := (pools s)(p := q)\<rparr>)"
proof -
  have par: "fp_parent (((pools s)(p := q)) x) = fp_parent (pools s x)" for x using assms(3) by (simp add: good_update_def)
  have "pool_fits (pools s x) \<Longrightarrow> pool_fits (((pools s)(p := q)) x)" for x
    using assms(3) by (auto simp: good_update_def pool_fits_def)
  moreover have "pools (s\<lparr>pools := (pools s)(p := q)\<rparr>) = (pools s)(p := q)" "pool_locks (s\<lparr>pools := (pools s)(p := q)\<rparr>) = pool_locks s"
    by simp_all
  ultimately show ?thesis using assms(1) unfolding pools_ok_def lock_free_def by (simp only: par) blast
qed

lemma pools_ok_same: "pools_ok ps s \<Longrightarrow> pools s' = pools s \<Longrightarrow> pool_locks s' = pool_locks s \<Longrightarrow> pools_ok ps s'"
  by (simp add: pools_ok_def lock_free_def)

text \<open>A change of one pool keeps the invariant when fibers and totals balance.\<close>

lemma fiber_inv_change:
  assumes inv: "fiber_inv ps g" and p: "p \<in> set ps" and good: "good_update (pools (fsys g) p) q"
    and m: "mset (fp_fibers q) + mset u + mset k = mset (fp_fibers (pools (fsys g) p)) + mset (in_use g) + mset (condemned g)"
    and t: "fp_total q + int (length k) + int (\<Sum>x\<leftarrow>ps. reserved g x) =
      fp_total (pools (fsys g) p) + int (length (condemned g)) + int (\<Sum>x\<leftarrow>ps. r x)"
  shows "fiber_inv ps (g\<lparr>fsys := (fsys g)\<lparr>pools := (pools (fsys g))(p := q)\<rparr>, in_use := u, condemned := k, reserved := r\<rparr>)"
proof -
  let ?P = "pools (fsys g)"
  have d: "distinct ps" using inv by (simp add: fiber_inv_def pools_ok_def)
  obtain R where R: "\<And>q. over_pools pool_mset ps (?P(p := q)) = pool_mset q + R" using over_pools_upd [OF p d] by blast
  obtain T where T: "\<And>q. over_pools fp_total ps (?P(p := q)) = fp_total q + T" using over_pools_upd [OF p d] by blast
  have R0: "over_pools pool_mset ps ?P = pool_mset (?P p) + R" using R [of "?P p"] by simp
  have T0: "over_pools fp_total ps ?P = fp_total (?P p) + T" using T [of "?P p"] by simp
  have I: "pools_ok ps (fsys g)" "finite (live_fibers (fsys g))" "NULL \<notin> live_fibers (fsys g)"
    "pool_mset (?P p) + R + mset (in_use g) + mset (condemned g) = mset_set (live_fibers (fsys g))"
    "fp_total (?P p) + T = int (size (pool_mset (?P p) + R) + length (in_use g) + (\<Sum>p\<leftarrow>ps. reserved g p))"
    using inv unfolding fiber_inv_def R0 T0 by auto
  have bal: "pool_mset q + R + mset u + mset k = pool_mset (?P p) + R + mset (in_use g) + mset (condemned g)"
  proof -
    have "(pool_mset q + mset u + mset k) + R = (pool_mset (?P p) + mset (in_use g) + mset (condemned g)) + R" using m by simp
    then show ?thesis by (simp only: ac_simps)
  qed
  have len: "fp_size q + length u + length k = fp_size (?P p) + length (in_use g) + length (condemned g)"
    using arg_cong [OF m, of size] by simp
  have tot: "fp_total q + T = int (size (pool_mset q + R) + length u + (\<Sum>p\<leftarrow>ps. r p))"
    using I(5) t len by simp
  let ?g = "g\<lparr>fsys := (fsys g)\<lparr>pools := ?P(p := q)\<rparr>, in_use := u, condemned := k, reserved := r\<rparr>"
  have sel: "fsys ?g = (fsys g)\<lparr>pools := ?P(p := q)\<rparr>" "in_use ?g = u" "condemned ?g = k" "reserved ?g = r" by simp_all
  have sel': "pools ((fsys g)\<lparr>pools := ?P(p := q)\<rparr>) = ?P(p := q)"
    "live_fibers ((fsys g)\<lparr>pools := ?P(p := q)\<rparr>) = live_fibers (fsys g)" by simp_all
  show ?thesis unfolding fiber_inv_def sel sel' R T
    by (intro conjI pools_ok_upd [OF I(1) p good] I(2,3) tot trans [OF bal I(4)])
qed

text \<open>The same with a reservation taken or used up.\<close>

lemma sum_reserved:
  assumes "p \<in> set ps" and "distinct ps"
  shows "(\<Sum>x\<leftarrow>ps. ((h :: ptr \<Rightarrow> nat)(p := n)) x) + h p = (\<Sum>x\<leftarrow>ps. h x) + n"
proof -
  obtain R where R: "\<forall>n. (\<Sum>x\<leftarrow>ps. (h(p := n)) x) = n + R" using sum_list_upd [OF assms] by blast
  have "(\<Sum>x\<leftarrow>ps. h x) = h p + R" using R [rule_format, of "h p"] by simp
  then show ?thesis using R by simp
qed

lemma fiber_inv_reserve:
  assumes inv: "fiber_inv ps g" and p: "p \<in> set ps" and good: "good_update (pools (fsys g) p) q"
    and m: "mset (fp_fibers q) + mset u = mset (fp_fibers (pools (fsys g) p)) + mset (in_use g)"
    and t: "fp_total q + int (reserved g p) = fp_total (pools (fsys g) p) + int n"
  shows "fiber_inv ps (g\<lparr>fsys := (fsys g)\<lparr>pools := (pools (fsys g))(p := q)\<rparr>, in_use := u, reserved := (reserved g)(p := n)\<rparr>)"
proof -
  have "distinct ps" using inv by (simp add: fiber_inv_def pools_ok_def)
  then have S: "(\<Sum>x\<leftarrow>ps. ((reserved g)(p := n)) x) + reserved g p = (\<Sum>x\<leftarrow>ps. reserved g x) + n"
    by (rule sum_reserved [OF p])
  have "fiber_inv ps (g\<lparr>fsys := (fsys g)\<lparr>pools := (pools (fsys g))(p := q)\<rparr>, in_use := u, condemned := condemned g,
      reserved := (reserved g)(p := n)\<rparr>)"
    by (rule fiber_inv_change [OF inv p good]) (use m t S in simp_all)
  then show ?thesis by simp
qed

lemma fiber_inv_same:
  assumes "fiber_inv ps g" and "pools s = pools (fsys g)" "pool_locks s = pool_locks (fsys g)" "live_fibers s = live_fibers (fsys g)"
  shows "fiber_inv ps (g\<lparr>fsys := s\<rparr>)"
  using assms pools_ok_same [of ps "fsys g" s] by (simp add: fiber_inv_def)

lemma pools_ok_member: "pools_ok ps s \<Longrightarrow> p \<in> set ps \<Longrightarrow> lock_free p s \<and> pool_fits (pools s p)"
  unfolding pools_ok_def by blast

lemma fiber_inv_member: "fiber_inv ps g \<Longrightarrow> p \<in> set ps \<Longrightarrow> lock_free p (fsys g) \<and> pool_fits (pools (fsys g) p)"
  unfolding fiber_inv_def pools_ok_def by blast

lemma fiber_inv_count:
  assumes "fiber_inv ps g"
  shows "count (over_pools pool_mset ps (pools (fsys g))) x + count (mset (in_use g)) x + count (mset (condemned g)) x =
    (if x \<in> live_fibers (fsys g) then 1 else 0)"
proof -
  have fin: "finite (live_fibers (fsys g))"
    and eq: "over_pools pool_mset ps (pools (fsys g)) + mset (in_use g) + mset (condemned g) = mset_set (live_fibers (fsys g))"
    using assms unfolding fiber_inv_def by blast+
  have "count (over_pools pool_mset ps (pools (fsys g)) + mset (in_use g) + mset (condemned g)) x =
      count (mset_set (live_fibers (fsys g))) x" unfolding eq ..
  then show ?thesis using fin by simp
qed

lemma over_pools_count:
  assumes "p \<in> set ps"
  shows "count (pool_mset (P p)) x \<le> count (over_pools pool_mset ps P) x"
  using assms by (induction ps) (auto simp: over_pools_def)

lemma distinct_from_count: "(\<And>x. count (mset xs) x \<le> 1) \<Longrightarrow> distinct xs"
proof (induction xs)
  case (Cons a xs)
  have "count (mset xs) x \<le> 1" for x
  proof -
    have "count (mset xs) x \<le> count (mset (a # xs)) x" by simp
    then show ?thesis using Cons.prems [of x] by linarith
  qed
  moreover have "a \<notin> set xs" using Cons.prems [of a] by (auto simp: count_eq_zero_iff)
  ultimately show ?case using Cons.IH by simp
qed simp

lemma fiber_inv_places:
  assumes "fiber_inv ps g"
  shows "distinct (in_use g)" and "distinct (condemned g)" and "set (in_use g) \<inter> set (condemned g) = {}"
    and "set (in_use g) \<subseteq> live_fibers (fsys g)" and "set (condemned g) \<subseteq> live_fibers (fsys g)"
    and "p \<in> set ps \<Longrightarrow> set (fp_fibers (pools (fsys g) p)) \<subseteq> live_fibers (fsys g) - set (in_use g)"
proof -
  note c = fiber_inv_count [OF assms]
  have le: "count (mset (in_use g)) x + count (mset (condemned g)) x \<le> 1" for x
  proof -
    have "(if x \<in> live_fibers (fsys g) then 1 else 0) \<le> (1 :: nat)" by simp
    then show ?thesis using c [of x] by linarith
  qed
  have pos: "x \<in> set xs \<longleftrightarrow> 1 \<le> count (mset xs) x" for x and xs :: "ptr list"
    using count_greater_eq_one_iff [of "mset xs" x] by simp
  show "distinct (in_use g)" by (rule distinct_from_count, rule add_leD1 [OF le])
  show "distinct (condemned g)" by (rule distinct_from_count, rule add_leD2 [OF le])
  show "set (in_use g) \<inter> set (condemned g) = {}"
  proof (rule ccontr)
    assume "set (in_use g) \<inter> set (condemned g) \<noteq> {}"
    then obtain x where "x \<in> set (in_use g)" "x \<in> set (condemned g)" by blast
    then show False using le [of x] unfolding pos by linarith
  qed
  show "set (in_use g) \<subseteq> live_fibers (fsys g)"
  proof
    fix x assume "x \<in> set (in_use g)"
    then show "x \<in> live_fibers (fsys g)" using c [of x] unfolding pos by (auto split: if_splits)
  qed
  show "set (condemned g) \<subseteq> live_fibers (fsys g)"
  proof
    fix x assume "x \<in> set (condemned g)"
    then show "x \<in> live_fibers (fsys g)" using c [of x] unfolding pos by (auto split: if_splits)
  qed
  show "set (fp_fibers (pools (fsys g) p)) \<subseteq> live_fibers (fsys g) - set (in_use g)" if "p \<in> set ps"
  proof
    fix x assume "x \<in> set (fp_fibers (pools (fsys g) p))"
    then have one: "1 \<le> count (over_pools pool_mset ps (pools (fsys g))) x"
      using over_pools_count [OF that, of "pools (fsys g)" x] unfolding pos by linarith
    have "x \<in> live_fibers (fsys g)"
    proof (rule ccontr)
      assume "x \<notin> live_fibers (fsys g)"
      then show False using c [of x] one by simp
    qed
    then have "count (over_pools pool_mset ps (pools (fsys g))) x + count (mset (in_use g)) x + count (mset (condemned g)) x = 1"
      using c [of x] by (simp only: if_True)
    then have "\<not> 1 \<le> count (mset (in_use g)) x" using one by linarith
    then show "x \<in> live_fibers (fsys g) - set (in_use g)"
      unfolding pos [symmetric] using \<open>x \<in> live_fibers (fsys g)\<close> by blast
  qed
qed


subsection \<open>The sections keep the invariant\<close>

lemma good_update_pop: "pool_fits q \<Longrightarrow> good_update q (fp_fibers_update butlast q)"
  by (auto simp: good_update_def pool_fits_def)

lemma good_update_increment: "pool_fits q \<Longrightarrow> fp_total q < fp_alloc_max q \<Longrightarrow> good_update q (increment_pool_total q)"
  by (auto simp: good_update_def pool_fits_def increment_pool_total_def)

lemma good_update_decrement: "pool_fits q \<Longrightarrow> good_update q (decrement_pool_total n q)"
  by (auto simp: good_update_def pool_fits_def decrement_pool_total_def)

lemma mset_butlast_last: "xs \<noteq> [] \<Longrightarrow> mset (butlast xs) + {#last xs#} = mset xs"
  by (metis append_butlast_last_id mset.simps mset_append)

lemma inv_allocate:
  assumes inv: "fiber_inv ps g" and p: "p \<in> set ps" and a: "allocate_section p (fsys g) = Some ((f, c), s)"
  shows "f \<noteq> NULL \<Longrightarrow> \<not> c \<Longrightarrow> fiber_inv ps (g\<lparr>fsys := s, in_use := f # in_use g\<rparr>)"
    and "f = NULL \<Longrightarrow> \<not> c \<Longrightarrow> fiber_inv ps (g\<lparr>fsys := s\<rparr>)"
    and "c \<Longrightarrow> fiber_inv ps (g\<lparr>fsys := s, reserved := (reserved g)(p := reserved g p + 1)\<rparr>)"
proof -
  let ?q = "pools (fsys g) p"
  have l: "lock_free p (fsys g)" and fit: "pool_fits ?q" using fiber_inv_member [OF inv p] by blast+
  have null: "NULL \<notin> set (fp_fibers ?q)"
    using fiber_inv_places(6) [OF inv p] inv unfolding fiber_inv_def by blast
  note e = a [unfolded allocate_section_effect [OF l] Let_def]
  { assume "f \<noteq> NULL" "\<not> c"
    then have ne: "fp_fibers ?q \<noteq> []" and fs: "f = last (fp_fibers ?q)"
      "s = (fsys g)\<lparr>pools := (pools (fsys g))(p := fp_fibers_update butlast ?q)\<rparr>"
      using e by (auto split: if_splits)
    have m: "mset (fp_fibers (fp_fibers_update butlast ?q)) + mset (f # in_use g) = mset (fp_fibers ?q) + mset (in_use g)"
      using mset_butlast_last [OF ne] fs(1) by simp
    have "fiber_inv ps (g\<lparr>fsys := s, in_use := f # in_use g, reserved := (reserved g)(p := reserved g p)\<rparr>)"
      unfolding fs(2) by (rule fiber_inv_reserve [OF inv p good_update_pop [OF fit] m]) simp
    then show "fiber_inv ps (g\<lparr>fsys := s, in_use := f # in_use g\<rparr>)" by simp }
  { assume "f = NULL" "\<not> c"
    moreover have "fp_fibers ?q \<noteq> [] \<Longrightarrow> last (fp_fibers ?q) \<noteq> NULL" using null by (metis last_in_set)
    ultimately have "s = fsys g" using e by (auto split: if_splits)
    then show "fiber_inv ps (g\<lparr>fsys := s\<rparr>)" using inv by simp }
  { assume c
    then have lt: "fp_total ?q < fp_alloc_max ?q" and fs: "s = (fsys g)\<lparr>pools := (pools (fsys g))(p := increment_pool_total ?q)\<rparr>"
      using e by (auto split: if_splits)
    have "fiber_inv ps (g\<lparr>fsys := s, in_use := in_use g, reserved := (reserved g)(p := reserved g p + 1)\<rparr>)"
      unfolding fs by (rule fiber_inv_reserve [OF inv p good_update_increment [OF fit lt]]) (simp_all add: increment_pool_total_def)
    then show "fiber_inv ps (g\<lparr>fsys := s, reserved := (reserved g)(p := reserved g p + 1)\<rparr>)" by simp }
qed

lemma inv_undo:
  assumes inv: "fiber_inv ps g" and p: "p \<in> set ps" and r: "0 < reserved g p" and a: "allocate_undo p (fsys g) = Some s"
  shows "fiber_inv ps (g\<lparr>fsys := s, reserved := (reserved g)(p := reserved g p - 1)\<rparr>)"
proof -
  let ?q = "pools (fsys g) p"
  have l: "lock_free p (fsys g)" and fit: "pool_fits ?q" using fiber_inv_member [OF inv p] by blast+
  have s: "s = (fsys g)\<lparr>pools := (pools (fsys g))(p := decrement_pool_total 1 ?q)\<rparr>"
    using a by (simp add: allocate_undo_effect [OF l])
  have "fiber_inv ps (g\<lparr>fsys := s, in_use := in_use g, reserved := (reserved g)(p := reserved g p - 1)\<rparr>)"
    unfolding s by (rule fiber_inv_reserve [OF inv p good_update_decrement [OF fit]]) (use r in \<open>simp_all add: decrement_pool_total_def\<close>)
  then show ?thesis by simp
qed

lemma inv_make:
  assumes inv: "fiber_inv ps g" and p: "p \<in> set ps" and r: "0 < reserved g p"
    and mem: "fst mem \<noteq> NULL" "fst mem \<notin> live_fibers (fsys g)" and a: "allocate_from_heap mem n (fsys g) = (f, s)"
  shows "fiber_inv ps (g\<lparr>fsys := s, in_use := f # in_use g, reserved := (reserved g)(p := reserved g p - 1)\<rparr>)"
proof -
  have s: "f = fst mem" "pools s = pools (fsys g)" "pool_locks s = pool_locks (fsys g)"
    "live_fibers s = insert (fst mem) (live_fibers (fsys g))"
    using a mem(1) by (auto simp: allocate_from_heap_def upd_fiber_def)
  have I: "pools_ok ps (fsys g)" "finite (live_fibers (fsys g))" "NULL \<notin> live_fibers (fsys g)"
    "over_pools pool_mset ps (pools (fsys g)) + mset (in_use g) + mset (condemned g) = mset_set (live_fibers (fsys g))"
    "over_pools fp_total ps (pools (fsys g)) =
      int (size (over_pools pool_mset ps (pools (fsys g))) + length (in_use g) + (\<Sum>p\<leftarrow>ps. reserved g p))"
    using inv unfolding fiber_inv_def by blast+
  have "distinct ps" using I(1) by (simp add: pools_ok_def)
  then have S: "(\<Sum>x\<leftarrow>ps. ((reserved g)(p := reserved g p - 1)) x) + reserved g p = (\<Sum>x\<leftarrow>ps. reserved g x) + (reserved g p - 1)"
    by (rule sum_reserved [OF p])
  have m: "over_pools pool_mset ps (pools (fsys g)) + mset (f # in_use g) + mset (condemned g) = mset_set (live_fibers s)"
    using I(2,4) mem(2) s(1,4) by (simp add: ac_simps)
  have t: "over_pools fp_total ps (pools (fsys g)) =
      int (size (over_pools pool_mset ps (pools (fsys g))) + length (f # in_use g) +
           (\<Sum>x\<leftarrow>ps. ((reserved g)(p := reserved g p - 1)) x))"
    using S r I(5) by simp
  let ?g = "g\<lparr>fsys := s, in_use := f # in_use g, reserved := (reserved g)(p := reserved g p - 1)\<rparr>"
  have sel: "fsys ?g = s" "in_use ?g = f # in_use g" "condemned ?g = condemned g" "reserved ?g = (reserved g)(p := reserved g p - 1)"
    by simp_all
  have ok: "finite (live_fibers s)" "NULL \<notin> live_fibers s" using I(2,3) mem(1) s(4) by auto
  show ?thesis unfolding fiber_inv_def sel s(2)
    by (intro conjI pools_ok_same [OF I(1) s(2,3)] ok m t)
qed

lemma deallocate_put_back:
  assumes "lock_free p s" and "fp_size (pools s p) < fp_max_size (pools s p)"
  shows "deallocate_section f p s = Some (True, s\<lparr>pools := (pools s)(p := (pools s p)\<lparr>fp_fibers := fp_fibers (pools s p) @ [f]\<rparr>)\<rparr>)"
proof -
  obtain s1 where s1: "lock_pool p s = Some s1" "pools s1 = pools s"
    and u: "\<And>P. fp_shared (P p) = fp_shared (pools s p) \<Longrightarrow> unlock_pool p (s1\<lparr>pools := P\<rparr>) = s\<lparr>pools := P\<rparr>"
    using lock_pool_free [OF assms(1)] by metis
  show ?thesis using assms(2) by (simp add: deallocate_section_def s1 upd_pool_def u Let_def)
qed

text \<open>A full pool gives some of its fibers to its parent, whose lock is free.\<close>

definition three_quarters :: "fiber_pool \<Rightarrow> nat" where
  "three_quarters q = fp_max_size q div 2 + fp_max_size q div 4"

lemma deallocate_full:
  assumes l: "lock_free p s" and full: "\<not> fp_size (pools s p) < fp_max_size (pools s p)"
    and par: "fp_parent (pools s p) \<noteq> NULL \<Longrightarrow> fp_parent (pools s p) \<noteq> p \<and> lock_free (fp_parent (pools s p)) s"
  shows "deallocate_section f p s =
    Some (False,
      let r = fp_parent (pools s p); k = three_quarters (pools s p) in
      if r = NULL \<or> fp_max_size (pools s r) \<le> fp_size (pools s r) then s
      else s\<lparr>pools := (pools s)(p := child_after k (pools s p) (pools s r), r := parent_after k (pools s p) (pools s r))\<rparr>)"
proof -
  obtain s1 where s1: "lock_pool p s = Some s1" "pools s1 = pools s" "\<And>q. q \<noteq> p \<Longrightarrow> pool_locks s1 q = pool_locks s q"
    and u: "\<And>P. fp_shared (P p) = fp_shared (pools s p) \<Longrightarrow> unlock_pool p (s1\<lparr>pools := P\<rparr>) = s\<lparr>pools := P\<rparr>"
    using lock_pool_free [OF l] by metis
  have "s1\<lparr>pools := pools s\<rparr> = s1" unfolding s1(2) [symmetric] by simp
  then have u1: "unlock_pool p s1 = s" using u [of "pools s"] by simp
  show ?thesis
  proof (cases "fp_parent (pools s p) = NULL")
    case True
    then show ?thesis using full by (simp add: deallocate_section_def s1 u1)
  next
    case False
    let ?r = "fp_parent (pools s p)" and ?k = "three_quarters (pools s p)"
    have r: "?r \<noteq> p" "lock_free ?r s1" using par [OF False] s1(3) [of ?r] by (simp_all add: lock_free_def)
    have m: "move_fibers_to_parent_pool p ?k s1 =
        Some (if fp_max_size (pools s ?r) \<le> fp_size (pools s ?r) then s1
          else s1\<lparr>pools := (pools s)(p := child_after ?k (pools s p) (pools s ?r), ?r := parent_after ?k (pools s p) (pools s ?r))\<rparr>)"
      using move_effect [of s1 p ?r ?k] False r s1(2) by simp
    have "unlock_pool p (s1\<lparr>pools := (pools s)(p := child_after ?k (pools s p) (pools s ?r), ?r := parent_after ?k (pools s p) (pools s ?r))\<rparr>)
        = s\<lparr>pools := (pools s)(p := child_after ?k (pools s p) (pools s ?r), ?r := parent_after ?k (pools s p) (pools s ?r))\<rparr>"
      using r(1) by (intro u) (simp add: child_after_def)
    then show ?thesis using full False m
      by (simp add: deallocate_section_def s1(1,2) u1 Let_def three_quarters_def [symmetric])
  qed
qed

lemma deallocate_answer:
  assumes "deallocate_section f p s = Some (b, s')"
  shows "b \<longleftrightarrow> fp_size (pools s p) < fp_max_size (pools s p)"
proof -
  obtain s1 where "lock_pool p s = Some s1" and "pools s1 = pools s"
    using assms by (auto simp: deallocate_section_def lock_pool_def split: bind_splits if_splits)
  then show ?thesis using assms by (auto simp: deallocate_section_def Let_def split: bind_splits if_splits)
qed

lemma inv_put_back:
  assumes inv: "fiber_inv ps g" and p: "p \<in> set ps" and f: "f \<in> set (in_use g)"
    and a: "deallocate_section f p (fsys g) = Some (True, s)"
    and room: "fp_size (pools (fsys g) p) < fp_max_size (pools (fsys g) p)"
  shows "fiber_inv ps (g\<lparr>fsys := s, in_use := remove1 f (in_use g)\<rparr>)"
proof -
  let ?q = "pools (fsys g) p"
  have l: "lock_free p (fsys g)" and fit: "pool_fits ?q" using fiber_inv_member [OF inv p] by blast+
  have s: "s = (fsys g)\<lparr>pools := (pools (fsys g))(p := ?q\<lparr>fp_fibers := fp_fibers ?q @ [f]\<rparr>)\<rparr>"
    using a unfolding deallocate_put_back [OF l room] by simp
  have good: "good_update ?q (?q\<lparr>fp_fibers := fp_fibers ?q @ [f]\<rparr>)"
    using fit room by (auto simp: good_update_def pool_fits_def)
  have m: "mset (fp_fibers (?q\<lparr>fp_fibers := fp_fibers ?q @ [f]\<rparr>)) + mset (remove1 f (in_use g)) = mset (fp_fibers ?q) + mset (in_use g)"
    using f by (simp add: insert_DiffM)
  have "fiber_inv ps (g\<lparr>fsys := s, in_use := remove1 f (in_use g), reserved := (reserved g)(p := reserved g p)\<rparr>)"
    unfolding s by (rule fiber_inv_reserve [OF inv p good m]) simp
  then show ?thesis by simp
qed

lemma moved_le: "moved k q a \<le> fp_size q" "moved k q a \<le> fp_max_size a - fp_size a"
  by (simp_all add: moved_def)

lemma good_child: "pool_fits q \<Longrightarrow> good_update q (child_after k q a)"
  by (auto simp: good_update_def child_after_def pool_fits_def)

lemma good_parent: "pool_fits a \<Longrightarrow> good_update a (parent_after k q a)"
  using moved_le(2) [of k q a] by (auto simp: good_update_def parent_after_def pool_fits_def)

lemma mset_take_rev: "n \<le> length xs \<Longrightarrow> mset (take (length xs - n) xs) + mset (take n (rev xs)) = mset xs"
proof -
  assume "n \<le> length xs"
  then have "mset (take n (rev xs)) = mset (drop (length xs - n) xs)" by (simp add: take_rev)
  then show ?thesis by (metis append_take_drop_id mset_append)
qed

text \<open>The move is two balanced changes, with the child's debt held as reservations in between.\<close>

lemma inv_move:
  assumes inv: "fiber_inv ps g" and p: "p \<in> set ps" and r: "r \<in> set ps" and ne: "r \<noteq> p"
  shows "fiber_inv ps (g\<lparr>fsys := (fsys g)\<lparr>pools := (pools (fsys g))(p := child_after k (pools (fsys g) p) (pools (fsys g) r),
      r := parent_after k (pools (fsys g) p) (pools (fsys g) r))\<rparr>\<rparr>)"
proof -
  let ?q = "pools (fsys g) p" and ?a = "pools (fsys g) r"
  let ?n = "moved k ?q ?a" and ?c = "child_after k (pools (fsys g) p) (pools (fsys g) r)"
  let ?u = "take ?n (rev (fp_fibers ?q))"
  let ?R = "(reserved g)(p := reserved g p + nat (- min 0 (fp_total ?q)))"
  let ?g1 = "g\<lparr>fsys := (fsys g)\<lparr>pools := (pools (fsys g))(p := ?c)\<rparr>, in_use := ?u @ in_use g, reserved := ?R\<rparr>"
  have fit: "pool_fits ?q" "pool_fits ?a" using fiber_inv_member [OF inv] p r by blast+
  have d: "distinct ps" using inv by (simp add: fiber_inv_def pools_ok_def)
  have m: "mset (fp_fibers ?c) + mset (?u @ in_use g) = mset (fp_fibers ?q) + mset (in_use g)"
    using mset_take_rev [of ?n "fp_fibers ?q"] moved_le(1) [of k ?q ?a] by (simp add: child_after_def)
  have g1: "fiber_inv ps ?g1"
    by (rule fiber_inv_reserve [OF inv p good_child [OF fit(1)] m]) (simp add: child_after_def)
  have S: "(\<Sum>x\<leftarrow>ps. ?R x) + reserved g p = (\<Sum>x\<leftarrow>ps. reserved g x) + (reserved g p + nat (- min 0 (fp_total ?q)))"
    by (rule sum_reserved [OF p d])
  have a: "pools (fsys ?g1) r = ?a" using ne by simp
  have good: "good_update (pools (fsys ?g1) r) (parent_after k ?q ?a)" unfolding a by (rule good_parent [OF fit(2)])
  have "fiber_inv ps (?g1\<lparr>fsys := (fsys ?g1)\<lparr>pools := (pools (fsys ?g1))(r := parent_after k ?q ?a)\<rparr>,
      in_use := in_use g, condemned := condemned g, reserved := reserved g\<rparr>)"
  proof (rule fiber_inv_change [OF g1 r good])
    show "mset (fp_fibers (parent_after k ?q ?a)) + mset (in_use g) + mset (condemned g) =
        mset (fp_fibers (pools (fsys ?g1) r)) + mset (in_use ?g1) + mset (condemned ?g1)"
      unfolding a by (simp add: parent_after_def)
    have e: "int (nat (- min 0 (fp_total ?q))) = - min 0 (fp_total ?q)" by simp
    have sel: "reserved ?g1 = ?R" "condemned ?g1 = condemned g" by simp_all
    have "fp_total (parent_after k ?q ?a) = fp_total ?a + min 0 (fp_total ?q)" by (simp add: parent_after_def)
    then show "fp_total (parent_after k ?q ?a) + int (length (condemned g)) + int (\<Sum>x\<leftarrow>ps. reserved ?g1 x) =
        fp_total (pools (fsys ?g1) r) + int (length (condemned ?g1)) + int (\<Sum>x\<leftarrow>ps. reserved g x)"
      unfolding a sel using S e by linarith
  qed
  then show ?thesis by simp
qed

lemma parent_in_list: "pools_ok ps s \<Longrightarrow> p \<in> set ps \<Longrightarrow> fp_parent (pools s p) \<noteq> NULL \<Longrightarrow>
  fp_parent (pools s p) \<in> set ps \<and> fp_parent (pools s p) \<noteq> p"
  by (cases ps) (auto simp: pools_ok_def)

lemma full_result:
  assumes inv: "fiber_inv ps g" and p: "p \<in> set ps" and a: "deallocate_section f p (fsys g) = Some (False, s)"
    and full: "\<not> fp_size (pools (fsys g) p) < fp_max_size (pools (fsys g) p)"
  shows "s = (let r = fp_parent (pools (fsys g) p); k = three_quarters (pools (fsys g) p) in
      if r = NULL \<or> fp_max_size (pools (fsys g) r) \<le> fp_size (pools (fsys g) r) then fsys g
      else (fsys g)\<lparr>pools := (pools (fsys g))(p := child_after k (pools (fsys g) p) (pools (fsys g) r),
        r := parent_after k (pools (fsys g) p) (pools (fsys g) r))\<rparr>)"
proof -
  have ok: "pools_ok ps (fsys g)" using inv by (simp add: fiber_inv_def)
  have l: "lock_free p (fsys g)" using fiber_inv_member [OF inv p] by blast
  have par: "fp_parent (pools (fsys g) p) \<noteq> NULL \<Longrightarrow>
      fp_parent (pools (fsys g) p) \<noteq> p \<and> lock_free (fp_parent (pools (fsys g) p)) (fsys g)"
    using parent_in_list [OF ok p] fiber_inv_member [OF inv] by blast
  note eq = deallocate_full [of p "fsys g" f, OF l full]
  show ?thesis using a by (subst (asm) eq) (use par in \<open>auto simp: Let_def\<close>)
qed

lemma inv_full:
  assumes inv: "fiber_inv ps g" and p: "p \<in> set ps" and a: "deallocate_section f p (fsys g) = Some (False, s)"
    and full: "\<not> fp_size (pools (fsys g) p) < fp_max_size (pools (fsys g) p)"
  shows "fiber_inv ps (g\<lparr>fsys := s\<rparr>)"
proof -
  let ?r = "fp_parent (pools (fsys g) p)"
  have ok: "pools_ok ps (fsys g)" using inv by (simp add: fiber_inv_def)
  note s = full_result [OF inv p a full] and par = parent_in_list [OF ok p]
  show ?thesis
  proof (cases "?r = NULL \<or> fp_max_size (pools (fsys g) ?r) \<le> fp_size (pools (fsys g) ?r)")
    case True
    then show ?thesis using s inv by (simp add: Let_def)
  next
    case False
    then show ?thesis using s inv_move [OF inv p, of ?r] par by (simp add: Let_def)
  qed
qed

lemma inv_free:
  assumes inv: "fiber_inv ps g" and p: "p \<in> set ps" and f: "f = NULL \<or> f \<in> set (in_use g)"
    and a: "free_section p k f (fsys g) = Some ((fs, d), s)"
  shows "fiber_inv ps (g\<lparr>fsys := s, in_use := (if d then remove1 f (in_use g) else in_use g), condemned := fs @ condemned g\<rparr>)"
proof -
  let ?q = "pools (fsys g) p"
  let ?n = "min 10 (fp_size ?q - k)" and ?u = "if d then remove1 f (in_use g) else in_use g"
  have l: "lock_free p (fsys g)" and fit: "pool_fits ?q" using fiber_inv_member [OF inv p] by blast+
  obtain q where t: "take_batch k f ?q = Some ((fs, d), q)" and s: "s = (fsys g)\<lparr>pools := (pools (fsys g))(p := q)\<rparr>"
    using a by (auto simp: free_section_effect [OF l])
  have nin: "NULL \<notin> set (in_use g)" using fiber_inv_places(4) [OF inv] inv unfolding fiber_inv_def by blast
  have fs: "fs = take ?n (rev (fp_fibers ?q))" and tot: "fp_total q = fp_total ?q - int ?n"
    and size: "fp_size q \<le> fp_max_size ?q"
    and same: "fp_parent q = fp_parent ?q" "fp_max_size q = fp_max_size ?q" "fp_alloc_max q = fp_alloc_max ?q"
    using t fit by (auto simp: take_batch_def decrement_pool_total_def Let_def pool_fits_def cilk_assert_def split: if_splits bind_splits)
  have new: "fp_fibers q = take (fp_size ?q - ?n) (fp_fibers ?q) @ (if d \<and> f \<noteq> NULL then [f] else [])"
    using t by (auto simp: take_batch_def decrement_pool_total_def Let_def cilk_assert_def split: if_splits bind_splits)
  have good: "good_update ?q q" using fit tot size same by (auto simp: good_update_def pool_fits_def)
  have given: "mset (if d \<and> f \<noteq> NULL then [f] else []) + mset ?u = mset (in_use g)"
    using f nin by (auto simp: insert_DiffM remove1_idem)
  have "mset (fp_fibers q) + mset ?u + mset (fs @ condemned g)
      = (mset (take (fp_size ?q - ?n) (fp_fibers ?q)) + mset (take ?n (rev (fp_fibers ?q))))
        + (mset (if d \<and> f \<noteq> NULL then [f] else []) + mset ?u) + mset (condemned g)"
    unfolding new fs mset_append by (simp only: ac_simps)
  also have "\<dots> = mset (fp_fibers ?q) + mset (in_use g) + mset (condemned g)"
    unfolding given using mset_take_rev [of ?n "fp_fibers ?q"] by simp
  finally have m: "mset (fp_fibers q) + mset ?u + mset (fs @ condemned g) = mset (fp_fibers ?q) + mset (in_use g) + mset (condemned g)" .
  have "fiber_inv ps (g\<lparr>fsys := (fsys g)\<lparr>pools := (pools (fsys g))(p := q)\<rparr>, in_use := ?u, condemned := fs @ condemned g,
      reserved := reserved g\<rparr>)"
    by (rule fiber_inv_change [OF inv p good m]) (use tot fs in simp)
  then show ?thesis unfolding s by simp
qed

lemma inv_free_one:
  assumes inv: "fiber_inv ps g" and f: "f \<in> set (condemned g)" and a: "deallocate_to_heap f (fsys g) = Some s"
  shows "fiber_inv ps (g\<lparr>fsys := s, condemned := remove1 f (condemned g)\<rparr>)"
proof -
  have s: "s = (fsys g)\<lparr>live_fibers := live_fibers (fsys g) - {f}\<rparr>" "f \<in> live_fibers (fsys g)"
    using a by (auto simp: deallocate_to_heap_def split: if_splits)
  have I: "pools_ok ps (fsys g)" "finite (live_fibers (fsys g))" "NULL \<notin> live_fibers (fsys g)"
    "over_pools pool_mset ps (pools (fsys g)) + mset (in_use g) + mset (condemned g) = mset_set (live_fibers (fsys g))"
    "over_pools fp_total ps (pools (fsys g)) =
      int (size (over_pools pool_mset ps (pools (fsys g))) + length (in_use g) + (\<Sum>p\<leftarrow>ps. reserved g p))"
    using inv unfolding fiber_inv_def by blast+
  have c: "mset (condemned g) = mset (remove1 f (condemned g)) + {#f#}" using f by (simp add: insert_DiffM)
  have l: "mset_set (live_fibers (fsys g)) = mset_set (live_fibers (fsys g) - {f}) + {#f#}"
    using I(2) s(2) by (simp add: mset_set.remove)
  have "over_pools pool_mset ps (pools (fsys g)) + mset (in_use g) + mset (remove1 f (condemned g)) + {#f#}
      = mset_set (live_fibers (fsys g) - {f}) + {#f#}"
    using I(4) unfolding c l by (simp only: ac_simps)
  then have m: "over_pools pool_mset ps (pools (fsys g)) + mset (in_use g) + mset (remove1 f (condemned g))
      = mset_set (live_fibers (fsys g) - {f})" by simp
  let ?g = "g\<lparr>fsys := s, condemned := remove1 f (condemned g)\<rparr>"
  have sel: "fsys ?g = s" "in_use ?g = in_use g" "condemned ?g = remove1 f (condemned g)" "reserved ?g = reserved g" by simp_all
  have sel': "pools s = pools (fsys g)" "pool_locks s = pool_locks (fsys g)" "live_fibers s = live_fibers (fsys g) - {f}"
    using s(1) by simp_all
  have ok: "finite (live_fibers (fsys g) - {f})" "NULL \<notin> live_fibers (fsys g) - {f}" using I(2,3) by auto
  show ?thesis unfolding fiber_inv_def sel sel'(1,3)
    by (intro conjI pools_ok_same [OF I(1) sel'(1,2)] ok m I(5))
qed

lemma fiber_inv_step:
  assumes "fiber_step ps g g'" and inv: "fiber_inv ps g"
  shows "fiber_inv ps g'"
  using assms(1)
proof cases
  case (take_fiber p f s)
  then show ?thesis using inv_allocate(1) [OF inv] by blast
next
  case (none_left p s)
  then show ?thesis using inv_allocate(2) [OF inv] by blast
next
  case (reserve p f s)
  then show ?thesis using inv_allocate(3) [OF inv] by blast
next
  case (make p mem n f s)
  then show ?thesis using inv_make [OF inv] by blast
next
  case (no_memory p s)
  then show ?thesis using inv_undo [OF inv] by blast
next
  case (put_back p f s)
  then show ?thesis using inv_put_back [OF inv] deallocate_answer by metis
next
  case (pool_full p f s)
  then show ?thesis using inv_full [OF inv] deallocate_answer by metis
next
  case (free_some p f k fs d s)
  then show ?thesis using inv_free [OF inv] by blast
next
  case (free_one f s)
  then show ?thesis using inv_free_one [OF inv] by blast
qed

subsection \<open>Every fiber in one place, and how many there can be\<close>

definition fiber_pools_start :: "ptr list \<Rightarrow> fiber_sys \<Rightarrow> bool" where
  "fiber_pools_start ps s \<longleftrightarrow> pools_ok ps s \<and> live_fibers s = {} \<and>
     (\<forall>p \<in> set ps. fp_fibers (pools s p) = [] \<and> fp_total (pools s p) = 0) \<and>
     (\<forall>p \<in> set (tl ps). fp_alloc_max (pools s p) = 0)"

lemma over_pools_start: "\<forall>p \<in> set ps. f (P p) = 0 \<Longrightarrow> over_pools f ps P = 0"
  by (induction ps) (auto simp: over_pools_def)

lemma fiber_inv_start:
  assumes "fiber_pools_start ps s"
  shows "fiber_inv ps \<lparr>fsys = s, in_use = [], condemned = [], reserved = (\<lambda>_. 0)\<rparr>"
proof -
  have "over_pools pool_mset ps (pools s) = 0" "over_pools fp_total ps (pools s) = 0"
    using assms by (auto simp: fiber_pools_start_def intro!: over_pools_start)
  moreover have "(\<Sum>p\<leftarrow>ps. (0 :: nat)) = 0" by (induction ps) simp_all
  ultimately show ?thesis using assms by (simp add: fiber_inv_def fiber_pools_start_def)
qed

lemma fiber_inv_reachable:
  assumes "fiber_reachable ps s g" and "fiber_pools_start ps s"
  shows "fiber_inv ps g"
  using assms(1) by induction (use fiber_inv_start [OF assms(2)] fiber_inv_step in blast)+

lemma alloc_max_sections:
  "allocate_section p s = Some (r, s') \<Longrightarrow> fp_alloc_max (pools s' x) = fp_alloc_max (pools s x)"
  "allocate_undo p s = Some s' \<Longrightarrow> fp_alloc_max (pools s' x) = fp_alloc_max (pools s x)"
  "allocate_from_heap mem n s = (f, s') \<Longrightarrow> fp_alloc_max (pools s' x) = fp_alloc_max (pools s x)"
  "deallocate_to_heap f s = Some s' \<Longrightarrow> fp_alloc_max (pools s' x) = fp_alloc_max (pools s x)"
  by (auto simp: allocate_section_def allocate_undo_def allocate_from_heap_def deallocate_to_heap_def lock_pool_def unlock_pool_def
      upd_pool_def upd_fiber_def increment_pool_total_def decrement_pool_total_def Let_def split: bind_splits if_splits)

lemma alloc_max_free:
  assumes "free_section p k f s = Some (r, s')"
  shows "fp_alloc_max (pools s' x) = fp_alloc_max (pools s x)"
proof -
  have "take_batch k f q = Some (r, q') \<Longrightarrow> fp_alloc_max q' = fp_alloc_max q" for q q'
    by (auto simp: take_batch_def decrement_pool_total_def Let_def split: bind_splits if_splits)
  then show ?thesis using assms
    by (auto simp: free_section_def lock_pool_def unlock_pool_def upd_pool_def split: bind_splits if_splits)
qed

lemma alloc_max_deallocate:
  assumes inv: "fiber_inv ps g" and p: "p \<in> set ps" and d: "deallocate_section f p (fsys g) = Some (b, s')"
  shows "fp_alloc_max (pools s' x) = fp_alloc_max (pools (fsys g) x)"
proof (cases "fp_size (pools (fsys g) p) < fp_max_size (pools (fsys g) p)")
  case True
  have l: "lock_free p (fsys g)" using fiber_inv_member [OF inv p] by blast
  show ?thesis using d unfolding deallocate_put_back [OF l True] by auto
next
  case False
  then have "\<not> b" using deallocate_answer [OF d] by simp
  then show ?thesis using full_result [OF inv p _ False, of f s'] d
    by (auto simp: Let_def child_after_def parent_after_def split: if_splits)
qed

lemma alloc_max_reachable:
  assumes "fiber_reachable ps s g" and start: "fiber_pools_start ps s"
  shows "fp_alloc_max (pools (fsys g) x) = fp_alloc_max (pools s x)"
  using assms(1)
proof induction
  case (step g g')
  have inv: "fiber_inv ps g" by (rule fiber_inv_reachable [OF step.hyps(1) start])
  have "fp_alloc_max (pools (fsys g') x) = fp_alloc_max (pools (fsys g) x)"
    using step.hyps(2) by cases (auto dest: alloc_max_sections alloc_max_free alloc_max_deallocate [OF inv])
  then show ?case using step.IH by simp
qed simp

lemma over_pools_le:
  assumes "p \<notin> set ps" and "\<forall>x \<in> set ps. fp_total (P x) \<le> 0"
  shows "over_pools fp_total ps P \<le> 0"
  using assms by (induction ps) (auto simp: over_pools_def)

text \<open>A global pool at 1 and a worker's pool at 2, as the runtime makes them; a fiber is being made for the global pool.\<close>

definition two_pools :: fiber_sys where
  "two_pools = (let p = \<lparr>fp_shared = True, fp_stack_size = 65536, fp_parent = 0, fp_fibers = [], fp_max_size = 2,
       fp_total = 0, fp_high_water = 0, fp_alloc_max = 3\<rparr>
     in \<lparr>pools = (\<lambda>_. p)(2 := p\<lparr>fp_shared := False, fp_parent := 1, fp_alloc_max := 0\<rparr>),
         pool_locks = (\<lambda>_. \<lparr>spin_lock = 0\<rparr>), fibers = (\<lambda>_. cilk_fiber_new), live_fibers = {}\<rparr>)"

lemma two_pools_start: "fiber_pools_start [1, 2] two_pools"
  by (simp add: fiber_pools_start_def pools_ok_def two_pools_def lock_free_def pool_fits_def Let_def)

definition two_pools_asked :: fiber_ghost where
  "two_pools_asked = \<lparr>fsys = two_pools\<lparr>pools := (pools two_pools)(1 := increment_pool_total (pools two_pools 1))\<rparr>,
     in_use = [], condemned = [], reserved = (\<lambda>_. 0)(1 := 1)\<rparr>"

lemma two_pools_asked_reachable: "fiber_reachable [1, 2] two_pools two_pools_asked"
proof -
  let ?g = "\<lparr>fsys = two_pools, in_use = [], condemned = [], reserved = (\<lambda>_. 0)\<rparr>"
  have l: "lock_free 1 two_pools" by (simp add: two_pools_def lock_free_def Let_def)
  have "fiber_step [1, 2] ?g two_pools_asked"
    using fiber_step.reserve [of 1 "[1, 2]" ?g] by (simp add: allocate_section_effect [OF l] two_pools_asked_def) (simp add: two_pools_def Let_def)
  then show ?thesis using fiber_reachable.start fiber_reachable.step by blast
qed

text \<open>C12 (fiber_one_place): however the workers' sections interleave, each allocated fiber is in exactly one place: in one pool, once,
  in use, or about to be freed. So no fiber is handed to two workers and none is lost.\<close>

theorem fiber_one_place:
  assumes "fiber_pools_start ps s" and "fiber_reachable ps s g"
  shows "mset (concat (map (\<lambda>p. fp_fibers (pools (fsys g) p)) ps) @ in_use g @ condemned g) = mset_set (live_fibers (fsys g))"
proof -
  have "mset (concat (map (\<lambda>p. fp_fibers (P p)) ps)) = over_pools pool_mset ps P" for P
    by (induction ps) (auto simp: over_pools_def)
  then show ?thesis using fiber_inv_reachable [OF assms(2,1)] by (simp add: fiber_inv_def ac_simps)
qed

text \<open>C14 (fiber_limit): the fibers in use, those kept in all pools and those being made are never more than the limit of the global
  pool, whatever the workers do.\<close>

theorem fiber_limit:
  assumes "fiber_pools_start ps s" and "fiber_reachable ps s g"
  shows "int (length (in_use g) + (\<Sum>p\<leftarrow>ps. fp_size (pools (fsys g) p)) + (\<Sum>p\<leftarrow>ps. reserved g p))
    \<le> fp_alloc_max (pools s (hd ps))"
proof -
  have inv: "fiber_inv ps g" by (rule fiber_inv_reachable [OF assms(2,1)])
  have same: "fp_alloc_max (pools (fsys g) x) = fp_alloc_max (pools s x)" for x by (rule alloc_max_reachable [OF assms(2,1)])
  obtain h t where ps: "ps = h # t" using inv by (cases ps) (auto simp: fiber_inv_def pools_ok_def)
  have tot: "fp_total (pools (fsys g) p) \<le> fp_alloc_max (pools s p)" if "p \<in> set ps" for p
    using fiber_inv_member [OF inv that] same [of p] by (simp add: pool_fits_def)
  have "over_pools fp_total t (pools (fsys g)) \<le> 0"
  proof (rule over_pools_le)
    show "h \<notin> set t" using inv by (auto simp: fiber_inv_def pools_ok_def ps)
    show "\<forall>x \<in> set t. fp_total (pools (fsys g) x) \<le> 0" using tot assms(1) unfolding ps fiber_pools_start_def by (metis list.sel(3) list.set_intros(2))
  qed
  then have "over_pools fp_total ps (pools (fsys g)) \<le> fp_alloc_max (pools s h)"
    using tot [of h] by (simp add: over_pools_def ps)
  moreover have "size (over_pools pool_mset qs P) = (\<Sum>p\<leftarrow>qs. fp_size (P p))" for qs P
    by (induction qs) (auto simp: over_pools_def)
  ultimately show ?thesis using inv by (simp add: fiber_inv_def ps)
qed

theorem fiber_one_place_witness:
  "mset (concat (map (\<lambda>p. fp_fibers (pools (fsys two_pools_asked) p)) [1, 2]) @ in_use two_pools_asked @ condemned two_pools_asked)
    = mset_set (live_fibers (fsys two_pools_asked))"
  by (rule fiber_one_place [OF two_pools_start two_pools_asked_reachable])

theorem fiber_limit_witness:
  "int (length (in_use two_pools_asked) + (\<Sum>p\<leftarrow>[1, 2]. fp_size (pools (fsys two_pools_asked) p)) + (\<Sum>p\<leftarrow>[1, 2]. reserved two_pools_asked p))
    \<le> fp_alloc_max (pools two_pools (hd [1, 2]))"
  by (rule fiber_limit [OF two_pools_start two_pools_asked_reachable])

subsection \<open>Giving back and taking again\<close>

lemma deallocate_all_returns:
  "distinct fs \<Longrightarrow> set fs \<subseteq> live_fibers s \<Longrightarrow> deallocate_all fs s = Some (s\<lparr>live_fibers := live_fibers s - set fs\<rparr>)"
proof (induction fs arbitrary: s)
  case (Cons f fs)
  have f: "deallocate_to_heap f s = Some (s\<lparr>live_fibers := live_fibers s - {f}\<rparr>)"
    using Cons.prems by (simp add: deallocate_to_heap_def)
  have "set fs \<subseteq> live_fibers (s\<lparr>live_fibers := live_fibers s - {f}\<rparr>)" using Cons.prems by auto
  moreover have "live_fibers s - {f} - set fs = live_fibers s - insert f (set fs)" by auto
  ultimately show ?case using Cons.IH [of "s\<lparr>live_fibers := live_fibers s - {f}\<rparr>"] Cons.prems(1)
    by (simp add: f)
qed simp

lemma take_batch_more:
  assumes "fp_size q - min 10 (fp_size q - k) \<le> k \<Longrightarrow> f \<noteq> NULL \<Longrightarrow> k < fp_max_size q"
  shows "take_batch k f q = Some ((take (min 10 (fp_size q - k)) (rev (fp_fibers q)), fp_size q - min 10 (fp_size q - k) \<le> k),
    (decrement_pool_total (min 10 (fp_size q - k)) q)\<lparr>fp_fibers := take (fp_size q - min 10 (fp_size q - k)) (fp_fibers q) @
      (if fp_size q - min 10 (fp_size q - k) \<le> k \<and> f \<noteq> NULL then [f] else [])\<rparr>)"
proof -
  obtain n where n: "min 10 (fp_size q - k) = n" by blast
  show ?thesis using assms unfolding n take_batch_def decrement_pool_total_def Let_def
    by (cases "fp_size q - n \<le> k"; cases "f = NULL") (simp_all add: cilk_assert_def)
qed

lemma keep_all:
  fixes xs :: "ptr list"
  assumes "length xs - min 10 (length xs - k) \<le> k"
  shows "take (length xs - min 10 (length xs - k)) xs = take k xs" and "drop (length xs - min 10 (length xs - k)) xs = drop k xs"
proof -
  have e: "length xs - min 10 (length xs - k) = min k (length xs)" using assms by linarith
  show "take (length xs - min 10 (length xs - k)) xs = take k xs" unfolding e by (cases "k \<le> length xs") simp_all
  show "drop (length xs - min 10 (length xs - k)) xs = drop k xs" unfolding e by (cases "k \<le> length xs") simp_all
qed

lemma free_fibers_returns:
  assumes "lock_free p s" and "distinct (fp_fibers (pools s p))" and "set (fp_fibers (pools s p)) \<subseteq> live_fibers s"
    and "f \<noteq> NULL \<Longrightarrow> k < fp_max_size (pools s p)"
  shows "\<exists>s'. free_fibers_from_pool p k f s = Some s' \<and> lock_free p s' \<and>
    fp_fibers (pools s' p) = take k (fp_fibers (pools s p)) @ (if f \<noteq> NULL then [f] else []) \<and>
    live_fibers s' = live_fibers s - set (drop k (fp_fibers (pools s p)))"
  using assms
proof (induction "fp_size (pools s p)" arbitrary: s rule: less_induct)
  case less
  let ?q = "pools s p"
  define n where "n = min 10 (fp_size ?q - k)"
  let ?fs = "take n (rev (fp_fibers ?q))"
  have t: "take_batch k f ?q = Some ((?fs, fp_size ?q - n \<le> k),
      (decrement_pool_total n ?q)\<lparr>fp_fibers := take (fp_size ?q - n) (fp_fibers ?q) @ (if fp_size ?q - n \<le> k \<and> f \<noteq> NULL then [f] else [])\<rparr>)"
    (is "_ = Some (_, ?q')") unfolding n_def using less.prems(4) by (intro take_batch_more) blast
  let ?s1 = "s\<lparr>pools := (pools s)(p := ?q')\<rparr>"
  have sec: "free_section p k f s = Some ((?fs, fp_size ?q - n \<le> k), ?s1)"
    unfolding free_section_effect [OF less.prems(1)] t by simp
  have fs: "set ?fs = set (drop (fp_size ?q - n) (fp_fibers ?q))" by (simp add: take_rev)
  have "distinct ?fs" "set ?fs \<subseteq> live_fibers ?s1"
    using less.prems(2,3) set_take_subset [of n "rev (fp_fibers ?q)"] by auto
  note all = deallocate_all_returns [OF this]
  let ?s2 = "?s1\<lparr>live_fibers := live_fibers ?s1 - set ?fs\<rparr>"
  have l2: "lock_free p ?s2" using less.prems(1) by (simp add: lock_free_def)
  show ?case
  proof (cases "fp_size ?q - n \<le> k")
    case True
    have "free_fibers_from_pool p k f s = Some ?s2"
      by (subst free_fibers_from_pool.simps) (simp only: sec all bind.bind_lunit split_conv if_P [OF True])
    moreover have "take (fp_size ?q - n) (fp_fibers ?q) = take k (fp_fibers ?q)"
      "drop (fp_size ?q - n) (fp_fibers ?q) = drop k (fp_fibers ?q)"
      using True unfolding n_def by (rule keep_all)+
    ultimately show ?thesis using True l2 fs by simp
  next
    case False
    have rec: "free_fibers_from_pool p k f s = free_fibers_from_pool p k f ?s2"
      by (subst free_fibers_from_pool.simps) (simp only: sec all bind.bind_lunit split_conv if_not_P [OF False])
    have q2: "fp_fibers (pools ?s2 p) = take (fp_size ?q - n) (fp_fibers ?q)" using False by simp
    have d: "set (drop (fp_size ?q - n) (fp_fibers ?q)) \<inter> set (take (fp_size ?q - n) (fp_fibers ?q)) = {}"
      using less.prems(2) by (metis Int_commute append_take_drop_id distinct_append)
    have "0 < n" "n \<le> fp_size ?q" using False unfolding n_def by auto
    then have "fp_size (pools ?s2 p) < fp_size ?q" unfolding q2 by simp
    moreover note l2
    moreover have "distinct (fp_fibers (pools ?s2 p))" using less.prems(2) unfolding q2 by simp
    moreover have "set (fp_fibers (pools ?s2 p)) \<subseteq> live_fibers ?s2"
      using less.prems(3) d unfolding q2 by (auto simp: fs dest: in_set_takeD)
    moreover have "f \<noteq> NULL \<Longrightarrow> k < fp_max_size (pools ?s2 p)" using less.prems(4) by (simp add: decrement_pool_total_def)
    ultimately obtain s' where s': "free_fibers_from_pool p k f ?s2 = Some s'" "lock_free p s'"
      "fp_fibers (pools s' p) = take k (fp_fibers (pools ?s2 p)) @ (if f \<noteq> NULL then [f] else [])"
      "live_fibers s' = live_fibers ?s2 - set (drop k (fp_fibers (pools ?s2 p)))"
      using less.hyps [of ?s2] by blast
    have m: "min k (fp_size ?q - n) = k" using False by simp
    have "set (drop k (fp_fibers ?q)) = set (drop k (take (fp_size ?q - n) (fp_fibers ?q))) \<union> set (drop (fp_size ?q - n) (fp_fibers ?q))"
      using False append_take_drop_id [of "fp_size ?q - n" "fp_fibers ?q"]
      by (metis (no_types, lifting) drop_append length_take min.absorb2 nat_le_linear diff_le_self set_append diff_is_0_eq drop0)
    then show ?thesis using rec s' unfolding q2 take_take m by (auto simp: fs)
  qed
qed

text \<open>The pool after the first section has room for the fiber, or is emptied to have it.\<close>

lemma deallocate_self_last:
  assumes ok: "pools_ok ps s" and p: "p \<in> set ps" and d: "distinct (fp_fibers (pools s p))"
    and live: "set (fp_fibers (pools s p)) \<subseteq> live_fibers s"
    and f: "f \<noteq> NULL" "\<not> allocated_from_thread (fibers s f)"
  shows "\<exists>s1 l. deallocate_self f p s = Some s1 \<and> lock_free p s1 \<and> fp_fibers (pools s1 p) = l @ [f]"
proof -
  let ?s0 = "upd_fiber f (resumable_update (\<lambda>_. False)) s"
  have s0: "pools ?s0 = pools s" "pool_locks ?s0 = pool_locks s" "live_fibers ?s0 = live_fibers s"
    "\<not> allocated_from_thread (fibers ?s0 f)" "p \<noteq> NULL"
    using f ok p by (auto simp: upd_fiber_def pools_ok_def)
  have ok0: "pools_ok ps ?s0" by (rule pools_ok_same [OF ok s0(1,2)])
  have l: "lock_free p ?s0" and fit: "pool_fits (pools s p)" using pools_ok_member [OF ok0 p] s0(1) by simp_all
  show ?thesis
  proof (cases "fp_size (pools s p) < fp_max_size (pools s p)")
    case True
    have "deallocate_section f p ?s0 = Some (True, ?s0\<lparr>pools := (pools s)(p := (pools s p)\<lparr>fp_fibers := fp_fibers (pools s p) @ [f]\<rparr>)\<rparr>)"
      using deallocate_put_back [of p ?s0 f] l True s0(1) by simp
    then show ?thesis using s0(4,5) l by (simp add: deallocate_self_def Let_def lock_free_def)
  next
    case False
    have par: "fp_parent (pools ?s0 p) \<noteq> NULL \<Longrightarrow> fp_parent (pools ?s0 p) \<noteq> p \<and> lock_free (fp_parent (pools ?s0 p)) ?s0"
      using parent_in_list [OF ok0 p] pools_ok_member [OF ok0] by blast
    obtain s1 where s1: "deallocate_section f p ?s0 = Some (False, s1)" "pool_locks s1 = pool_locks s" "live_fibers s1 = live_fibers s"
      "fp_max_size (pools s1 p) = fp_max_size (pools s p)" "\<exists>n. fp_fibers (pools s1 p) = take n (fp_fibers (pools s p))"
    proof -
      let ?r = "fp_parent (pools s p)" and ?k = "three_quarters (pools s p)"
      let ?P = "if ?r = NULL \<or> fp_max_size (pools s ?r) \<le> fp_size (pools s ?r) then ?s0
        else ?s0\<lparr>pools := (pools s)(p := child_after ?k (pools s p) (pools s ?r), ?r := parent_after ?k (pools s p) (pools s ?r))\<rparr>"
      have "deallocate_section f p ?s0 = Some (False, ?P)"
        using deallocate_full [of p ?s0 f, OF l _ par] False by (simp add: s0(1) Let_def)
      moreover have "\<exists>n. fp_fibers (pools s p) = take n (fp_fibers (pools s p))"
        by (rule exI [of _ "fp_size (pools s p)"]) simp
      ultimately show thesis using s0(1-3) par by (intro that [of ?P]) (auto simp: child_after_def)
    qed
    obtain n where n: "fp_fibers (pools s1 p) = take n (fp_fibers (pools s p))" using s1(5) by blast
    have max: "1 \<le> fp_max_size (pools s p)" using fit by (simp add: pool_fits_def)
    have "lock_free p s1" using l s1(2) s0(2) by (simp add: lock_free_def)
    moreover have "distinct (fp_fibers (pools s1 p))" using d n by simp
    moreover have "set (fp_fibers (pools s1 p)) \<subseteq> live_fibers s1" using live n s1(3) set_take_subset by (metis order_trans)
    moreover have "f \<noteq> NULL \<Longrightarrow> keep_all_but_one (fp_max_size (pools s1 p)) < fp_max_size (pools s1 p)"
      using max s1(4) by (simp add: keep_all_but_one_def)
    ultimately obtain s2 where "free_fibers_from_pool p (keep_all_but_one (fp_max_size (pools s1 p))) f s1 = Some s2" "lock_free p s2"
      "fp_fibers (pools s2 p) = take (keep_all_but_one (fp_max_size (pools s1 p))) (fp_fibers (pools s1 p)) @ [f]"
      using free_fibers_returns [of p s1 f "keep_all_but_one (fp_max_size (pools s1 p))"] f(1) by auto
    then show ?thesis using s0(4,5) s1(1) by (simp add: deallocate_self_def Let_def)
  qed
qed


text \<open>The worker's pool is full, and its oldest fibers are thread blocks 10 and 11.\<close>

definition full_pools :: fiber_sys where
  "full_pools = two_pools\<lparr>pools := (pools two_pools)(2 := (pools two_pools 2)\<lparr>fp_fibers := [10, 11]\<rparr>), live_fibers := {10, 11, 12}\<rparr>"


end
