(* ===== verification/Workers.thy ===== *)
theory Workers
  imports Global_State Signal_Tree Fiber_Pool Full_Frame Worker_Lock
begin

text \<open>
  The life of the workers (runtime/scheduler.c, runtime/cilk-abi.c, runtime/sysdep-unix.c, runtime/pedigrees.c):
  the runtime makes a table of workers, starts a thread for each system worker, binds a user thread to a free
  worker when it enters Cilk and gives the worker back when it leaves. Everything runs under the global lock, so each call is
  one step. The store of the runtime is joined here with the fibers, the settings and the storage of each thread, numbered by
  naturals. What the C library's allocator answers is handed in. The list of ready tasks and the pedigree node
  inside a worker are named by their addresses; the fiber pool of a worker by the worker's. The per worker
  state of the frame allocator is that of theory Frame_Malloc, the contents of reducer maps that of Reducer_Map;
  statistics, tracing, record and replay are left out.
\<close>

record runtime =
  store :: rt
  fib :: fiber_sys
  gpool :: ptr
  user_values :: bool
  published :: bool
  tls_worker :: "nat \<Rightarrow> ptr"
  tls_leaf :: "nat \<Rightarrow> ptr"
  tls_tbb :: "nat \<Rightarrow> tbb_tls"
  ped_counter :: int

definition in_store :: "(rt \<Rightarrow> rt option) \<Rightarrow> runtime \<Rightarrow> runtime option" where
  "in_store f r = map_option (\<lambda>s. r\<lparr>store := s\<rparr>) (f (store r))"

definition in_fibers :: "(fiber_sys \<Rightarrow> fiber_sys option) \<Rightarrow> runtime \<Rightarrow> runtime option" where
  "in_fibers f r = map_option (\<lambda>s. r\<lparr>fib := s\<rparr>) (f (fib r))"

definition set_worker :: "ptr \<Rightarrow> (worker \<Rightarrow> worker) \<Rightarrow> runtime \<Rightarrow> runtime" where
  "set_worker w f r = r\<lparr>store := upd_w w f (store r)\<rparr>"

definition set_glob :: "(global_state \<Rightarrow> global_state) \<Rightarrow> runtime \<Rightarrow> runtime" where
  "set_glob f r = r\<lparr>store := (store r)\<lparr>glob := f (glob (store r))\<rparr>\<rparr>"

abbreviation wk :: "runtime \<Rightarrow> ptr \<Rightarrow> worker" where "wk r w \<equiv> wks (store r) w"
abbreviation gs :: "runtime \<Rightarrow> global_state" where "gs r \<equiv> glob (store r)"

text \<open>Addresses of the members of a worker.\<close>

definition worker_pedigree :: "ptr \<Rightarrow> ptr" where "worker_pedigree w = w + 96"
definition worker_ready_list :: "ptr \<Rightarrow> ptr" where "worker_ready_list w = w + 112"

subsection \<open>Pedigrees of user threads\<close>

text \<open>The leaf and the root node of a thread are made when they are first asked for, in the block \<open>new\<close>.\<close>

definition get_tls_pedigree_leaf :: "ptr \<Rightarrow> nat \<Rightarrow> runtime \<Rightarrow> (ptr \<times> runtime) option" where
  "get_tls_pedigree_leaf new t r =
     (if tls_leaf r t \<noteq> NULL then Some (tls_leaf r t, r)
      else do { let n = ped_counter r + 1;
                let r1 = r\<lparr>tls_leaf := (tls_leaf r)(t := new), ped_counter := n,
                           store := (store r)\<lparr>peds := (peds (store r))(new := \<lparr>rank = 0, parent_node = new + 16\<rparr>,
                             new + 16 := \<lparr>rank = of_int n, parent_node = NULL\<rparr>)\<rparr>\<rparr>;
                cilk_assert (of_int n \<noteq> (- 1 :: 64 word));
                Some (new, r1) })"

definition set_pedigree_leaf :: "ptr \<Rightarrow> nat \<Rightarrow> runtime \<Rightarrow> runtime" where
  "set_pedigree_leaf leaf t r = r\<lparr>tls_leaf := (tls_leaf r)(t := leaf)\<rparr>"

definition load_pedigree_leaf_into_user_worker :: "ptr \<Rightarrow> nat \<Rightarrow> ptr \<Rightarrow> runtime \<Rightarrow> runtime option" where
  "load_pedigree_leaf_into_user_worker new t w r =
     do { cilk_assert (wtype (wk r w) = WORKER_USER);
          (leaf, r1) \<leftarrow> get_tls_pedigree_leaf new t r;
          let r2 = set_worker w (w_pedigree_update (\<lambda>_. peds (store r1) leaf)) r1;
          cilk_assert (original_pedigree_leaf (wk r2 w) = NULL);
          let r3 = set_worker w (original_pedigree_leaf_update (\<lambda>_. leaf)) r2;
          let r4 = set_pedigree_leaf (worker_pedigree w) t r3;
          cilk_assert (parent_node (w_pedigree (wk r4 w)) \<noteq> NULL);
          cilk_assert (parent_node (peds (store r4) (parent_node (w_pedigree (wk r4 w)))) = NULL);
          Some r4 }"

definition save_pedigree_leaf_from_user_worker :: "nat \<Rightarrow> ptr \<Rightarrow> runtime \<Rightarrow> runtime option" where
  "save_pedigree_leaf_from_user_worker t w r =
     (let leaf = original_pedigree_leaf (wk r w)
      in do { cilk_assert (wtype (wk r w) = WORKER_USER);
              cilk_assert (leaf \<noteq> NULL);
              let r1 = r\<lparr>store := (store r)\<lparr>peds := (peds (store r))(leaf :=
                         (peds (store r) leaf)\<lparr>rank := rank (w_pedigree (wk r w))\<rparr>)\<rparr>\<rparr>;
              Some (set_worker w (original_pedigree_leaf_update (\<lambda>_. NULL)) (set_pedigree_leaf leaf t r1)) })"

definition bump_worker_rank_internal :: "ptr \<Rightarrow> nat \<Rightarrow> ptr \<Rightarrow> runtime \<Rightarrow> runtime option" where
  "bump_worker_rank_internal new t w r =
     (if w \<noteq> NULL then Some (set_worker w (\<lambda>v. v\<lparr>w_pedigree := (w_pedigree v)\<lparr>rank := rank (w_pedigree v) + 1\<rparr>\<rparr>) r)
      else do { (leaf, r1) \<leftarrow> get_tls_pedigree_leaf new t r;
                Some (r1\<lparr>store := (store r1)\<lparr>peds := (peds (store r1))(leaf :=
                        (peds (store r1) leaf)\<lparr>rank := rank (peds (store r1) leaf) + 1\<rparr>)\<rparr>\<rparr>) })"

definition get_pedigree_internal :: "ptr \<Rightarrow> nat \<Rightarrow> ptr \<Rightarrow> runtime \<Rightarrow> (pedigree \<times> runtime) option" where
  "get_pedigree_internal new t w r =
     (if w \<noteq> NULL then Some (w_pedigree (wk r w), r)
      else do { (leaf, r1) \<leftarrow> get_tls_pedigree_leaf new t r; Some (peds (store r1) leaf, r1) })"

text \<open>The walk over the pedigree, through a context that holds the last node returned; \<open>at\<close> is what the node at
  an address holds, which may lie in a stack frame.\<close>

record pedigree_context =
  context_size :: "64 word"
  context_pedigree :: ptr

definition sizeof_pedigree_context :: "64 word" where "sizeof_pedigree_context = 32"
definition PEDIGREE_WALK_COMPLETE :: ptr where "PEDIGREE_WALK_COMPLETE = - 1"

definition get_pedigree_info ::
  "(ptr \<Rightarrow> pedigree) \<Rightarrow> ptr \<Rightarrow> nat \<Rightarrow> pedigree_context \<Rightarrow> runtime \<Rightarrow> (int \<times> 64 word option \<times> pedigree_context \<times> runtime) option" where
  "get_pedigree_info at new t c r =
     (if context_size c \<noteq> sizeof_pedigree_context then Some (- 3, None, c, r)
      else if context_pedigree c = PEDIGREE_WALK_COMPLETE then Some (1, None, c, r)
      else do { (p, r1) \<leftarrow> (if context_pedigree c = NULL
                            then map_option (\<lambda>(q, r1). (parent_node q, r1)) (get_pedigree_internal new t (tls_worker r t) r)
                            else Some (parent_node (at (context_pedigree c)), r));
                if p = NULL then Some (1, None, c\<lparr>context_pedigree := PEDIGREE_WALK_COMPLETE\<rparr>, r1)
                else Some (0, Some (rank (at p)), c\<lparr>context_pedigree := p\<rparr>, r1) })"

definition get_worker_number :: "nat \<Rightarrow> runtime \<Rightarrow> int" where
  "get_worker_number t r =
     (let w = tls_worker r t
      in if w = NULL then 0 else if wtype (wk r w) = WORKER_USER then 0 else self (wk r w) + 1)"

subsection \<open>Making and destroying workers\<close>

text \<open>\<open>arr\<close> is the block for the array of the worker's fiber pool.\<close>

definition make_worker :: "ptr \<Rightarrow> int \<Rightarrow> ptr \<Rightarrow> runtime \<Rightarrow> runtime option" where
  "make_worker arr n w r =
     (let g = gs r;
          r1 = set_worker w (\<lambda>v. \<lparr>worker_magic_0 = WORKER_MAGIC_0, worker_magic_1 = WORKER_MAGIC_1,
                 lock = mutex_init (lock v), do_not_steal = 0, steal_lock = mutex_init (steal_lock v),
                 wtail = 0, whead = 0, exc = Some 0, protected_tail = uint (ltqsize g), ltq_limit = uint (ltqsize g), ltq = ltq v,
                 self = n, reducer_map = NULL, current_stack_frame = NULL, w_pedigree = \<lparr>rank = 0, parent_node = NULL\<rparr>,
                 ready_list = worker_ready_list w, w_frame_ff = NULL, next_frame_ff = NULL, last_full_frame = NULL, team = NULL,
                 wtype = WORKER_FREE, scheduling_fiber = NULL, original_pedigree_leaf = NULL, rand_seed = 0,
                 post_suspend = Fcn_none, suspended_stack = NULL, fiber_to_free = NULL, w_pending_exception = NULL,
                 steal_failure_count = 0, work_stolen = False, signal_node = NULL, numa_node = numa_node v, numa_local_self = - 1\<rparr>) r;
          rl = worker_ready_list w;
          r2 = r1\<lparr>store := set_rl_tail rl rl (upd_pf rl (next_ready_frame_update (\<lambda>_. NULL)) (store r1))\<rparr>
      in in_fibers (cilk_fiber_pool_init arr w (gpool r) (stack_size g) (nat (fiber_pool_size g)) 0 False) r2)"

definition destroy_worker :: "ptr \<Rightarrow> runtime \<Rightarrow> runtime option" where
  "destroy_worker w r =
     do { cilk_assert (w_pending_exception (wk r w) = NULL);
          cilk_assert (next_ready_frame (pfs (store r) (ready_list (wk r w))) = NULL);
          r1 \<leftarrow> (if scheduling_fiber (wk r w) \<noteq> NULL
                 then do { cilk_assert (wtype (wk r w) = WORKER_FREE);
                           r' \<leftarrow> in_fibers (cilk_fiber_remove_reference (scheduling_fiber (wk r w)) NULL) r;
                           Some (set_worker w (scheduling_fiber_update (\<lambda>_. NULL)) r') }
                 else Some r);
          r2 \<leftarrow> in_fibers (cilk_fiber_pool_destroy w) r1;
          cilk_assert (signal_node (wk r2 w) \<noteq> NULL \<longrightarrow> wtype (wk r2 w) = WORKER_SYSTEM);
          Some r2 }"

definition make_worker_system :: "ptr \<Rightarrow> ptr \<Rightarrow> runtime \<Rightarrow> runtime option" where
  "make_worker_system node w r =
     do { cilk_assert (wtype (wk r w) = WORKER_FREE);
          let (p, s) = signal_node_create node (store r);
          Some (set_worker w (\<lambda>v. v\<lparr>wtype := WORKER_SYSTEM, signal_node := p\<rparr>) (r\<lparr>store := s\<rparr>)) }"

text \<open>The blocks: the memory of all workers, which lie 256 bytes apart, the arrays of their pools, the array of the global pool and
  the signal nodes.\<close>

record init_memory =
  workers_memory :: ptr
  pool_array :: "nat \<Rightarrow> ptr"
  global_pool :: ptr
  global_pool_array :: ptr
  node_memory :: "nat \<Rightarrow> ptr"

definition worker_slot :: "init_memory \<Rightarrow> nat \<Rightarrow> ptr" where
  "worker_slot m i = workers_memory m + 256 * of_nat i"

fun make_workers :: "init_memory \<Rightarrow> nat list \<Rightarrow> runtime \<Rightarrow> runtime option" where
  "make_workers m [] r = Some r"
| "make_workers m (i # is) r =
     do { r1 \<leftarrow> make_worker (pool_array m i) (int i) (worker_slot m i) r;
          make_workers m is (set_glob (\<lambda>g. g\<lparr>workers := (workers g)(int i := worker_slot m i)\<rparr>) r1) }"

fun make_workers_system :: "init_memory \<Rightarrow> nat list \<Rightarrow> runtime \<Rightarrow> runtime option" where
  "make_workers_system m [] r = Some r"
| "make_workers_system m (i # is) r =
     do { r1 \<leftarrow> make_worker_system (node_memory m i) (workers (gs r) (int i)) r; make_workers_system m is r1 }"

definition init_workers :: "init_memory \<Rightarrow> runtime \<Rightarrow> runtime option" where
  "init_workers m r =
     (let g = gs r; p = global_pool m; r0 = r\<lparr>gpool := p\<rparr>
      in do { r1 \<leftarrow> in_fibers (cilk_fiber_pool_init (global_pool_array m) p NULL (stack_size g) (nat (global_fiber_pool_size g))
                       (sint (max_stacks g)) True) r0;
              r2 \<leftarrow> in_fibers (cilk_fiber_pool_set_fiber_limit p (if max_stacks g \<noteq> 0 then sint (max_stacks g) else INT_MAX)) r1;
              r3 \<leftarrow> make_workers m [0..<nat (total_workers g)] r2;
              make_workers_system m [0..<nat (system_workers g)] r3 })"

subsection \<open>Start and stop of the runtime\<close>

definition conf_of :: "runtime \<Rightarrow> config" where
  "conf_of r = \<lparr>singleton = gs r, user_values_initialized = user_values r, singleton_published = published r\<rparr>"

definition with_conf :: "config \<Rightarrow> runtime \<Rightarrow> runtime" where
  "with_conf c r = set_glob (\<lambda>_. singleton c) (r\<lparr>user_values := user_values_initialized c, published := singleton_published c\<rparr>)"

text \<open>The workers whose threads are started.\<close>

definition start_workers :: "int \<Rightarrow> runtime \<Rightarrow> ptr list \<times> runtime" where
  "start_workers n r =
     (map (\<lambda>i. workers (gs r) (int i)) [0..<nat n], set_glob (\<lambda>g. g\<lparr>workers_running := True, work_done := False\<rparr>) r)"

definition cilkrts_init_internal ::
  "os_env \<Rightarrow> string \<Rightarrow> init_memory \<Rightarrow> bool \<Rightarrow> runtime \<Rightarrow> (ptr list \<times> runtime) option" where
  "cilkrts_init_internal env envstr m start r =
     do { r1 \<leftarrow> (if published r then Some r
                 else do { c \<leftarrow> cilkg_init_global_state env envstr (conf_of r);
                           r' \<leftarrow> init_workers m (with_conf c r);
                           cilk_assert (P (gs r') - 1 \<le> total_workers (gs r'));
                           Some (with_conf (cilkg_publish_global_state (conf_of r')) r') });
          Some (if start \<and> \<not> workers_running (gs r1) then start_workers (P (gs r1) - 1) r1 else ([], r1)) }"

text \<open>The thread of a system worker, before and after the scheduling loop; \<open>t\<close> is its number and \<open>new\<close> the block for its fiber.\<close>

definition scheduler_thread_start :: "ptr \<Rightarrow> nat \<Rightarrow> ptr \<Rightarrow> runtime \<Rightarrow> runtime option" where
  "scheduler_thread_start new t w r =
     do { cilk_assert (wtype (wk r w) = WORKER_SYSTEM);
          (f, s) \<leftarrow> allocate_from_thread new (fib r);
          Some (set_worker w (scheduling_fiber_update (\<lambda>_. f))
                 (r\<lparr>tls_worker := (tls_worker r)(t := w), fib := upd_fiber f (fiber_owner_update (\<lambda>_. w)) s\<rparr>)) }"

definition scheduler_thread_end :: "ptr \<Rightarrow> runtime \<Rightarrow> runtime option" where
  "scheduler_thread_end w r =
     map_option (set_worker w (scheduling_fiber_update (\<lambda>_. NULL))) (in_fibers (deallocate_from_thread (scheduling_fiber (wk r w))) r)"

text \<open>\<open>joined\<close> is what the system workers' threads do until they have ended.\<close>

definition stop_workers :: "(runtime \<Rightarrow> runtime option) \<Rightarrow> runtime \<Rightarrow> runtime option" where
  "stop_workers joined r =
     (let r1 = set_glob (work_done_update (\<lambda>_. True)) r
      in if \<not> workers_running (gs r1) then Some r1
         else do { r2 \<leftarrow> (if 1 < P (gs r1)
                          then do { let node = signal_node (wk r1 (workers (gs r1) 0));
                                    cilk_assert (node \<noteq> NULL);
                                    in_store (signal_node_msg node 1) r1 }
                          else Some r1);
                   r3 \<leftarrow> joined r2;
                   Some (set_glob (workers_running_update (\<lambda>_. False)) r3) })"

fun destroy_workers :: "nat list \<Rightarrow> runtime \<Rightarrow> runtime option" where
  "destroy_workers [] r = Some r"
| "destroy_workers (i # is) r = do { r1 \<leftarrow> destroy_worker (workers (gs r) (int i)) r; destroy_workers is r1 }"

definition cilkrts_deinit_internal :: "runtime \<Rightarrow> runtime option" where
  "cilkrts_deinit_internal r =
     (let w = workers (gs r) 0
      in do { r1 \<leftarrow> (if w_frame_ff (wk r w) \<noteq> NULL
                     then do { _ \<leftarrow> destroy_full_frame (w_frame_ff (wk r w)) (store r);
                               Some (set_worker w (w_frame_ff_update (\<lambda>_. NULL)) r) }
                     else Some r);
              r2 \<leftarrow> destroy_workers [0..<nat (total_workers (gs r1))] r1;
              r3 \<leftarrow> in_fibers (cilk_fiber_pool_destroy (gpool r2)) r2;
              Some (with_conf (cilkg_deinit_global_state (conf_of r3)) r3) })"

definition cilkrts_end_cilk :: "(runtime \<Rightarrow> runtime option) \<Rightarrow> nat \<Rightarrow> runtime \<Rightarrow> runtime option" where
  "cilkrts_end_cilk joined t r =
     (if \<not> published r then Some r
      else if Q (gs r) \<noteq> 0 \<or> tls_worker r t \<noteq> NULL then None
      else do { r1 \<leftarrow> stop_workers joined r; cilkrts_deinit_internal r1 })"

subsection \<open>Entering and leaving Cilk\<close>

text \<open>A free worker of the table, or a new one in the block \<open>w\<close> that does not belong to the table.\<close>

fun scan_free_worker :: "nat list \<Rightarrow> runtime \<Rightarrow> (ptr \<times> runtime) option option" where
  "scan_free_worker [] r = Some None"
| "scan_free_worker (i # is) r =
     (let w = workers (gs r) (int i)
      in do { cilk_assert (wtype (wk r w) \<noteq> WORKER_SYSTEM);
              if wtype (wk r w) = WORKER_FREE
              then Some (Some (w, set_worker w (\<lambda>v. v\<lparr>wtype := WORKER_USER, team := w\<rparr>) r))
              else scan_free_worker is r })"

definition find_free_worker :: "ptr \<Rightarrow> ptr \<Rightarrow> runtime \<Rightarrow> (ptr \<times> runtime) option" where
  "find_free_worker arr w r =
     do { found \<leftarrow> scan_free_worker [nat (P (gs r) - 1)..<nat (total_workers (gs r))] r;
          (case found of
             Some x \<Rightarrow> Some x
           | None \<Rightarrow> do { r1 \<leftarrow> make_worker arr (- 1) w r;
                          Some (w, set_worker w (\<lambda>v. v\<lparr>wtype := WORKER_USER, team := w\<rparr>) r1) }) }"

text \<open>The blocks: for the runtime, an extra worker and its pool's array, the full frame and its fiber, the reducer map, the scheduling
  fiber with its stack, the pedigree nodes.\<close>

record bind_memory =
  init_mem :: init_memory
  extra_worker :: ptr
  extra_array :: ptr
  new_ff :: ptr
  new_fiber :: ptr
  new_map :: ptr
  new_scheduling_fiber :: "ptr \<times> ptr"
  new_leaf :: ptr

definition scheduler_fiber_proc_for_user_worker :: ptr where "scheduler_fiber_proc_for_user_worker = 1"
definition CILK_SCHEDULING_STACK_SIZE :: "64 word" where "CILK_SCHEDULING_STACK_SIZE = 18 * 4096"

definition bind_frame :: "bind_memory \<Rightarrow> nat \<Rightarrow> ptr \<Rightarrow> runtime \<Rightarrow> runtime option" where
  "bind_frame m t w r =
     do { let ff = new_ff m;
          let r1 = r\<lparr>store := make_full_frame ff NULL 0 (store r)\<rparr>;
          (f, s) \<leftarrow> allocate_from_thread (new_fiber m) (fib r1);
          let r2 = r1\<lparr>store := upd_ff ff (fiber_self_update (\<lambda>_. f)) (store r1)\<rparr>;
          (s1, tls) \<leftarrow> tbb_interop_use_saved_stack_op_info f (upd_fiber f (fiber_owner_update (\<lambda>_. w)) s, tls_tbb r2 t);
          let r3 = r2\<lparr>fib := s1, tls_tbb := (tls_tbb r2)(t := tls)\<rparr>;
          cilk_assert (join_counter (ffs (store r3) ff) = 0);
          let r4 = set_worker w (\<lambda>v. v\<lparr>w_frame_ff := ff, reducer_map := new_map m\<rparr>)
                     (r3\<lparr>store := upd_ff ff (join_counter_update (\<lambda>_. 1)) (store r3)\<rparr>);
          load_pedigree_leaf_into_user_worker (new_leaf m) t w r4 }"

text \<open>Without memory for a scheduling fiber the null pointer is dereferenced.\<close>

definition bind_scheduling_fiber :: "bind_memory \<Rightarrow> ptr \<Rightarrow> runtime \<Rightarrow> runtime option" where
  "bind_scheduling_fiber m w r =
     (if scheduling_fiber (wk r w) = NULL \<and> 0 \<le> self (wk r w)
      then do { let (f, s) = allocate_from_heap (new_scheduling_fiber m) CILK_SCHEDULING_STACK_SIZE (fib r);
                let r1 = set_worker w (scheduling_fiber_update (\<lambda>_. f)) (r\<lparr>fib := s\<rparr>);
                cilk_assert (f \<noteq> NULL);
                s1 \<leftarrow> cilk_fiber_reset_state f scheduler_fiber_proc_for_user_worker (fib r1);
                Some (r1\<lparr>fib := upd_fiber f (fiber_owner_update (\<lambda>_. w)) s1\<rparr>) }
      else Some r)"

definition bind_thread :: "os_env \<Rightarrow> string \<Rightarrow> bind_memory \<Rightarrow> nat \<Rightarrow> runtime \<Rightarrow> (ptr \<times> ptr list \<times> runtime) option" where
  "bind_thread env envstr m t r =
     do { (started, r1) \<leftarrow> cilkrts_init_internal env envstr (init_mem m) True r;
          cilk_assert (\<not> work_done (gs r1));
          (w, r2) \<leftarrow> find_free_worker (extra_array m) (extra_worker m) r1;
          cilk_assert (w \<noteq> NULL);
          r3 \<leftarrow> bind_frame m t w (r2\<lparr>tls_worker := (tls_worker r2)(t := w)\<rparr>);
          cilk_assert (whead (wk r3 w) = 0);
          cilk_assert (wtail (wk r3 w) = 0);
          cilk_assert (protected_tail (wk r3 w) = ltq_limit (wk r3 w));
          r4 \<leftarrow> bind_scheduling_fiber m w (set_worker w (w_pending_exception_update (\<lambda>_. NULL)) r3);
          let r5 = (if scheduling_fiber (wk r4 w) = NULL then set_worker w (\<lambda>v. snd (disallow_stealing None v)) r4 else r4);
          r6 \<leftarrow> (if self (wk r5 w) \<noteq> - 1 then in_store cilkrts_enter_cilk r5 else Some r5);
          Some (w, started, r6) }"

definition unbind_thread :: "nat \<Rightarrow> runtime \<Rightarrow> runtime option" where
  "unbind_thread t r =
     (let w = tls_worker r t; r1 = r\<lparr>tls_worker := (tls_worker r)(t := NULL)\<rparr>
      in if published r \<and> w \<noteq> NULL
         then (if self (wk r1 w) = - 1 then destroy_worker w r1
               else in_store cilkrts_leave_cilk (set_worker w (wtype_update (\<lambda>_. WORKER_FREE)) r1))
         else Some r)"

text \<open>The map of the worker is handed to the code that destroys it.\<close>

definition c_return_from_initial :: "nat \<Rightarrow> ptr \<Rightarrow> runtime \<Rightarrow> (ptr \<times> runtime) option" where
  "c_return_from_initial t w r =
     do { cilk_assert (wtype (wk r w) = WORKER_USER);
          r1 \<leftarrow> in_store (lock_w w) r;
          let ff = w_frame_ff (wk r1 w);
          cilk_assert (ff \<noteq> NULL);
          cilk_assert (join_counter (ffs (store r1) ff) = 1);
          let r2 = set_worker w (w_frame_ff_update (\<lambda>_. NULL)) r1;
          let f = fiber_self (ffs (store r2) ff);
          cilk_assert (f \<noteq> NULL);
          let r3 = r2\<lparr>tls_tbb := (tls_tbb r2)(t := tbb_interop_save_info_from_stack f (fib r2) (tls_tbb r2 t))\<rparr>;
          cilk_assert (f \<noteq> scheduling_fiber (wk r3 w));
          r4 \<leftarrow> in_fibers (deallocate_from_thread f) r3;
          let r5 = r4\<lparr>store := upd_ff ff (fiber_self_update (\<lambda>_. NULL)) (store r4)\<rparr>;
          let rm = reducer_map (wk r5 w);
          let r6 = set_worker w (reducer_map_update (\<lambda>_. NULL)) r5;
          _ \<leftarrow> destroy_full_frame ff (store r6);
          r7 \<leftarrow> in_store (unlock_w w) r6;
          r8 \<leftarrow> save_pedigree_leaf_from_user_worker t w r7;
          r9 \<leftarrow> unbind_thread t r8;
          Some (rm, r9) }"

end
