(* ===== verification/Workers_Proofs.thy ===== *)
theory Workers_Proofs
  imports Workers Global_State_Proofs
begin

text \<open>
  Each user thread has a worker of its own while it is in Cilk, and the count of the threads in Cilk is right: over all
  sequences of threads entering and leaving, with the program running in between.
\<close>

subsection \<open>What the calls leave alone\<close>

definition same_workers :: "runtime \<Rightarrow> runtime \<Rightarrow> bool" where
  "same_workers r r' \<longleftrightarrow> (\<forall>w. wtype (wk r' w) = wtype (wk r w) \<and> self (wk r' w) = self (wk r w)) \<and>
     gs r' = gs r \<and> tls_worker r' = tls_worker r \<and> published r' = published r"

lemma same_workers_refl [simp]: "same_workers r r"
  by (simp add: same_workers_def)

lemma same_workers_trans: "same_workers r r1 \<Longrightarrow> same_workers r1 r2 \<Longrightarrow> same_workers r r2"
  by (simp add: same_workers_def)

lemma same_set_worker:
  assumes "\<And>v. wtype (f v) = wtype v" and "\<And>v. self (f v) = self v"
  shows "same_workers r (set_worker w f r)"
  using assms by (simp add: same_workers_def set_worker_def)

lemma same_in_fibers: "in_fibers f r = Some r' \<Longrightarrow> same_workers r r'"
  by (auto simp: in_fibers_def same_workers_def)

lemma same_leaf: "get_tls_pedigree_leaf new t r = Some (leaf, r') \<Longrightarrow> same_workers r r'"
  by (auto simp: get_tls_pedigree_leaf_def same_workers_def Let_def split: if_splits bind_splits)

lemma same_load: "load_pedigree_leaf_into_user_worker new t w r = Some r' \<Longrightarrow> same_workers r r'"
  by (auto simp: load_pedigree_leaf_into_user_worker_def set_pedigree_leaf_def same_workers_def set_worker_def Let_def
      dest!: same_leaf split: bind_splits)

lemma same_save: "save_pedigree_leaf_from_user_worker t w r = Some r' \<Longrightarrow> same_workers r r'"
  by (auto simp: save_pedigree_leaf_from_user_worker_def set_pedigree_leaf_def same_workers_def set_worker_def Let_def
      split: bind_splits)

lemma same_bind_frame: "bind_frame m t w r = Some r' \<Longrightarrow> same_workers r r'"
  by (auto simp: bind_frame_def make_full_frame_def same_workers_def set_worker_def Let_def dest!: same_load split: bind_splits)

lemma same_bind_scheduling_fiber: "bind_scheduling_fiber m w r = Some r' \<Longrightarrow> same_workers r r'"
  by (auto simp: bind_scheduling_fiber_def same_workers_def set_worker_def Let_def split: bind_splits if_splits prod.splits)

lemma same_destroy_worker: "destroy_worker w r = Some r' \<Longrightarrow> same_workers r r'"
  by (auto simp: destroy_worker_def same_workers_def set_worker_def dest!: same_in_fibers split: bind_splits if_splits)

lemma same_store: "wks s = wks (store r) \<Longrightarrow> glob s = glob (store r) \<Longrightarrow> same_workers r (r\<lparr>store := s\<rparr>)"
  by (simp add: same_workers_def)

lemma glob_notify: "signal_node_msg n m s = Some s' \<Longrightarrow> glob s' = glob s \<and> wks s' = wks s"
  by (auto simp: signal_node_msg_def upd_sn_def split: bind_splits if_splits)

lemma glob_signal_root: "signal_root m s = Some s' \<Longrightarrow> glob s' = glob s \<and> wks s' = wks s"
  by (auto simp: signal_root_def Let_def dest!: glob_notify split: bind_splits if_splits)

lemma enter_effect: "cilkrts_enter_cilk s = Some s' \<Longrightarrow> glob s' = (glob s)\<lparr>Q := Q (glob s) + 1\<rparr> \<and> wks s' = wks s"
  by (auto simp: cilkrts_enter_cilk_def wake_runtime_def Let_def dest!: glob_signal_root split: if_splits)

lemma leave_effect: "cilkrts_leave_cilk s = Some s' \<Longrightarrow> glob s' = (glob s)\<lparr>Q := Q (glob s) - 1\<rparr> \<and> wks s' = wks s"
  by (auto simp: cilkrts_leave_cilk_def sleep_runtime_def Let_def dest!: glob_signal_root split: if_splits)

lemma same_lock: "in_store (lock_w w) r = Some r' \<Longrightarrow> same_workers r r'"
  by (auto simp: in_store_def lock_w_def worker_lock_def same_workers_def split: bind_splits)

lemma same_unlock: "in_store (unlock_w w) r = Some r' \<Longrightarrow> same_workers r r'"
  by (auto simp: in_store_def unlock_w_def worker_unlock_def same_workers_def split: bind_splits)

subsection \<open>The table of workers\<close>

lemma make_worker_effect:
  assumes "make_worker arr n w r = Some r'"
  shows "wtype (wk r' x) = (if x = w then WORKER_FREE else wtype (wk r x))" and "self (wk r' x) = (if x = w then n else self (wk r x))"
    and "gs r' = gs r" and "tls_worker r' = tls_worker r" and "published r' = published r"
  using assms by (auto simp: make_worker_def set_worker_def in_fibers_def Let_def)

lemma make_workers_effect:
  assumes "make_workers m js r = Some r'" and "distinct js" and "inj_on (worker_slot m) (set js)"
  shows "(\<forall>i \<in> set js. wtype (wk r' (worker_slot m i)) = WORKER_FREE \<and> self (wk r' (worker_slot m i)) = int i \<and>
        workers (gs r') (int i) = worker_slot m i) \<and>
     (\<forall>w. w \<notin> worker_slot m ` set js \<longrightarrow> wtype (wk r' w) = wtype (wk r w) \<and> self (wk r' w) = self (wk r w)) \<and>
     (\<forall>n. n \<notin> int ` set js \<longrightarrow> workers (gs r') n = workers (gs r) n) \<and>
     gs r' = (gs r)\<lparr>workers := workers (gs r')\<rparr> \<and> tls_worker r' = tls_worker r \<and> published r' = published r"
  using assms
proof (induction m js r arbitrary: r' rule: make_workers.induct)
  case (1 m r)
  then show ?case by simp
next
  case (2 m i js r)
  from "2.prems"(1) obtain r1 where r1: "make_worker (pool_array m i) (int i) (worker_slot m i) r = Some r1"
    and rest: "make_workers m js (set_glob (\<lambda>g. g\<lparr>workers := (workers g)(int i := worker_slot m i)\<rparr>) r1) = Some r'"
    by (auto split: bind_splits)
  let ?r2 = "set_glob (\<lambda>g. g\<lparr>workers := (workers g)(int i := worker_slot m i)\<rparr>) r1"
  have sel: "wks (store ?r2) = wks (store r1)" "gs ?r2 = (gs r1)\<lparr>workers := (workers (gs r1))(int i := worker_slot m i)\<rparr>"
    "tls_worker ?r2 = tls_worker r1" "published ?r2 = published r1" by (simp_all add: set_glob_def)
  have new: "worker_slot m i \<notin> worker_slot m ` set js" "int i \<notin> int ` set js"
    using "2.prems"(2,3) by (auto simp: inj_on_def)
  have inj: "inj_on (worker_slot m) (set js)" using "2.prems"(3) by (simp add: inj_on_def)
  have d: "distinct js" using "2.prems"(2) by simp
  note IH = "2.IH" [OF r1 rest d inj]
  note e = make_worker_effect [OF r1]
  show ?case using IH new unfolding sel by (auto simp: e)
qed

lemma make_workers_system_effect:
  assumes "make_workers_system m js r = Some r'"
  shows "(\<forall>w. wtype (wk r' w) = (if w \<in> (\<lambda>i. workers (gs r) (int i)) ` set js then WORKER_SYSTEM else wtype (wk r w)) \<and>
       self (wk r' w) = self (wk r w)) \<and> gs r' = gs r \<and> tls_worker r' = tls_worker r \<and> published r' = published r"
  using assms
proof (induction m js r arbitrary: r' rule: make_workers_system.induct)
  case (1 m r)
  then show ?case by simp
next
  case (2 m i js r)
  from "2.prems" obtain r1 where r1: "make_worker_system (node_memory m i) (workers (gs r) (int i)) r = Some r1"
    and rest: "make_workers_system m js r1 = Some r'"
    by (cases "make_worker_system (node_memory m i) (workers (gs r) (int i)) r") simp_all
  have e: "\<forall>w. wtype (wk r1 w) = (if w = workers (gs r) (int i) then WORKER_SYSTEM else wtype (wk r w)) \<and>
      self (wk r1 w) = self (wk r w)" "gs r1 = gs r" "tls_worker r1 = tls_worker r" "published r1 = published r"
    using r1 by (auto simp: make_worker_system_def signal_node_create_def set_worker_def Let_def split: bind_splits)
  note IH = "2.IH" [OF r1 rest, unfolded e(2-4)]
  show ?case using IH e(1) by simp
qed

lemma make_workers_total: "make_workers m js r = Some r' \<Longrightarrow> total_workers (gs r') = total_workers (gs r)"
proof (induction js arbitrary: r)
  case (Cons i js)
  then obtain r1 where r1: "make_worker (pool_array m i) (int i) (worker_slot m i) r = Some r1"
    and rest: "make_workers m js (set_glob (\<lambda>g. g\<lparr>workers := (workers g)(int i := worker_slot m i)\<rparr>) r1) = Some r'"
    by (cases "make_worker (pool_array m i) (int i) (worker_slot m i) r") simp_all
  show ?case using Cons.IH [OF rest] make_worker_effect(3) [OF r1] by (simp add: set_glob_def)
qed simp

lemma init_workers_total:
  assumes "init_workers m r = Some r'"
  shows "total_workers (gs r') = total_workers (gs r)"
proof -
  obtain f r3 where r3: "make_workers m [0..<nat (total_workers (gs r))] (r\<lparr>gpool := global_pool m, fib := f\<rparr>) = Some r3"
    and r4: "make_workers_system m [0..<nat (system_workers (gs r))] r3 = Some r'"
    using assms by (auto simp: init_workers_def Let_def in_fibers_def split: bind_splits)
  show ?thesis using make_workers_total [OF r3] make_workers_system_effect [OF r4] by simp
qed

definition table_ok :: "runtime \<Rightarrow> bool" where
  "table_ok r \<longleftrightarrow> 1 \<le> P (gs r) \<and> P (gs r) - 1 \<le> total_workers (gs r) \<and>
     inj_on (workers (gs r)) {0..<total_workers (gs r)} \<and> NULL \<notin> workers (gs r) ` {0..<total_workers (gs r)} \<and>
     (\<forall>i \<in> {0..<total_workers (gs r)}. self (wk r (workers (gs r) i)) = i \<and>
        (wtype (wk r (workers (gs r) i)) = WORKER_SYSTEM \<longleftrightarrow> i < P (gs r) - 1))"

text \<open>The memory for \<open>n\<close> workers is one block.\<close>

definition slots_ok :: "init_memory \<Rightarrow> int \<Rightarrow> bool" where
  "slots_ok m n \<longleftrightarrow> inj_on (worker_slot m) {0..<nat n} \<and> NULL \<notin> worker_slot m ` {0..<nat n}"

lemma init_workers_effect:
  assumes "init_workers m r = Some r'" and slots: "slots_ok m (total_workers (gs r))"
    and P: "1 \<le> P (gs r)" "P (gs r) - 1 \<le> total_workers (gs r)" "system_workers (gs r) = P (gs r) - 1"
  shows "table_ok r'" and "\<forall>i \<in> {P (gs r') - 1..<total_workers (gs r')}. wtype (wk r' (workers (gs r') i)) = WORKER_FREE"
    and "gs r' = (gs r)\<lparr>workers := workers (gs r')\<rparr>" and "tls_worker r' = tls_worker r" and "published r' = published r"
proof -
  let ?n = "nat (total_workers (gs r))"
  obtain f r3 where r3: "make_workers m [0..<?n] (r\<lparr>gpool := global_pool m, fib := f\<rparr>) = Some r3"
    and r4: "make_workers_system m [0..<nat (system_workers (gs r))] r3 = Some r'"
    using assms(1) by (auto simp: init_workers_def Let_def in_fibers_def split: bind_splits)
  let ?r2 = "r\<lparr>gpool := global_pool m, fib := f\<rparr>"
  have r2: "same_workers r ?r2" by (simp add: same_workers_def)
  have g2: "gs ?r2 = gs r" "tls_worker ?r2 = tls_worker r" "published ?r2 = published r" using r2 by (simp_all add: same_workers_def)
  have inj: "inj_on (worker_slot m) (set [0..<?n])" using slots by (simp add: slots_ok_def)
  note e3 = make_workers_effect [OF r3 _ inj, simplified]
  note e4 = make_workers_system_effect [OF r4]
  have g: "gs r' = (gs r)\<lparr>workers := workers (gs r')\<rparr>" using e3 e4 g2 by metis
  show "gs r' = (gs r)\<lparr>workers := workers (gs r')\<rparr>" by (rule g)
  show "tls_worker r' = tls_worker r" "published r' = published r" using e3 e4 g2 by simp_all
  have PT: "P (gs r') = P (gs r)" "total_workers (gs r') = total_workers (gs r)"
    using arg_cong [OF g, of P] arg_cong [OF g, of total_workers] by simp_all
  have slot: "workers (gs r') i = worker_slot m (nat i)" if "i \<in> {0..<total_workers (gs r)}" for i
  proof -
    have "nat i \<in> {0..<?n}" using that by auto
    then have "workers (gs r3) (int (nat i)) = worker_slot m (nat i)" using e3 by blast
    then show ?thesis using e4 that by simp
  qed
  have sys: "(worker_slot m (nat i) \<in> (\<lambda>i. workers (gs r3) (int i)) ` {0..<nat (system_workers (gs r))}) \<longleftrightarrow> i < P (gs r) - 1"
    if "i \<in> {0..<total_workers (gs r)}" for i
  proof -
    have "(\<lambda>i. workers (gs r3) (int i)) ` {0..<nat (system_workers (gs r))} = worker_slot m ` {0..<nat (P (gs r) - 1)}"
      using e3 P by (intro image_cong) auto
    moreover have "worker_slot m (nat i) \<in> worker_slot m ` {0..<nat (P (gs r) - 1)} \<longleftrightarrow> nat i \<in> {0..<nat (P (gs r) - 1)}"
      using inj that P(2) by (intro inj_on_image_mem_iff [where B = "{0..<?n}"]) auto
    ultimately show ?thesis using that by auto
  qed
  have ty: "wtype (wk r' (worker_slot m (nat i))) = (if i < P (gs r) - 1 then WORKER_SYSTEM else WORKER_FREE)"
    if "i \<in> {0..<total_workers (gs r)}" for i
  proof -
    have "nat i \<in> {0..<?n}" using that by auto
    then have "wtype (wk r3 (worker_slot m (nat i))) = WORKER_FREE" using e3 by blast
    then show ?thesis using e4 sys [OF that] by simp
  qed
  have se: "self (wk r' (worker_slot m (nat i))) = i" if "i \<in> {0..<total_workers (gs r)}" for i
  proof -
    have "nat i \<in> {0..<?n}" using that by auto
    then have "self (wk r3 (worker_slot m (nat i))) = int (nat i)" using e3 by blast
    then show ?thesis using e4 that by simp
  qed
  show "\<forall>i \<in> {P (gs r') - 1..<total_workers (gs r')}. wtype (wk r' (workers (gs r') i)) = WORKER_FREE"
    using ty slot P(1) unfolding PT by auto
  have "inj_on (workers (gs r')) {0..<total_workers (gs r)}"
  proof (rule inj_onI)
    fix i j assume ij: "i \<in> {0..<total_workers (gs r)}" "j \<in> {0..<total_workers (gs r)}" "workers (gs r') i = workers (gs r') j"
    then have "nat i = nat j" using slot inj by (auto simp: inj_on_def)
    then show "i = j" using ij by auto
  qed
  moreover have "NULL \<notin> workers (gs r') ` {0..<total_workers (gs r)}"
  proof
    assume "NULL \<in> workers (gs r') ` {0..<total_workers (gs r)}"
    then obtain i where "i \<in> {0..<total_workers (gs r)}" "worker_slot m (nat i) = NULL" using slot by force
    then show False using slots by (auto simp: slots_ok_def image_iff)
  qed
  ultimately show "table_ok r'" using ty se slot P unfolding table_ok_def PT by auto
qed

subsection \<open>Threads in Cilk\<close>

definition in_table :: "ptr \<Rightarrow> runtime \<Rightarrow> bool" where
  "in_table w r \<longleftrightarrow> w \<in> workers (gs r) ` {P (gs r) - 1..<total_workers (gs r)}"

definition counted :: "runtime \<Rightarrow> nat set" where
  "counted r = {t. tls_worker r t \<noteq> NULL \<and> self (wk r (tls_worker r t)) \<noteq> - 1}"

text \<open>Each thread in Cilk has a worker for user threads, its own; the workers of the table in use are those of threads in Cilk, and
  \<open>Q\<close> counts these. The other threads have an extra worker.\<close>

definition threads_ok :: "runtime \<Rightarrow> bool" where
  "threads_ok r \<longleftrightarrow> finite {t. tls_worker r t \<noteq> NULL} \<and> inj_on (tls_worker r) {t. tls_worker r t \<noteq> NULL} \<and>
     (\<forall>t. tls_worker r t \<noteq> NULL \<longrightarrow> wtype (wk r (tls_worker r t)) = WORKER_USER \<and>
        (in_table (tls_worker r t) r \<or> self (wk r (tls_worker r t)) = - 1 \<and>
           tls_worker r t \<notin> workers (gs r) ` {0..<total_workers (gs r)})) \<and>
     (\<forall>w. in_table w r \<longrightarrow> wtype (wk r w) = WORKER_USER \<longrightarrow> (\<exists>t. tls_worker r t = w)) \<and>
     Q (gs r) = int (card (counted r))"

definition users_inv :: "os_env \<Rightarrow> runtime \<Rightarrow> bool" where
  "users_inv env r \<longleftrightarrow>
     (if published r then table_ok r \<and> threads_ok r else config_ok env (conf_of r) \<and> (\<forall>t. tls_worker r t = NULL))"

text \<open>The program may do anything to the runtime's data but the table of workers and what names them.\<close>

definition program_keeps :: "runtime \<Rightarrow> runtime \<Rightarrow> bool" where
  "program_keeps r r' \<longleftrightarrow> published r' \<and> tls_worker r' = tls_worker r \<and> P (gs r') = P (gs r) \<and>
     total_workers (gs r') = total_workers (gs r) \<and> workers (gs r') = workers (gs r) \<and> Q (gs r') = Q (gs r) \<and>
     (\<forall>w. wtype (wk r' w) = wtype (wk r w) \<and> self (wk r' w) = self (wk r w))"

text \<open>The blocks handed out are not in use.\<close>

definition fresh_blocks :: "bind_memory \<Rightarrow> runtime \<Rightarrow> runtime \<Rightarrow> bool" where
  "fresh_blocks m r r' \<longleftrightarrow> (\<not> published r \<longrightarrow> slots_ok (init_mem m) (total_workers (gs r'))) \<and> extra_worker m \<noteq> NULL \<and>
     extra_worker m \<notin> workers (gs r') ` {0..<total_workers (gs r')} \<and> extra_worker m \<notin> range (tls_worker r)"

inductive users_step :: "os_env \<Rightarrow> runtime \<Rightarrow> runtime \<Rightarrow> bool" for env where
  settings: "\<not> published r \<Longrightarrow> config_ok env c \<Longrightarrow> \<not> singleton_published c \<Longrightarrow> users_step env r (with_conf c r)"
| enter: "tls_worker r t = NULL \<Longrightarrow> bind_thread env envstr m t r = Some (w, started, r') \<Longrightarrow> fresh_blocks m r r' \<Longrightarrow> users_step env r r'"
| leave: "tls_worker r t \<noteq> NULL \<Longrightarrow> c_return_from_initial t (tls_worker r t) r = Some (rm, r') \<Longrightarrow> users_step env r r'"
| program: "published r \<Longrightarrow> program_keeps r r' \<Longrightarrow> users_step env r r'"

definition runtime_start :: "runtime \<Rightarrow> bool" where
  "runtime_start r \<longleftrightarrow> \<not> published r \<and> \<not> user_values r \<and> (\<forall>t. tls_worker r t = NULL)"

inductive users_reachable :: "os_env \<Rightarrow> runtime \<Rightarrow> bool" for env where
  start: "runtime_start r \<Longrightarrow> users_reachable env r"
| step: "users_reachable env r \<Longrightarrow> users_step env r r' \<Longrightarrow> users_reachable env r'"

subsection \<open>Entering\<close>

lemma init_internal_effect:
  assumes m: "machine_ok env" and inv: "users_inv env r" and i: "cilkrts_init_internal env envstr im start r = Some (st, r')"
    and slots: "\<not> published r \<Longrightarrow> slots_ok im (total_workers (gs r'))"
  shows "published r'" and "table_ok r'" and "threads_ok r'" and "tls_worker r' = tls_worker r"
proof -
  have "published r' \<and> table_ok r' \<and> threads_ok r' \<and> tls_worker r' = tls_worker r"
  proof (cases "published r")
    case True
    then have "published r' = published r \<and> tls_worker r' = tls_worker r \<and> wks (store r') = wks (store r) \<and>
        P (gs r') = P (gs r) \<and> total_workers (gs r') = total_workers (gs r) \<and> workers (gs r') = workers (gs r) \<and> Q (gs r') = Q (gs r)"
      using i by (auto simp: cilkrts_init_internal_def start_workers_def set_glob_def split: if_splits)
    then show ?thesis using inv True
      by (simp add: users_inv_def table_ok_def threads_ok_def in_table_def counted_def)
  next
    case False
    have c: "config_ok env (conf_of r)" and tls: "tls_worker r t = NULL" for t using inv False by (auto simp: users_inv_def)
    obtain c' where c': "cilkg_init_global_state env envstr (conf_of r) = Some c'" "config_ok env c'" "started_ok (singleton c')"
      "user_values_initialized c'"
      using init_global_state_ok [OF m c, of envstr] False by (auto simp: conf_of_def)
    have q0: "Q (singleton c') = 0"
      using c'(1) False by (auto simp: cilkg_init_global_state_def conf_of_def Let_def split: bind_splits)
    obtain r1 where r1: "init_workers im (with_conf c' r) = Some r1"
      and rest: "r' = (let r2 = with_conf (cilkg_publish_global_state (conf_of r1)) r1
        in if start \<and> \<not> workers_running (gs r2) then snd (start_workers (P (gs r2) - 1) r2) else r2)"
      using i False c'(1) by (auto simp: cilkrts_init_internal_def Let_def split: bind_splits if_splits)
    have g: "gs (with_conf c' r) = singleton c'" "tls_worker (with_conf c' r) = tls_worker r" by (simp_all add: with_conf_def set_glob_def)
    have s: "system_workers (singleton c') = P (singleton c') - 1" "P (singleton c') - 1 \<le> total_workers (singleton c')"
      "1 \<le> P (singleton c')"
      using c'(2-4) by (simp_all add: started_ok_def config_ok_def settings_ok_def)
    have eq: "tls_worker r' = tls_worker r1" "wks (store r') = wks (store r1)" "published r'" "P (gs r') = P (gs r1)"
      "total_workers (gs r') = total_workers (gs r1)" "workers (gs r') = workers (gs r1)" "Q (gs r') = Q (gs r1)"
      by (simp_all add: rest Let_def start_workers_def with_conf_def set_glob_def conf_of_def cilkg_publish_global_state_def)
    have "total_workers (gs r1) = total_workers (singleton c')" using init_workers_total [OF r1] by (simp add: g)
    then have "slots_ok im (total_workers (gs (with_conf c' r)))" using slots [OF False] eq(5) by (simp add: g)
    note e = init_workers_effect [OF r1 this, unfolded g, OF s(3,2,1)]
    have Q: "Q (gs r1) = 0" using arg_cong [OF e(3), of Q] q0 by simp
    have t1: "tls_worker r1 t = NULL" for t using e(4) tls by simp
    have "table_ok r'" using e(1) unfolding table_ok_def eq .
    moreover have "counted r' = {}" using t1 by (simp add: counted_def eq)
    then have "threads_ok r'" using e(2) Q t1 unfolding threads_ok_def in_table_def eq by auto
    ultimately show ?thesis using eq(1,3) e(4) by simp
  qed
  then show "published r'" "table_ok r'" "threads_ok r'" "tls_worker r' = tls_worker r" by blast+
qed

lemma scan_effect:
  assumes "scan_free_worker js r = Some (Some (w, r'))"
  shows "(\<exists>i \<in> set js. w = workers (gs r) (int i)) \<and> wtype (wk r w) = WORKER_FREE \<and>
    r' = set_worker w (\<lambda>v. v\<lparr>wtype := WORKER_USER, team := w\<rparr>) r"
  using assms by (induction js) (auto simp: Let_def split: bind_splits if_splits)

text \<open>A thread without a worker gets one that no thread has.\<close>

lemma threads_enter:
  assumes ok: "table_ok r" "threads_ok r" and t: "tls_worker r t = NULL" and w: "w \<noteq> NULL" "w \<notin> range (tls_worker r)"
    and tls: "tls_worker r' = (tls_worker r)(t := w)"
    and ty: "\<And>x. wtype (wk r' x) = (if x = w then WORKER_USER else wtype (wk r x))"
    and se: "\<And>x. x \<noteq> w \<Longrightarrow> self (wk r' x) = self (wk r x)"
    and place: "in_table w r \<and> self (wk r' w) = self (wk r w) \<or> w \<notin> workers (gs r) ` {0..<total_workers (gs r)} \<and> self (wk r' w) = - 1"
    and g: "P (gs r') = P (gs r)" "total_workers (gs r') = total_workers (gs r)" "workers (gs r') = workers (gs r)"
    and Q: "Q (gs r') = Q (gs r) + (if self (wk r' w) \<noteq> - 1 then 1 else 0)"
  shows "table_ok r'" and "threads_ok r'"
proof -
  let ?T = "{t. tls_worker r t \<noteq> NULL}" and ?T' = "{t. tls_worker r' t \<noteq> NULL}"
  have T': "?T' = insert t ?T" using w(1) by (auto simp: tls)
  have tab: "x \<in> workers (gs r) ` {0..<total_workers (gs r)}" if "in_table x r" for x
    using that ok(1) by (auto simp: in_table_def table_ok_def)
  have user: "wtype (wk r x) \<noteq> WORKER_SYSTEM" if "in_table x r" for x
  proof -
    from that obtain i where "x = workers (gs r) i" "i \<in> {P (gs r) - 1..<total_workers (gs r)}" by (auto simp: in_table_def)
    then show ?thesis using ok(1) by (auto simp: table_ok_def)
  qed
  have num: "self (wk r w) \<noteq> - 1" if "in_table w r"
  proof -
    from that obtain i where "w = workers (gs r) i" "i \<in> {P (gs r) - 1..<total_workers (gs r)}" by (auto simp: in_table_def)
    then show ?thesis using ok(1) by (auto simp: table_ok_def)
  qed
  have same: "self (wk r' x) = self (wk r x)" if "x \<in> workers (gs r) ` {0..<total_workers (gs r)}" for x
    using se place that by (cases "x = w") auto
  have sys: "wtype (wk r' x) = WORKER_SYSTEM \<longleftrightarrow> wtype (wk r x) = WORKER_SYSTEM" if "x \<in> workers (gs r) ` {0..<total_workers (gs r)}" for x
    using ty [of x] place that user [of x] by (cases "x = w") auto
  show "table_ok r'" using ok(1) same [OF imageI] sys [OF imageI] unfolding table_ok_def g by simp
  have counted: "counted r' = (if self (wk r' w) \<noteq> - 1 then insert t (counted r) else counted r)"
  proof -
    have "self (wk r' (tls_worker r a)) = self (wk r (tls_worker r a))" for a using se w(2) by (metis rangeI)
    then show ?thesis using t w(1) by (auto simp: counted_def tls)
  qed
  have fin: "finite (counted r)" using ok(2) by (auto simp: threads_ok_def counted_def intro: finite_subset [of _ ?T])
  have "t \<notin> counted r" using t by (simp add: counted_def)
  then have Qc: "Q (gs r') = int (card (counted r'))" using ok(2) Q fin by (simp add: counted threads_ok_def)
  have inj: "inj_on (tls_worker r') ?T'"
  proof (rule inj_onI)
    fix a b assume "a \<in> ?T'" "b \<in> ?T'" "tls_worker r' a = tls_worker r' b"
    then show "a = b" using ok(2) w(2) t by (auto simp: threads_ok_def inj_on_def tls split: if_splits)
  qed
  have each: "wtype (wk r' (tls_worker r' a)) = WORKER_USER \<and> (in_table (tls_worker r' a) r' \<or> self (wk r' (tls_worker r' a)) = - 1 \<and>
      tls_worker r' a \<notin> workers (gs r') ` {0..<total_workers (gs r')})" if a: "tls_worker r' a \<noteq> NULL" for a
  proof (cases "a = t")
    case True
    then show ?thesis using place ty by (auto simp: tls in_table_def g)
  next
    case False
    then have "tls_worker r' a = tls_worker r a" "tls_worker r a \<noteq> w" using w(2) by (auto simp: tls)
    then show ?thesis using ok(2) a ty se by (auto simp: threads_ok_def in_table_def g)
  qed
  have "\<exists>a. tls_worker r' a = x" if "in_table x r'" "wtype (wk r' x) = WORKER_USER" for x
  proof (cases "x = w")
    case True
    then show ?thesis by (intro exI [of _ t]) (simp add: tls)
  next
    case False
    then have "in_table x r" "wtype (wk r x) = WORKER_USER" using that ty by (auto simp: in_table_def g)
    then obtain a where a: "tls_worker r a = x" using ok(2) by (auto simp: threads_ok_def)
    have "x \<noteq> NULL" using tab [of x] that(1) ok(1) by (auto simp: in_table_def g table_ok_def)
    then have "a \<noteq> t" using a t by auto
    then show ?thesis using a by (intro exI [of _ a]) (simp add: tls)
  qed
  then show "threads_ok r'" using ok(2) inj each Qc unfolding threads_ok_def T' by simp
qed

lemma find_free_worker_enter:
  assumes ok: "table_ok r" "threads_ok r" and f: "find_free_worker arr x r = Some (w, r')"
    and x: "x \<noteq> NULL" "x \<notin> workers (gs r) ` {0..<total_workers (gs r)}" "x \<notin> range (tls_worker r)"
  shows "w \<noteq> NULL" and "w \<notin> range (tls_worker r)"
    and "\<And>y. wtype (wk r' y) = (if y = w then WORKER_USER else wtype (wk r y))"
    and "\<And>y. y \<noteq> w \<Longrightarrow> self (wk r' y) = self (wk r y)"
    and "in_table w r \<and> self (wk r' w) = self (wk r w) \<or> w \<notin> workers (gs r) ` {0..<total_workers (gs r)} \<and> self (wk r' w) = - 1"
    and "gs r' = gs r" and "tls_worker r' = tls_worker r" and "published r' = published r"
proof -
  have "w \<noteq> NULL \<and> w \<notin> range (tls_worker r) \<and> (\<forall>y. wtype (wk r' y) = (if y = w then WORKER_USER else wtype (wk r y))) \<and>
    (\<forall>y. y \<noteq> w \<longrightarrow> self (wk r' y) = self (wk r y)) \<and>
    (in_table w r \<and> self (wk r' w) = self (wk r w) \<or> w \<notin> workers (gs r) ` {0..<total_workers (gs r)} \<and> self (wk r' w) = - 1) \<and>
    gs r' = gs r \<and> tls_worker r' = tls_worker r \<and> published r' = published r"
  proof (cases "scan_free_worker [nat (P (gs r) - 1)..<nat (total_workers (gs r))] r")
    case None
    then show ?thesis using f by (simp add: find_free_worker_def)
  next
    case (Some y)
    show ?thesis
    proof (cases y)
      case None
      then obtain r1 where r1: "make_worker arr (- 1) x r = Some r1" and w: "w = x"
        and r': "r' = set_worker x (\<lambda>v. v\<lparr>wtype := WORKER_USER, team := x\<rparr>) r1"
        using f Some by (auto simp: find_free_worker_def split: bind_splits)
      show ?thesis using x make_worker_effect [OF r1] by (auto simp: w r' set_worker_def)
    next
      case (Some z)
      then have s: "scan_free_worker [nat (P (gs r) - 1)..<nat (total_workers (gs r))] r = Some (Some (w, r'))"
        using f \<open>scan_free_worker _ r = Some y\<close> by (cases z) (auto simp: find_free_worker_def)
      obtain n where n: "n \<in> {nat (P (gs r) - 1)..<nat (total_workers (gs r))}" "w = workers (gs r) (int n)"
        and free: "wtype (wk r w) = WORKER_FREE" and r': "r' = set_worker w (\<lambda>v. v\<lparr>wtype := WORKER_USER, team := w\<rparr>) r"
        using scan_effect [OF s] by auto
      have m: "int n \<in> {P (gs r) - 1..<total_workers (gs r)}" using n(1) ok(1) by (auto simp: table_ok_def)
      then have tab: "in_table w r" using n(2) by (auto simp: in_table_def)
      have m0: "int n \<in> {0..<total_workers (gs r)}" using m by auto
      then have null: "w \<noteq> NULL" using n(2) ok(1) unfolding table_ok_def by (metis imageI)
      have "w \<notin> range (tls_worker r)"
      proof
        assume "w \<in> range (tls_worker r)"
        then obtain t where "tls_worker r t = w" by auto
        then show False using ok(2) null free by (auto simp: threads_ok_def)
      qed
      then show ?thesis using tab null by (simp add: r' set_worker_def)
    qed
  qed
  then show "w \<noteq> NULL" "w \<notin> range (tls_worker r)" "\<And>y. wtype (wk r' y) = (if y = w then WORKER_USER else wtype (wk r y))"
    "\<And>y. y \<noteq> w \<Longrightarrow> self (wk r' y) = self (wk r y)"
    "in_table w r \<and> self (wk r' w) = self (wk r w) \<or> w \<notin> workers (gs r) ` {0..<total_workers (gs r)} \<and> self (wk r' w) = - 1"
    "gs r' = gs r" "tls_worker r' = tls_worker r" "published r' = published r" by blast+
qed

lemma bind_thread_parts:
  assumes "bind_thread env envstr m t r = Some (w, st, r')"
  obtains r1 r2 where "cilkrts_init_internal env envstr (init_mem m) True r = Some (st, r1)"
    and "find_free_worker (extra_array m) (extra_worker m) r1 = Some (w, r2)"
    and "\<forall>x. wtype (wk r' x) = wtype (wk r2 x) \<and> self (wk r' x) = self (wk r2 x)"
    and "gs r' = (gs r2)\<lparr>Q := Q (gs r2) + (if self (wk r2 w) \<noteq> - 1 then 1 else 0)\<rparr>"
    and "tls_worker r' = (tls_worker r2)(t := w)" and "published r' = published r2"
proof -
  obtain r1 r2 r3 r4 where r1: "cilkrts_init_internal env envstr (init_mem m) True r = Some (st, r1)"
    and r2: "find_free_worker (extra_array m) (extra_worker m) r1 = Some (w, r2)"
    and r3: "bind_frame m t w (r2\<lparr>tls_worker := (tls_worker r2)(t := w)\<rparr>) = Some r3"
    and r4: "bind_scheduling_fiber m w (set_worker w (w_pending_exception_update (\<lambda>_. NULL)) r3) = Some r4"
    and r': "(let r5 = (if scheduling_fiber (wk r4 w) = NULL then set_worker w (\<lambda>v. snd (disallow_stealing None v)) r4 else r4)
      in if self (wk r5 w) \<noteq> - 1 then in_store cilkrts_enter_cilk r5 else Some r5) = Some r'"
    using assms unfolding bind_thread_def Let_def by (auto split: bind_splits)
  let ?r2 = "r2\<lparr>tls_worker := (tls_worker r2)(t := w)\<rparr>"
  let ?r5 = "if scheduling_fiber (wk r4 w) = NULL then set_worker w (\<lambda>v. snd (disallow_stealing None v)) r4 else r4"
  have "same_workers ?r2 r3" by (rule same_bind_frame [OF r3])
  moreover have "same_workers r3 (set_worker w (w_pending_exception_update (\<lambda>_. NULL)) r3)" by (rule same_set_worker) simp_all
  moreover have "same_workers (set_worker w (w_pending_exception_update (\<lambda>_. NULL)) r3) r4" by (rule same_bind_scheduling_fiber [OF r4])
  moreover have "same_workers r4 ?r5"
    using same_set_worker [of "\<lambda>v. snd (disallow_stealing None v)" r4 w] by (simp add: disallow_stealing_def)
  ultimately have s: "same_workers ?r2 ?r5" by (meson same_workers_trans)
  have e: "(if self (wk r2 w) \<noteq> - 1 then in_store cilkrts_enter_cilk ?r5 else Some ?r5) = Some r'"
    using r' s by (simp add: Let_def same_workers_def)
  show thesis
  proof (cases "self (wk r2 w) = - 1")
    case True
    then have "r' = ?r5" using e by simp
    then show ?thesis using s True by (intro that [OF r1 r2]) (auto simp: same_workers_def)
  next
    case False
    then obtain s' where "cilkrts_enter_cilk (store ?r5) = Some s'" "r' = ?r5\<lparr>store := s'\<rparr>" using e by (auto simp: in_store_def)
    then show ?thesis using s False enter_effect [of "store ?r5" s'] by (intro that [OF r1 r2]) (auto simp: same_workers_def)
  qed
qed

lemma users_inv_enter:
  assumes m: "machine_ok env" and inv: "users_inv env r" and t: "tls_worker r t = NULL"
    and b: "bind_thread env envstr m t r = Some (w, st, r')" and fresh: "fresh_blocks m r r'"
  shows "users_inv env r'"
proof -
  obtain r1 r2 where r1: "cilkrts_init_internal env envstr (init_mem m) True r = Some (st, r1)"
    and r2: "find_free_worker (extra_array m) (extra_worker m) r1 = Some (w, r2)"
    and keep: "\<forall>x. wtype (wk r' x) = wtype (wk r2 x) \<and> self (wk r' x) = self (wk r2 x)"
    and g: "gs r' = (gs r2)\<lparr>Q := Q (gs r2) + (if self (wk r2 w) \<noteq> - 1 then 1 else 0)\<rparr>"
    and tls: "tls_worker r' = (tls_worker r2)(t := w)" and pub: "published r' = published r2"
    by (rule bind_thread_parts [OF b])
  have g2: "gs r2 = gs r1"
    using r2 by (auto simp: find_free_worker_def set_worker_def dest!: scan_effect make_worker_effect(3) split: bind_splits option.splits)
  have gg: "P (gs r') = P (gs r1)" "total_workers (gs r') = total_workers (gs r1)" "workers (gs r') = workers (gs r1)"
    "Q (gs r') = Q (gs r1) + (if self (wk r' w) \<noteq> - 1 then 1 else 0)"
    using g keep by (simp_all add: g2)
  have slots: "\<not> published r \<Longrightarrow> slots_ok (init_mem m) (total_workers (gs r1))"
    using fresh by (simp add: fresh_blocks_def gg)
  note i = init_internal_effect [OF m inv r1 slots]
  have x: "extra_worker m \<noteq> NULL" "extra_worker m \<notin> workers (gs r1) ` {0..<total_workers (gs r1)}"
    "extra_worker m \<notin> range (tls_worker r1)"
    using fresh i(4) unfolding fresh_blocks_def gg by simp_all
  note f = find_free_worker_enter [OF i(2,3) r2 x]
  have t1: "tls_worker r1 t = NULL" using t i(4) by simp
  have ty: "wtype (wk r' y) = (if y = w then WORKER_USER else wtype (wk r1 y))" for y using keep f(3) by simp
  have se: "y \<noteq> w \<Longrightarrow> self (wk r' y) = self (wk r1 y)" for y using keep f(4) by simp
  have place: "in_table w r1 \<and> self (wk r' w) = self (wk r1 w) \<or>
      w \<notin> workers (gs r1) ` {0..<total_workers (gs r1)} \<and> self (wk r' w) = - 1" using f(5) keep by simp
  have tls1: "tls_worker r' = (tls_worker r1)(t := w)" using tls f(7) by simp
  note te = threads_enter [OF i(2,3) t1 f(1,2) tls1 ty se place gg]
  show ?thesis using te i(1) pub f(8) by (simp add: users_inv_def)
qed

subsection \<open>Leaving\<close>

lemma threads_leave:
  assumes ok: "table_ok r" "threads_ok r" and t: "tls_worker r t = w" "w \<noteq> NULL"
    and tls: "tls_worker r' = (tls_worker r)(t := NULL)"
    and ty: "\<And>x. wtype (wk r' x) = (if x = w \<and> self (wk r w) \<noteq> - 1 then WORKER_FREE else wtype (wk r x))"
    and se: "\<And>x. self (wk r' x) = self (wk r x)"
    and g: "P (gs r') = P (gs r)" "total_workers (gs r') = total_workers (gs r)" "workers (gs r') = workers (gs r)"
    and Q: "Q (gs r') = Q (gs r) - (if self (wk r w) \<noteq> - 1 then 1 else 0)"
  shows "table_ok r'" and "threads_ok r'"
proof -
  let ?T = "{t. tls_worker r t \<noteq> NULL}" and ?T' = "{t. tls_worker r' t \<noteq> NULL}"
  have T': "?T' = ?T - {t}" by (auto simp: tls)
  have user: "wtype (wk r w) = WORKER_USER" using ok(2) t by (auto simp: threads_ok_def)
  have sys: "wtype (wk r' x) = WORKER_SYSTEM \<longleftrightarrow> wtype (wk r x) = WORKER_SYSTEM" for x using ty [of x] user by (cases "x = w") auto
  show "table_ok r'" using ok(1) unfolding table_ok_def g se sys .
  have other: "tls_worker r a \<noteq> w" if "a \<noteq> t" "tls_worker r a \<noteq> NULL" for a
    using that ok(2) t by (auto simp: threads_ok_def inj_on_def)
  have inj: "inj_on (tls_worker r') ?T'"
    using ok(2) unfolding T' threads_ok_def by (auto simp: inj_on_def tls)
  have counted: "counted r' = counted r - {t}" unfolding counted_def se by (auto simp: tls)
  have fin: "finite (counted r)" using ok(2) by (auto simp: threads_ok_def counted_def intro: finite_subset [of _ ?T])
  have "t \<in> counted r \<longleftrightarrow> self (wk r w) \<noteq> - 1" using t by (simp add: counted_def)
  then have card: "int (card (counted r')) = int (card (counted r)) - (if self (wk r w) \<noteq> - 1 then 1 else 0)"
    unfolding counted using fin card_gt_0_iff [of "counted r"] by (auto simp: card_Diff_singleton_if of_nat_diff)
  have each: "wtype (wk r' (tls_worker r' a)) = WORKER_USER \<and> (in_table (tls_worker r' a) r' \<or> self (wk r' (tls_worker r' a)) = - 1 \<and>
      tls_worker r' a \<notin> workers (gs r') ` {0..<total_workers (gs r')})" if a: "tls_worker r' a \<noteq> NULL" for a
  proof -
    have "a \<noteq> t" "tls_worker r' a = tls_worker r a" using a by (auto simp: tls split: if_splits)
    then show ?thesis using ok(2) a other [of a] ty se by (auto simp: threads_ok_def in_table_def g)
  qed
  have "\<exists>a. tls_worker r' a = x" if x: "in_table x r'" "wtype (wk r' x) = WORKER_USER" for x
  proof -
    have xr: "in_table x r" "wtype (wk r x) = WORKER_USER" using x ty [of x] by (auto simp: in_table_def g split: if_splits)
    then obtain a where a: "tls_worker r a = x" using ok(2) by (auto simp: threads_ok_def)
    have "a \<noteq> t"
    proof
      assume "a = t"
      then have "x = w" using a t by simp
      moreover have "self (wk r w) \<noteq> - 1"
      proof -
        from xr(1) \<open>x = w\<close> obtain i where "w = workers (gs r) i" "i \<in> {P (gs r) - 1..<total_workers (gs r)}"
          by (auto simp: in_table_def)
        then show ?thesis using ok(1) by (auto simp: table_ok_def)
      qed
      ultimately show False using x(2) ty [of x] by simp
    qed
    then show ?thesis using a by (intro exI [of _ a]) (simp add: tls)
  qed
  then show "threads_ok r'" using ok(2) inj each Q card unfolding threads_ok_def T' by simp
qed

lemma unbind_effect:
  assumes "unbind_thread t r = Some r'" and "published r" and w: "tls_worker r t = w" "w \<noteq> NULL"
  shows "tls_worker r' = (tls_worker r)(t := NULL)"
    and "wtype (wk r' x) = (if x = w \<and> self (wk r w) \<noteq> - 1 then WORKER_FREE else wtype (wk r x))"
    and "self (wk r' x) = self (wk r x)" and "published r'"
    and "gs r' = (gs r)\<lparr>Q := Q (gs r) - (if self (wk r w) \<noteq> - 1 then 1 else 0)\<rparr>"
proof -
  let ?r1 = "r\<lparr>tls_worker := (tls_worker r)(t := NULL)\<rparr>"
  have "tls_worker r' = (tls_worker r)(t := NULL) \<and>
    (\<forall>x. wtype (wk r' x) = (if x = w \<and> self (wk r w) \<noteq> - 1 then WORKER_FREE else wtype (wk r x)) \<and> self (wk r' x) = self (wk r x)) \<and>
    published r' \<and> gs r' = (gs r)\<lparr>Q := Q (gs r) - (if self (wk r w) \<noteq> - 1 then 1 else 0)\<rparr>"
  proof (cases "self (wk r w) = - 1")
    case True
    then have "destroy_worker w ?r1 = Some r'" using assms by (simp add: unbind_thread_def Let_def)
    then have "same_workers ?r1 r'" by (rule same_destroy_worker)
    then show ?thesis using True assms(2) by (auto simp: same_workers_def)
  next
    case False
    then obtain s where s: "cilkrts_leave_cilk (store (set_worker w (wtype_update (\<lambda>_. WORKER_FREE)) ?r1)) = Some s"
      and r': "r' = (set_worker w (wtype_update (\<lambda>_. WORKER_FREE)) ?r1)\<lparr>store := s\<rparr>"
      using assms by (auto simp: unbind_thread_def in_store_def Let_def)
    show ?thesis using leave_effect [OF s] False assms(2) by (auto simp: r' set_worker_def)
  qed
  then show "tls_worker r' = (tls_worker r)(t := NULL)"
    "wtype (wk r' x) = (if x = w \<and> self (wk r w) \<noteq> - 1 then WORKER_FREE else wtype (wk r x))"
    "self (wk r' x) = self (wk r x)" "published r'"
    "gs r' = (gs r)\<lparr>Q := Q (gs r) - (if self (wk r w) \<noteq> - 1 then 1 else 0)\<rparr>" by blast+
qed

lemma return_from_initial_parts:
  assumes "c_return_from_initial t w r = Some (rm, r')"
  obtains r1 where "same_workers r r1" and "unbind_thread t r1 = Some r'"
proof -
  obtain r1 r4 r7 r8 f where a: "in_store (lock_w w) r = Some r1"
    and b: "in_fibers (deallocate_from_thread f) (set_worker w (w_frame_ff_update (\<lambda>_. NULL)) r1
        \<lparr>tls_tbb := (tls_tbb (set_worker w (w_frame_ff_update (\<lambda>_. NULL)) r1))(t := tbb_interop_save_info_from_stack f
          (fib (set_worker w (w_frame_ff_update (\<lambda>_. NULL)) r1)) (tls_tbb (set_worker w (w_frame_ff_update (\<lambda>_. NULL)) r1) t))\<rparr>) = Some r4"
    and c: "in_store (unlock_w w) (set_worker w (reducer_map_update (\<lambda>_. NULL))
        (r4\<lparr>store := upd_ff (w_frame_ff (wk r1 w)) (fiber_self_update (\<lambda>_. NULL)) (store r4)\<rparr>)) = Some r7"
    and d: "save_pedigree_leaf_from_user_worker t w r7 = Some r8" and e: "unbind_thread t r8 = Some r'"
    using assms unfolding c_return_from_initial_def Let_def by (auto split: bind_splits)
  have "same_workers r r1" by (rule same_lock [OF a])
  moreover have "same_workers r1 r4" using same_in_fibers [OF b] by (simp add: same_workers_def set_worker_def)
  moreover have "same_workers r4 r7" using same_unlock [OF c] by (simp add: same_workers_def set_worker_def)
  moreover have "same_workers r7 r8" by (rule same_save [OF d])
  ultimately show thesis by (intro that [OF _ e]) (meson same_workers_trans)
qed

lemma users_inv_step:
  assumes "machine_ok env" and "users_step env r r'" and inv: "users_inv env r"
  shows "users_inv env r'"
  using assms(2)
proof cases
  case (settings c)
  have "conf_of (with_conf c r) = c" by (simp add: conf_of_def with_conf_def set_glob_def)
  then show ?thesis using inv settings by (simp add: users_inv_def) (simp add: with_conf_def set_glob_def)
next
  case (enter t envstr m w started)
  then show ?thesis using users_inv_enter [OF assms(1) inv] by blast
next
  case (leave t rm)
  have pub: "published r" using inv leave(1) by (auto simp: users_inv_def split: if_splits)
  then have ok: "table_ok r" "threads_ok r" using inv by (simp_all add: users_inv_def)
  obtain r1 where s: "same_workers r r1" and u: "unbind_thread t r1 = Some r'"
    by (rule return_from_initial_parts [OF leave(2)])
  have "published r1" "tls_worker r1 t = tls_worker r t" using s pub by (simp_all add: same_workers_def)
  note e = unbind_effect [OF u this leave(1)]
  have "table_ok r' \<and> threads_ok r'"
  proof
    show "table_ok r'" by (rule threads_leave(1) [OF ok refl leave(1)]) (use e s in \<open>auto simp: same_workers_def\<close>)
    show "threads_ok r'" by (rule threads_leave(2) [OF ok refl leave(1)]) (use e s in \<open>auto simp: same_workers_def\<close>)
  qed
  then show ?thesis using e(4) by (simp add: users_inv_def)
next
  case program
  then show ?thesis using inv
    by (simp add: users_inv_def program_keeps_def table_ok_def threads_ok_def in_table_def counted_def)
qed

lemma users_inv_reachable:
  assumes "machine_ok env" and "users_reachable env r"
  shows "users_inv env r"
  using assms(2)
proof induction
  case (start r)
  then show ?case by (simp add: users_inv_def runtime_start_def config_ok_def conf_of_def)
next
  case (step r r')
  then show ?case using users_inv_step [OF assms(1)] by blast
qed

text \<open>C15 (workers_not_shared): however threads enter and leave Cilk, and whatever the program does in between, no two threads
  have the same worker.\<close>

theorem workers_not_shared:
  assumes "machine_ok env" and "users_reachable env r" and "tls_worker r t \<noteq> NULL" and "t \<noteq> t'"
  shows "tls_worker r t' \<noteq> tls_worker r t"
proof
  assume same: "tls_worker r t' = tls_worker r t"
  have "users_inv env r" by (rule users_inv_reachable [OF assms(1,2)])
  then have "inj_on (tls_worker r) {t. tls_worker r t \<noteq> NULL}" using assms(3) by (auto simp: users_inv_def threads_ok_def split: if_splits)
  then show False using assms(3,4) same by (auto simp: inj_on_def)
qed

text \<open>C16 (users_counted): the count that decides when the system workers sleep is the number of workers of the table that
  are bound to user threads; in particular it drops to zero when the last of these threads leaves.\<close>

theorem users_counted:
  assumes "machine_ok env" and "users_reachable env r" and "published r"
  shows "Q (gs r) = int (card {w. in_table w r \<and> wtype (wk r w) = WORKER_USER})"
proof -
  have ok: "table_ok r" "threads_ok r" using users_inv_reachable [OF assms(1,2)] assms(3) by (auto simp: users_inv_def)
  have num: "w \<noteq> NULL \<and> self (wk r w) \<noteq> - 1" if w: "in_table w r" for w
  proof -
    from w obtain i where i: "w = workers (gs r) i" "i \<in> {P (gs r) - 1..<total_workers (gs r)}" by (auto simp: in_table_def)
    then have "i \<in> {0..<total_workers (gs r)}" using ok(1) by (auto simp: table_ok_def)
    then show ?thesis using ok(1) i by (auto simp: table_ok_def)
  qed
  have "tls_worker r ` counted r = {w. in_table w r \<and> wtype (wk r w) = WORKER_USER}"
  proof
    show "tls_worker r ` counted r \<subseteq> {w. in_table w r \<and> wtype (wk r w) = WORKER_USER}"
      using ok(2) by (auto simp: counted_def threads_ok_def)
    show "{w. in_table w r \<and> wtype (wk r w) = WORKER_USER} \<subseteq> tls_worker r ` counted r"
    proof
      fix w assume "w \<in> {w. in_table w r \<and> wtype (wk r w) = WORKER_USER}"
      then have w: "in_table w r" "wtype (wk r w) = WORKER_USER" by auto
      then obtain t where "tls_worker r t = w" using ok(2) by (auto simp: threads_ok_def)
      then show "w \<in> tls_worker r ` counted r" using num [OF w(1)] by (auto simp: counted_def)
    qed
  qed
  moreover have "inj_on (tls_worker r) (counted r)"
    using ok(2) by (auto simp: threads_ok_def counted_def inj_on_def)
  ultimately show ?thesis using ok(2) card_image [of "tls_worker r" "counted r"] by (simp add: threads_ok_def)
qed

subsection \<open>Examples\<close>

definition one_processor :: os_env where
  "one_processor = \<lparr>os_getenv = (\<lambda>v. if v = ''CILK_MAX_USER_WORKERS'' then Some ''1'' else None), hardware_cpu_count = 1,
     sequential_ptool = False, tool_forces_reduce = False, numa_configured_nodes = 1\<rparr>"

definition demo_memory :: bind_memory where
  "demo_memory = \<lparr>init_mem = \<lparr>workers_memory = 4096, pool_array = (\<lambda>_. 1024), global_pool = 16, global_pool_array = 1024,
       node_memory = (\<lambda>_. 32)\<rparr>,
     extra_worker = 8192, extra_array = 1024, new_ff = 64, new_fiber = 128, new_map = 256, new_scheduling_fiber = (512, 65536),
     new_leaf = 2048\<rparr>"

definition pool_zero :: fiber_pool where
  "pool_zero = \<lparr>fp_shared = False, fp_stack_size = 0, fp_parent = 0, fp_fibers = [], fp_max_size = 0, fp_total = 0, fp_high_water = 0,
     fp_alloc_max = 0\<rparr>"

definition demo_start :: runtime where
  "demo_start = \<lparr>store = rt_zero, fib = \<lparr>pools = (\<lambda>_. pool_zero), pool_locks = (\<lambda>_. \<lparr>spin_lock = 0\<rparr>), fibers = (\<lambda>_. cilk_fiber_new), live_fibers = {}\<rparr>, gpool = NULL, user_values = False, published = False,
     tls_worker = (\<lambda>_. NULL), tls_leaf = (\<lambda>_. NULL), tls_tbb = (\<lambda>_. None), ped_counter = - 1\<rparr>"

definition demo_bound :: "(ptr \<times> ptr list \<times> runtime) option" where
  "demo_bound = bind_thread one_processor [] demo_memory 0 demo_start"

lemma demo_binds: "(case demo_bound of None \<Rightarrow> False | Some (w, st, r) \<Rightarrow>
    w = 4096 \<and> st = [] \<and> published r \<and> Q (gs r) = 1 \<and> P (gs r) = 1 \<and> total_workers (gs r) = 1 \<and> workers (gs r) 0 = 4096 \<and> tls_worker r 0 = 4096)"
  by code_simp

definition demo_runtime :: runtime where "demo_runtime = snd (snd (the demo_bound))"

lemma demo_runtime_facts:
  "\<exists>w st. demo_bound = Some (w, st, demo_runtime)" "published demo_runtime" "Q (gs demo_runtime) = 1"
  "total_workers (gs demo_runtime) = 1" "workers (gs demo_runtime) 0 = 4096" "tls_worker demo_runtime 0 = 4096"
proof -
  obtain r where r: "demo_bound = Some (4096, [], r)" "published r" "Q (gs r) = 1" "total_workers (gs r) = 1" "workers (gs r) 0 = 4096"
    "tls_worker r 0 = 4096" using demo_binds by (auto split: option.splits)
  have e: "demo_runtime = r" unfolding demo_runtime_def r(1) option.sel snd_conv ..
  show "\<exists>w st. demo_bound = Some (w, st, demo_runtime)" unfolding e using r(1) by blast
  show "published demo_runtime" "Q (gs demo_runtime) = 1" "total_workers (gs demo_runtime) = 1"
    "workers (gs demo_runtime) 0 = 4096" "tls_worker demo_runtime 0 = 4096" unfolding e by (rule r)+
qed

lemma machine_one: "machine_ok one_processor"
  by (simp add: machine_ok_def one_processor_def)

lemma demo_reachable: "users_reachable one_processor demo_runtime"
proof -
  obtain w st where b: "bind_thread one_processor [] demo_memory 0 demo_start = Some (w, st, demo_runtime)"
    using demo_runtime_facts(1) by (auto simp: demo_bound_def)
  have "{0..<total_workers (gs demo_runtime)} = {0}" using demo_runtime_facts(4) by auto
  then have "fresh_blocks demo_memory demo_start demo_runtime"
    using demo_runtime_facts(4,5)
    by (auto simp: fresh_blocks_def slots_ok_def demo_memory_def demo_start_def worker_slot_def)
  moreover have "tls_worker demo_start 0 = NULL" by (simp add: demo_start_def)
  ultimately have "users_step one_processor demo_start demo_runtime" using users_step.enter [OF _ b] by blast
  moreover have "runtime_start demo_start" by (simp add: runtime_start_def demo_start_def)
  ultimately show ?thesis using users_reachable.intros by blast
qed

theorem workers_not_shared_witness: "tls_worker demo_runtime 1 \<noteq> tls_worker demo_runtime 0"
  by (rule workers_not_shared [OF machine_one demo_reachable]) (simp_all add: demo_runtime_facts)

theorem users_counted_witness:
  "Q (gs demo_runtime) = int (card {w. in_table w demo_runtime \<and> wtype (wk demo_runtime w) = WORKER_USER})"
  by (rule users_counted [OF machine_one demo_reachable demo_runtime_facts(2)])

end
