(* ===== verification/Scheduling_Loop.thy ===== *)
theory Scheduling_Loop
  imports Scheduling Workers
begin

text \<open>
  The scheduling loop of a worker (runtime/scheduler.c, runtime/local_state.c, the resumption of a stack in
  runtime/sysdep-unix.c): how user code enters the runtime and gives up its fiber, how a worker without
  work looks for some, and how it resumes the frame it found. The store of the runtime with its fibers (theory
  Workers) is joined with the pending exceptions, the contents of reducer maps and the exception globals of
  each thread. Control is a value: an operation that does not return answers where execution goes on.

  A worker that searches does not run alone. Each round of the search is handed what the other parties did
  before it: a function on the state, with the answers of the C library for the fibers of the round, the blocks for new frames and the
  issue functions. Statically scheduled loops, whose protocol is that of theory Cilk_For_Static, run user code
  and are such an argument as well. Statistics, tools, record and replay are left out.
\<close>

record 'a machine =
  base :: runtime
  exc_mem :: "ptr \<Rightarrow> exc_info"
  map_content :: "ptr \<Rightarrow> 'a list"
  eh_of :: "nat \<Rightarrow> eh_globals"

abbreviation st :: "'a machine \<Rightarrow> rt" where "st M \<equiv> store (base M)"
abbreviation fb :: "'a machine \<Rightarrow> ptr \<Rightarrow> cilk_fiber" where "fb M \<equiv> fibers (fib (base M))"

definition red_of :: "'a machine \<Rightarrow> 'a red" where
  "red_of M = \<lparr>rs = st M, excs = exc_mem M, rcont = map_content M\<rparr>"

definition with_red :: "'a red \<Rightarrow> 'a machine \<Rightarrow> 'a machine" where
  "with_red z M = M\<lparr>base := (base M)\<lparr>store := rs z\<rparr>, exc_mem := excs z, map_content := rcont z\<rparr>"

definition in_base :: "(runtime \<Rightarrow> runtime option) \<Rightarrow> 'a machine \<Rightarrow> 'a machine option" where
  "in_base f M = map_option (\<lambda>r. M\<lparr>base := r\<rparr>) (f (base M))"

definition on_store :: "(rt \<Rightarrow> rt) \<Rightarrow> 'a machine \<Rightarrow> 'a machine" where
  "on_store f M = M\<lparr>base := (base M)\<lparr>store := f (st M)\<rparr>\<rparr>"

definition on_fibers :: "(fiber_sys \<Rightarrow> fiber_sys) \<Rightarrow> 'a machine \<Rightarrow> 'a machine" where
  "on_fibers f M = M\<lparr>base := (base M)\<lparr>fib := f (fib (base M))\<rparr>\<rparr>"

definition in_rt :: "(rt \<Rightarrow> rt option) \<Rightarrow> 'a machine \<Rightarrow> 'a machine option" where
  "in_rt f = in_base (in_store f)"

definition in_fib :: "(fiber_sys \<Rightarrow> fiber_sys option) \<Rightarrow> 'a machine \<Rightarrow> 'a machine option" where
  "in_fib f = in_base (in_fibers f)"

lemma st_simps [simp]:
  "st (on_store f M) = f (st M)" "fib (base (on_store f M)) = fib (base M)" "eh_of (on_store f M) = eh_of M"
  "exc_mem (on_store f M) = exc_mem M" "map_content (on_store f M) = map_content M"
  "st (on_fibers g M) = st M" "fib (base (on_fibers g M)) = g (fib (base M))" "eh_of (on_fibers g M) = eh_of M"
  "exc_mem (on_fibers g M) = exc_mem M" "map_content (on_fibers g M) = map_content M"
  "st (with_red z M) = rs z" "fib (base (with_red z M)) = fib (base M)" "eh_of (with_red z M) = eh_of M"
  "exc_mem (with_red z M) = excs z" "map_content (with_red z M) = rcont z"
  "rs (red_of M) = st M" "excs (red_of M) = exc_mem M" "rcont (red_of M) = map_content M"
  by (simp_all add: on_store_def on_fibers_def with_red_def red_of_def)

text \<open>Where execution goes on: in the caller; in the user code of a stack frame whose context is restored with a stack pointer; in
  the function of a pending frame; in the scheduling loop of a worker; after the loop; or the rounds are used up.\<close>

datatype control = Returns | Resumes ptr "64 word" | Calls ptr ptr | Schedules ptr | Searches ptr | Ends

definition fiber_proc_for_random_steal :: ptr where "fiber_proc_for_random_steal = 2"
definition fiber_proc_for_pending_steal :: ptr where "fiber_proc_for_pending_steal = 3"
definition enter_runtime_proc :: ptr where "enter_runtime_proc = 4"

definition no_uncaught_exception :: "nat \<Rightarrow> 'a machine \<Rightarrow> bool" where
  "no_uncaught_exception t M \<longleftrightarrow> uncaughtExceptions (eh_of M t) = 0"

subsection \<open>Resuming user code\<close>

definition get_sp_for_executing_sf :: "64 word \<Rightarrow> 64 word" where
  "get_sp_for_executing_sf stack_base = (stack_base - 256) AND NOT 255"

definition sysdep_reset_jump_buffers_for_resume :: "ptr \<Rightarrow> ptr \<Rightarrow> ptr \<Rightarrow> 'a machine \<Rightarrow> (64 word \<times> 'a machine) option" where
  "sysdep_reset_jump_buffers_for_resume f ff sf M =
     do { cilk_assert (f \<noteq> NULL);
          let sp = get_sp_for_executing_sf (m_stack_base (fb M f));
          Some (sp, on_store (\<lambda>s. take_stack ff sp (upd_sf sf (sf_sp_update (\<lambda>_. sp)) s)) M) }"

text \<open>The jump restores the saved context with the new stack pointer; the floating point state is not modelled.\<close>

definition sysdep_longjmp_to_sf :: "64 word \<Rightarrow> ptr \<Rightarrow> 'a machine \<Rightarrow> control \<times> 'a machine" where
  "sysdep_longjmp_to_sf sp sf M = (Resumes sf sp, on_store (upd_sf sf (sf_sp_update (\<lambda>_. sp))) M)"

definition tbb_op :: "ptr \<Rightarrow> tbb_stack_op \<Rightarrow> 'a machine \<Rightarrow> 'a machine" where
  "tbb_op f op = on_fibers (\<lambda>s. snd (invoke_tbb_stack_op f op s))"

definition resume_frame :: "ptr \<Rightarrow> ptr \<Rightarrow> 'a machine \<Rightarrow> control \<times> 'a machine" where
  "resume_frame sf ff M =
     (let (sp, s) = cilkrts_resume sf ff (st M) in sysdep_longjmp_to_sf sp sf (on_store (\<lambda>_. s) M))"

definition user_code_resume_after_switch_into_runtime :: "ptr \<Rightarrow> 'a machine \<Rightarrow> control \<times> 'a machine" where
  "user_code_resume_after_switch_into_runtime f M =
     (let w = fiber_owner (fb M f);
          sf = current_stack_frame (wks (st M) w);
          ff = w_frame_ff (wks (st M) (sf_worker (sfs (st M) sf)))
      in resume_frame sf ff (tbb_op f CILK_TBB_STACK_ADOPT M))"

definition fiber_proc_to_resume_user_code_for_random_steal :: "ptr \<Rightarrow> 'a machine \<Rightarrow> (control \<times> 'a machine) option" where
  "fiber_proc_to_resume_user_code_for_random_steal f M =
     (let sf = resume_sf (fb M f)
      in do { cilk_assert (sf \<noteq> NULL);
              let M1 = on_fibers (upd_fiber f (resume_sf_update (\<lambda>_. NULL))) M;
              cilk_assert (sf_worker (sfs (st M1) sf) = fiber_owner (fb M1 f));
              let ff = w_frame_ff (wks (st M1) (sf_worker (sfs (st M1) sf)));
              (sp, M2) \<leftarrow> sysdep_reset_jump_buffers_for_resume f ff sf M1;
              let M3 = on_store (upd_sf sf (\<lambda>x. x\<lparr>flags := flags x AND NOT CILK_FRAME_SUSPENDED\<rparr>)) (tbb_op f CILK_TBB_STACK_ADOPT M2);
              Some (sysdep_longjmp_to_sf sp sf M3) })"

text \<open>The pending frame of a full frame lies behind it, see \<open>__cilkrts_pending_frame_create\<close>.\<close>

definition pending_of :: "ptr \<Rightarrow> ptr" where "pending_of ff = ff + sizeof_full_frame"

definition fiber_proc_to_resume_user_code_for_pending_steal :: "ptr \<Rightarrow> 'a machine \<Rightarrow> (control \<times> 'a machine) option" where
  "fiber_proc_to_resume_user_code_for_pending_steal f M =
     (let sf = resume_sf (fb M f);
          M1 = on_fibers (upd_fiber f (resume_sf_update (\<lambda>_. NULL))) M
      in do { cilk_assert (sf_worker (sfs (st M1) sf) = fiber_owner (fb M1 f));
              let ff = w_frame_ff (wks (st M1) (sf_worker (sfs (st M1) sf)));
              cilk_assert (ff \<noteq> NULL);
              Some (Calls (call_fn (pfs (st M1) (pending_of ff))) sf, M1) })"

subsection \<open>From user code into the runtime\<close>

definition scheduling_fcn_call :: "scheduling_fcn \<Rightarrow> ptr \<Rightarrow> ptr \<Rightarrow> ptr \<Rightarrow> 'a red \<Rightarrow> (provably_good_steal_t \<times> 'a red) option" where
  "scheduling_fcn_call fcn w ff sf z =
     (case fcn of Fcn_none \<Rightarrow> None | Fcn_do_sync \<Rightarrow> do_sync w ff sf z | Fcn_do_return_from_spawn \<Rightarrow> do_return_from_spawn w ff sf z)"

definition run_scheduling_stack_fcn :: "nat \<Rightarrow> ptr \<Rightarrow> 'a machine \<Rightarrow> 'a machine option" where
  "run_scheduling_stack_fcn t w M =
     (let v = wks (st M) w; fcn = post_suspend v; ff2 = w_frame_ff v; sf2 = suspended_stack v;
          M1 = on_store (upd_w w (\<lambda>x. x\<lparr>post_suspend := Fcn_none, suspended_stack := NULL, w_frame_ff := NULL\<rparr>)) M
      in do { cilk_assert (fcn \<noteq> Fcn_none);
              cilk_assert (ff2 \<noteq> NULL);
              (_, z) \<leftarrow> scheduling_fcn_call fcn w ff2 sf2 (red_of M1);
              let M2 = with_red z M1;
              cilk_assert (w_frame_ff (wks (st M2) w) = NULL);
              Some M2 })"

definition enter_runtime_transition_proc :: "nat \<Rightarrow> ptr \<Rightarrow> 'a machine \<Rightarrow> 'a machine option" where
  "enter_runtime_transition_proc t f M =
     (let w = fiber_owner (fb M f)
      in if post_suspend (wks (st M) w) \<noteq> Fcn_none
         then do { M1 \<leftarrow> run_scheduling_stack_fcn t w M;
                   cilk_assert (reducer_map (wks (st M1) w) = NULL);
                   cilk_assert (no_uncaught_exception t M1);
                   Some M1 }
         else Some M)"

text \<open>What runs first on a fiber that was switched to, then the fiber's own code.\<close>

definition do_post_switch_actions :: "nat \<Rightarrow> ptr \<Rightarrow> 'a machine \<Rightarrow> 'a machine option" where
  "do_post_switch_actions t f M =
     (let (p, s) = take_post_switch_proc f (fib (base M)); M1 = on_fibers (\<lambda>_. s) M
      in do { M2 \<leftarrow> (if p = NULL then Some M1
                     else if p = enter_runtime_proc then enter_runtime_transition_proc t f M1 else None);
              in_fib (give_up_pending f) M2 })"

definition fiber_code :: "ptr \<Rightarrow> entry \<Rightarrow> 'a machine \<Rightarrow> (control \<times> 'a machine) option" where
  "fiber_code f e M =
     (let w = fiber_owner (fb M f)
      in case e of
           Started p \<Rightarrow>
             if p = scheduler_fiber_proc_for_user_worker
             then do { cilk_assert (w \<noteq> NULL); cilk_assert (wtype (wks (st M) w) = WORKER_USER); Some (Schedules w, M) }
             else if p = fiber_proc_for_random_steal then fiber_proc_to_resume_user_code_for_random_steal f M
             else if p = fiber_proc_for_pending_steal then fiber_proc_to_resume_user_code_for_pending_steal f M
             else None
         | Resumed \<Rightarrow>
             if f = scheduling_fiber (wks (st M) w) then Some (Schedules w, M)
             else Some (user_code_resume_after_switch_into_runtime f M))"

definition arrive_on :: "nat \<Rightarrow> ptr \<Rightarrow> entry \<Rightarrow> 'a machine \<Rightarrow> (control \<times> 'a machine) option" where
  "arrive_on t f e M = Option.bind (do_post_switch_actions t f M) (fiber_code f e)"

text \<open>With a single worker there is no scheduling fiber; the frame goes on at once.\<close>

definition resume_without_fiber :: "nat \<Rightarrow> ptr \<Rightarrow> scheduling_fcn \<Rightarrow> ptr \<Rightarrow> 'a machine \<Rightarrow> (control \<times> 'a machine) option" where
  "resume_without_fiber t w fcn sf M =
     do { (_, z) \<leftarrow> scheduling_fcn_call fcn w (w_frame_ff (wks (st M) w)) sf (red_of M);
          let (ff2, s) = pop_next_frame w (rs z);
          cilk_assert (ff2 \<noteq> NULL);
          (eh, z1) \<leftarrow> setup_for_execution w ff2 False (eh_of M t) (z\<lparr>rs := s\<rparr>);
          let M1 = (with_red z1 M)\<lparr>eh_of := (eh_of M)(t := eh)\<rparr>;
          let M2 = on_store (\<lambda>s. prepare_to_resume w (current_stack_frame (wks s w)) s) M1;
          Some (resume_frame (current_stack_frame (wks (st M2) w)) ff2 M2) }"

definition longjmp_into_runtime :: "nat \<Rightarrow> ptr \<Rightarrow> scheduling_fcn \<Rightarrow> ptr \<Rightarrow> 'a machine \<Rightarrow> (control \<times> 'a machine) option" where
  "longjmp_into_runtime t w fcn sf M =
     do { cilk_assert (post_suspend (wks (st M) w) = Fcn_none);
          if P (glob (st M)) = 1 then resume_without_fiber t w fcn sf M
          else do { let M1 = on_store (upd_w w (\<lambda>v. v\<lparr>post_suspend := fcn, suspended_stack := sf\<rparr>)) M;
                    let v = wks (st M1) w;
                    let sched = scheduling_fiber v;
                    let current = (if fiber_to_free v \<noteq> NULL then fiber_to_free v
                                   else fiber_child (ffs (st M1) (parent (ffs (st M1) (w_frame_ff v)))));
                    cilk_assert (fiber_self (ffs (st M1) (w_frame_ff v)) = NULL);
                    let M2 = on_fibers (upd_fiber current (resume_sf_update (\<lambda>_. NULL))) M1;
                    cilk_assert (fiber_owner (fb M2 current) = w);
                    let M3 = tbb_op current CILK_TBB_STACK_ORPHAN (on_fibers (cilk_fiber_set_post_switch_proc sched enter_runtime_proc) M2);
                    if fiber_to_free (wks (st M3) w) \<noteq> NULL
                    then do { let M4 = on_store (upd_w w (fiber_to_free_update (\<lambda>_. NULL))) M3;
                              cilk_assert (fiber_owner (fb M4 sched) = NULL);
                              let M5 = tbb_op current CILK_TBB_STACK_RELEASE M4;
                              (e, s) \<leftarrow> remove_reference_from_self_and_resume_other current w sched (fib (base M5));
                              arrive_on t sched e (on_fibers (\<lambda>_. s) M5) }
                    else do { (e, s) \<leftarrow> suspend_self_and_resume_other current sched (fib (base M3));
                              arrive_on t sched e (on_fibers (\<lambda>_. s) M3) } } }"

subsection \<open>Stealing with a fiber\<close>

text \<open>The round of a search: what the others do before it and while the worker waits, the work of
  statically scheduled loops, the answers of the C library for each of the two fibers, the blocks for new frames, the
  issue function of compiled code.\<close>

record 'a round =
  others :: "'a machine \<Rightarrow> 'a machine option"
  others_while_waiting :: "'a machine \<Rightarrow> 'a machine option"
  static_scheduler_fn :: "'a machine \<Rightarrow> 'a machine option"
  own_fiber_mem :: "ptr \<Rightarrow> ptr \<times> ptr"
  random_fiber_mem :: "ptr \<Rightarrow> ptr \<times> ptr"
  new_frames :: "ptr list"
  issue_fn :: "ptr \<Rightarrow> ptr \<Rightarrow> rt \<Rightarrow> rt"

definition sizeof_stack_frame :: "64 word" where "sizeof_stack_frame = 136"

definition take_fiber :: "(ptr \<Rightarrow> ptr \<times> ptr) \<Rightarrow> bool \<Rightarrow> ptr \<Rightarrow> 'a machine \<Rightarrow> (ptr \<times> 'a machine) option" where
  "take_fiber mem asks w M =
     (if asks then map_option (\<lambda>(f, s). (f, on_fibers (\<lambda>_. s) M)) (cilk_fiber_allocate mem w (fib (base M))) else Some (NULL, M))"

text \<open>After the attempt: a pending task has its stack frame at the top of the fiber's stack; after a failure the
  fiber goes back to the worker's pool.\<close>

definition settle_fiber :: "ptr \<Rightarrow> bool \<Rightarrow> bool \<Rightarrow> ptr \<Rightarrow> 'a machine \<Rightarrow> 'a machine option" where
  "settle_fiber f success pending w M =
     (if f = NULL then Some M
      else if success
      then in_fib (\<lambda>s. cilk_fiber_reset_state f (if pending then fiber_proc_for_pending_steal else fiber_proc_for_random_steal)
                     (if pending then upd_fiber f (\<lambda>x. snd (allocate_stack_frame sizeof_stack_frame x)) s else s)) M
      else in_fib (cilk_fiber_remove_reference f w) M)"

definition frame_on_fiber :: "ptr \<Rightarrow> 'a machine \<Rightarrow> ptr" where
  "frame_on_fiber f M = fst (allocate_stack_frame sizeof_stack_frame (fb M f))"

definition own_ready_list_steal_on_fiber :: "'a round \<Rightarrow> ptr \<Rightarrow> 'a machine \<Rightarrow> (bool \<times> 'a machine) option" where
  "own_ready_list_steal_on_fiber rnd w M =
     do { (f, M1) \<leftarrow> take_fiber (own_fiber_mem rnd) (\<not> stealing_disabled (glob (st M))) w M;
          (success, s) \<leftarrow> own_ready_list_steal f (frame_on_fiber f M1) w (st M1);
          M2 \<leftarrow> settle_fiber f success True w (on_store (\<lambda>_. s) M1);
          Some (success, M2) }"

definition random_steal_on_fiber :: "'a round \<Rightarrow> ptr \<Rightarrow> 'a machine \<Rightarrow> 'a machine option" where
  "random_steal_on_fiber rnd w M =
     do { (f, M1) \<leftarrow> take_fiber (random_fiber_mem rnd) (\<not> stealing_disabled (glob (st M))) w M;
          let victim = workers (glob (st M1)) (fst (choose_victim w (st M1)));
          let pending = (rl_head (ready_list (wks (st M1) victim)) (st M1) \<noteq> NULL);
          s \<leftarrow> random_steal (issue_fn rnd) (\<lambda>n. n) True f (frame_on_fiber f M1) (new_frames rnd) w (st M1);
          settle_fiber f (work_stolen (wks s w)) pending w (on_store (\<lambda>_. s) M1) }"

subsection \<open>Looking for work\<close>

text \<open>A system worker without tasks leaves its team.\<close>

definition leave_team :: "ptr \<Rightarrow> rt \<Rightarrow> rt option" where
  "leave_team w s =
     (if wtype (wks s w) \<noteq> WORKER_USER \<and> team (wks s w) \<noteq> NULL
      then do { s1 \<leftarrow> lock_w w s;
                unlock_w w (if rl_head (ready_list (wks s1 w)) s1 = NULL then upd_w w (team_update (\<lambda>_. NULL)) s1 else s1) }
      else Some s)"

definition check_for_work :: "'a round \<Rightarrow> ptr \<Rightarrow> 'a machine \<Rightarrow> (ptr \<times> 'a machine) option" where
  "check_for_work rnd w M =
     (let (ff, s) = pop_next_frame w (st M); M0 = on_store (\<lambda>_. s) M
      in if ff \<noteq> NULL then Some (ff, M0)
         else do { M1 \<leftarrow> in_rt (leave_team w) M0;
                   (own, M2) \<leftarrow> own_ready_list_steal_on_fiber rnd w M1;
                   M3 \<leftarrow> (if own then Some M2
                          else do { cilk_assert (w_frame_ff (wks (st M2) w) = NULL); random_steal_on_fiber rnd w M2 });
                   let (ff', s') = pop_next_frame w (st M3);
                   Some (ff', on_store (\<lambda>_. upd_w w (\<lambda>v. v\<lparr>steal_failure_count :=
                           (if ff' = NULL then steal_failure_count v + 1 else 0)\<rparr>) s') M3) })"

definition wait_for_work :: "'a round \<Rightarrow> ptr \<Rightarrow> 'a machine \<Rightarrow> 'a machine option" where
  "wait_for_work rnd w M =
     do { cilk_assert (wtype (wks (st M) w) = WORKER_SYSTEM);
          cilk_assert (next_frame_ff (wks (st M) w) = NULL);
          M1 \<leftarrow> in_rt (notify_children_wait w) M;
          M2 \<leftarrow> others_while_waiting rnd M1;
          M3 \<leftarrow> in_rt (signal_node_wait (signal_node (wks (st M2) w))) M2;
          M4 \<leftarrow> in_rt (notify_children_run w) M3;
          M5 \<leftarrow> static_scheduler_fn rnd M4;
          Some (on_store (upd_w w (steal_failure_count_update (\<lambda>_. 0))) M5) }"

text \<open>The search ends with a frame, or because the runtime is shut down; with the rounds used up it still goes on.\<close>

datatype search_result = Work ptr | No_more_work | Still_searching

fun search_until_work_found_or_done ::
  "'a round list \<Rightarrow> ptr \<Rightarrow> 'a machine \<Rightarrow> (search_result \<times> 'a machine) option" where
  "search_until_work_found_or_done [] w M = Some (Still_searching, M)"
| "search_until_work_found_or_done (rnd # rnds) w M =
     do { M0 \<leftarrow> others rnd M;
          (action, s) \<leftarrow> worker_runnable w (st M0);
          let M1 = on_store (\<lambda>_. s) M0;
          (case action of
             SCHEDULE_RUN \<Rightarrow>
               do { M2 \<leftarrow> static_scheduler_fn rnd M1;
                    (ff, M3) \<leftarrow> check_for_work rnd w M2;
                    if ff \<noteq> NULL then Some (Work ff, M3) else search_until_work_found_or_done rnds w M3 }
           | SCHEDULE_WAIT \<Rightarrow>
               do { M2 \<leftarrow> wait_for_work rnd w M1; search_until_work_found_or_done rnds w M2 }
           | SCHEDULE_EXIT \<Rightarrow>
               do { cilk_assert (wtype (wks (st M1) w) \<noteq> WORKER_USER); Some (No_more_work, M1) }) }"

subsection \<open>The loop\<close>

text \<open>Stage 4 of the body: the frame that was found becomes the worker's and its fiber is the one to go on.\<close>

definition take_up_frame :: "nat \<Rightarrow> ptr \<Rightarrow> ptr \<Rightarrow> ptr \<Rightarrow> 'a machine \<Rightarrow> (ptr \<times> 'a machine) option" where
  "take_up_frame t current w ff M =
     do { cilk_assert (no_uncaught_exception t M);
          M1 \<leftarrow> in_rt (lock_w w) M;
          cilk_assert (w_frame_ff (wks (st M1) w) = NULL);
          M2 \<leftarrow> in_rt (frame_lock w ff) M1;
          let sf = call_stack (ffs (st M2) ff);
          cilk_assert (sf \<noteq> NULL \<and> call_parent (sfs (st M2) sf) = NULL);
          (eh, z) \<leftarrow> setup_for_execution w ff False (eh_of M2 t) (red_of M2);
          let M3 = (with_red z M2)\<lparr>eh_of := (eh_of M2)(t := eh)\<rparr>;
          M4 \<leftarrow> in_rt (frame_unlock w ff) M3;
          M5 \<leftarrow> in_rt (unlock_w w) M4;
          let M6 = on_store (prepare_to_resume w sf) M5;
          let other = fiber_self (ffs (st M6) (w_frame_ff (wks (st M6) w)));
          cilk_assert (resume_sf (fb M6 other) = NULL);
          let M7 = on_fibers (upd_fiber current (resume_sf_update (\<lambda>_. NULL))) M6;
          cilk_assert (fiber_owner (fb M7 current) = w);
          Some (other, on_fibers (upd_fiber other (resume_sf_update (\<lambda>_. sf))) M7) }"

datatype loop_result = Switch_to ptr | Go_on | Goes_on_searching

definition worker_scheduling_loop_body ::
  "nat \<Rightarrow> 'a round list \<Rightarrow> ptr \<Rightarrow> ptr \<Rightarrow> 'a machine \<Rightarrow> (loop_result \<times> 'a machine) option" where
  "worker_scheduling_loop_body t rnds current w M =
     do { cilk_assert (current = scheduling_fiber (wks (st M) w));
          cilk_assert (w_frame_ff (wks (st M) w) = NULL);
          let (ff, s) = pop_next_frame w (st M);
          let M1 = on_store (\<lambda>_. s) M;
          if ff \<noteq> NULL then map_option (\<lambda>(f, M'). (Switch_to f, M')) (take_up_frame t current w ff M1)
          else do { (r, M2) \<leftarrow> search_until_work_found_or_done rnds w M1;
                    (case r of
                       Work ff' \<Rightarrow> map_option (\<lambda>(f, M'). (Switch_to f, M')) (take_up_frame t current w ff' M2)
                     | No_more_work \<Rightarrow> do { cilk_assert (work_done (glob (st M2))); Some (Go_on, M2) }
                     | Still_searching \<Rightarrow> Some (Goes_on_searching, M2)) } }"

text \<open>Before its first pass a worker seeds its generator and registers with the node the operating system says it
  runs on.\<close>

definition register_numa :: "int \<Rightarrow> (int \<Rightarrow> int) \<Rightarrow> ptr \<Rightarrow> rt \<Rightarrow> rt" where
  "register_numa getcpu node_of_cpu w s =
     (let cpu = (if getcpu < 0 then 0 else getcpu);
          node = (let n = node_of_cpu cpu; n = (if n < 0 then 0 else n) in if n \<ge> int (numa_nodes (glob s)) then 0 else n);
          i = nat node;
          g = glob s
      in upd_w w (\<lambda>v. v\<lparr>numa_node := node, numa_local_self := int (numa_node_threads g i)\<rparr>)
           (s\<lparr>glob := g\<lparr>numa_node_threads := (numa_node_threads g)(i := numa_node_threads g i + 1),
              numa_node_cum_threads := (\<lambda>k. if i < k \<and> k < numa_nodes g then numa_node_cum_threads g k + 1 else numa_node_cum_threads g k),
              numa_P_init := numa_P_init g + 1\<rparr>\<rparr>))"

definition worker_scheduler_init_function ::
  "int \<Rightarrow> (int \<Rightarrow> int) \<Rightarrow> ('a machine \<Rightarrow> 'a machine option) \<Rightarrow> ptr \<Rightarrow> 'a machine \<Rightarrow> 'a machine option" where
  "worker_scheduler_init_function getcpu node_of_cpu waits w M =
     (let M1 = on_store (mysrand w (of_int (self (wks (st M) w) + 1))) M;
          M2 = (if wtype (wks (st M1) w) = WORKER_SYSTEM then on_store (register_numa getcpu node_of_cpu w) M1 else M1)
      in case wtype (wks (st M2) w) of
           WORKER_USER \<Rightarrow> Some M2
         | WORKER_SYSTEM \<Rightarrow>
             do { M3 \<leftarrow> waits M2;
                  M4 \<leftarrow> in_rt (signal_node_wait (signal_node (wks (st M3) w))) M3;
                  M5 \<leftarrow> in_rt (notify_children_run w) M4;
                  Some (on_store (upd_w w (steal_failure_count_update (\<lambda>_. 0))) M5) }
         | WORKER_FREE \<Rightarrow> None)"

text \<open>One pass of the loop, up to the next switch of fibers.\<close>

definition worker_scheduler_pass :: "nat \<Rightarrow> 'a round list \<Rightarrow> ptr \<Rightarrow> 'a machine \<Rightarrow> (control \<times> 'a machine) option" where
  "worker_scheduler_pass t rnds w M =
     (if work_done (glob (st M)) then do { cilk_assert (wtype (wks (st M) w) \<noteq> WORKER_USER); Some (Ends, M) }
      else do { let sched = scheduling_fiber (wks (st M) w);
                (r, M1) \<leftarrow> worker_scheduling_loop_body t rnds sched w M;
                (case r of
                   Switch_to f \<Rightarrow> do { (e, s) \<leftarrow> suspend_self_and_resume_other sched f (fib (base M1)); arrive_on t f e (on_fibers (\<lambda>_. s) M1) }
                 | Go_on \<Rightarrow> Some (Schedules w, M1)
                 | Goes_on_searching \<Rightarrow> Some (Searches w, M1)) })"

end
