(* ===== verification/Scheduling_Loop_Proofs.thy ===== *)
theory Scheduling_Loop_Proofs
  imports Scheduling_Loop Scheduling_Proofs
begin

text \<open>
  A worker that has found a frame makes it its own and hands execution over to the fiber of the frame: a
  frame that was suspended goes on where its stack pointer was saved, a stolen one at the top of its new stack.
\<close>

subsection \<open>Taking a frame up\<close>

text \<open>What the worker and the frame bring along; no exception is pending and the maps fit.\<close>

definition can_take_up :: "ptr \<Rightarrow> ptr \<Rightarrow> rt \<Rightarrow> bool" where
  "can_take_up w ff s \<longleftrightarrow> call_stack (ffs s ff) \<noteq> NULL \<and> w_pending_exception (wks s w) = NULL \<and>
     ff_pending_exception (ffs s ff) = NULL \<and>
     (flags (sfs s (call_stack (ffs s ff))) AND CILK_FRAME_UNSYNCHED = 0 \<longrightarrow> rightmost_child (ffs s ff) = NULL \<and>
        (children_reducer_map (ffs s ff) = NULL \<or> reducer_map (wks s w) = NULL))"

text \<open>The frame is the worker's, which starts on an empty deque.\<close>

definition taken_up :: "ptr \<Rightarrow> ptr \<Rightarrow> ptr \<Rightarrow> rt \<Rightarrow> bool" where
  "taken_up w ff sf s \<longleftrightarrow> w_frame_ff (wks s w) = ff \<and> current_stack_frame (wks s w) = sf \<and> sf_worker (sfs s sf) = w \<and>
     deque_contents (wks s w) = [] \<and> exc (wks s w) = Some (whead (wks s w))"

text \<open>What stays as it was.\<close>

definition same_rest :: "ptr \<Rightarrow> ptr \<Rightarrow> rt \<Rightarrow> rt \<Rightarrow> bool" where
  "same_rest w ff s s' \<longleftrightarrow> (\<forall>v. v \<noteq> w \<longrightarrow> wks s' v = wks s v) \<and> (\<forall>g. g \<noteq> ff \<longrightarrow> ffs s' g = ffs s g) \<and> glob s' = glob s \<and>
     lock (wks s' w) = lock (wks s w) \<and> do_not_steal (wks s' w) = do_not_steal (wks s w) \<and>
     steal_lock (wks s' w) = steal_lock (wks s w) \<and>
     worker_magic_0 (wks s' w) = worker_magic_0 (wks s w) \<and> worker_magic_1 (wks s' w) = worker_magic_1 (wks s w) \<and>
     scheduling_fiber (wks s' w) = scheduling_fiber (wks s w) \<and> next_frame_ff (wks s' w) = next_frame_ff (wks s w) \<and>
     ff_lock (ffs s' ff) = ff_lock (ffs s ff) \<and> fiber_self (ffs s' ff) = fiber_self (ffs s ff) \<and>
     sync_sp (ffs s' ff) = sync_sp (ffs s ff) \<and>
     full_frame_magic_0 (ffs s' ff) = full_frame_magic_0 (ffs s ff) \<and> full_frame_magic_1 (ffs s' ff) = full_frame_magic_1 (ffs s ff)"

lemma same_rest_trans: "same_rest w ff s1 s2 \<Longrightarrow> same_rest w ff s2 s3 \<Longrightarrow> same_rest w ff s1 s3"
  by (simp add: same_rest_def)

lemma reducers_ok:
  assumes "can_take_up w ff s"
  shows "\<exists>s'. setup_for_execution_reducers w ff s = Some s' \<and> same_rest w ff s s' \<and> sfs s' = sfs s \<and>
    call_stack (ffs s' ff) = call_stack (ffs s ff) \<and> w_pending_exception (wks s' w) = NULL \<and> ff_pending_exception (ffs s' ff) = NULL"
proof (cases "flags (sfs s (call_stack (ffs s ff))) AND CILK_FRAME_UNSYNCHED = 0")
  case True
  with assms show ?thesis by (auto simp: can_take_up_def setup_for_execution_reducers_def same_rest_def)
next
  case False
  with assms show ?thesis by (simp add: can_take_up_def setup_for_execution_reducers_def same_rest_def)
qed

lemma exceptions_ok:
  assumes "w_pending_exception (wks s w) = NULL" and "ff_pending_exception (ffs s ff) = NULL"
  shows "\<exists>s'. setup_for_execution_exceptions w ff s = Some s' \<and> same_rest w ff s s' \<and> sfs s' = sfs s \<and>
    call_stack (ffs s' ff) = call_stack (ffs s ff) \<and> w_pending_exception (wks s' w) = NULL"
  using assms by (simp add: setup_for_execution_exceptions_def same_rest_def)

lemma pedigree_ok:
  assumes "current_stack_frame (wks s w) \<noteq> NULL"
  shows "\<exists>s'. setup_for_execution_pedigree w s = Some s' \<and> same_rest w ff s s' \<and> ffs s' = ffs s \<and>
    current_stack_frame (wks s' w) = current_stack_frame (wks s w) \<and>
    sf_worker (sfs s' x) = sf_worker (sfs s x) \<and> w_pending_exception (wks s' w) = w_pending_exception (wks s w)"
  using assms by (simp add: setup_for_execution_pedigree_def same_rest_def Let_def)

lemma setup_ok:
  assumes "can_take_up w ff (rs z)"
  obtains z' where "setup_for_execution w ff False eh z = Some (eh, z')" "taken_up w ff (call_stack (ffs (rs z) ff)) (rs z')"
    "same_rest w ff (rs z) (rs z')"
proof -
  let ?sf = "call_stack (ffs (rs z) ff)"
  obtain s1 where s1: "setup_for_execution_reducers w ff (rs z) = Some s1" "same_rest w ff (rs z) s1"
    "call_stack (ffs s1 ff) = ?sf" "w_pending_exception (wks s1 w) = NULL" "ff_pending_exception (ffs s1 ff) = NULL"
    using reducers_ok [OF assms] by metis
  obtain s2 where s2: "setup_for_execution_exceptions w ff s1 = Some s2" "same_rest w ff s1 s2"
    "call_stack (ffs s2 ff) = ?sf" "w_pending_exception (wks s2 w) = NULL"
    using exceptions_ok [OF s1(4,5)] s1(3) by metis
  define s3 where "s3 = upd_w w (current_stack_frame_update (\<lambda>_. ?sf)) (upd_sf ?sf (sf_worker_update (\<lambda>_. w)) s2)"
  have s3: "same_rest w ff s2 s3" "current_stack_frame (wks s3 w) = ?sf" "sf_worker (sfs s3 ?sf) = w"
    "w_pending_exception (wks s3 w) = NULL"
    using s2(4) by (auto simp: s3_def same_rest_def)
  have "?sf \<noteq> NULL" using assms by (simp add: can_take_up_def)
  then obtain s4 where s4: "setup_for_execution_pedigree w s3 = Some s4" "same_rest w ff s3 s4" "ffs s4 = ffs s3"
    "current_stack_frame (wks s4 w) = ?sf" "sf_worker (sfs s4 ?sf) = w" "w_pending_exception (wks s4 w) = NULL"
    using pedigree_ok [of s3 w ff ?sf] s3 by metis
  define s5 where "s5 = make_runnable w ff (upd_w w (\<lambda>v. reset_THE_exception (v\<lparr>wtail := 0, whead := 0\<rparr>)) s4)"
  have s5: "same_rest w ff s4 s5" "taken_up w ff ?sf s5"
    using s4(4,5) by (auto simp: s5_def same_rest_def taken_up_def make_runnable_def reset_THE_exception_def deque_contents_def)
  have "setup_for_execution w ff False eh z = Some (eh, z\<lparr>rs := s5\<rparr>)"
    using s1(1) s2(1,3) s4(1) s4(6)
    by (simp add: setup_for_execution_def rs_do_def upd_rs_def setup_for_execution_sysdep_def Let_def s3_def [symmetric] s5_def)
  moreover have "same_rest w ff (rs z) s5"
    using s1(2) s2(2) s3(1) s4(2) s5(1) same_rest_trans by blast
  ultimately show ?thesis using that s5(2) by simp
qed

lemma in_rt_Some: "f (st M) = Some s \<Longrightarrow> in_rt f M = Some (on_store (\<lambda>_. s) M)"
  by (simp add: in_rt_def in_base_def in_store_def on_store_def)

definition ready_to_run :: "nat \<Rightarrow> ptr \<Rightarrow> ptr \<Rightarrow> 'a machine \<Rightarrow> bool" where
  "ready_to_run t w ff M \<longleftrightarrow> no_uncaught_exception t M \<and> can_take_up w ff (st M) \<and> worker_free w (st M) \<and> frame_ok ff (st M) \<and>
     w_frame_ff (wks (st M) w) = NULL \<and> call_parent (sfs (st M) (call_stack (ffs (st M) ff))) = NULL \<and>
     resume_sf (fb M (fiber_self (ffs (st M) ff))) = NULL"

text \<open>After the locks are given back the worker executes the frame.\<close>

definition executes :: "ptr \<Rightarrow> ptr \<Rightarrow> ptr \<Rightarrow> rt \<Rightarrow> bool" where
  "executes w ff sf s \<longleftrightarrow> taken_up w ff sf s \<and> worker_free w s \<and> frame_ok ff s"

lemma take_up_frame_ok:
  assumes r: "ready_to_run t w ff M" and own: "fiber_owner (fb M current) = w"
  shows "\<exists>M'. take_up_frame t current w ff M = Some (fiber_self (ffs (st M) ff), M') \<and>
    executes w ff (call_stack (ffs (st M) ff)) (st M') \<and> sync_sp (ffs (st M') ff) = sync_sp (ffs (st M) ff) \<and>
    scheduling_fiber (wks (st M') w) = scheduling_fiber (wks (st M) w) \<and>
    next_frame_ff (wks (st M') w) = next_frame_ff (wks (st M) w) \<and> glob (st M') = glob (st M) \<and>
    fib (base M') = upd_fiber (fiber_self (ffs (st M) ff)) (resume_sf_update (\<lambda>_. call_stack (ffs (st M) ff)))
      (upd_fiber current (resume_sf_update (\<lambda>_. NULL)) (fib (base M)))"
proof -
  let ?s = "st M" and ?sf = "call_stack (ffs (st M) ff)"
  define s1 where "s1 = upd_w w (\<lambda>v. v\<lparr>do_not_steal := 1, lock := \<lparr>mutex_lock_word = 1, mutex_owner = w\<rparr>\<rparr>) ?s"
  define s2 where "s2 = upd_ff ff (ff_lock_update (\<lambda>_. \<lparr>mutex_lock_word = 1, mutex_owner = w\<rparr>)) s1"
  have free: "worker_free w ?s" and fok: "frame_ok ff s1" and can: "can_take_up w ff s2"
    using r by (auto simp: ready_to_run_def s1_def s2_def frame_ok_def can_take_up_def)
  have l1: "in_rt (lock_w w) M = Some (on_store (\<lambda>_. s1) M)"
    using in_rt_Some [of "lock_w w" M] lock_w_ok [OF free] by (simp add: s1_def)
  have l2: "in_rt (frame_lock w ff) (on_store (\<lambda>_. s1) M) = Some (on_store (\<lambda>_. s2) (on_store (\<lambda>_. s1) M))"
    using frame_lock_ok' [OF fok] by (intro in_rt_Some) (simp add: s2_def)
  define M2 where "M2 = on_store (\<lambda>_. s2) (on_store (\<lambda>_. s1) M)"
  have M2: "st M2 = s2" "fib (base M2) = fib (base M)" "eh_of M2 = eh_of M" by (simp_all add: M2_def)
  have sf2: "call_stack (ffs s2 ff) = ?sf" "fiber_self (ffs s2 ff) = fiber_self (ffs ?s ff)" "sync_sp (ffs s2 ff) = sync_sp (ffs ?s ff)"
    "sfs s2 = sfs ?s" "glob s2 = glob ?s" "next_frame_ff (wks s2 w) = next_frame_ff (wks ?s w)"
    "scheduling_fiber (wks s2 w) = scheduling_fiber (wks ?s w)"
    by (simp_all add: s1_def s2_def)
  obtain z where z: "setup_for_execution w ff False (eh_of M t) (red_of M2) = Some (eh_of M t, z)"
    "taken_up w ff ?sf (rs z)" "same_rest w ff s2 (rs z)"
    using setup_ok [of w ff "red_of M2" "eh_of M t"] can sf2(1) M2(1) by (metis st_simps(16))
  define M3 where "M3 = (with_red z M2)\<lparr>eh_of := eh_of M\<rparr>"
  have M3: "st M3 = rs z" "fib (base M3) = fib (base M)" by (simp_all add: M3_def M2)
  define s4 where "s4 = upd_ff ff (ff_lock_update (\<lambda>_. mutex_zero)) (rs z)"
  define s5 where "s5 = upd_w w (\<lambda>v. v\<lparr>lock := \<lparr>mutex_lock_word = 0, mutex_owner = NULL\<rparr>, do_not_steal := 0\<rparr>) s4"
  define s6 where "s6 = prepare_to_resume w ?sf s5"
  have u1: "in_rt (frame_unlock w ff) M3 = Some (on_store (\<lambda>_. s4) M3)"
    using z(3) frame_unlock_ok' [of "rs z" ff w] by (intro in_rt_Some) (simp add: M3 s4_def same_rest_def s2_def)
  have u2: "in_rt (unlock_w w) (on_store (\<lambda>_. s4) M3) = Some (on_store (\<lambda>_. s5) (on_store (\<lambda>_. s4) M3))"
    using z(3) unlock_w_ok [of s4 w] by (intro in_rt_Some) (simp add: s4_def s5_def same_rest_def s2_def s1_def)
  have steal_free: "steal_lock (wks (rs z) w) = steal_lock (wks ?s w)" "worker_magic_0 (wks (rs z) w) = worker_magic_0 (wks ?s w)"
    "worker_magic_1 (wks (rs z) w) = worker_magic_1 (wks ?s w)"
    using z(3) by (simp_all add: same_rest_def s2_def s1_def)
  have ex: "executes w ff ?sf s6"
    using z(2,3) free fok steal_free
    by (auto simp: executes_def taken_up_def s6_def s5_def s4_def prepare_to_resume_def worker_free_def worker_locks_ok_def mutex_ok_def
        frame_ok_def same_rest_def s2_def deque_contents_def mutex_zero_def)
  have f6: "fiber_self (ffs s6 ff) = fiber_self (ffs ?s ff)" "sync_sp (ffs s6 ff) = sync_sp (ffs ?s ff)" "w_frame_ff (wks s6 w) = ff"
    "glob s6 = glob ?s" "next_frame_ff (wks s6 w) = next_frame_ff (wks ?s w)" "scheduling_fiber (wks s6 w) = scheduling_fiber (wks ?s w)"
    using z(3) sf2 ex by (simp_all add: s6_def s5_def s4_def prepare_to_resume_def same_rest_def executes_def taken_up_def)
  let ?f = "fiber_self (ffs ?s ff)"
  let ?M6 = "on_store (prepare_to_resume w ?sf) (on_store (\<lambda>_. s5) (on_store (\<lambda>_. s4) M3))"
  let ?M8 = "on_fibers (upd_fiber ?f (resume_sf_update (\<lambda>_. ?sf))) (on_fibers (upd_fiber current (resume_sf_update (\<lambda>_. NULL))) ?M6)"
  have s6: "st ?M6 = s6" "fib (base ?M6) = fib (base M)" by (simp_all add: s6_def M3(2))
  have guards: "no_uncaught_exception t M" "w_frame_ff (wks s1 w) = NULL" "?sf \<noteq> NULL" "call_parent (sfs s2 ?sf) = NULL"
    "resume_sf (fb M ?f) = NULL"
    using r by (auto simp: ready_to_run_def can_take_up_def s1_def s2_def)
  have o6: "fiber_owner (fb (on_fibers (upd_fiber current (resume_sf_update (\<lambda>_. NULL))) ?M6) current) = w"
    using own M3(2) by (simp add: upd_fiber_def)
  have "take_up_frame t current w ff M = Some (?f, ?M8)"
    unfolding take_up_frame_def
    using guards l1 l2 z(1) u1 u2 sf2(1) M2 f6(1,3) s6 o6
    by (simp add: Let_def M2_def [symmetric] M3_def [symmetric])
  then show ?thesis using ex f6 s6 by (intro exI [of _ ?M8] conjI) simp_all
qed

subsection \<open>The switch to the frame's fiber\<close>

text \<open>The fiber of the frame was suspended in user code, or is a new one set up by a steal.\<close>

definition fiber_fit :: "ptr \<Rightarrow> 'a machine \<Rightarrow> bool" where
  "fiber_fit f M \<longleftrightarrow> f \<noteq> NULL \<and> m_post_switch_proc (fb M f) = NULL \<and> m_pending_remove_ref (fb M f) = NULL \<and>
     (resumable (fb M f) \<or> m_start_proc (fb M f) = fiber_proc_for_random_steal \<and> \<not> allocated_from_thread (fb M f))"

definition resume_sp :: "ptr \<Rightarrow> 'a machine \<Rightarrow> 64 word" where
  "resume_sp ff M =
     (let f = fb M (fiber_self (ffs (st M) ff))
      in if resumable f then sync_sp (ffs (st M) ff) else get_sp_for_executing_sf (m_stack_base f))"

lemma tbb_adopt [simp]: "tbb_op f CILK_TBB_STACK_ADOPT M = M"
proof -
  have "(\<lambda>s. snd (invoke_tbb_stack_op f CILK_TBB_STACK_ADOPT s)) = (\<lambda>s. s)" by (rule ext) (simp add: invoke_tbb_stack_op_def Let_def)
  then show ?thesis by (simp add: tbb_op_def on_fibers_def)
qed

lemma deque_same: "wks s' w = wks s w \<Longrightarrow> sf_worker (sfs s' sf) = sf_worker (sfs s sf) \<Longrightarrow> taken_up w ff sf s' = taken_up w ff sf s"
  by (simp add: taken_up_def)

text \<open>On the fiber, once it has the worker as its owner.\<close>

lemma fiber_code_resumes:
  assumes "taken_up w ff sf (st M)" and "fiber_owner (fb M f) = w" and "f \<noteq> scheduling_fiber (wks (st M) w)" and "f \<noteq> NULL"
    and "resume_sf (fb M f) = sf" and "sf \<noteq> NULL"
    and "e = Resumed \<and> sp = sync_sp (ffs (st M) ff) \<or>
         e = Started fiber_proc_for_random_steal \<and> sp = get_sp_for_executing_sf (m_stack_base (fb M f))"
  shows "\<exists>M'. fiber_code f e M = Some (Resumes sf sp, M') \<and> wks (st M') = wks (st M) \<and> sf_worker (sfs (st M') sf) = w \<and>
    flags (sfs (st M') sf) AND CILK_FRAME_SUSPENDED = 0 \<and> sf_sp (sfs (st M') sf) = sp \<and>
    frame_ok ff (st M') = frame_ok ff (st M) \<and>
    fiber_owner (fb M' f) = w \<and> (\<forall>g. g \<noteq> f \<longrightarrow> fb M' g = fb M g)"
  using assms(7)
proof
  assume e: "e = Resumed \<and> sp = sync_sp (ffs (st M) ff)"
  with assms show ?thesis
    by (simp add: fiber_code_def user_code_resume_after_switch_into_runtime_def resume_frame_def cilkrts_resume_def
        sysdep_longjmp_to_sf_def take_stack_def taken_up_def Let_def word_bw_assocs frame_ok_def)
next
  assume e: "e = Started fiber_proc_for_random_steal \<and> sp = get_sp_for_executing_sf (m_stack_base (fb M f))"
  with assms show ?thesis
    by (simp add: fiber_code_def fiber_proc_to_resume_user_code_for_random_steal_def sysdep_reset_jump_buffers_for_resume_def
        sysdep_longjmp_to_sf_def take_stack_def taken_up_def Let_def upd_fiber_def word_bw_assocs frame_ok_def
        fiber_proc_for_random_steal_def scheduler_fiber_proc_for_user_worker_def)
qed

lemma ready_to_run_pop:
  "ready_to_run t w ff M \<Longrightarrow> ready_to_run t w ff (on_store (upd_w w (next_frame_ff_update (\<lambda>_. NULL))) M)"
  by (auto simp: ready_to_run_def can_take_up_def worker_free_def worker_locks_ok_def frame_ok_def no_uncaught_exception_def)

lemma on_fibers_const: "on_fibers (\<lambda>_. s) (on_fibers g M) = on_fibers (\<lambda>_. s) M"
  by (simp add: on_fibers_def)

lemma pass_resumes:
  assumes ready: "ready_to_run t w ff M" and nf: "next_frame_ff (wks (st M) w) = ff" "ff \<noteq> NULL" and go: "\<not> work_done (glob (st M))"
    and sched: "sched = scheduling_fiber (wks (st M) w)" "fiber_owner (fb M sched) = w" "\<not> resumable (fb M sched)"
    and f: "f = fiber_self (ffs (st M) ff)" "f \<noteq> sched" "fiber_fit f M"
    and sf: "sf = call_stack (ffs (st M) ff)"
  shows "\<exists>M'. worker_scheduler_pass t rnds w M = Some (Resumes sf (resume_sp ff M), M') \<and>
    executes w ff sf (st M') \<and> next_frame_ff (wks (st M') w) = NULL \<and>
    sf_sp (sfs (st M') sf) = resume_sp ff M \<and> flags (sfs (st M') sf) AND CILK_FRAME_SUSPENDED = 0 \<and>
    fiber_owner (fb M' f) = w \<and> fiber_owner (fb M' sched) = NULL \<and> resumable (fb M' sched)"
proof -
  define M1 where "M1 = on_store (upd_w w (next_frame_ff_update (\<lambda>_. NULL))) M"
  have r1: "ready_to_run t w ff M1" using ready_to_run_pop [OF ready] by (simp add: M1_def)
  have M1: "fib (base M1) = fib (base M)" "ffs (st M1) = ffs (st M)" "glob (st M1) = glob (st M)"
    "scheduling_fiber (wks (st M1) w) = sched" "next_frame_ff (wks (st M1) w) = NULL"
    by (simp_all add: M1_def sched)
  have "fiber_owner (fb M1 sched) = w" using M1(1) sched(2) by simp
  from take_up_frame_ok [OF r1 this] obtain M2 where
    M2: "take_up_frame t sched w ff M1 = Some (f, M2)" "executes w ff sf (st M2)" "sync_sp (ffs (st M2) ff) = sync_sp (ffs (st M) ff)"
      "scheduling_fiber (wks (st M2) w) = sched" "next_frame_ff (wks (st M2) w) = NULL"
      "fib (base M2) = upd_fiber f (resume_sf_update (\<lambda>_. sf)) (upd_fiber sched (resume_sf_update (\<lambda>_. NULL)) (fib (base M)))"
    using M1 f(1) sf by auto
  have pop: "pop_next_frame w (st M) = (ff, st M1)" using nf by (simp add: pop_next_frame_def M1_def)
  have "on_store (\<lambda>_. st M1) M = M1" by (simp add: M1_def on_store_def)
  then have body: "worker_scheduling_loop_body t rnds sched w M = Some (Switch_to f, M2)"
    using ready nf(2) sched(1) pop M2(1) by (simp add: worker_scheduling_loop_body_def ready_to_run_def)
  have ff2: "fb M2 f = (fb M f)\<lparr>resume_sf := sf\<rparr>" "fb M2 sched = (fb M sched)\<lparr>resume_sf := NULL\<rparr>"
    using f(2) by (simp_all add: M2(6) upd_fiber_def)
  define e where "e = (if resumable (fb M f) then Resumed else Started fiber_proc_for_random_steal)"
  define S where "S = upd_fiber sched (resumable_update (\<lambda>_. True)) (pass_owner sched f (fib (base M2)))"
  define S' where "S' = (if resumable (fb M f) then upd_fiber f (resumable_update (\<lambda>_. False)) S else S)"
  have S: "fibers S f = (fb M f)\<lparr>resume_sf := sf, fiber_owner := w\<rparr>"
    "fibers S sched = (fb M sched)\<lparr>resume_sf := NULL, fiber_owner := NULL, resumable := True\<rparr>"
    using f(2) sched(2) by (simp_all add: S_def pass_owner_def upd_fiber_def ff2)
  have sus: "suspend_self_and_resume_other sched f (fib (base M2)) = Some (e, S')"
  proof -
    have a: "\<not> resumable (fibers (pass_owner sched f (fib (base M2))) sched)"
      using f(2) sched(3) ff2 by (simp add: pass_owner_def upd_fiber_def)
    have "resume_other_sysdep f S = Some (e, S')"
      using f(3) by (auto simp: resume_other_sysdep_def S e_def S'_def fiber_fit_def fiber_proc_for_random_steal_def Let_def)
    with a show ?thesis by (simp add: suspend_self_and_resume_other_def Let_def S_def)
  qed
  define M3 where "M3 = on_fibers (\<lambda>_. S') M2"
  have S': "fibers S' f = (fibers S f)\<lparr>resumable := False\<rparr>" "fibers S' sched = fibers S sched"
    using f(2,3) by (auto simp: S'_def upd_fiber_def S fiber_fit_def)
  have post: "do_post_switch_actions t f M3 = Some M3"
    using f(3)
    by (simp add: do_post_switch_actions_def take_post_switch_proc_def M3_def S' S fiber_fit_def in_fib_def in_base_def in_fibers_def
        give_up_pending_def Let_def on_fibers_def)
  have M3: "st M3 = st M2" "fb M3 f = (fibers S f)\<lparr>resumable := False\<rparr>" "fb M3 sched = fibers S sched"
    by (simp_all add: M3_def S')
  have pre: "taken_up w ff sf (st M3)" "fiber_owner (fb M3 f) = w" "f \<noteq> scheduling_fiber (wks (st M3) w)" "f \<noteq> NULL"
    "resume_sf (fb M3 f) = sf" "sf \<noteq> NULL"
    using M2(2,4) f(2,3) ready sf by (simp_all add: M3 S executes_def fiber_fit_def ready_to_run_def can_take_up_def)
  have "e = Resumed \<and> resume_sp ff M = sync_sp (ffs (st M3) ff) \<or>
     e = Started fiber_proc_for_random_steal \<and> resume_sp ff M = get_sp_for_executing_sf (m_stack_base (fb M3 f))"
    by (simp add: e_def resume_sp_def f(1) [symmetric] M3 S M2(3) Let_def)
  from fiber_code_resumes [OF pre this] obtain M' where M': "fiber_code f e M3 = Some (Resumes sf (resume_sp ff M), M')"
    "wks (st M') = wks (st M2)" "sf_worker (sfs (st M') sf) = w" "flags (sfs (st M') sf) AND CILK_FRAME_SUSPENDED = 0"
    "sf_sp (sfs (st M') sf) = resume_sp ff M" "frame_ok ff (st M') = frame_ok ff (st M2)" "fiber_owner (fb M' f) = w"
    "fb M' sched = fibers S sched"
    using f(2) M3 by metis
  have "worker_scheduler_pass t rnds w M = Some (Resumes sf (resume_sp ff M), M')"
    using go body sus post M'(1) by (simp add: worker_scheduler_pass_def sched(1) [symmetric] arrive_on_def M3_def Let_def)
  moreover have "executes w ff sf (st M')"
    using M2(2) M'(2,3,6) by (simp add: executes_def taken_up_def worker_free_def)
  ultimately show ?thesis using M' M2(5) by (intro exI [of _ M']) (simp add: S)
qed

subsection \<open>The last child that returns goes on with its parent\<close>

lemma child_returns_last_exactly:
  assumes "ready_to_return p c (rs z)" and "at_sync p (rs z)" and "idle_worker w (rs z)" and "join_counter (ffs (rs z) p) = 1"
    and "fiber_self (ffs (rs z) p) = NULL" and "sf = call_stack (ffs (rs z) p)"
  shows "\<exists>z'. do_return_from_spawn w c NULL z = Some (CONTINUE_EXECUTION, z') \<and>
    wks (rs z') = (wks (rs z))(w := (wks (rs z) w)\<lparr>next_frame_ff := p\<rparr>) \<and>
    ffs (rs z') p = synched_frame (ffs (rs z) p) \<and> glob (rs z') = glob (rs z) \<and>
    sfs (rs z') = (sfs (rs z))(sf := (sfs (rs z) sf)\<lparr>flags := flags (sfs (rs z) sf) AND NOT CILK_FRAME_UNSYNCHED\<rparr>)"
proof -
  have w: "worker_free w (rs z)" "next_frame_ff (wks (rs z) w) = NULL" "worker_locks_ok (wks (rs z) w)"
    using assms(3) by (simp_all add: idle_worker_def worker_free_def)
  note v = worker_free_lock [OF w(1)]
  have vr: "(wks (rs z) w)\<lparr>next_frame_ff := p, lock := \<lparr>mutex_lock_word = 0, mutex_owner = NULL\<rparr>, do_not_steal := 0\<rparr> =
      (wks (rs z) w)\<lparr>next_frame_ff := p\<rparr>"
    using v by (cases "wks (rs z) w") simp
  have fr: "(synched_frame (ffs (rs z) p))\<lparr>ff_lock := mutex_zero\<rparr> = synched_frame (ffs (rs z) p)"
    using returning_child(14) [OF assms(1,2)] by (cases "ffs (rs z) p") (simp add: frame_ok_def synched_frame_def)
  have fr': "(synched_frame ((ffs (rs z) p)\<lparr>ff_lock := m\<rparr>))\<lparr>ff_lock := mutex_zero\<rparr> = synched_frame (ffs (rs z) p)" for m
    using fr by (cases "ffs (rs z) p") (simp add: synched_frame_def)
  show ?thesis
    using assms(4-6) w returning_child [OF assms(1,2)]
    by (simp add: do_return_from_spawn_def locking steal_last upd_rs_def decjoin_def destroy_full_frame_def validate_full_frame_def vr fr')
qed

text \<open>A fiber to be given up finds room in the worker's own pool.\<close>

definition can_give_up :: "ptr \<Rightarrow> fiber_sys \<Rightarrow> bool" where
  "can_give_up sched s \<longleftrightarrow>
     (let F = m_pending_remove_ref (fibers s sched); p = m_pending_pool (fibers s sched)
      in F \<noteq> NULL \<longrightarrow> F \<noteq> sched \<and> p \<noteq> NULL \<and> \<not> allocated_from_thread (fibers s F) \<and> \<not> fp_shared (pools s p) \<and>
           fp_size (pools s p) < fp_max_size (pools s p))"

lemma give_up_ok:
  assumes "can_give_up sched s"
  shows "\<exists>s'. give_up_pending sched s = Some s' \<and>
    (\<forall>g. g \<noteq> sched \<longrightarrow> g \<noteq> m_pending_remove_ref (fibers s sched) \<longrightarrow> fibers s' g = fibers s g) \<and>
    fiber_owner (fibers s' sched) = fiber_owner (fibers s sched) \<and> resumable (fibers s' sched) = resumable (fibers s sched)"
proof (cases "m_pending_remove_ref (fibers s sched) = NULL")
  case False
  with assms have "m_pending_remove_ref (fibers s sched) \<noteq> sched" "sched \<noteq> m_pending_remove_ref (fibers s sched)"
    by (auto simp: can_give_up_def Let_def)
  with assms False show ?thesis
    by (simp add: can_give_up_def give_up_pending_def cilk_fiber_remove_reference_def deallocate_self_def deallocate_section_def
        lock_pool_def unlock_pool_def upd_fiber_def upd_pool_def Let_def)
qed (simp add: give_up_pending_def)

lemma in_fib_Some: "f (fib (base M)) = Some s \<Longrightarrow> in_fib f M = Some (on_fibers (\<lambda>_. s) M)"
  by (simp add: in_fib_def in_base_def in_fibers_def on_fibers_def)

definition arrived :: "ptr \<Rightarrow> worker \<Rightarrow> worker" where
  "arrived p v = v\<lparr>post_suspend := Fcn_none, suspended_stack := NULL, w_frame_ff := NULL, next_frame_ff := p\<rparr>"

lemma arrive_scheduler:
  assumes f: "m_post_switch_proc (fb M sched) = enter_runtime_proc" "fiber_owner (fb M sched) = w"
      "sched = scheduling_fiber (wks (st M) w)" "can_give_up sched (fib (base M))"
    and w: "post_suspend (wks (st M) w) = Fcn_do_return_from_spawn" "suspended_stack (wks (st M) w) = NULL"
      "w_frame_ff (wks (st M) w) = c" "reducer_map (wks (st M) w) = NULL" "no_uncaught_exception t M"
    and c: "ready_to_return p c (st M)" "at_sync p (st M)" "idle_worker w (st M)" "join_counter (ffs (st M) p) = 1"
      "fiber_self (ffs (st M) p) = NULL" "sf = call_stack (ffs (st M) p)"
  shows "\<exists>M'. arrive_on t sched Resumed M = Some (Schedules w, M') \<and> wks (st M') w = arrived p (wks (st M) w) \<and>
    ffs (st M') p = synched_frame (ffs (st M) p) \<and> glob (st M') = glob (st M) \<and> eh_of M' = eh_of M \<and>
    sfs (st M') = (sfs (st M))(sf := (sfs (st M) sf)\<lparr>flags := flags (sfs (st M) sf) AND NOT CILK_FRAME_UNSYNCHED\<rparr>) \<and>
    (\<forall>g. g \<noteq> sched \<longrightarrow> g \<noteq> m_pending_remove_ref (fb M sched) \<longrightarrow> fb M' g = fb M g) \<and>
    fiber_owner (fb M' sched) = w \<and> resumable (fb M' sched) = resumable (fb M sched)"
proof -
  define S where "S = upd_fiber sched (m_post_switch_proc_update (\<lambda>_. NULL)) (fib (base M))"
  define M1 where "M1 = on_fibers (\<lambda>_. S) M"
  define M2 where "M2 = on_store (upd_w w (\<lambda>x. x\<lparr>post_suspend := Fcn_none, suspended_stack := NULL, w_frame_ff := NULL\<rparr>)) M1"
  have S: "fibers S sched = (fb M sched)\<lparr>m_post_switch_proc := NULL\<rparr>" "\<And>g. g \<noteq> sched \<Longrightarrow> fibers S g = fb M g"
    "pools S = pools (fib (base M))"
    by (simp_all add: S_def upd_fiber_def)
  have take: "take_post_switch_proc sched (fib (base M)) = (enter_runtime_proc, S)"
    using f(1) by (simp add: take_post_switch_proc_def S_def enter_runtime_proc_def Let_def)
  have pre: "ready_to_return p c (rs (red_of M2))" "at_sync p (rs (red_of M2))" "idle_worker w (rs (red_of M2))"
    "join_counter (ffs (rs (red_of M2)) p) = 1" "fiber_self (ffs (rs (red_of M2)) p) = NULL" "sf = call_stack (ffs (rs (red_of M2)) p)"
    using c by (auto simp: M2_def M1_def ready_to_return_def at_sync_def idle_worker_def worker_free_def worker_locks_ok_def frame_ok_def)
  from child_returns_last_exactly [OF pre] obtain z where z: "do_return_from_spawn w c NULL (red_of M2) = Some (CONTINUE_EXECUTION, z)"
    "wks (rs z) = (wks (st M2))(w := (wks (st M2) w)\<lparr>next_frame_ff := p\<rparr>)" "ffs (rs z) p = synched_frame (ffs (st M2) p)"
    "glob (rs z) = glob (st M2)"
    "sfs (rs z) = (sfs (st M2))(sf := (sfs (st M2) sf)\<lparr>flags := flags (sfs (st M2) sf) AND NOT CILK_FRAME_UNSYNCHED\<rparr>)"
    by auto
  define M3 where "M3 = with_red z M2"
  have wz: "wks (rs z) w = arrived p (wks (st M) w)" by (simp add: z(2) M2_def M1_def arrived_def)
  have "c \<noteq> NULL" using c(1) by (simp add: ready_to_return_def)
  then have "run_scheduling_stack_fcn t w M1 = Some M3"
    using w z(1) wz by (simp add: run_scheduling_stack_fcn_def scheduling_fcn_call_def M1_def M2_def M3_def Let_def arrived_def)
  then have enter: "enter_runtime_transition_proc t sched M1 = Some M3"
    using w f(2) wz
    by (simp add: enter_runtime_transition_proc_def M1_def S M2_def M3_def Let_def no_uncaught_exception_def arrived_def)
  have fb3: "fib (base M3) = S" by (simp add: M3_def M2_def M1_def)
  have "can_give_up sched S" using f(4) S by (auto simp: can_give_up_def Let_def)
  from give_up_ok [OF this] obtain S' where S': "give_up_pending sched S = Some S'"
    "\<And>g. g \<noteq> sched \<Longrightarrow> g \<noteq> m_pending_remove_ref (fb M sched) \<Longrightarrow> fibers S' g = fibers S g"
    "fiber_owner (fibers S' sched) = w" "resumable (fibers S' sched) = resumable (fb M sched)"
    using S(1) f(2) by auto
  define M4 where "M4 = on_fibers (\<lambda>_. S') M3"
  have "do_post_switch_actions t sched M = Some M4"
    using take enter in_fib_Some [of "give_up_pending sched" M3 S'] fb3 S'(1)
    by (simp add: do_post_switch_actions_def M1_def M4_def enter_runtime_proc_def Let_def)
  moreover have "fiber_code sched Resumed M4 = Some (Schedules w, M4)"
    using f(3) wz S'(3) by (simp add: fiber_code_def M4_def M3_def arrived_def)
  ultimately have "arrive_on t sched Resumed M = Some (Schedules w, M4)" by (simp add: arrive_on_def)
  then show ?thesis
    using wz z S S' by (intro exI [of _ M4]) (simp add: M4_def M3_def M2_def M1_def)
qed

text \<open>C13 (pass_resumes_frame): a pass of the scheduling loop of a worker that has a frame to run next always
  ends in the user code of that frame: its fiber is switched to and belongs to the worker, the stack pointer is the one saved
  at the suspension or the top of the new stack of a thief, the deque is empty, the locks are free and the
  scheduling fiber is suspended.\<close>

theorem pass_resumes_frame:
  assumes ready: "ready_to_run t w ff M" and nf: "next_frame_ff (wks (st M) w) = ff" "ff \<noteq> NULL" and go: "\<not> work_done (glob (st M))"
    and sched: "sched = scheduling_fiber (wks (st M) w)" "fiber_owner (fb M sched) = w" "\<not> resumable (fb M sched)"
    and f: "f = fiber_self (ffs (st M) ff)" "f \<noteq> sched" "fiber_fit f M"
    and sf: "sf = call_stack (ffs (st M) ff)"
  shows "\<exists>M'. worker_scheduler_pass t rnds w M = Some (Resumes sf (resume_sp ff M), M') \<and>
    executes w ff sf (st M') \<and> next_frame_ff (wks (st M') w) = NULL \<and>
    sf_sp (sfs (st M') sf) = resume_sp ff M \<and> flags (sfs (st M') sf) AND CILK_FRAME_SUSPENDED = 0 \<and>
    fiber_owner (fb M' f) = w \<and> fiber_owner (fb M' sched) = NULL \<and> resumable (fb M' sched)"
  by (rule pass_resumes [OF assms])

subsection \<open>From the return of the last child to the code after the sync\<close>

text \<open>The worker comes from the user code of the child: its reductions are done, nothing is pending, the parent waits at its sync.\<close>

definition last_to_return :: "nat \<Rightarrow> ptr \<Rightarrow> ptr \<Rightarrow> ptr \<Rightarrow> 'a machine \<Rightarrow> bool" where
  "last_to_return t w c p M \<longleftrightarrow>
     (let s = st M; v = wks s w; sf = call_stack (ffs s p)
      in P (glob s) \<noteq> 1 \<and> \<not> work_done (glob s) \<and> post_suspend v = Fcn_none \<and> w_frame_ff v = c \<and> reducer_map v = NULL \<and>
         w_pending_exception v = NULL \<and> no_uncaught_exception t M \<and> ready_to_return p c s \<and> fiber_self (ffs s c) = NULL \<and>
         at_sync p s \<and> idle_worker w s \<and> join_counter (ffs s p) = 1 \<and> fiber_self (ffs s p) = NULL \<and>
         ff_pending_exception (ffs s p) = NULL \<and> child_pending_exception (ffs s p) = NULL \<and> rightmost_child (ffs s p) = NULL \<and>
         sf \<noteq> NULL \<and> call_parent (sfs s sf) = NULL)"

text \<open>The worker's fiber \<open>current\<close> is given up, or it is the fiber \<open>f\<close> the parent goes on with.\<close>

definition fibers_fit :: "ptr \<Rightarrow> ptr \<Rightarrow> ptr \<Rightarrow> ptr \<Rightarrow> 'a machine \<Rightarrow> bool" where
  "fibers_fit w p current f M \<longleftrightarrow>
     (let s = st M; sched = scheduling_fiber (wks s w); q = pools (fib (base M)) w
      in fiber_child (ffs s p) = f \<and> f \<noteq> NULL \<and> f \<noteq> sched \<and> current \<noteq> sched \<and> sched \<noteq> NULL \<and>
         fiber_owner (fb M current) = w \<and> \<not> resumable (fb M current) \<and>
         fiber_owner (fb M sched) = NULL \<and> resumable (fb M sched) \<and> m_pending_remove_ref (fb M sched) = NULL \<and>
         m_post_switch_proc (fb M f) = NULL \<and> m_pending_remove_ref (fb M f) = NULL \<and>
         (if fiber_to_free (wks s w) \<noteq> NULL
          then current = fiber_to_free (wks s w) \<and> current \<noteq> f \<and> \<not> allocated_from_thread (fb M current) \<and>
               \<not> fp_shared q \<and> fp_size q < fp_max_size q \<and> resumable (fb M f) \<and> resume_sf (fb M f) = NULL
          else current = f))"

lemma tbb_orphan [simp]: "tbb_op f CILK_TBB_STACK_ORPHAN M = M"
proof -
  have "(\<lambda>s. snd (invoke_tbb_stack_op f CILK_TBB_STACK_ORPHAN s)) = (\<lambda>s. s)" by (rule ext) (simp add: invoke_tbb_stack_op_def Let_def)
  then show ?thesis by (simp add: tbb_op_def on_fibers_def)
qed

lemma tbb_release:
  "st (tbb_op f CILK_TBB_STACK_RELEASE M) = st M" "pools (fib (base (tbb_op f CILK_TBB_STACK_RELEASE M))) = pools (fib (base M))"
  "eh_of (tbb_op f CILK_TBB_STACK_RELEASE M) = eh_of M" "g \<noteq> f \<Longrightarrow> fb (tbb_op f CILK_TBB_STACK_RELEASE M) g = fb M g"
  "fiber_owner (fb (tbb_op f CILK_TBB_STACK_RELEASE M) f) = fiber_owner (fb M f)"
  "resumable (fb (tbb_op f CILK_TBB_STACK_RELEASE M) f) = resumable (fb M f)"
  "allocated_from_thread (fb (tbb_op f CILK_TBB_STACK_RELEASE M) f) = allocated_from_thread (fb M f)"
  by (simp_all add: tbb_op_def invoke_tbb_stack_op_def cilk_fiber_set_stack_op_def upd_fiber_def Let_def)

text \<open>What the worker brings to its scheduling fiber.\<close>

definition jumped :: "worker \<Rightarrow> worker" where
  "jumped v = v\<lparr>post_suspend := Fcn_do_return_from_spawn, suspended_stack := NULL, fiber_to_free := NULL\<rparr>"

text \<open>The state before the switch, and what it does to the fibers.\<close>

definition leaving :: "ptr \<Rightarrow> ptr \<Rightarrow> ptr \<Rightarrow> 'a machine \<Rightarrow> 'a machine" where
  "leaving w sched current M =
     on_fibers (cilk_fiber_set_post_switch_proc sched enter_runtime_proc) (on_fibers (upd_fiber current (resume_sf_update (\<lambda>_. NULL)))
       (on_store (upd_w w (\<lambda>v. v\<lparr>post_suspend := Fcn_do_return_from_spawn, suspended_stack := NULL\<rparr>)) M))"

lemma leaving_sel:
  assumes "current \<noteq> sched"
  shows "fb (leaving w sched current M) sched = (fb M sched)\<lparr>m_post_switch_proc := enter_runtime_proc\<rparr>"
    "fb (leaving w sched current M) current = (fb M current)\<lparr>resume_sf := NULL\<rparr>"
    "g \<noteq> sched \<Longrightarrow> g \<noteq> current \<Longrightarrow> fb (leaving w sched current M) g = fb M g"
    "pools (fib (base (leaving w sched current M))) = pools (fib (base M))"
    "st (leaving w sched current M) = upd_w w (\<lambda>v. v\<lparr>post_suspend := Fcn_do_return_from_spawn, suspended_stack := NULL\<rparr>) (st M)"
    "eh_of (leaving w sched current M) = eh_of M"
  using assms assms [symmetric]
  by (simp_all add: leaving_def cilk_fiber_set_post_switch_proc_def upd_fiber_def)

lemma jumps:
  assumes "post_suspend (wks (st M) w) = Fcn_none" and "P (glob (st M)) \<noteq> 1" and "fiber_self (ffs (st M) (w_frame_ff (wks (st M) w))) = NULL"
    and "fiber_owner (fb M current) = w" and "sched = scheduling_fiber (wks (st M) w)"
    and "current = (if fiber_to_free (wks (st M) w) \<noteq> NULL then fiber_to_free (wks (st M) w)
                    else fiber_child (ffs (st M) (parent (ffs (st M) (w_frame_ff (wks (st M) w))))))"
  shows "longjmp_into_runtime t w Fcn_do_return_from_spawn NULL M =
    (let B = leaving w sched current M
     in if fiber_to_free (wks (st M) w) \<noteq> NULL
        then do { let C = on_store (upd_w w (fiber_to_free_update (\<lambda>_. NULL))) B;
                  cilk_assert (fiber_owner (fb C sched) = NULL);
                  let D = tbb_op current CILK_TBB_STACK_RELEASE C;
                  (e, s) \<leftarrow> remove_reference_from_self_and_resume_other current w sched (fib (base D));
                  arrive_on t sched e (on_fibers (\<lambda>_. s) D) }
        else do { (e, s) \<leftarrow> suspend_self_and_resume_other current sched (fib (base B)); arrive_on t sched e (on_fibers (\<lambda>_. s) B) })"
proof -
  have o: "fiber_owner (fibers (upd_fiber current (resume_sf_update (\<lambda>_. NULL)) (fib (base M))) current) = w"
    using assms(4) by (simp add: upd_fiber_def)
  show ?thesis
  proof (cases "fiber_to_free (wks (st M) w) = NULL")
    case True
    with assms(6) have "current = fiber_child (ffs (st M) (parent (ffs (st M) (w_frame_ff (wks (st M) w)))))" by simp
    with True assms(1-3,5) o show ?thesis by (simp add: longjmp_into_runtime_def leaving_def Let_def)
  next
    case False
    with assms(6) have "current = fiber_to_free (wks (st M) w)" by simp
    with False assms(1-3,5) o show ?thesis by (simp add: longjmp_into_runtime_def leaving_def Let_def)
  qed
qed

text \<open>The scheduling fiber takes over the worker.\<close>

lemma remove_and_resume:
  assumes "resumable (fibers S sched)" and "\<not> resumable (fibers S current)" and "current \<noteq> sched"
  shows "\<exists>S'. remove_reference_from_self_and_resume_other current p sched S = Some (Resumed, S') \<and>
    fibers S' sched = (fibers S sched)\<lparr>m_pending_remove_ref := current, m_pending_pool := p, fiber_owner := fiber_owner (fibers S current),
       resumable := False\<rparr> \<and>
    fibers S' current = (fibers S current)\<lparr>fiber_owner := NULL\<rparr> \<and> (\<forall>g. g \<noteq> sched \<longrightarrow> g \<noteq> current \<longrightarrow> fibers S' g = fibers S g) \<and>
    pools S' = pools S"
  using assms assms(3) [symmetric]
  by (simp add: remove_reference_from_self_and_resume_other_def pass_owner_def resume_other_sysdep_def upd_fiber_def Let_def)

lemma suspend_and_resume:
  assumes "resumable (fibers S sched)" and "\<not> resumable (fibers S current)" and "current \<noteq> sched"
  shows "\<exists>S'. suspend_self_and_resume_other current sched S = Some (Resumed, S') \<and>
    fibers S' sched = (fibers S sched)\<lparr>fiber_owner := fiber_owner (fibers S current), resumable := False\<rparr> \<and>
    fibers S' current = (fibers S current)\<lparr>fiber_owner := NULL, resumable := True\<rparr> \<and>
    (\<forall>g. g \<noteq> sched \<longrightarrow> g \<noteq> current \<longrightarrow> fibers S' g = fibers S g) \<and> pools S' = pools S"
  using assms assms(3) [symmetric]
  by (simp add: suspend_self_and_resume_other_def pass_owner_def resume_other_sysdep_def upd_fiber_def Let_def)

lemma on_store_twice: "upd_w w f (upd_w w g s) = upd_w w (f \<circ> g) s"
  by (simp add: upd_w_def)

lemma switch_to_scheduler:
  assumes l: "last_to_return t w c p M" and f: "fibers_fit w p current f M" and sched: "sched = scheduling_fiber (wks (st M) w)"
  shows "\<exists>M1. longjmp_into_runtime t w Fcn_do_return_from_spawn NULL M = arrive_on t sched Resumed M1 \<and>
    st M1 = upd_w w jumped (st M) \<and> eh_of M1 = eh_of M \<and> m_post_switch_proc (fb M1 sched) = enter_runtime_proc \<and>
    fiber_owner (fb M1 sched) = w \<and> \<not> resumable (fb M1 sched) \<and> can_give_up sched (fib (base M1)) \<and>
    m_pending_remove_ref (fb M1 sched) \<noteq> f \<and> resumable (fb M1 f) \<and> resume_sf (fb M1 f) = NULL \<and>
    m_post_switch_proc (fb M1 f) = NULL \<and> m_pending_remove_ref (fb M1 f) = NULL"
proof -
  let ?v = "wks (st M) w"
  have l': "P (glob (st M)) \<noteq> 1" "post_suspend ?v = Fcn_none" "w_frame_ff ?v = c" "fiber_self (ffs (st M) c) = NULL"
    "parent (ffs (st M) c) = p" "w \<noteq> NULL"
    using l by (simp_all add: last_to_return_def Let_def ready_to_return_def idle_worker_def)
  have f': "fiber_child (ffs (st M) p) = f" "f \<noteq> NULL" "f \<noteq> sched" "current \<noteq> sched" "fiber_owner (fb M current) = w"
    "\<not> resumable (fb M current)" "fiber_owner (fb M sched) = NULL" "resumable (fb M sched)" "m_pending_remove_ref (fb M sched) = NULL"
    "m_post_switch_proc (fb M f) = NULL" "m_pending_remove_ref (fb M f) = NULL"
    using f by (simp_all add: fibers_fit_def Let_def sched)
  have cur: "current = (if fiber_to_free ?v \<noteq> NULL then fiber_to_free ?v
      else fiber_child (ffs (st M) (parent (ffs (st M) (w_frame_ff ?v)))))"
    using f l' f'(1) by (auto simp: fibers_fit_def Let_def)
  define B where "B = leaving w sched current M"
  have fs: "fiber_self (ffs (st M) (w_frame_ff ?v)) = NULL" using l' by simp
  note jump = jumps [OF l'(2,1) fs f'(5) sched cur, of t, folded B_def]
  note B = leaving_sel [OF f'(4), where w = w and M = M, folded B_def]
  show ?thesis
  proof (cases "fiber_to_free ?v = NULL")
    case False
    define C where "C = on_store (upd_w w (fiber_to_free_update (\<lambda>_. NULL))) B"
    define D where "D = tbb_op current CILK_TBB_STACK_RELEASE C"
    have cf: "current \<noteq> f" "\<not> allocated_from_thread (fb M current)" "\<not> fp_shared (pools (fib (base M)) w)"
      "fp_size (pools (fib (base M)) w) < fp_max_size (pools (fib (base M)) w)" "resumable (fb M f)" "resume_sf (fb M f) = NULL"
      "current \<noteq> NULL"
      using f False by (auto simp: fibers_fit_def Let_def)
    have C: "fib (base C) = fib (base B)" "eh_of C = eh_of B" by (simp_all add: C_def)
    have stC: "st C = upd_w w jumped (st M)" by (simp add: C_def B(5) on_store_twice jumped_def comp_def)
    note D = tbb_release [where f = current and M = C, folded D_def]
    have Df: "fb D sched = (fb M sched)\<lparr>m_post_switch_proc := enter_runtime_proc\<rparr>" "fb D f = fb M f"
      "fiber_owner (fb D current) = w" "\<not> resumable (fb D current)" "allocated_from_thread (fb D current) = allocated_from_thread (fb M current)"
      "pools (fib (base D)) = pools (fib (base M))"
      using D C B f' cf by auto
    have "resumable (fb D sched)" using Df(1) f'(8) by simp
    from remove_and_resume [OF this Df(4) f'(4), of w] obtain S' where
      S': "remove_reference_from_self_and_resume_other current w sched (fib (base D)) = Some (Resumed, S')"
        "fibers S' sched = (fb D sched)\<lparr>m_pending_remove_ref := current, m_pending_pool := w, fiber_owner := w, resumable := False\<rparr>"
        "fibers S' current = (fb D current)\<lparr>fiber_owner := NULL\<rparr>" "fibers S' f = fb D f" "pools S' = pools (fib (base M))"
      using f'(3) cf(1) Df by metis
    have "fiber_owner (fb B sched) = NULL" using B(1) f'(7) by simp
    then have "longjmp_into_runtime t w Fcn_do_return_from_spawn NULL M = arrive_on t sched Resumed (on_fibers (\<lambda>_. S') D)"
      unfolding jump using False S'(1) C(1) by (simp add: C_def [symmetric] D_def [symmetric] Let_def)
    moreover have "can_give_up sched S'"
      using S' Df cf f'(4) l'(6) by (simp add: can_give_up_def Let_def)
    ultimately show ?thesis
      using S' Df cf f' stC D C B by (intro exI [of _ "on_fibers (\<lambda>_. S') D"]) simp
  next
    case True
    then have cf: "current = f" using f by (auto simp: fibers_fit_def Let_def)
    have "resumable (fb B sched)" "\<not> resumable (fb B current)" using B f' by auto
    from suspend_and_resume [OF this f'(4)] obtain S' where
      S': "suspend_self_and_resume_other current sched (fib (base B)) = Some (Resumed, S')"
        "fibers S' sched = (fb B sched)\<lparr>fiber_owner := w, resumable := False\<rparr>"
        "fibers S' current = (fb B current)\<lparr>fiber_owner := NULL, resumable := True\<rparr>"
      using B(2) f'(5) by auto
    have "upd_w w (\<lambda>v. v\<lparr>post_suspend := Fcn_do_return_from_spawn, suspended_stack := NULL\<rparr>) (st M) = upd_w w jumped (st M)"
      using True by (cases "wks (st M) w") (simp add: upd_w_def jumped_def)
    then have stB: "st B = upd_w w jumped (st M)" using B(5) by simp
    have "longjmp_into_runtime t w Fcn_do_return_from_spawn NULL M = arrive_on t sched Resumed (on_fibers (\<lambda>_. S') B)"
      unfolding jump using True S'(1) by (simp add: Let_def)
    then show ?thesis
      using S' f' B stB cf by (intro exI [of _ "on_fibers (\<lambda>_. S') B"]) (simp add: can_give_up_def)
  qed
qed


subsection \<open>Examples\<close>

text \<open>The worker 101 with the scheduling fiber 200; the frame 1 waits at its sync for the child 2, which runs on fiber 202.
  Frame 3 was stolen and has the new fiber 203.\<close>

definition some_fibers :: fiber_sys where
  "some_fibers = \<lparr>pools = (\<lambda>_. \<lparr>fp_shared = False, fp_stack_size = 4096, fp_parent = NULL, fp_fibers = [], fp_max_size = 4, fp_total = 0,
       fp_high_water = 0, fp_alloc_max = 8\<rparr>),
     pool_locks = (\<lambda>_. \<lparr>spin_lock = 0\<rparr>),
     fibers = (\<lambda>_. cilk_fiber_new)(200 := cilk_fiber_new\<lparr>resumable := True\<rparr>, 201 := cilk_fiber_new\<lparr>resumable := True\<rparr>,
       202 := cilk_fiber_new\<lparr>fiber_owner := 101\<rparr>,
       203 := cilk_fiber_new\<lparr>m_start_proc := fiber_proc_for_random_steal, m_stack_base := 10000\<rparr>),
     live_fibers = {200, 201, 202, 203}\<rparr>"

definition two_frames :: rt where
  "two_frames = upd_sf 50 (\<lambda>x. x\<lparr>flags := CILK_FRAME_UNSYNCHED\<rparr>)
     (upd_ff 1 (\<lambda>f. f\<lparr>full_frame_magic_0 := FULL_FRAME_MAGIC_0, full_frame_magic_1 := FULL_FRAME_MAGIC_1, join_counter := 1,
        call_stack := 50, fiber_child := 201, sync_sp := 4000\<rparr>)
     (upd_ff 2 (\<lambda>f. f\<lparr>full_frame_magic_0 := FULL_FRAME_MAGIC_0, full_frame_magic_1 := FULL_FRAME_MAGIC_1, join_counter := 1, parent := 1\<rparr>)
     (upd_ff 3 (\<lambda>f. f\<lparr>full_frame_magic_0 := FULL_FRAME_MAGIC_0, full_frame_magic_1 := FULL_FRAME_MAGIC_1, join_counter := 1,
        call_stack := 51, fiber_self := 203\<rparr>)
     (upd_w 101 (\<lambda>v. v\<lparr>worker_magic_0 := WORKER_MAGIC_0, worker_magic_1 := WORKER_MAGIC_1, scheduling_fiber := 200\<rparr>)
        (rt_zero\<lparr>glob := global_state_zero\<lparr>P := 2\<rparr>\<rparr>)))))"

definition some_machine :: "fiber_sys \<Rightarrow> rt \<Rightarrow> nat machine" where
  "some_machine F s = \<lparr>base = \<lparr>store = s, fib = F, gpool = NULL, user_values = True, published = True, tls_worker = (\<lambda>_. 101),
       tls_leaf = (\<lambda>_. NULL), tls_tbb = (\<lambda>_. None), ped_counter = 0\<rparr>,
     exc_mem = (\<lambda>_. \<lparr>active = NULL, rethrow = False, runtime_state = \<lparr>caughtExceptions = [], uncaughtExceptions = 0\<rparr>\<rparr>),
     map_content = (\<lambda>_. []), eh_of = (\<lambda>_. \<lparr>caughtExceptions = [], uncaughtExceptions = 0\<rparr>)\<rparr>"

definition child_machine :: "nat machine" where
  "child_machine = some_machine some_fibers (upd_w 101 (\<lambda>v. v\<lparr>w_frame_ff := 2, fiber_to_free := 202\<rparr>) two_frames)"

definition thief_machine :: "nat machine" where
  "thief_machine = some_machine (upd_fiber 200 (\<lambda>x. x\<lparr>resumable := False, fiber_owner := 101\<rparr>) some_fibers)
     (upd_w 101 (next_frame_ff_update (\<lambda>_. 3)) two_frames)"

lemmas demo_machine_defs = some_machine_def some_fibers_def two_frames_def zero_defs cilk_fiber_new_def


theorem pass_resumes_frame_witness:
  "\<exists>M'. worker_scheduler_pass 0 [] 101 thief_machine = Some (Resumes 51 9728, M') \<and> executes 101 3 51 (st M')"
proof -
  have "ready_to_run 0 101 3 thief_machine"
    by (simp add: ready_to_run_def can_take_up_def thief_machine_def demo_machine_defs worker_free_def
        worker_locks_ok_def mutex_ok_def frame_ok_def no_uncaught_exception_def Let_def upd_fiber_def)
  moreover have "next_frame_ff (wks (st thief_machine) 101) = 3" "\<not> work_done (glob (st thief_machine))"
    "200 = scheduling_fiber (wks (st thief_machine) 101)" "fiber_owner (fb thief_machine 200) = 101" "\<not> resumable (fb thief_machine 200)"
    "203 = fiber_self (ffs (st thief_machine) 3)" "fiber_fit 203 thief_machine" "51 = call_stack (ffs (st thief_machine) 3)"
    by (simp_all add: thief_machine_def demo_machine_defs upd_fiber_def fiber_fit_def)
  moreover have "resume_sp 3 thief_machine = 9728"
    by (simp add: resume_sp_def thief_machine_def demo_machine_defs upd_fiber_def get_sp_for_executing_sf_def Let_def)
  ultimately show ?thesis using pass_resumes_frame [of 0 101 3 thief_machine 200 203 51 "[]"] by auto
qed

end
