(* ===== verification/Spec2Isabelle.thy ===== *)
theory Spec2Isabelle
  imports Dataflow_Runs Frame_Malloc_Proofs Frame_Promotion THE_Protocol Issue_Race Worker_Lock Reducer_Views Reductions_Order
    Steal_Proofs Scheduling_Proofs Cilk_For_Proofs Cilk_For_Static_Proofs Global_State_Proofs Signal_Tree_Proofs Fiber_Pool_Proofs
    Workers_Proofs Scheduling_Loop_Proofs
begin

text \<open>
  This library models the Swan task dataflow runtime, a C and C++ work-stealing runtime derived from
  the Cilk Plus runtime (src/runtime, with its public headers in src/include).

  \<^bold>\<open>The program.\<close> A program is run by workers, each with a deque of suspended stack frames.
  A spawn pushes the parent on the deque of its worker; a worker without work steals the oldest frame of
  another deque. A stolen frame is promoted to a full frame: the full frames form a tree whose join
  counters, locks and child lists decide who resumes a frame at a sync. A task may declare the objects it
  reads and writes; it is then issued, that is, entered into the queue of each object, when its parent is
  stolen or when it returns, and waits until the tasks before it have returned; a task that becomes ready is
  put on the ready list of a worker. Reducers give every strand its own view of a variable; views are merged
  in serial order when children return. Exceptions are kept in a record per full frame and are merged in
  the same order. A stack that can be switched to is a fiber; fibers come from pools, one per worker
  and a global one. User threads are bound to workers of a table; the system workers have threads of their own and
  sleep, woken along a tree, while no user thread is in Cilk. A worker runs user code on one fiber and its
  scheduling loop on another. \<open>cilk_for\<close> loops are recursions of spawns, or are spread over NUMA nodes by a tree of
  flags that workers poll.

  \<^bold>\<open>Conventions.\<close> A pointer is a word of 64 bits, a C structure a record and the memory of one
  structure type a function from pointers (theory Runtime_State; the whole store is the record \<open>rt\<close>).
  The C names are kept where Isabelle allows them. An operation that contains a \<open>CILK_ASSERT\<close>, or a
  lock that may be held, answers an option, \<open>None\<close> when the process stops there. Code that runs at
  the same time as other code is a step relation whose steps are the single accesses to shared memory;
  the machine is taken to be sequentially consistent at the places where the code has a fence or an atomic
  instruction. Loops over linked memory that need not end are \<open>partial_function\<close>s, and the theorems
  about them prove that they return. The only bound on a run is the list of rounds handed to the search for work
  (theory Scheduling_Loop), which says what the other workers do meanwhile and may be any list.

  \<^bold>\<open>Theories and the code they model.\<close>
  \<^item> Prelude: pointers, assertions, the two shapes of linked lists, theorem collections.
  \<^item> Runtime_State: the structures of full_frame.h, local_state.h, global_state.h, abi.h, dataflow.h.
  \<^item> Mutexes: spin_mutex.c, worker_mutex.c. Worker_Lock: \<open>__cilkrts_worker_lock\<close>,
    \<open>worker_lock_other\<close>, \<open>worker_trylock_other\<close> of scheduler.c; mutual exclusion and the bound on
    the number of thieves that overtake an owner.
  \<^item> Frame_Malloc, Frame_Malloc_Proofs: frame_malloc.c; every block is in one place, requests
    are answered by fresh blocks, no false leak is reported.
  \<^item> Full_Frame, Full_Frame_Proofs, Frame_Promotion: full_frame.c and the frame functions of
    scheduler.c; the children as a linked list, the promotion of a stolen call stack.
  \<^item> Work_Deque, THE_Protocol: the pointers T, H and E of the deque; operations as in the code,
    then every interleaving of an owner and its thieves.
  \<^item> Steal, Steal_Proofs: random_steal, detach_for_steal, steal_from_ready_list, the generator.
  \<^item> Scheduling, Scheduling_Proofs: provably_good_steal, do_sync, do_return_from_spawn, __cilkrts_return.
  \<^item> Dataflow_Spec: the abstract queue of generations of one object. Dataflow, Dataflow_Runs:
    dataflow_impl.c on the store, its refinement to the queue, and the runs of its operations.
  \<^item> Ready_List: the ready lists and NUMA matching. Issue_Race: the race between the issue of a task and its return.
  \<^item> Reducer_Map, Reducer_Map_Proofs, Reducer_Hyper, Reducer_Merge, Reductions,
    Reductions_Order, Exceptions: reducer_impl.cpp, the reductions of scheduler.c, except-gcc.cpp.
  \<^item> Reducer_Views: the views of include/cilk/reducer_*.h.
  \<^item> Cilk_For, Cilk_For_Static and their proofs: cilk-abi-cilk-for.cpp, -numa.cpp, -static.cpp.
  \<^item> Global_State, Global_State_Proofs: the settings of global_state.cpp and cilk_api.c; well-formed after
    every sequence of calls, environment variables and starts.
  \<^item> Signal_Tree, Signal_Tree_Proofs: signal_node.c and its uses in scheduler.c; the workers
    follow the user threads, and the messages stop.
  \<^item> Fiber_Pool, Fiber_Pool_Proofs: cilk_fiber.cpp, cilk_fiber-unix.cpp; a fiber is in one place,
    the limit is kept, a fiber given back is found again.
  \<^item> Workers, Workers_Proofs: the life of workers and threads (scheduler.c, cilk-abi.c, sysdep-unix.c) and
    the pedigrees of user threads (pedigrees.c); no worker has two threads, users are counted.
  \<^item> Scheduling_Loop, Scheduling_Loop_Proofs: the jump into the runtime, the search for work and the
    resumption of user code (scheduler.c, local_state.c, sysdep-unix.c), joining the store, the fibers, the
    steals and the syncs; the last child goes on with its parent's code.

  \<^bold>\<open>Interfaces.\<close> Locales, each interpreted on the model's definitions: \<open>mutex_interface\<close> (Mutexes), what
  the spin mutex and the worker mutex promise; \<open>double_ended_queue\<close> (Work_Deque), the deque of a worker at rest;
  \<open>fifo_queue\<close> (Ready_List), the queue of tasks a ready list is;
  \<open>reducer_monoid\<close> (Reducer_Merge), what a merge of maps expects of the user's reduce functions; \<open>reducer_view\<close>,
  \<open>strict_weak_order\<close> and \<open>min_max_view\<close> (Reducer_Views), the contract of the views of the library.

  \<^bold>\<open>Parameters.\<close> The user's code: reduce and identity functions of reducers, bodies of loops, the issue
  function of a task. The C library: the addresses \<open>malloc\<close> returns. The replay log's answers where a
  function asks it.

  \<^bold>\<open>Not modelled.\<close> The machine code that switches stacks, unwinding by the C++ runtime, the frames that compiled
  code enters and leaves, record and replay, the Windows port, thin wrappers of the operating system, statistics,
  tracing and debug output, and the wrapper classes of the reducer library that forward to the views. The components of
  PROJECT.json give the reason for each.
\<close>

end
